(* ===== verification/SE_Prelude.thy ===== *)
theory SE_Prelude
  imports Main "HOL-Library.Word"
begin

text \<open>
  Shared ground of the StreamEP development: how Python's failures are written
  (a value of \<open>py_error\<close> on the left of a sum), the assertion lists of the host
  wrappers, ceiling division, and the list lemmas the component theories share.
\<close>

named_theorems host_simps
  \<comment> \<open>unfolding rules for the host-side checks (assert lists, Python arithmetic)\<close>

section \<open>Failures as values\<close>

datatype py_error =
    AssertionError string
  | ValueError string
  | KeyError string
  | AttributeError string
  | RuntimeError string
  | TypeError string
  | IndexError string
  | ZeroDivisionError

type_synonym 'a py = "py_error + 'a"

text \<open>Sequencing: an exception ends the computation, as in Python.\<close>

fun py_bind :: "'e + 'a \<Rightarrow> ('a \<Rightarrow> 'e + 'b) \<Rightarrow> 'e + 'b" where
  "py_bind (Inl e) f = Inl e"
| "py_bind (Inr x) f = f x"

lemma py_bind_Inr_iff [host_simps]:
  "py_bind m f = Inr y \<longleftrightarrow> (\<exists>x. m = Inr x \<and> f x = Inr y)"
  by (cases m) auto

lemma py_bind_InrE:
  assumes "py_bind m f = Inr y"
  obtains x where "m = Inr x" "f x = Inr y"
  using assms by (cases m) auto

lemma py_bind_Inl_iff:
  "py_bind m f = Inl e \<longleftrightarrow> m = Inl e \<or> (\<exists>x. m = Inr x \<and> f x = Inl e)"
  by (cases m) auto

text \<open>
  A run of \<open>assert\<close> statements: the first condition that is false raises
  \<open>AssertionError\<close> with its message, the later ones are not looked at.
\<close>

fun asserts :: "(bool \<times> string) list \<Rightarrow> unit py" where
  "asserts [] = Inr ()"
| "asserts ((c, msg) # cs) = (if c then asserts cs else Inl (AssertionError msg))"

lemma asserts_ok_iff [host_simps]: "asserts cs = Inr u \<longleftrightarrow> list_all fst cs"
  by (induction cs) (auto split: if_splits)

declare asserts.simps [simp del]

lemma asserts_append:
  "asserts (cs @ ds) = py_bind (asserts cs) (\<lambda>_. asserts ds)"
  by (induction cs) (auto simp: asserts.simps)

lemma asserts_error:
  "asserts cs = Inl e \<Longrightarrow> \<exists>msg. e = AssertionError msg \<and> (False, msg) \<in> set cs"
  by (induction cs) (auto simp: asserts.simps split: if_splits)

section \<open>Python's integer division, and 32-bit registers\<close>

definition py_mod :: "int \<Rightarrow> int \<Rightarrow> int py" where
  "py_mod a b = (if b = 0 then Inl ZeroDivisionError else Inr (a mod b))"

definition py_floordiv :: "int \<Rightarrow> int \<Rightarrow> int py" where
  "py_floordiv a b = (if b = 0 then Inl ZeroDivisionError else Inr (a div b))"

definition i32 :: "int \<Rightarrow> int" where
  \<comment> \<open>the value a signed 32-bit register keeps of an integer result\<close>
  "i32 x = signed_take_bit 31 x"

lemma i32_exact: "- (2 ^ 31) \<le> x \<Longrightarrow> x < 2 ^ 31 \<Longrightarrow> i32 x = x"
  unfolding i32_def by (rule signed_take_bit_int_eq_self) simp_all

lemma i32_wraps: "i32 (2 ^ 32 + x) = i32 x"
  unfolding i32_def signed_take_bit_eq_iff_take_bit_eq take_bit_eq_mod by (simp add: mod_add_self1 del: power_Suc)

section \<open>Ceiling division\<close>

definition ceil_div :: "nat \<Rightarrow> nat \<Rightarrow> nat" where
  "ceil_div a b = (a + b - 1) div b"

lemma ceil_div_0 [simp]: "0 < b \<Longrightarrow> ceil_div 0 b = 0"
  by (simp add: ceil_div_def)

lemma ceil_div_mult_ge: "0 < b \<Longrightarrow> a \<le> ceil_div a b * b"
proof -
  assume b: "0 < b"
  have "(a + b - 1) div b * b + (a + b - 1) mod b = a + b - 1"
    by (rule div_mult_mod_eq)
  moreover have "(a + b - 1) mod b \<le> b - 1"
    using b mod_less_divisor [of b "a + b - 1"] by linarith
  ultimately show ?thesis using b unfolding ceil_div_def by linarith
qed

lemma ceil_div_pos: "0 < b \<Longrightarrow> 0 < a \<Longrightarrow> 0 < ceil_div a b"
  using ceil_div_mult_ge [of b a] by (cases "ceil_div a b = 0") auto

lemma ceil_div_dvd: "0 < b \<Longrightarrow> b dvd a \<Longrightarrow> ceil_div a b = a div b"
proof -
  assume b: "0 < b" and "b dvd a"
  then obtain k where a: "a = b * k" by (auto elim: dvdE)
  have "(b * k + (b - 1)) div b = k" using b by (intro div_nat_eqI) (auto simp: algebra_simps)
  with a b show ?thesis by (simp add: ceil_div_def)
qed

lemma ceil_div_le: "0 < b \<Longrightarrow> a \<le> k * b \<Longrightarrow> ceil_div a b \<le> k"
proof -
  assume b: "0 < b" and a: "a \<le> k * b"
  have "a + b - 1 < (k + 1) * b" using a b by (simp add: algebra_simps)
  then have "(a + b - 1) div b < k + 1" by (simp add: less_mult_imp_div_less)
  then show ?thesis unfolding ceil_div_def by simp
qed

section \<open>State with exceptions\<close>

text \<open>A method call: it may raise, and what it changed before raising stays changed.\<close>

type_synonym ('s, 'a) meth = "'s \<Rightarrow> 'a py \<times> 's"

definition m_return :: "'a \<Rightarrow> ('s, 'a) meth" where "m_return x = (\<lambda>s. (Inr x, s))"

definition m_bind :: "('s, 'a) meth \<Rightarrow> ('a \<Rightarrow> ('s, 'b) meth) \<Rightarrow> ('s, 'b) meth" where
  "m_bind m f = (\<lambda>s. case m s of (Inl e, s') \<Rightarrow> (Inl e, s') | (Inr x, s') \<Rightarrow> f x s')"

definition m_lift :: "'a py \<Rightarrow> ('s, 'a) meth" where "m_lift r = (\<lambda>s. (r, s))"

definition m_get :: "('s \<Rightarrow> 'a) \<Rightarrow> ('s, 'a) meth" where "m_get f = (\<lambda>s. (Inr (f s), s))"

definition m_modify :: "('s \<Rightarrow> 's) \<Rightarrow> ('s, unit) meth" where "m_modify f = (\<lambda>s. (Inr (), f s))"

named_theorems meth_simps \<comment> \<open>running a method on a state\<close>

lemma m_run [meth_simps]:
  "m_return x s = (Inr x, s)" "m_lift r s = (r, s)" "m_get f s = (Inr (f s), s)" "m_modify f' s = (Inr (), f' s)"
  by (simp_all add: m_return_def m_lift_def m_get_def m_modify_def)

lemma m_bind_run [meth_simps]:
  "m_bind m f s = (case fst (m s) of Inl e \<Rightarrow> (Inl e, snd (m s)) | Inr x \<Rightarrow> f x (snd (m s)))"
  by (simp add: m_bind_def split_beta)

text \<open>A property of the state that both halves keep is kept by the sequence.\<close>

lemma m_bind_invariant:
  assumes "P s" "\<And>s. P s \<Longrightarrow> P (snd (m s))" "\<And>x s. P s \<Longrightarrow> P (snd (f x s))"
  shows "P (snd (m_bind m f s))"
  using assms(2) [OF assms(1)] assms(3) by (auto simp: m_bind_run split: sum.splits)

lemma m_bind_InrE:
  assumes "m_bind m f s = (Inr y, s2)"
  obtains x s1 where "m s = (Inr x, s1)" "f x s1 = (Inr y, s2)"
  using assms by (cases "m s") (auto simp: m_bind_def split: sum.splits)

end
