(* ===== verification/Tile_Config.thy ===== *)
theory Tile_Config
  imports SE_Prelude
begin

text \<open>
  The public tuning surface of \<^verbatim>\<open>stream_ep/stream_moe/stream_moe.py\<close>: the power-of-two
  fallback, the all-optional \<open>TileConfig\<close> overrides, its \<open>validate\<close>, the shape-driven
  \<open>default_tile_config\<close> and the overlay \<open>_resolve_tile_config\<close>. Python's unbounded
  integers are \<open>int\<close>, \<open>None\<close> is the option's \<open>None\<close>, and the list of messages
  \<open>validate\<close> collects is kept as a list of structured entries.
\<close>

section \<open>The power-of-two fallback\<close>

function largest_pow2_divisor :: "int \<Rightarrow> int \<Rightarrow> int" where
  "largest_pow2_divisor x t =
     (if 1 < t \<and> x mod t \<noteq> 0 then largest_pow2_divisor x (t div 2) else t)"
  by pat_completeness auto
termination
  by (relation "measure (\<lambda>(x, t). nat t)") auto

declare largest_pow2_divisor.simps [simp del]

lemma largest_pow2_divisor_stop:
  "\<not> (1 < t \<and> x mod t \<noteq> 0) \<Longrightarrow> largest_pow2_divisor x t = t"
  by (subst largest_pow2_divisor.simps) (rule if_not_P)

lemma largest_pow2_divisor_halve:
  "1 < t \<Longrightarrow> x mod t \<noteq> 0 \<Longrightarrow> largest_pow2_divisor x t = largest_pow2_divisor x (t div 2)"
  by (subst largest_pow2_divisor.simps) simp

lemma pow2_divisor_spec:
  "\<exists>k \<le> n. largest_pow2_divisor x (2 ^ n) = 2 ^ k \<and> 2 ^ k dvd x \<and>
     (\<forall>j. k < j \<and> j \<le> n \<longrightarrow> \<not> 2 ^ j dvd x)"
proof (induction n)
  case 0
  then show ?case by (simp add: largest_pow2_divisor_stop)
next
  case (Suc n)
  show ?case
  proof (cases "x mod (2 ^ Suc n) = 0")
    case True
    then have "largest_pow2_divisor x (2 ^ Suc n) = 2 ^ Suc n"
      by (intro largest_pow2_divisor_stop) simp
    moreover from True have "2 ^ Suc n dvd x" by (simp add: dvd_eq_mod_eq_0)
    ultimately show ?thesis by (intro exI [of _ "Suc n"]) auto
  next
    case False
    have "(1::int) < 2 ^ Suc n" by (rule one_less_power) auto
    with False have eq: "largest_pow2_divisor x (2 ^ Suc n) = largest_pow2_divisor x (2 ^ n)"
      by (subst largest_pow2_divisor_halve) auto
    from False have top: "\<not> 2 ^ Suc n dvd x" by (simp only: dvd_eq_mod_eq_0 not_False_eq_True)
    from Suc.IH obtain k where k: "k \<le> n" "largest_pow2_divisor x (2 ^ n) = 2 ^ k" "2 ^ k dvd x"
      "\<forall>j. k < j \<and> j \<le> n \<longrightarrow> \<not> 2 ^ j dvd x" by blast
    have "\<forall>j. k < j \<and> j \<le> Suc n \<longrightarrow> \<not> 2 ^ j dvd x"
      using k(4) top by (metis le_Suc_eq)
    with k eq show ?thesis by (intro exI [of _ k]) auto
  qed
qed

lemma largest_pow2_divisor_dvd: "largest_pow2_divisor x (2 ^ n) dvd x"
  using pow2_divisor_spec [of n x] by auto

lemma largest_pow2_divisor_pos: "0 < largest_pow2_divisor x (2 ^ n)"
  using pow2_divisor_spec [of n x] by auto

section \<open>The configuration record\<close>

record tile_config =
  tile_m :: "int option"
  tile_n_a :: "int option"
  tile_n_y :: "int option"
  tile_n_y_bwd :: "int option"
  tile_n_a_bwd :: "int option"
  tile_m_dW1 :: "int option"
  tile_n_dW1 :: "int option"
  tile_m_dW2 :: "int option"
  tile_n_dW2 :: "int option"
  cluster_m_dW1 :: "int option"
  cluster_n_dW1 :: "int option"
  cluster_m_dW2 :: "int option"
  cluster_n_dW2 :: "int option"
  pingpong_dW1 :: "bool option"
  pingpong_dW2 :: "bool option"
  swizzle_dW1 :: "int option"
  swizzle_dW2 :: "int option"
  num_sms_a :: "int option"
  num_sms_y :: "int option"
  num_sms_a_bwd :: "int option"
  num_sms_y_bwd :: "int option"

definition TileConfig :: tile_config where
  \<comment> \<open>every field at its default\<close>
  "TileConfig = \<lparr>tile_m = None, tile_n_a = None, tile_n_y = None, tile_n_y_bwd = None,
     tile_n_a_bwd = None, tile_m_dW1 = None, tile_n_dW1 = None, tile_m_dW2 = None,
     tile_n_dW2 = None, cluster_m_dW1 = None, cluster_n_dW1 = None, cluster_m_dW2 = None,
     cluster_n_dW2 = None, pingpong_dW1 = None, pingpong_dW2 = None, swizzle_dW1 = None,
     swizzle_dW2 = None, num_sms_a = None, num_sms_y = None, num_sms_a_bwd = None,
     num_sms_y_bwd = None\<rparr>"

section \<open>Validation\<close>

text \<open>The entries \<open>validate\<close> appends to \<open>errs\<close>, with the values its messages print.\<close>

datatype tile_problem =
    TileM320
  | TileM192 "(string \<times> int) list"
  | TileNA int
  | TileNY int
  | TileNYBwd int
  | TileNABwd int

datatype tile_error = InvalidTiles "tile_problem list" | TileZeroDivision

definition oversized :: "tile_config \<Rightarrow> (string \<times> int) list" where
  \<comment> \<open>the comprehension \<open>over\<close>: the knobs that are set and above 128, in order\<close>
  "oversized c =
     concat (map (\<lambda>(name, v). case v of None \<Rightarrow> [] | Some t \<Rightarrow> if t > 128 then [(name, t)] else [])
       [(''tile_n_a'', tile_n_a c), (''tile_n_y'', tile_n_y c),
        (''tile_n_y_bwd'', tile_n_y_bwd c), (''tile_n_a_bwd'', tile_n_a_bwd c),
        (''tile_n_dW1'', tile_n_dW1 c), (''tile_n_dW2'', tile_n_dW2 c)])"

definition tile_m_problems :: "tile_config \<Rightarrow> tile_problem list" where
  "tile_m_problems c =
     (if tile_m c = Some 320 then [TileM320]
      else if tile_m c = Some 192 then
        (if oversized c \<noteq> [] then [TileM192 (oversized c)] else [])
      else [])"

definition divides_check :: "int option \<Rightarrow> int list \<Rightarrow> (int \<Rightarrow> tile_problem) \<Rightarrow> tile_error + tile_problem list" where
  \<comment> \<open>\<open>if t is not None and (N1 % t != 0 or N2 % t != 0): errs.append(...)\<close>\<close>
  "divides_check t Ns p =
     (case t of None \<Rightarrow> Inr []
      | Some v \<Rightarrow> if v = 0 then Inl TileZeroDivision
                 else Inr (if \<exists>N \<in> set Ns. N mod v \<noteq> 0 then [p v] else []))"

definition validate :: "tile_config \<Rightarrow> int \<Rightarrow> int \<Rightarrow> tile_error + unit" where
  "validate c I H =
     py_bind (divides_check (tile_n_a c) [2 * I, I] TileNA) (\<lambda>ea.
     py_bind (divides_check (tile_n_y c) [H] TileNY) (\<lambda>ey.
     py_bind (divides_check (tile_n_y_bwd c) [I] TileNYBwd) (\<lambda>eyb.
     py_bind (divides_check (tile_n_a_bwd c) [H] TileNABwd) (\<lambda>eab.
       let errs = tile_m_problems c @ ea @ ey @ eyb @ eab
       in if errs = [] then Inr () else Inl (InvalidTiles errs)))))"

section \<open>The shape-driven baseline\<close>

definition pick :: "int \<Rightarrow> int \<Rightarrow> int \<Rightarrow> int" where
  "pick dflt constraint cap =
     (if constraint mod dflt = 0 then dflt else largest_pow2_divisor constraint cap)"

definition pick_tile_n_a :: "int \<Rightarrow> int" where
  "pick_tile_n_a I =
     (let t = pick 192 (2 * I) 256
      in if I mod t \<noteq> 0 then largest_pow2_divisor I 256 else t)"

definition default_tile_config :: "int \<Rightarrow> int \<Rightarrow> tile_config" where
  "default_tile_config I H = TileConfig\<lparr>
     tile_m := Some 128,
     tile_n_a := Some (pick_tile_n_a I),
     tile_n_y := Some (pick 256 H 256),
     tile_n_y_bwd := Some (pick 192 I 128),
     tile_n_a_bwd := Some (pick 256 H 256),
     tile_m_dW1 := None,
     tile_n_dW1 := Some 256,
     tile_m_dW2 := None,
     tile_n_dW2 := None,
     cluster_m_dW1 := Some 2,
     cluster_n_dW1 := Some 2,
     cluster_m_dW2 := Some 1,
     cluster_n_dW2 := Some 1,
     pingpong_dW1 := Some False,
     pingpong_dW2 := Some False,
     swizzle_dW1 := Some 8,
     swizzle_dW2 := Some 8,
     num_sms_a := None,
     num_sms_y := None,
     num_sms_a_bwd := None,
     num_sms_y_bwd := None\<rparr>"

section \<open>Resolving the caller's overrides\<close>

definition overlay :: "'a option \<Rightarrow> 'a option \<Rightarrow> 'a option" where
  "overlay over base = (case over of None \<Rightarrow> base | Some v \<Rightarrow> Some v)"

definition overlay_config :: "tile_config \<Rightarrow> tile_config \<Rightarrow> tile_config" where
  "overlay_config t b = \<lparr>
     tile_m = overlay (tile_m t) (tile_m b),
     tile_n_a = overlay (tile_n_a t) (tile_n_a b),
     tile_n_y = overlay (tile_n_y t) (tile_n_y b),
     tile_n_y_bwd = overlay (tile_n_y_bwd t) (tile_n_y_bwd b),
     tile_n_a_bwd = overlay (tile_n_a_bwd t) (tile_n_a_bwd b),
     tile_m_dW1 = overlay (tile_m_dW1 t) (tile_m_dW1 b),
     tile_n_dW1 = overlay (tile_n_dW1 t) (tile_n_dW1 b),
     tile_m_dW2 = overlay (tile_m_dW2 t) (tile_m_dW2 b),
     tile_n_dW2 = overlay (tile_n_dW2 t) (tile_n_dW2 b),
     cluster_m_dW1 = overlay (cluster_m_dW1 t) (cluster_m_dW1 b),
     cluster_n_dW1 = overlay (cluster_n_dW1 t) (cluster_n_dW1 b),
     cluster_m_dW2 = overlay (cluster_m_dW2 t) (cluster_m_dW2 b),
     cluster_n_dW2 = overlay (cluster_n_dW2 t) (cluster_n_dW2 b),
     pingpong_dW1 = overlay (pingpong_dW1 t) (pingpong_dW1 b),
     pingpong_dW2 = overlay (pingpong_dW2 t) (pingpong_dW2 b),
     swizzle_dW1 = overlay (swizzle_dW1 t) (swizzle_dW1 b),
     swizzle_dW2 = overlay (swizzle_dW2 t) (swizzle_dW2 b),
     num_sms_a = overlay (num_sms_a t) (num_sms_a b),
     num_sms_y = overlay (num_sms_y t) (num_sms_y b),
     num_sms_a_bwd = overlay (num_sms_a_bwd t) (num_sms_a_bwd b),
     num_sms_y_bwd = overlay (num_sms_y_bwd t) (num_sms_y_bwd b)\<rparr>"

definition resolve_tile_config :: "tile_config option \<Rightarrow> int \<Rightarrow> int \<Rightarrow> tile_error + tile_config" where
  "resolve_tile_config tc I H =
     (let cfg = default_tile_config I H;
          cfg = (case tc of None \<Rightarrow> cfg | Some t \<Rightarrow> overlay_config t cfg)
      in py_bind (validate cfg I H) (\<lambda>_. Inr cfg))"

section \<open>Exact tilings of an output dimension\<close>

text \<open>
  The streaming kernels write whole \<open>(tile_m, tile_n)\<close> tiles without predication: what
  they need of an N-tile is that it is positive and divides N. The scheduler launches
  \<open>\<lceil>N / tile\<rceil>\<close> of them.
\<close>

definition num_tiles :: "int \<Rightarrow> int \<Rightarrow> int" where
  "num_tiles N t = (N + t - 1) div t"

locale output_tiling =
  fixes tile :: int and N :: int
  assumes tile_pos: "0 < tile"
    and tile_dvd: "tile dvd N"
begin

lemma tiles_end_at_N: "num_tiles N tile * tile = N"
proof -
  obtain k where N: "N = tile * k" using tile_dvd by (auto elim: dvdE)
  have "(tile * k + (tile - 1)) div tile = k" using tile_pos by simp
  then show ?thesis unfolding num_tiles_def N by (simp add: algebra_simps)
qed

lemma column_owner:
  assumes "0 \<le> n" "n < N"
  shows "\<exists>!j. 0 \<le> j \<and> j < num_tiles N tile \<and> j * tile \<le> n \<and> n < (j + 1) * tile"
proof (rule ex1I [of _ "n div tile"])
  have r: "n div tile * tile + n mod tile = n" "0 \<le> n mod tile" "n mod tile < tile"
    using tile_pos by auto
  have lt: "n div tile * tile < num_tiles N tile * tile" using tiles_end_at_N r assms by linarith
  show "0 \<le> n div tile \<and> n div tile < num_tiles N tile
      \<and> n div tile * tile \<le> n \<and> n < (n div tile + 1) * tile"
  proof (intro conjI)
    show "0 \<le> n div tile" using assms(1) tile_pos by (simp add: pos_imp_zdiv_nonneg_iff)
    show "n div tile * tile \<le> n" using r by linarith
    show "n < (n div tile + 1) * tile" using r unfolding distrib_right mult_1_left by linarith
    show "n div tile < num_tiles N tile" using lt tile_pos by simp
  qed
next
  fix j assume j: "0 \<le> j \<and> j < num_tiles N tile \<and> j * tile \<le> n \<and> n < (j + 1) * tile"
  then have "n = j * tile + (n - j * tile)" "0 \<le> n - j * tile" "n - j * tile < tile"
    by (auto simp: algebra_simps)
  then show "j = n div tile" using tile_pos
    by (metis add.commute div_mult_self1 div_pos_pos_trivial add.right_neutral less_irrefl)
qed

end

lemma pick_dvd: "pick d N (2 ^ n) dvd N"
  unfolding pick_def using largest_pow2_divisor_dvd by auto

lemma pick_pos: "0 < d \<Longrightarrow> 0 < pick d N (2 ^ n)"
  unfolding pick_def using largest_pow2_divisor_pos by auto

lemma cap_pow:
  "largest_pow2_divisor x 256 = largest_pow2_divisor x (2 ^ 8)"
  "largest_pow2_divisor x 128 = largest_pow2_divisor x (2 ^ 7)"
  "pick d x 256 = pick d x (2 ^ 8)" "pick d x 128 = pick d x (2 ^ 7)"
  by simp_all

lemma pick_tile_n_a_dvd: "pick_tile_n_a I dvd I"
  using largest_pow2_divisor_dvd [of I 8] by (auto simp: pick_tile_n_a_def Let_def)

lemma pick_tile_n_a_pos: "0 < pick_tile_n_a I"
  using largest_pow2_divisor_pos [of I 8] pick_pos [of 192 "2 * I" 8]
  by (auto simp: pick_tile_n_a_def Let_def)

text \<open>The four output dimensions of the default configuration are exact tilings.\<close>

interpretation default_a: output_tiling "pick_tile_n_a I" "2 * I" for I
  by unfold_locales (auto simp: pick_tile_n_a_pos intro: dvd_mult pick_tile_n_a_dvd)

interpretation default_y: output_tiling "pick 256 H 256" H for H
  using pick_pos [of 256 H 8] pick_dvd [of 256 H 8] by unfold_locales auto

interpretation default_y_bwd: output_tiling "pick 192 I 128" I for I
  using pick_pos [of 192 I 7] pick_dvd [of 192 I 7] by unfold_locales auto

section \<open>What \<open>validate\<close> accepts\<close>

text \<open>The constraints of the \<open>TileConfig\<close> documentation, as a predicate on the configuration.\<close>

definition knob_divides :: "int option \<Rightarrow> int \<Rightarrow> bool" where
  "knob_divides k N = (case k of None \<Rightarrow> True | Some v \<Rightarrow> v \<noteq> 0 \<and> v dvd N)"

definition knob_small :: "int option \<Rightarrow> bool" where
  "knob_small k = (case k of None \<Rightarrow> True | Some v \<Rightarrow> v \<le> 128)"

definition tile_m_supported :: "tile_config \<Rightarrow> bool" where
  "tile_m_supported c \<longleftrightarrow> tile_m c \<noteq> Some 320 \<and>
     (tile_m c = Some 192 \<longrightarrow> list_all knob_small
        [tile_n_a c, tile_n_y c, tile_n_y_bwd c, tile_n_a_bwd c, tile_n_dW1 c, tile_n_dW2 c])"

definition tiles_valid :: "tile_config \<Rightarrow> int \<Rightarrow> int \<Rightarrow> bool" where
  "tiles_valid c I H \<longleftrightarrow> tile_m_supported c \<and> knob_divides (tile_n_a c) I \<and>
     knob_divides (tile_n_y c) H \<and> knob_divides (tile_n_y_bwd c) I \<and> knob_divides (tile_n_a_bwd c) H"

lemma oversized_empty_iff:
  "oversized c = [] \<longleftrightarrow> list_all knob_small
     [tile_n_a c, tile_n_y c, tile_n_y_bwd c, tile_n_a_bwd c, tile_n_dW1 c, tile_n_dW2 c]"
  by (auto simp: oversized_def knob_small_def split: option.splits if_splits)

lemma tile_m_problems_empty_iff: "tile_m_problems c = [] \<longleftrightarrow> tile_m_supported c"
  by (simp add: tile_m_problems_def tile_m_supported_def oversized_empty_iff)

lemma divides_check_ok_iff:
  "divides_check k (N # Ns) p = Inr [] \<longleftrightarrow> (\<forall>N \<in> set (N # Ns). knob_divides k N)"
  by (auto simp: divides_check_def knob_divides_def dvd_eq_mod_eq_0 split: option.splits)

lemma knob_divides_twice: "knob_divides k (2 * I) \<and> knob_divides k I \<longleftrightarrow> knob_divides k I"
  by (auto simp: knob_divides_def split: option.splits)

lemma validate_ok_iff: "validate c I H = Inr () \<longleftrightarrow> tiles_valid c I H"
proof -
  have "validate c I H = Inr () \<longleftrightarrow> divides_check (tile_n_a c) [2 * I, I] TileNA = Inr []
     \<and> divides_check (tile_n_y c) [H] TileNY = Inr [] \<and> divides_check (tile_n_y_bwd c) [I] TileNYBwd = Inr []
     \<and> divides_check (tile_n_a_bwd c) [H] TileNABwd = Inr [] \<and> tile_m_problems c = []"
    unfolding validate_def by (auto simp: py_bind_Inr_iff Let_def split: if_splits)
  then show ?thesis
    unfolding tiles_valid_def divides_check_ok_iff tile_m_problems_empty_iff
    using knob_divides_twice [of "tile_n_a c" I] by auto
qed

lemma default_valid: "tiles_valid (default_tile_config I H) I H"
  using default_y.tile_pos [of H] default_y.tile_dvd [of H] default_y_bwd.tile_pos [of I]
    default_y_bwd.tile_dvd [of I] pick_tile_n_a_pos [of I] pick_tile_n_a_dvd [of I]
  by (simp add: tiles_valid_def tile_m_supported_def knob_divides_def default_tile_config_def)

section \<open>The properties of the tuning surface\<close>

text \<open>quack's rule for the width of a CTA tile at \<open>tile_m\<close> 64, 128 or 256, as the \<open>TileConfig\<close> documentation states
  it; \<open>validate\<close> leaves it to quack.\<close>

definition quack_cta_n :: "int \<Rightarrow> bool" where
  "quack_cta_n n \<longleftrightarrow> 0 < n \<and> (n mod 16 = 0 \<and> n \<le> 256 \<or> n mod 32 = 0 \<and> n \<le> 512)"

definition knob_meets :: "(int \<Rightarrow> bool) \<Rightarrow> int option \<Rightarrow> bool" where
  "knob_meets P k = (case k of None \<Rightarrow> False | Some v \<Rightarrow> P v)"

lemma quack_cta_n_dvd: "quack_cta_n n \<Longrightarrow> 16 dvd n"
  unfolding quack_cta_n_def by presburger

lemma pow2_fallback_16:
  assumes "16 dvd x" "n \<le> 8" "4 \<le> n"
  shows "quack_cta_n (largest_pow2_divisor x (2 ^ n))"
proof -
  obtain k where k: "k \<le> n" "largest_pow2_divisor x (2 ^ n) = 2 ^ k" and top: "\<forall>j. k < j \<and> j \<le> n \<longrightarrow> \<not> 2 ^ j dvd x"
    using pow2_divisor_spec by blast
  have "4 \<le> k" using top [rule_format, of 4] assms by (cases "k < 4") auto
  then have "(2::int) ^ 4 dvd 2 ^ k" by (rule le_imp_power_dvd)
  moreover have "(2::int) ^ k \<le> 2 ^ 8" using k(1) assms(2) by (intro power_increasing) auto
  ultimately show ?thesis unfolding k(2) quack_cta_n_def by (auto simp: dvd_eq_mod_eq_0)
qed

lemma default_meets_cta_n:
  "knob_meets quack_cta_n (tile_n_a c) \<and> knob_meets quack_cta_n (tile_n_y c) \<and> knob_meets quack_cta_n (tile_n_y_bwd c) \<and>
     knob_meets quack_cta_n (tile_n_a_bwd c) \<longleftrightarrow> 16 dvd I \<and> 16 dvd H" if c: "c = default_tile_config I H"
proof -
  have tuned: "quack_cta_n 192" "quack_cta_n 256" by (simp_all add: quack_cta_n_def)
  have pick: "quack_cta_n (pick 256 N 256)" "quack_cta_n (pick 192 N 128)" "quack_cta_n (pick 192 N 256)" if "16 dvd N" for N
    using pow2_fallback_16 [OF that, of 8] pow2_fallback_16 [OF that, of 7] tuned by (auto simp: pick_def)
  have na: "quack_cta_n (pick_tile_n_a I)" if I: "16 dvd I"
  proof -
    have "16 dvd 2 * I" using I by (rule dvd_mult)
    then show ?thesis using pick(3) [of "2 * I"] pow2_fallback_16 [OF I, of 8] by (auto simp: pick_tile_n_a_def Let_def)
  qed
  have "16 dvd I" if "quack_cta_n (pick 192 I 128)"
    using quack_cta_n_dvd [OF that] default_y_bwd.tile_dvd [of I] by (rule dvd_trans)
  moreover have "16 dvd H" if "quack_cta_n (pick 256 H 256)"
    using quack_cta_n_dvd [OF that] default_y.tile_dvd [of H] by (rule dvd_trans)
  ultimately show ?thesis
    using pick na unfolding c by (auto simp: default_tile_config_def knob_meets_def)
qed

text \<open>C34: what the shape-driven baseline guarantees, and where it stops. With no override every weight shape resolves: the
  baseline passes the validation it is subjected to, whatever I and H are. That does not make it a
  configuration quack builds: its four output tiles meet quack's documented CTA-N rule (left to quack by
  \<open>validate\<close>) exactly when 16 divides both I and H, although the documentation says the fallback always complies.\<close>

theorem default_config_resolves:
  "resolve_tile_config None I H = Inr (default_tile_config I H) \<and>
   (knob_meets quack_cta_n (tile_n_a (default_tile_config I H)) \<and> knob_meets quack_cta_n (tile_n_y (default_tile_config I H)) \<and>
    knob_meets quack_cta_n (tile_n_y_bwd (default_tile_config I H)) \<and> knob_meets quack_cta_n (tile_n_a_bwd (default_tile_config I H))
      \<longleftrightarrow> 16 dvd I \<and> 16 dvd H)"
  using default_valid [of I H] default_meets_cta_n [OF refl, of I H]
  by (simp add: resolve_tile_config_def validate_ok_iff [symmetric])

text \<open>An override is accepted exactly when the overlaid configuration satisfies the
  constraints of the documentation (each output tile non-zero and dividing its dimension,
  \<open>tile_m\<close> not 320, and 192 only with every N-tile at most 128); the result keeps every knob the
  caller pinned and takes the others from the baseline.\<close>

lemma resolve_accepts_exactly:
  "resolve_tile_config (Some t) I H = Inr cfg \<longleftrightarrow>
     cfg = overlay_config t (default_tile_config I H) \<and> tiles_valid cfg I H"
  by (auto simp: resolve_tile_config_def py_bind_Inr_iff validate_ok_iff Let_def)

text \<open>The fallback is the largest admissible power of two: with a cap \<open>2 ^ n\<close> the loop
  returns a power of two that divides \<open>x\<close>, and every power of two up to the cap that
  divides \<open>x\<close> is at most it.\<close>

lemma fallback_is_largest:
  "\<exists>k \<le> n. largest_pow2_divisor x (2 ^ n) = 2 ^ k \<and> 2 ^ k dvd x \<and>
     {j. j \<le> n \<and> 2 ^ j dvd x} \<subseteq> {..k}"
  using pow2_divisor_spec [of n x] by (metis (lifting) atMost_iff linorder_not_le mem_Collect_eq subsetI)

text \<open>No kernel launched with the baseline writes outside its output: for each of the four
  GEMMs the tiles end exactly at the output width and every column is written by exactly
  one tile.\<close>

lemma default_tiles_partition:
  assumes "c = default_tile_config I H"
    "(Some t, N) \<in> {(tile_n_a c, 2 * I), (tile_n_y c, H), (tile_n_y_bwd c, I), (tile_n_a_bwd c, H)}"
    and "0 \<le> n" "n < N"
  shows "num_tiles N t * t = N \<and>
    (\<exists>!j. 0 \<le> j \<and> j < num_tiles N t \<and> j * t \<le> n \<and> n < (j + 1) * t)"
proof -
  have "(t, N) \<in> {(pick_tile_n_a I, 2 * I), (pick 256 H 256, H), (pick 192 I 128, I)}"
    using assms(1,2) by (auto simp: default_tile_config_def)
  then have "output_tiling t N"
    using default_a.output_tiling_axioms [of I] default_y.output_tiling_axioms [of H]
      default_y_bwd.output_tiling_axioms [of I] by auto
  then show ?thesis
    using output_tiling.tiles_end_at_N output_tiling.column_owner assms(3,4) by blast
qed

text \<open>
  The pre-launch documentation promises CTA widths that are multiples of 16 for the
  fallback; a width of 24 falls back to 8.
\<close>

lemma fallback_not_multiple_of_16:
  "tile_n_a (default_tile_config 24 2048) = Some 8"
  by (simp add: default_tile_config_def pick_tile_n_a_def pick_def largest_pow2_divisor_halve
      largest_pow2_divisor_stop)

end
