(* ===== verification/Expert_Dropout.thy ===== *)
theory Expert_Dropout
  imports SE_Prelude Complex_Main
begin

unbundle bit_operations_syntax

text \<open>
  \<^verbatim>\<open>stream_ep/stream_moe/expert_dropout.py\<close>: the keep threshold, the per-rank seed, the
  coordinates of the \<open>DropoutSeed\<close> epilogue operand, the device hash \<open>keep_scale\<close> on 32-bit
  words and its torch mirror \<open>keep_scale_ref\<close> on 64-bit tensors.

  A Python float is a rational, an infinity or NaN; every finite float is a rational, and
  \<open>p * 2**32\<close> only changes the exponent, so the product is exact. The fp32 value of
  \<open>1 / (1 - p)\<close> is an argument (\<open>recip\<close>): its rounding is not modelled.
\<close>

section \<open>Constants, threshold and seed\<close>

definition ROW_MUL :: int where "ROW_MUL = 0x9E3779B1"
definition COL_MUL :: int where "COL_MUL = 0x85EBCA77"
definition FMIX_A :: int where "FMIX_A = 0x85EBCA6B"
definition FMIX_B :: int where "FMIX_B = 0xC2B2AE35"
definition U32 :: int where "U32 = 0xFFFFFFFF"

datatype pyfloat = Fin rat | PInf | NInf | NaN

definition py_round :: "rat \<Rightarrow> int" where
  \<comment> \<open>\<open>round\<close> of a float: to nearest, ties to even\<close>
  "py_round x = (let f = \<lfloor>x\<rfloor>; d = x - of_int f in
     if d < 1 / 2 then f else if 1 / 2 < d then f + 1 else if even f then f else f + 1)"

definition keep_threshold :: "pyfloat \<Rightarrow> int py" where
  "keep_threshold p =
     (case p of
        Fin x \<Rightarrow> if 0 \<le> x \<and> x < 1 then Inr (min (py_round (x * 2 ^ 32)) U32)
                 else Inl (ValueError ''expert dropout p must be in [0, 1)'')
      | _ \<Rightarrow> Inl (ValueError ''expert dropout p must be in [0, 1)''))"

definition draw_seed :: "int \<Rightarrow> int option \<Rightarrow> int" where
  \<comment> \<open>the CPU generator's draw, and \<open>dist.get_rank()\<close> when a process group is initialised\<close>
  "draw_seed drawn rank_opt =
     (let rank = (case rank_opt of Some r \<Rightarrow> r | None \<Rightarrow> 0)
      in drop_bit 1 ((drawn XOR (rank * ROW_MUL)) AND U32))"

section \<open>The device hash\<close>

definition xorshift :: "nat \<Rightarrow> 'a::len word \<Rightarrow> 'a word" where
  "xorshift k h = h XOR drop_bit k h"

definition keep_hash :: "32 word \<Rightarrow> 32 word \<Rightarrow> 32 word \<Rightarrow> 32 word" where
  "keep_hash seed row col =
     (let h = (row * of_int ROW_MUL) XOR seed;
          h = xorshift 16 h * of_int FMIX_A;
          h = xorshift 13 h * of_int FMIX_B;
          h = xorshift 16 h;
          h = h XOR (col * of_int COL_MUL);
          h = xorshift 16 h * of_int FMIX_A;
          h = xorshift 13 h * of_int FMIX_B
      in h)"

definition keep_scale :: "32 word \<Rightarrow> 32 word \<Rightarrow> 32 word \<Rightarrow> 32 word \<Rightarrow> 'f::zero \<Rightarrow> 'f" where
  "keep_scale seed row col threshold scale =
     (if threshold \<le> keep_hash seed row col then scale else 0)"

section \<open>The torch mirror on int64 tensors\<close>

definition mul32 :: "64 word \<Rightarrow> int \<Rightarrow> 64 word" where
  "mul32 a c =
     (a * of_int (c AND 0xFFFF) + push_bit 16 ((a * of_int (drop_bit 16 c)) AND 0xFFFF))
       AND of_int U32"

definition xorshift_i64 :: "nat \<Rightarrow> 64 word \<Rightarrow> 64 word" where
  \<comment> \<open>\<open>h ^ (h >> k)\<close> on a signed tensor: the shift is arithmetic\<close>
  "xorshift_i64 k h = h XOR signed_drop_bit k h"

definition hash_ref :: "int \<Rightarrow> 64 word \<Rightarrow> 64 word \<Rightarrow> 64 word" where
  "hash_ref seed row col =
     (let h = mul32 row ROW_MUL XOR of_int (seed AND U32);
          h = mul32 (xorshift_i64 16 h) FMIX_A;
          h = mul32 (xorshift_i64 13 h) FMIX_B;
          h = xorshift_i64 16 h;
          h = h XOR mul32 col COL_MUL;
          h = mul32 (xorshift_i64 16 h) FMIX_A;
          h = mul32 (xorshift_i64 13 h) FMIX_B
      in h)"

definition keep_scale_ref ::
  "(pyfloat \<Rightarrow> 'f::zero) \<Rightarrow> int \<Rightarrow> 64 word list \<Rightarrow> 64 word list \<Rightarrow> pyfloat \<Rightarrow> 'f list list py" where
  \<comment> \<open>\<open>1.0 / (1.0 - p)\<close> is evaluated before \<open>keep_threshold(p)\<close>\<close>
  "keep_scale_ref recip seed rows cols p =
     (if p = Fin 1 then Inl ZeroDivisionError
      else py_bind (keep_threshold p) (\<lambda>t. Inr
        (map (\<lambda>r. map (\<lambda>c. if t \<le> sint (hash_ref seed r c) then recip p else 0) cols) rows)))"

section \<open>The coordinates of the epilogue operand\<close>

definition dropout_origin ::
  "int \<Rightarrow> int \<Rightarrow> int list option \<Rightarrow> int \<Rightarrow> int \<Rightarrow> nat \<Rightarrow> 32 word \<times> 32 word" where
  \<comment> \<open>\<open>DropoutSeed.begin\<close>: tile sizes, \<open>cu_seqlens_m\<close> when varlen, tile coordinate, batch\<close>
  "dropout_origin tile_M tile_N cu pid_m pid_n batch =
     (let row0 = of_int (pid_m * tile_M);
          row0 = (case cu of None \<Rightarrow> row0 | Some c \<Rightarrow> row0 + of_int (c ! batch))
      in (row0, of_int (pid_n * tile_N)))"

definition mask_a :: "32 word \<Rightarrow> 32 word \<times> 32 word \<Rightarrow> int \<times> int \<Rightarrow> 32 word \<Rightarrow> 'f::zero \<Rightarrow> 'f" where
  \<comment> \<open>kernel A's epilogue: the coordinate of the gate lane, halved (Int32 \<open>>> 1\<close>)\<close>
  "mask_a seed origin crd threshold scale =
     keep_scale seed (fst origin + of_int (fst crd))
       (signed_drop_bit 1 (snd origin + of_int (snd crd))) threshold scale"

definition mask_y_bwd :: "32 word \<Rightarrow> 32 word \<times> 32 word \<Rightarrow> int \<times> int \<Rightarrow> 32 word \<Rightarrow> 'f::zero \<Rightarrow> 'f" where
  \<comment> \<open>\<open>kernel_y_bwd\<close>'s epilogue\<close>
  "mask_y_bwd seed origin crd threshold scale =
     keep_scale seed (fst origin + of_int (fst crd)) (snd origin + of_int (snd crd))
       threshold scale"

section \<open>The threshold and the kept fraction\<close>

lemma py_round_near: "\<bar>of_int (py_round x) - x\<bar> \<le> 1 / 2"
proof -
  define f where "f = \<lfloor>x\<rfloor>"
  define e where "e = x - of_int f"
  have "0 \<le> e" "e < 1" and x: "x = of_int f + e" unfolding f_def e_def by linarith+
  moreover have "py_round x = (if e < 1 / 2 then f else if 1 / 2 < e then f + 1
      else if even f then f else f + 1)"
    unfolding py_round_def Let_def f_def [symmetric] e_def ..
  ultimately show ?thesis by (cases "e < 1 / 2"; cases "1 / 2 < e"; cases "even f") auto
qed

lemma py_round_nonneg: "0 \<le> x \<Longrightarrow> 0 \<le> py_round x"
  by (auto simp: py_round_def Let_def)

lemma keep_threshold_ok_iff:
  "keep_threshold p = Inr t \<longleftrightarrow>
     (\<exists>x. p = Fin x \<and> 0 \<le> x \<and> x < 1 \<and> t = min (py_round (x * 2 ^ 32)) U32)"
  by (auto simp: keep_threshold_def split: pyfloat.splits if_splits)

lemma keep_threshold_range: "keep_threshold p = Inr t \<Longrightarrow> 0 \<le> t \<and> t < 2 ^ 32"
  unfolding keep_threshold_ok_iff
proof (elim exE conjE)
  fix x assume x: "0 \<le> x" and t: "t = min (py_round (x * 2 ^ 32)) U32"
  have "0 \<le> py_round (x * 2 ^ 32)" using x by (intro py_round_nonneg) simp
  then show "0 \<le> t \<and> t < 2 ^ 32" unfolding t U32_def by auto
qed

lemma keep_threshold_near:
  assumes "keep_threshold (Fin x) = Inr t"
  shows "\<bar>of_int t - x * 2 ^ 32\<bar> \<le> 1"
proof -
  have x: "0 \<le> x" "x < 1" and t: "t = min (py_round (x * 2 ^ 32)) U32"
    using assms by (auto simp: keep_threshold_ok_iff)
  have near: "\<bar>of_int (py_round (x * 2 ^ 32)) - x * 2 ^ 32\<bar> \<le> 1 / 2" by (rule py_round_near)
  show ?thesis
  proof (cases "py_round (x * 2 ^ 32) \<le> U32")
    case True
    then have "t = py_round (x * 2 ^ 32)" by (simp add: t)
    then show ?thesis using near by linarith
  next
    case False
    then have "U32 + 1 \<le> py_round (x * 2 ^ 32)" and tt: "t = U32" by (auto simp: t)
    then have "of_int (U32 + 1) \<le> (of_int (py_round (x * 2 ^ 32)) :: rat)"
      by (simp only: of_int_le_iff)
    moreover have "x * 2 ^ 32 < 2 ^ 32" using x by simp
    ultimately show ?thesis using near unfolding tt U32_def by simp
  qed
qed

text \<open>
  A hash that is a permutation of the 32-bit words in one of its arguments keeps exactly
  \<open>2 ^ 32 - t\<close> of that argument's values, whatever the others are.
\<close>

locale equidistributed =
  fixes h :: "32 word \<Rightarrow> 32 word"
  assumes inj_hash: "inj h"
begin

lemma count_kept: "card {k. t \<le> h k} = 2 ^ 32 - unat t"
proof -
  have "bij h" using inj_hash by (simp add: bij_def finite_UNIV_inj_surj)
  then have "h ` {k. t \<le> h k} = {w. t \<le> w}" by (auto simp: bij_def surj_def)
  then have "card {k. t \<le> h k} = card {w. t \<le> w}"
    using inj_hash card_image [of h "{k. t \<le> h k}"] by (metis inj_on_subset subset_UNIV)
  also have "{w. t \<le> w} = UNIV - {w. w < t}" by auto
  also have "card \<dots> = 2 ^ 32 - card {w. w < t}"
    by (subst card_Diff_subset) (auto simp: card_word)
  also have "card {w. w < t} = card {..<unat t}"
  proof (rule bij_betw_same_card [of unat])
    show "bij_betw unat {w. w < t} {..<unat t}"
      unfolding bij_betw_def
    proof (intro conjI set_eqI iffI)
      fix n assume "n \<in> {..<unat t}"
      then have n: "n < unat t" by simp
      then have "unat (word_of_nat n :: 32 word) = n"
        using unsigned_less [of t, where ?'a = nat]
        by (simp add: unsigned_of_nat take_bit_nat_eq_self)
      then show "n \<in> unat ` {w. w < t}" using n
        by (intro image_eqI [of _ _ "word_of_nat n"]) (auto simp: word_less_nat_alt)
    qed (auto simp: word_less_nat_alt inj_on_def word_unat_eq_iff)
  qed
  finally show ?thesis by simp
qed

end

section \<open>The hash permutes each of its arguments\<close>

lemma xor_eq_0_iff: "(a::'a::len word) XOR b = 0 \<longleftrightarrow> a = b"
proof
  assume eq: "a XOR b = 0"
  have "a = (a XOR b) XOR b" by (simp add: xor.assoc)
  then show "a = b" by (simp add: eq)
qed simp

lemma xor_cancel_left_iff: "(c::'a::len word) XOR a = c XOR b \<longleftrightarrow> a = b"
proof
  assume eq: "c XOR a = c XOR b"
  have "a = c XOR (c XOR a)" by simp
  also have "\<dots> = b" by (simp add: eq)
  finally show "a = b" .
qed simp

lemma xor_cancel_right_iff: "(a::'a::len word) XOR c = b XOR c \<longleftrightarrow> a = b"
  by (simp add: xor.commute [of _ c] xor_cancel_left_iff)

lemma drop_bit_fixpoint:
  assumes "drop_bit k d = (d::'a::len word)" "0 < k"
  shows "d = 0"
proof -
  have "unat d div 2 ^ k = unat d" using assms(1) unat_drop_bit_eq [of k d] by (simp add: drop_bit_eq_div)
  moreover have "1 < (2::nat) ^ k" using assms(2) by (intro one_less_power) auto
  ultimately have "unat d = 0"
    using div_less_dividend [of "2 ^ k" "unat d"] by linarith
  then show ?thesis by (simp add: word_unat_eq_iff)
qed

lemma inj_xorshift: "0 < k \<Longrightarrow> inj (xorshift k)"
proof (rule injI)
  fix x y :: "'a word" assume k: "0 < k" and eq: "xorshift k x = xorshift k y"
  have "drop_bit k (x XOR y) = drop_bit k x XOR drop_bit k y" by (simp add: drop_bit_xor)
  also have "\<dots> = (x XOR y) XOR ((x XOR drop_bit k x) XOR (y XOR drop_bit k y))"
    by (simp add: xor.assoc xor.left_commute)
  also have "\<dots> = x XOR y" using eq by (simp add: xorshift_def)
  finally have "x XOR y = 0" using drop_bit_fixpoint [of k "x XOR y"] k by blast
  then show "x = y" by (simp add: xor_eq_0_iff)
qed

lemma inj_mult: "c * d = (1::'a::len word) \<Longrightarrow> inj (\<lambda>x. x * c)"
  by (rule injI) (metis mult.assoc mult.right_neutral)

lemma inverses:
  "of_int FMIX_A * (0xA5CB9243 :: 32 word) = 1" "of_int FMIX_B * (0x7ED1B41D :: 32 word) = 1"
  "of_int ROW_MUL * (0x0E8B2F51 :: 32 word) = 1" "of_int COL_MUL * (0xB6C92F47 :: 32 word) = 1"
  by (simp_all add: FMIX_A_def FMIX_B_def ROW_MUL_def COL_MUL_def)

definition fmix :: "32 word \<Rightarrow> 32 word" where
  "fmix h = xorshift 13 (xorshift 16 h * of_int FMIX_A) * of_int FMIX_B"

lemma inj_fmix: "inj fmix"
  unfolding fmix_def
  by (rule injI) (auto dest!: injD [OF inj_mult [OF inverses(1)]] injD [OF inj_mult [OF inverses(2)]]
      injD [OF inj_xorshift, rotated])

lemma keep_hash_fmix:
  "keep_hash seed row col =
     fmix (xorshift 16 (fmix ((row * of_int ROW_MUL) XOR seed)) XOR (col * of_int COL_MUL))"
  by (simp add: keep_hash_def fmix_def Let_def)

lemma keep_hash_eq_iff:
  "keep_hash s r c = keep_hash s' r' c' \<longleftrightarrow>
     xorshift 16 (fmix ((r * of_int ROW_MUL) XOR s)) XOR (c * of_int COL_MUL)
   = xorshift 16 (fmix ((r' * of_int ROW_MUL) XOR s')) XOR (c' * of_int COL_MUL)"
  unfolding keep_hash_fmix by (simp add: inj_eq [OF inj_fmix])

interpretation over_columns: equidistributed "\<lambda>col. keep_hash seed row col" for seed row
proof
  show "inj (\<lambda>col. keep_hash seed row col)"
    by (rule injI)
      (simp add: keep_hash_eq_iff xor_cancel_left_iff inj_eq [OF inj_mult [OF inverses(4)]])
qed

interpretation over_rows: equidistributed "\<lambda>row. keep_hash seed row col" for seed col
proof
  show "inj (\<lambda>row. keep_hash seed row col)"
    by (rule injI)
      (simp add: keep_hash_eq_iff xor_cancel_right_iff inj_eq [OF inj_fmix] inj_eq [OF inj_xorshift]
        inj_eq [OF inj_mult [OF inverses(3)]])
qed

interpretation over_seeds: equidistributed "\<lambda>seed. keep_hash seed row col" for row col
proof
  show "inj (\<lambda>seed. keep_hash seed row col)"
    by (rule injI)
      (simp add: keep_hash_eq_iff xor_cancel_left_iff xor_cancel_right_iff inj_eq [OF inj_fmix]
        inj_eq [OF inj_xorshift])
qed

section \<open>The torch mirror computes the device hash\<close>

abbreviation lift64 :: "32 word \<Rightarrow> 64 word" where "lift64 w \<equiv> ucast w"

lemma uint_lift64 [simp]: "uint (lift64 w) = uint w"
proof -
  have "uint w < 2 ^ 64" using unsigned_less [of w, where ?'a = int] by simp
  then show ?thesis by (simp add: unsigned_ucast_eq take_bit_int_eq_self)
qed

lemma and_U32: "x AND of_int U32 = lift64 (ucast (x :: 64 word))"
proof -
  have "of_int U32 = (mask 32 :: 64 word)" by (simp add: U32_def mask_eq_exp_minus_1)
  then have "x AND of_int U32 = take_bit 32 x" by (simp add: take_bit_eq_mask)
  also have "\<dots> = lift64 (ucast x)" by (rule bit_word_eqI) (auto simp: bit_simps)
  finally show ?thesis .
qed

lemma mul32_split:
  "((A * (c mod 2 ^ 16) + 2 ^ 16 * ((A * (c div 2 ^ 16)) mod 2 ^ 16)) mod 2 ^ 32) = (A * c) mod (2::int) ^ 32"
proof -
  have "2 ^ 16 * ((A * (c div 2 ^ 16)) mod 2 ^ 16) = (2 ^ 16 * (A * (c div 2 ^ 16))) mod (2::int) ^ 32"
    by (simp add: mult_mod_right)
  then have "((A * (c mod 2 ^ 16) + 2 ^ 16 * ((A * (c div 2 ^ 16)) mod 2 ^ 16)) mod 2 ^ 32)
      = (A * (c mod 2 ^ 16) + 2 ^ 16 * (A * (c div 2 ^ 16))) mod (2::int) ^ 32"
    by (simp only: mod_add_right_eq)
  also have "A * (c mod 2 ^ 16) + 2 ^ 16 * (A * (c div 2 ^ 16)) = A * (2 ^ 16 * (c div 2 ^ 16) + c mod 2 ^ 16)"
    by (simp only: distrib_left mult.left_commute add.commute)
  also have "2 ^ 16 * (c div 2 ^ 16) + c mod 2 ^ 16 = c" by simp
  finally show ?thesis .
qed

lemma ucast_of_int: "(ucast (word_of_int x :: 64 word) :: 32 word) = word_of_int x"
  by (rule bit_word_eqI) (auto simp: bit_simps)

lemma word32_of_int_mod: "(word_of_int (x mod 2 ^ 32) :: 32 word) = word_of_int x"
  by (simp add: word_of_int_eq_iff take_bit_eq_mod)

lemma and_65535: "(x :: 64 word) AND 0xFFFF = take_bit 16 x" "(c :: int) AND 0xFFFF = take_bit 16 c"
  by (simp_all add: take_bit_eq_mask mask_eq_exp_minus_1)

lemma take_bit_word_of_int: "take_bit n (word_of_int x :: 64 word) = word_of_int (x mod 2 ^ n)"
  by (rule bit_word_eqI) (auto simp: bit_simps simp flip: take_bit_eq_mod)

lemma push_bit_word: "push_bit n (word_of_int x :: 64 word) = word_of_int (2 ^ n * x)"
  by (simp add: push_bit_eq_mult mult.commute)

lemma mul32_eq: "mul32 a c = lift64 (ucast a * of_int c)"
proof -
  define A where "A = uint a"
  have a: "a = word_of_int A" by (simp add: A_def)
  have "mul32 a c = lift64 (ucast (word_of_int
      (A * (c mod 2 ^ 16) + 2 ^ 16 * ((A * (c div 2 ^ 16)) mod 2 ^ 16)) :: 64 word))"
    unfolding mul32_def and_U32 and_65535 a
    by (simp only: take_bit_word_of_int take_bit_eq_mod [where ?'a = int] drop_bit_eq_div push_bit_word
        flip: of_int_mult of_int_add)
  also have "(ucast (word_of_int
      (A * (c mod 2 ^ 16) + 2 ^ 16 * ((A * (c div 2 ^ 16)) mod 2 ^ 16)) :: 64 word) :: 32 word)
      = word_of_int (A * c)"
    by (simp only: ucast_of_int) (metis mul32_split word32_of_int_mod)
  also have "word_of_int (A * c) = (ucast a * of_int c :: 32 word)" by (simp add: A_def ucast_of_int)
  finally show ?thesis .
qed

lemma xorshift_lift: "xorshift_i64 k (lift64 w) = lift64 (xorshift k w)"
  unfolding xorshift_i64_def xorshift_def
  by (rule bit_word_eqI) (auto simp: bit_simps dest: bit_imp_le_length)

lemma xor_lift: "lift64 v XOR lift64 w = lift64 (v XOR w)"
  by (rule bit_word_eqI) (auto simp: bit_simps)

lemma seed_lift: "(of_int (seed AND U32) :: 64 word) = lift64 (of_int seed)"
proof -
  have "(of_int (seed AND U32) :: 64 word) = of_int seed AND of_int U32"
    by (rule bit_word_eqI) (auto simp: bit_simps)
  then show ?thesis by (simp only: and_U32 ucast_of_int)
qed

lemma ucast_lift [simp]: "(ucast (lift64 w) :: 32 word) = w"
  by (rule bit_word_eqI) (auto simp: bit_simps)

theorem hash_ref_eq: "hash_ref seed row col = lift64 (keep_hash (of_int seed) (ucast row) (ucast col))"
  unfolding hash_ref_def keep_hash_def Let_def
  by (simp only: mul32_eq seed_lift xor_lift xorshift_lift ucast_lift)

lemma sint_lift: "sint (lift64 w) = uint w"
proof -
  have "uint w < 2 ^ 32" using unsigned_less [of w, where ?'a = int] by simp
  moreover have "0 \<le> uint w" by simp
  ultimately have "signed_take_bit 63 (uint w) = uint w"
    by (intro signed_take_bit_int_eq_self) (auto intro: order_trans [of _ 0])
  then show ?thesis by (simp add: sint_uint)
qed

section \<open>Seeds of different ranks\<close>

lemma draw_seed_eq:
  "draw_seed d r = drop_bit 1 (take_bit 32 (d XOR (case r of Some r \<Rightarrow> r * ROW_MUL | None \<Rightarrow> 0)))"
proof -
  have "U32 = mask 32" by (simp add: U32_def mask_eq_exp_minus_1)
  then show ?thesis
    by (cases r) (simp_all only: draw_seed_def Let_def option.case take_bit_eq_mask mult_zero_left)
qed

lemma draw_seed_bound: "0 \<le> draw_seed d r \<and> draw_seed d r < 2 ^ 31"
proof -
  define x where "x = take_bit 32 (d XOR (case r of Some r \<Rightarrow> r * ROW_MUL | None \<Rightarrow> 0))"
  have "x < 2 ^ 32" unfolding x_def by (rule take_bit_int_less_exp)
  moreover have "0 \<le> x" unfolding x_def by (rule take_bit_nonnegative)
  moreover have "draw_seed d r = x div 2" by (simp only: draw_seed_eq x_def drop_bit_eq_div power_one_right)
  ultimately show ?thesis by auto
qed

lemma xor_cancel_int: "(c::int) XOR a = c XOR b \<longleftrightarrow> a = b"
proof
  assume eq: "c XOR a = c XOR b"
  have "a = c XOR (c XOR a)" by simp
  also have "\<dots> = b" by (simp add: eq)
  finally show "a = b" .
qed simp

lemma rank_products_far:
  assumes eq: "drop_bit 1 (take_bit 32 (r * ROW_MUL)) = drop_bit 1 (take_bit 32 (r' * ROW_MUL))"
    and near: "\<bar>r - r'\<bar> < 0x0E8B2F51"
  shows "r = r'"
proof -
  define a b d where "a = (r * ROW_MUL) mod 2 ^ 32" and "b = (r' * ROW_MUL) mod 2 ^ 32"
    and "d = r - r'"
  have "a div 2 = b div 2" using eq by (simp add: a_def b_def take_bit_eq_mod drop_bit_eq_div)
  then have ab: "a - b = -1 \<or> a - b = 0 \<or> a - b = 1" by presburger
  define k where "k = r' * ROW_MUL div 2 ^ 32 - r * ROW_MUL div 2 ^ 32"
  have "a = r * ROW_MUL - 2 ^ 32 * (r * ROW_MUL div 2 ^ 32)"
    "b = r' * ROW_MUL - 2 ^ 32 * (r' * ROW_MUL div 2 ^ 32)"
    by (simp_all only: a_def b_def minus_mult_div_eq_mod)
  then have k: "a - b - d * ROW_MUL = 2 ^ 32 * k"
    by (simp add: d_def k_def algebra_simps)
  define z where "z = d * 150801925 + k * 0x0E8B2F51"
  have "0x0E8B2F51 * (a - b) = 0x0E8B2F51 * (d * ROW_MUL + 2 ^ 32 * k)" 
    using arg_cong [OF k, of "\<lambda>x. 0x0E8B2F51 * x"] by (simp add: algebra_simps)
  also have "\<dots> = d + z * 2 ^ 32" unfolding z_def ROW_MUL_def by (simp add: algebra_simps)
  finally have z: "0x0E8B2F51 * (a - b) = d + z * 2 ^ 32" .
  have "z \<le> -1 \<or> z = 0 \<or> 1 \<le> z" by linarith
  then have "d = 0" using z ab near unfolding d_def [symmetric] by auto
  then show ?thesis by (simp add: d_def)
qed

lemma draw_seed_inj:
  assumes "draw_seed d (Some r) = draw_seed d (Some r')" "\<bar>r - r'\<bar> < 0x0E8B2F51"
  shows "r = r'"
proof (rule rank_products_far)
  have eq: "draw_seed d (Some x) = drop_bit 1 (take_bit 32 d) XOR drop_bit 1 (take_bit 32 (x * ROW_MUL))" for x
    unfolding draw_seed_eq take_bit_xor drop_bit_xor option.case ..
  show "drop_bit 1 (take_bit 32 (r * ROW_MUL)) = drop_bit 1 (take_bit 32 (r' * ROW_MUL))"
    using assms(1) unfolding eq xor_cancel_int .
qed (rule assms(2))

section \<open>The mask of a unit does not depend on the tiling\<close>

lemma signed_half:
  assumes "0 \<le> j" "2 * j < 2 ^ 31"
  shows "signed_drop_bit 1 (word_of_int (2 * j) :: 32 word) = word_of_int j"
proof -
  have "sint (word_of_int (2 * j) :: 32 word) = 2 * j"
    using assms by (subst sint_sbintrunc', subst signed_take_bit_int_eq_self) simp_all
  then have "sint (signed_drop_bit 1 (word_of_int (2 * j) :: 32 word)) = j"
    unfolding sint_signed_drop_bit_eq by (simp add: drop_bit_eq_div)
  from arg_cong [OF this, of "word_of_int :: int \<Rightarrow> 32 word"] show ?thesis by simp
qed

section \<open>The properties of expert dropout\<close>

text \<open>C26: for every pool row and column, exactly \<open>2 ^ 32 - t\<close> of the 32-bit seed values keep the
  unit, \<open>t\<close> the threshold of rate \<open>p\<close>; that fraction differs from \<open>1 - p\<close> by at most \<open>2 ^ -32\<close>.
  The clamp keeps the threshold a 32-bit value, so no unit is kept by wrap-around.\<close>

theorem kept_fraction_over_seeds:
  assumes "keep_threshold (Fin p) = Inr t"
  shows "int (card {seed. keep_scale seed row col (of_int t) (1::int) = 1}) = 2 ^ 32 - t \<and>
    \<bar>(2 ^ 32 - of_int t) / 2 ^ 32 - (1 - p)\<bar> \<le> 1 / 2 ^ 32"
proof
  have t: "0 \<le> t" "t < 2 ^ 32" using keep_threshold_range [OF assms] by auto
  have "uint (of_int t :: 32 word) = t" using t by (simp add: uint_word_of_int)
  then have u: "int (unat (of_int t :: 32 word)) = t" by simp
  have "{seed. keep_scale seed row col (of_int t) (1::int) = 1} = {seed. of_int t \<le> keep_hash seed row col}"
    by (auto simp: keep_scale_def)
  then show "int (card {seed. keep_scale seed row col (of_int t) (1::int) = 1}) = 2 ^ 32 - t"
    using over_seeds.count_kept [of "of_int t" row col] u unsigned_less [of "of_int t :: 32 word", where ?'a = nat]
    by (simp add: of_nat_diff)
next
  have "\<bar>of_int t - p * 2 ^ 32\<bar> \<le> (1::rat)" by (rule keep_threshold_near [OF assms])
  moreover have "(2 ^ 32 - of_int t) / 2 ^ 32 - (1 - p) = (p * 2 ^ 32 - of_int t) / 2 ^ 32"
    by (simp add: field_simps)
  ultimately show "\<bar>(2 ^ 32 - of_int t) / 2 ^ 32 - (1 - p)\<bar> \<le> 1 / 2 ^ 32"
    by (simp only: abs_divide abs_minus_commute) (auto intro: divide_right_mono)
qed

theorem kept_fraction_over_seeds_witness:
  "int (card {seed. keep_scale seed 7 9 (of_int 1073741824) (1::int) = 1}) = 2 ^ 32 - 1073741824 \<and>
    \<bar>(2 ^ 32 - of_int 1073741824) / 2 ^ 32 - (1 - 1 / 4 :: rat)\<bar> \<le> 1 / 2 ^ 32"
  by (rule kept_fraction_over_seeds) (simp add: keep_threshold_def py_round_def U32_def Let_def)

text \<open>C28: \<open>keep_scale_ref\<close> mirrors the device hash bit for bit, errors included: on every row and
  column tensor, seed and rate it returns the matrix of \<open>keep_scale\<close> on the low 32 bits, and it
  raises exactly when \<open>p\<close> is 1 (the division) or outside \<open>[0, 1)\<close>.\<close>

theorem keep_scale_ref_mirrors_device:
  "keep_scale_ref recip seed rows cols p =
     (if p = Fin 1 then Inl ZeroDivisionError
      else py_bind (keep_threshold p) (\<lambda>t. Inr
        (map (\<lambda>r. map (\<lambda>c. keep_scale (of_int seed) (ucast r) (ucast c) (of_int t) (recip p)) cols) rows)))"
proof (cases "keep_threshold p")
  case (Inr t)
  have "uint (of_int t :: 32 word) = t"
    using keep_threshold_range [OF Inr] by (simp add: uint_word_of_int)
  then show ?thesis
    by (simp add: Inr keep_scale_ref_def keep_scale_def hash_ref_eq sint_lift word_le_def)
qed (simp add: keep_scale_ref_def)

text \<open>A rank's seed is a non-negative Int32, and from the same generator draw two ranks whose
  numbers differ by less than 244002641 get different seeds.\<close>

lemma draw_seed_distinct:
  assumes "r \<noteq> r'" "\<bar>r - r'\<bar> < 244002641"
  shows "draw_seed d (Some r) \<noteq> draw_seed d (Some r') \<and>
    0 \<le> draw_seed d (Some r) \<and> draw_seed d (Some r) < 2 ^ 31"
  using draw_seed_inj [of d r r'] draw_seed_bound [of d "Some r"] assms by auto

lemma mask_agree:
  assumes "0 \<le> j" "2 * j < 2 ^ 31"
    and "pid_n * tile_N + n = 2 * j" "pid_n' * tile_N' + n' = j"
    and "pid_m * tile_M + cu ! e + m = pid_m' * tile_M' + cu' ! e' + m'"
  shows "mask_a seed (dropout_origin tile_M tile_N (Some cu) pid_m pid_n e) (m, n) thr scale
    = mask_y_bwd seed (dropout_origin tile_M' tile_N' (Some cu') pid_m' pid_n' e') (m', n') thr scale"
proof -
  have "fst (dropout_origin tile_M tile_N (Some cu) pid_m pid_n e) + of_int m
      = (of_int (pid_m * tile_M + cu ! e + m) :: 32 word)"
    "fst (dropout_origin tile_M' tile_N' (Some cu') pid_m' pid_n' e') + of_int m'
      = (of_int (pid_m' * tile_M' + cu' ! e' + m') :: 32 word)"
    "snd (dropout_origin tile_M tile_N (Some cu) pid_m pid_n e) + of_int n
      = (of_int (pid_n * tile_N + n) :: 32 word)"
    "snd (dropout_origin tile_M' tile_N' (Some cu') pid_m' pid_n' e') + of_int n'
      = (of_int (pid_n' * tile_N' + n') :: 32 word)"
    by (simp_all add: dropout_origin_def Let_def)
  then show ?thesis
    using signed_half [OF assms(1,2)] unfolding mask_a_def mask_y_bwd_def fst_conv snd_conv assms(3-5)
    by (simp only:)
qed

text \<open>C32: the backward regenerates the forward's mask: kernel A at the gate lane of hidden column
  \<open>j\<close> and \<open>kernel_y_bwd\<close> at column \<open>j\<close> of the same pool row compute the same mask value,
  whatever their tile widths and whichever CTA tile the unit falls in.\<close>

theorem backward_mask_is_forward_mask:
  assumes "0 \<le> j" "2 * j < 2 ^ 31"
    and "pid_n * tile_N + n = 2 * j" "pid_n' * tile_N' + n' = j"
    and "pid_m * tile_M + cu ! e + m = pid_m' * tile_M' + cu' ! e' + m'"
  shows "mask_a seed (dropout_origin tile_M tile_N (Some cu) pid_m pid_n e) (m, n) thr scale
    = mask_y_bwd seed (dropout_origin tile_M' tile_N' (Some cu') pid_m' pid_n' e') (m', n') thr scale"
  using assms by (rule mask_agree)

theorem backward_mask_is_forward_mask_witness:
  "mask_a 1234 (dropout_origin 128 192 (Some [0, 256]) 1 3 1) (5, 24) 858993459 (1::int)
    = mask_y_bwd 1234 (dropout_origin 128 128 (Some [0, 256]) 1 2 1) (5, 44) 858993459 1"
  by (rule backward_mask_is_forward_mask [of 300]) simp_all

end
