(* ===== verification/Pool_Layout.thy ===== *)
theory Pool_Layout
  imports SE_Prelude
begin

text \<open>
  The expert-major pool: each local expert owns a run of whole \<open>tile_m\<close>-row tiles, and
  \<open>expert_pool_block_offset\<close> is the prefix sum of the tile counts. Two builders of it in
  Python are modelled: the pool layout of the kernel tests
  (\<^verbatim>\<open>stream_ep_tests/kernels/_common.py\<close>) and the even split of
  \<^verbatim>\<open>stream_ep_bench/ncu_microbench.py\<close>. What the tile scheduler needs of such a table is
  the locale \<open>expert_blocks\<close>, which both provide.
\<close>

section \<open>Prefix sums\<close>

fun cumsum :: "nat \<Rightarrow> nat list \<Rightarrow> nat list" where
  "cumsum a [] = []"
| "cumsum a (x # xs) = (a + x) # cumsum (a + x) xs"

lemma length_cumsum [simp]: "length (cumsum a xs) = length xs"
  by (induction xs arbitrary: a) auto

lemma cumsum_ge: "y \<in> set (cumsum a xs) \<Longrightarrow> a \<le> y"
  by (induction xs arbitrary: a) force+

lemma sorted_cumsum: "sorted (a # cumsum a xs)"
  by (induction xs arbitrary: a) (auto dest: cumsum_ge)

lemma last_cumsum: "last (a # cumsum a xs) = a + sum_list xs"
  by (induction xs arbitrary: a) (auto simp: add.assoc)

lemma nth_cumsum: "i \<le> length xs \<Longrightarrow> (a # cumsum a xs) ! i = a + sum_list (take i xs)"
proof (induction xs arbitrary: a i)
  case (Cons x xs)
  then show ?case by (cases i) (auto simp: add.assoc)
qed simp

section \<open>What a block table promises\<close>

locale expert_blocks =
  fixes off :: "nat list" and total :: nat
  assumes off_nonempty: "off \<noteq> []"
    and off_first: "off ! 0 = 0"
    and off_sorted: "sorted off"
    and off_last: "last off = total"
begin

lemma off_mono: "i \<le> j \<Longrightarrow> j < length off \<Longrightarrow> off ! i \<le> off ! j"
  using off_sorted by (simp add: sorted_iff_nth_mono)

lemma off_last_nth: "off ! (length off - 1) = total"
  using off_last off_nonempty by (simp add: last_conv_nth)

text \<open>The entries not above \<open>t\<close> are a prefix, and its length is the owner plus one.\<close>

lemma below_is_prefix:
  assumes "t < total"
  obtains e where "Suc e < length off" "off ! e \<le> t" "t < off ! Suc e"
    "\<And>i. i < length off \<Longrightarrow> off ! i \<le> t \<longleftrightarrow> i \<le> e"
proof -
  define P where "P = (\<lambda>i. i < length off \<and> t < off ! i)"
  have ex: "P (length off - 1)" using assms off_last_nth off_nonempty by (simp add: P_def)
  define m where "m = (LEAST i. P i)"
  have m: "P m" unfolding m_def using ex by (rule LeastI)
  have below: "off ! i \<le> t" if "i < m" for i
  proof -
    have "\<not> P i" using that unfolding m_def by (rule not_less_Least)
    then show ?thesis using that m by (auto simp: P_def)
  qed
  have m0: "m \<noteq> 0" using m off_first by (cases "m = 0") (auto simp: P_def)
  show thesis
  proof (rule that [of "m - 1"])
    show "Suc (m - 1) < length off" "t < off ! Suc (m - 1)" using m m0 by (auto simp: P_def)
    show "off ! (m - 1) \<le> t" using below [of "m - 1"] m0 by simp
    fix i assume i: "i < length off"
    show "off ! i \<le> t \<longleftrightarrow> i \<le> m - 1"
    proof
      assume "off ! i \<le> t"
      then have "\<not> m \<le> i" using off_mono [of m i] i m by (fastforce simp: P_def)
      then show "i \<le> m - 1" by simp
    next
      assume "i \<le> m - 1"
      then show "off ! i \<le> t" using below [of i] m0 by simp
    qed
  qed
qed

lemma owner_unique:
  assumes "t < total"
  shows "\<exists>!e. Suc e < length off \<and> off ! e \<le> t \<and> t < off ! Suc e"
proof -
  obtain e where e: "Suc e < length off" "off ! e \<le> t" "t < off ! Suc e"
    "\<And>i. i < length off \<Longrightarrow> off ! i \<le> t \<longleftrightarrow> i \<le> e"
    using below_is_prefix [OF assms] by blast
  show ?thesis
  proof (rule ex1I [of _ e])
    fix e' assume e': "Suc e' < length off \<and> off ! e' \<le> t \<and> t < off ! Suc e'"
    then have "e' \<le> e" "\<not> Suc e' \<le> e" using e(4) [of e'] e(4) [of "Suc e'"] by auto
    then show "e' = e" by simp
  qed (use e in auto)
qed

end

text \<open>Every prefix-sum table is such a block table.\<close>

lemma expert_blocks_prefix_sum: "expert_blocks (0 # cumsum 0 ts) (sum_list ts)"
proof
  show "sorted (0 # cumsum 0 ts)" by (rule sorted_cumsum)
  show "last (0 # cumsum 0 ts) = sum_list ts" by (subst last_cumsum) simp
qed simp_all

section \<open>The pool layout of the kernel tests\<close>

definition TILE_M :: nat where "TILE_M = 128"

text \<open>A layout is \<open>rows\<close>, the number of real rows of each expert.\<close>

definition num_experts :: "nat list \<Rightarrow> nat" where "num_experts rows = length rows"

definition layout_tiles :: "nat list \<Rightarrow> nat list" where
  "layout_tiles rows = map (\<lambda>r. (r + TILE_M - 1) div TILE_M) rows"

definition total_tiles :: "nat list \<Rightarrow> nat" where "total_tiles rows = sum_list (layout_tiles rows)"

definition num_slots :: "nat list \<Rightarrow> nat" where "num_slots rows = total_tiles rows * TILE_M"

definition block_offset :: "nat list \<Rightarrow> nat list" where
  "block_offset rows = [0] @ cumsum 0 (layout_tiles rows)"

fun repeat_interleave :: "'a list \<Rightarrow> nat list \<Rightarrow> 'a list" where
  "repeat_interleave (x # xs) (n # ns) = replicate n x @ repeat_interleave xs ns"
| "repeat_interleave _ _ = []"

definition slot_expert :: "nat list \<Rightarrow> nat list" where
  "slot_expert rows = repeat_interleave [0..<num_experts rows] (map (\<lambda>t. t * TILE_M) (layout_tiles rows))"

definition real_slots :: "nat list \<Rightarrow> bool list" where
  "real_slots rows =
     (let ns = map (\<lambda>t. t * TILE_M) (layout_tiles rows);
          start = repeat_interleave (map (\<lambda>b. b * TILE_M) (butlast (block_offset rows))) ns;
          count = repeat_interleave rows ns
      in map (\<lambda>(i, s, c). i - s < c) (zip [0..<num_slots rows] (zip start count)))"

fun rows_of_tiles :: "nat \<Rightarrow> 'a list \<Rightarrow> 'a list list" where
  \<comment> \<open>\<open>view(-1, TILE_M)\<close> of a tensor of \<open>n * TILE_M\<close> entries\<close>
  "rows_of_tiles 0 xs = []"
| "rows_of_tiles (Suc n) xs = take TILE_M xs # rows_of_tiles n (drop TILE_M xs)"

definition arrival_target :: "nat list \<Rightarrow> nat list" where
  "arrival_target rows =
     map (\<lambda>tile. length (filter id tile)) (rows_of_tiles (total_tiles rows) (real_slots rows))"

section \<open>The even split of the kernel benchmark\<close>

fun fill_offsets :: "nat \<Rightarrow> nat list \<Rightarrow> nat list" where
  \<comment> \<open>the loop \<open>off[e] = cum; cum += counts[e]\<close> and the final \<open>off[E_local] = cum\<close>\<close>
  "fill_offsets cum [] = [cum]"
| "fill_offsets cum (c # cs) = cum # fill_offsets (cum + c) cs"

definition split_counts :: "nat \<Rightarrow> nat \<Rightarrow> nat list" where
  "split_counts n E = map (\<lambda>e. n div E + (if e < n mod E then 1 else 0)) [0..<E]"

definition even_block_offset :: "nat \<Rightarrow> nat \<Rightarrow> nat list py" where
  "even_block_offset n E =
     (if E = 0 then Inl ZeroDivisionError
      else (let counts = split_counts n E in
        py_bind (asserts [(sum_list counts = n, ''cum == total_tiles'')])
          (\<lambda>_. Inr (fill_offsets 0 counts))))"

lemma fill_offsets_cumsum: "fill_offsets a cs = a # cumsum a cs"
  by (induction cs arbitrary: a) auto

lemma sum_split: "E \<noteq> 0 \<Longrightarrow> sum_list (split_counts n E) = n"
proof -
  assume E: "E \<noteq> 0"
  have "m \<le> E \<Longrightarrow> (\<Sum>e\<leftarrow>[0..<m]. if e < r then 1 else 0) = min m (r::nat)" for m r
    by (induction m) auto
  from this [of E "n mod E"] have "(\<Sum>e\<leftarrow>[0..<E]. if e < n mod E then 1 else 0) = n mod E"
    using mod_less_divisor [of E n] E by (simp add: min.absorb2 order.strict_implies_order)
  moreover have "sum_list (split_counts n E)
      = (\<Sum>e\<leftarrow>[0..<E]. n div E) + (\<Sum>e\<leftarrow>[0..<E]. if e < n mod E then 1 else 0)"
    unfolding split_counts_def by (rule sum_list_addf)
  ultimately show ?thesis by (simp add: sum_list_triv)
qed

lemma even_block_offset_ok:
  "E \<noteq> 0 \<Longrightarrow> even_block_offset n E = Inr (0 # cumsum 0 (split_counts n E))"
  by (simp add: even_block_offset_def sum_split fill_offsets_cumsum Let_def asserts.simps)

interpretation layout: expert_blocks "block_offset rows" "total_tiles rows" for rows
  using expert_blocks_prefix_sum [of "layout_tiles rows"]
  by (simp add: block_offset_def total_tiles_def)

interpretation even_split: expert_blocks "0 # cumsum 0 (split_counts n (Suc E))" n for n E
  using expert_blocks_prefix_sum [of "split_counts n (Suc E)"] sum_split [of "Suc E" n] by simp

section \<open>Slots, experts and targets\<close>

lemma length_repeat_interleave:
  "length xs = length ns \<Longrightarrow> length (repeat_interleave xs ns) = sum_list ns"
  by (induction xs ns rule: repeat_interleave.induct) auto

lemma nth_repeat_interleave:
  assumes "length xs = length ns" "e < length ns"
    and "sum_list (take e ns) \<le> s" "s < sum_list (take (Suc e) ns)"
  shows "repeat_interleave xs ns ! s = xs ! e"
  using assms
proof (induction xs ns arbitrary: e s rule: repeat_interleave.induct)
  case (1 x xs n ns)
  show ?case
  proof (cases e)
    case 0
    then show ?thesis using "1.prems" by (simp add: nth_append)
  next
    case (Suc e')
    then have "\<not> s < n" "sum_list (take e' ns) \<le> s - n" "s - n < sum_list (take (Suc e') ns)"
      using "1.prems" by auto
    then show ?thesis using "1.IH" [of e' "s - n"] "1.prems" Suc by (simp add: nth_append)
  qed
qed auto

lemma sum_list_scale: "sum_list (map (\<lambda>t. t * k) xs) = sum_list xs * (k::nat)"
  by (induction xs) (auto simp: algebra_simps)

lemma block_offset_nth:
  "e \<le> length rows \<Longrightarrow> block_offset rows ! e = sum_list (take e (layout_tiles rows))"
  using nth_cumsum [of e "layout_tiles rows" 0] by (simp add: block_offset_def layout_tiles_def)

lemma length_block_offset [simp]: "length (block_offset rows) = Suc (length rows)"
  by (simp add: block_offset_def layout_tiles_def)

lemma tile_slots:
  assumes "Suc e < length (block_offset rows)" "block_offset rows ! e \<le> t" "t < block_offset rows ! Suc e"
    and "i < TILE_M"
  defines "ns \<equiv> map (\<lambda>t. t * TILE_M) (layout_tiles rows)"
  shows "e < length ns" "sum_list (take e ns) \<le> t * TILE_M + i"
    "t * TILE_M + i < sum_list (take (Suc e) ns)"
proof -
  have e: "e < length rows" using assms(1) by simp
  then show "e < length ns" by (simp add: ns_def layout_tiles_def)
  have take_ns: "sum_list (take m ns) = sum_list (take m (layout_tiles rows)) * TILE_M" for m
    by (simp add: ns_def take_map sum_list_scale)
  have "sum_list (take e (layout_tiles rows)) \<le> t" using assms(2) e by (simp add: block_offset_nth)
  from mult_le_mono1 [OF this, of TILE_M] show "sum_list (take e ns) \<le> t * TILE_M + i"
    unfolding take_ns by linarith
  have "Suc t * TILE_M \<le> block_offset rows ! Suc e * TILE_M"
    using assms(3) by (intro mult_le_mono1) simp
  then show "t * TILE_M + i < sum_list (take (Suc e) ns)"
    using assms(4) e by (simp add: take_ns block_offset_nth)
qed

lemma slot_expert_nth:
  assumes "Suc e < length (block_offset rows)" "block_offset rows ! e \<le> t" "t < block_offset rows ! Suc e"
    and "i < TILE_M"
  shows "slot_expert rows ! (t * TILE_M + i) = e"
  using nth_repeat_interleave [OF _ tile_slots [OF assms], of "[0..<num_experts rows]"] assms(1)
  unfolding slot_expert_def by (simp add: num_experts_def layout_tiles_def)

lemma real_slots_nth:
  assumes "Suc e < length (block_offset rows)" "block_offset rows ! e \<le> t" "t < block_offset rows ! Suc e"
    and "i < TILE_M"
  shows "real_slots rows ! (t * TILE_M + i)
    \<longleftrightarrow> t * TILE_M + i - block_offset rows ! e * TILE_M < rows ! e"
proof -
  define ns where "ns = map (\<lambda>t. t * TILE_M) (layout_tiles rows)"
  define starts where "starts = map (\<lambda>b. b * TILE_M) (butlast (block_offset rows))"
  have len: "length starts = length ns" "length rows = length ns"
    by (simp_all add: starts_def ns_def layout_tiles_def)
  have tot: "sum_list ns = num_slots rows"
    by (simp add: ns_def num_slots_def total_tiles_def sum_list_scale)
  have e: "e < length rows" using assms(1) by simp
  note slots = tile_slots [OF assms, folded ns_def]
  have "sum_list (take (Suc e) ns) \<le> sum_list ns"
    by (metis append_take_drop_id le_add1 sum_list_append)
  then have bound: "t * TILE_M + i < num_slots rows" using slots(3) tot by simp
  have "repeat_interleave starts ns ! (t * TILE_M + i) = block_offset rows ! e * TILE_M"
    using nth_repeat_interleave [OF len(1) slots] e
    by (simp add: starts_def nth_butlast)
  moreover have "repeat_interleave rows ns ! (t * TILE_M + i) = rows ! e"
    using nth_repeat_interleave [OF len(2) slots] .
  ultimately show ?thesis
    using bound len unfolding real_slots_def Let_def ns_def [symmetric] starts_def [symmetric]
    by (simp add: length_repeat_interleave tot)
qed

lemma nth_rows_of_tiles:
  "t < n \<Longrightarrow> rows_of_tiles n xs ! t = take TILE_M (drop (t * TILE_M) xs)"
proof (induction n arbitrary: xs t)
  case (Suc n)
  then show ?case by (cases t) (simp_all add: add.commute)
qed simp

lemma length_rows_of_tiles [simp]: "length (rows_of_tiles n xs) = n"
  by (induction n arbitrary: xs) auto

lemma length_real_slots: "length (real_slots rows) = num_slots rows"
proof -
  have "length (butlast (block_offset rows)) = length (layout_tiles rows)"
    by (simp add: layout_tiles_def)
  then show ?thesis
    by (simp add: real_slots_def Let_def length_repeat_interleave num_slots_def total_tiles_def
        sum_list_mult_const layout_tiles_def comp_def)
qed

lemma length_filter_less: "length (filter (\<lambda>i. b + i < c) [0..<n]) = min n (c - (b::nat))"
proof (induction n)
  case (Suc n)
  then show ?case by (auto simp: min_def)
qed simp

text \<open>The number of real rows of tile \<open>t\<close> of expert \<open>e\<close>.\<close>

lemma arrival_target_nth:
  assumes "Suc e < length (block_offset rows)" "block_offset rows ! e \<le> t" "t < block_offset rows ! Suc e"
  shows "arrival_target rows ! t = min TILE_M (rows ! e - (t - block_offset rows ! e) * TILE_M)"
proof -
  have "block_offset rows ! Suc e \<le> block_offset rows ! (length (block_offset rows) - 1)"
    using assms(1) by (intro layout.off_mono) auto
  then have t: "t < total_tiles rows" using assms(3) layout.off_last_nth [of rows] by simp
  then have "Suc t * TILE_M \<le> num_slots rows" unfolding num_slots_def by (intro mult_le_mono1) simp
  then have len: "length (take TILE_M (drop (t * TILE_M) (real_slots rows))) = TILE_M"
    by (simp add: length_real_slots)
  have "take TILE_M (drop (t * TILE_M) (real_slots rows))
      = map (\<lambda>i. (t - block_offset rows ! e) * TILE_M + i < rows ! e) [0..<TILE_M]"
  proof (rule nth_equalityI)
    fix i assume "i < length (take TILE_M (drop (t * TILE_M) (real_slots rows)))"
    then have i: "i < TILE_M" using len by simp
    have "t * TILE_M + i - block_offset rows ! e * TILE_M = (t - block_offset rows ! e) * TILE_M + i"
      using mult_le_mono1 [OF assms(2), of TILE_M] by (simp add: diff_mult_distrib)
    then show "take TILE_M (drop (t * TILE_M) (real_slots rows)) ! i
        = map (\<lambda>i. (t - block_offset rows ! e) * TILE_M + i < rows ! e) [0..<TILE_M] ! i"
      using real_slots_nth [OF assms i] i len by (simp add: nth_drop)
  qed (use len in simp)
  then show ?thesis using t by (simp add: arrival_target_def nth_rows_of_tiles filter_map comp_def length_filter_less)
qed

lemma tiles_of_expert:
  assumes "e < length rows"
  shows "block_offset rows ! Suc e = block_offset rows ! e + (rows ! e + TILE_M - 1) div TILE_M"
  using assms by (simp add: block_offset_nth take_Suc_conv_app_nth layout_tiles_def)

text \<open>Dispatch's firing targets: in every tile of the pool the target is between 1 and the tile
  height, so a consumer's spin cannot pass before a row arrived, and it counts exactly the real
  rows of the one expert that owns the tile and all of its slots.\<close>

lemma arrival_target_counts_real_rows:
  assumes "t < total_tiles rows"
  shows "\<exists>!e. e < num_experts rows
      \<and> arrival_target rows ! t = min TILE_M (rows ! e - (t - block_offset rows ! e) * TILE_M)
      \<and> 1 \<le> arrival_target rows ! t
      \<and> map ((!) (slot_expert rows)) [t * TILE_M..<Suc t * TILE_M] = replicate TILE_M e"
proof -
  obtain e where e: "Suc e < length (block_offset rows)" "block_offset rows ! e \<le> t"
      "t < block_offset rows ! Suc e"
    using layout.owner_unique [OF assms] by blast
  have "t - block_offset rows ! e < (rows ! e + TILE_M - 1) div TILE_M"
    using e tiles_of_expert [of e rows] by simp
  then have "(t - block_offset rows ! e) * TILE_M < rows ! e"
    by (simp add: TILE_M_def)
  then have pos: "1 \<le> arrival_target rows ! t"
    by (simp add: arrival_target_nth [OF e] TILE_M_def)
  have slots: "map ((!) (slot_expert rows)) [t * TILE_M..<Suc t * TILE_M] = replicate TILE_M e"
    by (rule nth_equalityI) (simp_all add: slot_expert_nth [OF e])
  show ?thesis
  proof (rule ex1I [of _ e])
    fix e' assume e': "e' < num_experts rows
      \<and> arrival_target rows ! t = min TILE_M (rows ! e' - (t - block_offset rows ! e') * TILE_M)
      \<and> 1 \<le> arrival_target rows ! t
      \<and> map ((!) (slot_expert rows)) [t * TILE_M..<Suc t * TILE_M] = replicate TILE_M e'"
    then have "replicate TILE_M e = replicate TILE_M e'" using slots by simp
    then show "e' = e" by (simp add: TILE_M_def)
  qed (use e pos slots arrival_target_nth [OF e] in \<open>simp add: num_experts_def\<close>)
qed

end
