(* ===== verification/Tile_Scheduler.thy ===== *)
theory Tile_Scheduler
  imports Pool_Layout
begin

text \<open>
  \<^verbatim>\<open>stream_ep/stream_moe/tile_scheduler.py\<close> with the scheduler hooks of
  \<^verbatim>\<open>streaming_gemm_base.py\<close>: the launch geometry, the warp-cooperative decode of a claimed
  work index (32 lanes, two table entries each, ballot, popc, shuffle) and the claim protocol
  of the scheduler warps as a transition system, one agent per persistent cluster, with the
  producers' release-adds as steps of the environment. Int32 values are \<open>nat\<close> where the code
  keeps them non-negative; the table entries and counts stay far below \<open>2 ^ 31\<close>.
\<close>

section \<open>Launch geometry\<close>

definition MAX_LOCAL_EXPERTS :: nat where "MAX_LOCAL_EXPERTS = 64"

record sched_args =
  ntile_n :: nat                         \<comment> \<open>\<open>problem_shape_ntile_mnl[1]\<close>\<close>
  args_total_tiles :: nat
  args_target :: "int list"
  args_offset :: "nat list"
  cluster_m :: nat
  cluster_n :: nat
  args_started_flag :: bool              \<comment> \<open>whether a flag tensor was supplied\<close>

definition get_scheduler_arguments ::
  "nat \<Rightarrow> nat \<Rightarrow> nat \<times> nat \<Rightarrow> nat \<Rightarrow> int list \<Rightarrow> nat list \<Rightarrow> bool \<Rightarrow> sched_args" where
  \<comment> \<open>N of the GEMM, N-tile, cluster shape and the streaming options\<close>
  "get_scheduler_arguments N tile_N cluster tiles target offset flag =
     \<lparr>ntile_n = ceil_div N tile_N, args_total_tiles = tiles, args_target = target,
      args_offset = offset, cluster_m = fst cluster, cluster_n = snd cluster,
      args_started_flag = flag\<rparr>"

record sched_params =
  p_total_tiles :: nat
  num_pid_n :: nat
  p_target :: "int list"
  p_offset :: "nat list"
  p_cluster_m :: nat
  p_cluster_n :: nat
  p_started_flag :: bool

definition create_params :: "sched_args \<Rightarrow> sched_params" where
  "create_params a =
     \<lparr>p_total_tiles = args_total_tiles a, num_pid_n = ceil_div (ntile_n a) (cluster_n a),
      p_target = args_target a, p_offset = args_offset a, p_cluster_m = cluster_m a,
      p_cluster_n = cluster_n a, p_started_flag = args_started_flag a\<rparr>"

definition total_work :: "sched_params \<Rightarrow> nat" where
  "total_work p = p_total_tiles p * num_pid_n p"

definition get_grid_shape :: "sched_params \<Rightarrow> nat \<Rightarrow> nat \<times> nat \<times> nat" where
  "get_grid_shape p max_active_clusters =
     (let clusters = min max_active_clusters (ceil_div (total_work p) (p_cluster_m p * p_cluster_n p))
      in (p_cluster_m p, p_cluster_n p, clusters))"

section \<open>The warp-cooperative expert lookup\<close>

definition INT_MAX :: nat where "INT_MAX = 0x7FFFFFFF"

definition cum_slot :: "nat list \<Rightarrow> nat \<Rightarrow> nat \<Rightarrow> nat" where
  \<comment> \<open>slot \<open>i\<close> of a lane: its table entry, or INT_MAX past the end\<close>
  "cum_slot off i lane = (let e_idx = lane + i * 32 in if e_idx \<le> length off - 1 then off ! e_idx else INT_MAX)"

definition vote_ballot :: "(nat \<Rightarrow> bool) \<Rightarrow> bool list" where
  "vote_ballot pred = map pred [0..<32]"

definition popc :: "bool list \<Rightarrow> nat" where
  "popc bits = length (filter id bits)"

definition experts_per_lane :: nat where "experts_per_lane = MAX_LOCAL_EXPERTS div 32"

definition expert_lookup :: "nat list \<Rightarrow> nat \<Rightarrow> nat \<times> nat" where
  \<comment> \<open>the expert and its table entry, shuffled from the matching lane\<close>
  "expert_lookup off tile_id =
     (let n_matched = (\<Sum>i\<leftarrow>[0..<experts_per_lane]. popc (vote_ballot (\<lambda>l. cum_slot off i l \<le> tile_id)));
          expert_id = n_matched - 1;
          lane = expert_id mod 32;
          slot = expert_id div 32;
          cum = fold (\<lambda>i c. if slot = i then cum_slot off i lane else c) [0..<experts_per_lane] 0
      in (expert_id, cum))"

record work_tile =
  pid_m :: nat
  pid_n :: nat
  batch_idx :: nat
  is_valid :: bool

definition delinearize :: "sched_params \<Rightarrow> nat \<Rightarrow> work_tile" where
  "delinearize p work_idx =
     (if work_idx < total_work p then
        (let tile_id = work_idx div num_pid_n p;
             cluster_pid_n = work_idx mod num_pid_n p;
             (e, cum) = expert_lookup (p_offset p) tile_id
         in \<lparr>pid_m = tile_id - cum, pid_n = cluster_pid_n * p_cluster_n p, batch_idx = e, is_valid = True\<rparr>)
      else \<lparr>pid_m = 0, pid_n = 0, batch_idx = 0, is_valid = False\<rparr>)"

section \<open>The lookup finds the owner\<close>

lemma popc_ballot: "popc (vote_ballot pred) = card {l. l < 32 \<and> pred l}"
proof -
  have "popc (vote_ballot pred) = length (filter pred [0..<32])"
    by (simp add: popc_def vote_ballot_def filter_map comp_def)
  also have "\<dots> = card (set (filter pred [0..<32]))" by (intro distinct_card [symmetric]) simp
  also have "set (filter pred [0..<32]) = {l. l < 32 \<and> pred l}" by auto
  finally show ?thesis .
qed

lemma card_prefix: "card {l. l < m \<and> l + k \<le> e} = min m (Suc e - (k::nat))"
proof -
  have "{l. l < m \<and> l + k \<le> e} = {..<min m (Suc e - k)}" by auto
  then show ?thesis by simp
qed

text \<open>
  On a block table of at most 64 experts, with totals below INT_MAX, the lookup is the
  linear search for the owner of a tile.
\<close>


context expert_blocks
begin

lemma lookup_owner:
  assumes t: "t < total" and len: "length off \<le> Suc MAX_LOCAL_EXPERTS" and small: "t < INT_MAX"
    and e: "Suc e < length off" "off ! e \<le> t" "t < off ! Suc e"
  shows "expert_lookup off t = (e, off ! e)"
proof -
  have pre: "off ! i \<le> t \<longleftrightarrow> i \<le> e" if "i < length off" for i
  proof -
    obtain e' where e': "Suc e' < length off" "off ! e' \<le> t" "t < off ! Suc e'"
      "\<And>i. i < length off \<Longrightarrow> off ! i \<le> t \<longleftrightarrow> i \<le> e'"
      using below_is_prefix [OF t] by blast
    then have "e' = e" using e owner_unique [OF t] by blast
    then show ?thesis using e'(4) [OF that] by simp
  qed
  have e64: "e < 64" using e len by (simp add: MAX_LOCAL_EXPERTS_def)
  have slot: "cum_slot off i l \<le> t \<longleftrightarrow> l + i * 32 \<le> e" for i l
    using pre [of "l + i * 32"] e small by (auto simp: cum_slot_def Let_def INT_MAX_def)
  have "(\<Sum>i\<leftarrow>[0..<experts_per_lane]. popc (vote_ballot (\<lambda>l. cum_slot off i l \<le> t)))
      = min 32 (Suc e) + min 32 (Suc e - 32)"
    by (simp add: experts_per_lane_def MAX_LOCAL_EXPERTS_def popc_ballot slot card_prefix upt_rec)
  also have "\<dots> = Suc e" using e64 by auto
  finally have n: "(\<Sum>i\<leftarrow>[0..<experts_per_lane]. popc (vote_ballot (\<lambda>l. cum_slot off i l \<le> t))) = Suc e" .
  have "e div 32 = 0 \<or> e div 32 = 1" using e64 by auto
  moreover have "cum_slot off (e div 32) (e mod 32) = off ! e"
    using e by (auto simp: cum_slot_def Let_def)
  ultimately have "fold (\<lambda>i c. if e div 32 = i then cum_slot off i (e mod 32) else c) [0..<experts_per_lane] 0 = off ! e"
    by (auto simp: experts_per_lane_def MAX_LOCAL_EXPERTS_def upt_rec)
  then show ?thesis unfolding expert_lookup_def n by (simp add: Let_def)
qed

end

text \<open>The rows a decoded tile addresses: \<open>cu_seqlens_m = offset * tile_m\<close> at the expert.\<close>

definition pool_row :: "sched_params \<Rightarrow> nat \<Rightarrow> work_tile \<Rightarrow> nat" where
  "pool_row p tile_m w = (map (\<lambda>b. b * tile_m) (p_offset p)) ! batch_idx w + pid_m w * tile_m"

definition params_ok :: "sched_params \<Rightarrow> bool" where
  "params_ok p \<longleftrightarrow> expert_blocks (p_offset p) (p_total_tiles p) \<and> length (p_offset p) \<le> Suc MAX_LOCAL_EXPERTS
     \<and> p_total_tiles p < INT_MAX \<and> length (p_target p) = p_total_tiles p"

lemma work_split:
  "k < total_work p \<Longrightarrow> 0 < num_pid_n p \<and> k div num_pid_n p < p_total_tiles p"
  by (cases "num_pid_n p = 0") (auto simp: total_work_def less_mult_imp_div_less)

lemma delinearize_owner:
  assumes "params_ok p" "k < total_work p"
  obtains e where "Suc e < length (p_offset p)" "p_offset p ! e \<le> k div num_pid_n p"
    "k div num_pid_n p < p_offset p ! Suc e"
    "delinearize p k = \<lparr>pid_m = k div num_pid_n p - p_offset p ! e,
       pid_n = k mod num_pid_n p * p_cluster_n p, batch_idx = e, is_valid = True\<rparr>"
proof -
  have blocks: "expert_blocks (p_offset p) (p_total_tiles p)" and len: "length (p_offset p) \<le> Suc MAX_LOCAL_EXPERTS"
    using assms(1) by (auto simp: params_ok_def)
  have t: "k div num_pid_n p < p_total_tiles p" using work_split [OF assms(2)] by simp
  then have small: "k div num_pid_n p < INT_MAX" using assms(1) by (simp add: params_ok_def)
  obtain e where e: "Suc e < length (p_offset p)" "p_offset p ! e \<le> k div num_pid_n p"
    "k div num_pid_n p < p_offset p ! Suc e"
    using expert_blocks.owner_unique [OF blocks t] by blast
  show thesis
    using that [OF e] expert_blocks.lookup_owner [OF blocks t len small e] assms(2)
    by (simp add: delinearize_def Let_def)
qed

section \<open>The claim protocol\<close>

text \<open>
  Where a cluster's scheduler warp is in \<open>_fetch_next_work_idx\<close> and the loop around it:
  about to claim, holding a claimed index before the flag bump, before the range test,
  spinning, with the index returned, or finished.
\<close>

datatype sched_pc = Ready | Claimed nat | Gated nat | Spinning nat | Fetched nat | Exited nat

record sched_state =
  consumer_head :: nat
  arrival_count :: "nat \<Rightarrow> int"
  started_flag :: int
  sched_at :: "nat \<Rightarrow> sched_pc"
  executed :: "(nat \<times> work_tile) list"     \<comment> \<open>the indices handed to the math warps, with their tiles\<close>

definition sched_init :: sched_state where
  "sched_init = \<lparr>consumer_head = 0, arrival_count = (\<lambda>_. 0), started_flag = 0,
     sched_at = (\<lambda>_. Ready), executed = []\<rparr>"

definition set_pc :: "nat \<Rightarrow> sched_pc \<Rightarrow> sched_state \<Rightarrow> sched_state" where
  "set_pc c pc s = s\<lparr>sched_at := (sched_at s)(c := pc)\<rparr>"

definition cluster_step :: "sched_params \<Rightarrow> nat \<Rightarrow> sched_state \<Rightarrow> sched_state" where
  "cluster_step p c s =
     (case sched_at s c of
        Ready \<Rightarrow> set_pc c (Claimed (consumer_head s)) (s\<lparr>consumer_head := consumer_head s + 1\<rparr>)
      | Claimed k \<Rightarrow> set_pc c (Gated k)
          (if p_started_flag p \<and> k = 0 then s\<lparr>started_flag := started_flag s + 1\<rparr> else s)
      | Gated k \<Rightarrow> set_pc c (if k < total_work p then Spinning k else Fetched k) s
      | Spinning k \<Rightarrow>
          (let tile_id = k div num_pid_n p
           in if arrival_count s tile_id = p_target p ! tile_id then set_pc c (Fetched k) s else s)
      | Fetched k \<Rightarrow>
          (let w = delinearize p k
           in if is_valid w then set_pc c Ready (s\<lparr>executed := executed s @ [(k, w)]\<rparr>)
              else set_pc c (Exited k) s)
      | Exited k \<Rightarrow> s)"

definition arrive :: "nat \<Rightarrow> int \<Rightarrow> sched_state \<Rightarrow> sched_state" where
  \<comment> \<open>a producer's \<open>red.release.gpu.global.add.s32\<close>\<close>
  "arrive tile d s = s\<lparr>arrival_count := (arrival_count s)(tile := arrival_count s tile + d)\<rparr>"

text \<open>
  Executions: \<open>n\<close> clusters in any interleaving, and producers whose contributions are
  positive and add up to at most the tile's target (what dispatch's metadata promises).
\<close>

inductive sched_reach :: "sched_params \<Rightarrow> nat \<Rightarrow> sched_state \<Rightarrow> bool" for p n where
  start: "sched_reach p n sched_init"
| cluster: "sched_reach p n s \<Longrightarrow> c < n \<Longrightarrow> sched_reach p n (cluster_step p c s)"
| producer: "sched_reach p n s \<Longrightarrow> tile < p_total_tiles p \<Longrightarrow> 0 < d \<Longrightarrow>
    arrival_count s tile + d \<le> p_target p ! tile \<Longrightarrow> sched_reach p n (arrive tile d s)"

fun held :: "sched_pc \<Rightarrow> nat option" where
  "held Ready = None"
| "held (Claimed k) = Some k"
| "held (Gated k) = Some k"
| "held (Spinning k) = Some k"
| "held (Fetched k) = Some k"
| "held (Exited k) = Some k"

abbreviation "holds s c k \<equiv> held (sched_at s c) = Some k"
abbreviation "done_idx s \<equiv> map fst (executed s)"

lemma is_valid_delinearize [simp]: "is_valid (delinearize p k) \<longleftrightarrow> k < total_work p"
  by (simp add: delinearize_def Let_def split: prod.split)

text \<open>Every claimed index is in exactly one place: with one cluster, or executed once.\<close>

definition claims :: "nat \<Rightarrow> (nat \<Rightarrow> nat \<Rightarrow> bool) \<Rightarrow> nat list \<Rightarrow> nat \<Rightarrow> bool" where
  "claims n H ds h \<longleftrightarrow>
     (\<forall>c k. H c k \<longrightarrow> c < n \<and> k < h \<and> k \<notin> set ds) \<and>
     (\<forall>c c' k. H c k \<longrightarrow> H c' k \<longrightarrow> c = c') \<and>
     distinct ds \<and> (\<forall>k \<in> set ds. k < h) \<and>
     (\<forall>k < h. k \<in> set ds \<or> (\<exists>c. H c k))"

lemma claims_claim:
  "claims n H ds h \<Longrightarrow> c < n \<Longrightarrow> claims n (\<lambda>c' j. H c' j \<or> c' = c \<and> j = h) ds (Suc h)"
  unfolding claims_def by (auto simp: less_Suc_eq)

lemma claims_execute:
  "claims n H ds h \<Longrightarrow> H c k \<Longrightarrow> claims n (\<lambda>c' j. H c' j \<and> j \<noteq> k) (ds @ [k]) h"
  unfolding claims_def by auto

definition claims_inv :: "nat \<Rightarrow> sched_state \<Rightarrow> bool" where
  "claims_inv n s \<longleftrightarrow> claims n (holds s) (done_idx s) (consumer_head s)"

lemma claims_inv_move:
  assumes "claims_inv n s" "holds s c k" "held pc' = Some k"
    "sched_at s' = (sched_at s)(c := pc')" "executed s' = executed s" "consumer_head s' = consumer_head s"
  shows "claims_inv n s'"
proof -
  have "holds s' = holds s"
  proof (intro ext)
    fix c' j show "holds s' c' j = holds s c' j" using assms(2-4) by (cases "c' = c") auto
  qed
  then show ?thesis using assms(1,5,6) by (simp add: claims_inv_def)
qed

lemma claims_inv_claim:
  assumes "claims_inv n s" "c < n" "sched_at s c = Ready"
    "sched_at s' = (sched_at s)(c := Claimed (consumer_head s))" "executed s' = executed s"
    "consumer_head s' = Suc (consumer_head s)"
  shows "claims_inv n s'"
proof -
  have "holds s' = (\<lambda>c' j. holds s c' j \<or> c' = c \<and> j = consumer_head s)"
    using assms(3,4) by (intro ext) auto
  then show ?thesis using claims_claim assms(1,2,5,6) by (simp add: claims_inv_def)
qed

lemma claims_inv_execute:
  assumes "claims_inv n s" "holds s c k" "sched_at s' = (sched_at s)(c := Ready)"
    "executed s' = executed s @ [(k, w)]" "consumer_head s' = consumer_head s"
  shows "claims_inv n s'"
proof -
  have "holds s' = (\<lambda>c' j. holds s c' j \<and> j \<noteq> k)"
  proof (intro ext)
    fix c' j show "holds s' c' j \<longleftrightarrow> holds s c' j \<and> j \<noteq> k"
      using assms(1-3) unfolding claims_inv_def claims_def by (cases "c' = c") auto
  qed
  then show ?thesis
    using claims_execute [of n "holds s" "done_idx s" "consumer_head s" c k] assms(1,2,4,5)
    by (simp add: claims_inv_def)
qed

lemma claims_inv_step:
  assumes "claims_inv n s" "c < n"
  shows "claims_inv n (cluster_step p c s)"
proof (cases "sched_at s c")
  case Ready
  then show ?thesis using assms
    by (intro claims_inv_claim [OF assms(1,2) Ready]) (auto simp: cluster_step_def set_pc_def)
next
  case (Fetched k)
  then show ?thesis
  proof (cases "k < total_work p")
    case True
    then show ?thesis using Fetched
      by (intro claims_inv_execute [OF assms(1), of c k _ "delinearize p k"])
        (auto simp: cluster_step_def set_pc_def Let_def)
  next
    case False
    then show ?thesis using Fetched
      by (intro claims_inv_move [OF assms(1), of c k "Exited k"])
        (auto simp: cluster_step_def set_pc_def Let_def)
  qed
next
  case (Claimed k)
  then show ?thesis
    by (intro claims_inv_move [OF assms(1), of c k "Gated k"]) (auto simp: cluster_step_def set_pc_def)
next
  case (Gated k)
  then show ?thesis
    by (intro claims_inv_move [OF assms(1), of c k "if k < total_work p then Spinning k else Fetched k"])
      (auto simp: cluster_step_def set_pc_def)
next
  case (Spinning k)
  then show ?thesis
    using claims_inv_move [OF assms(1), of c k "Fetched k" "cluster_step p c s"] assms(1)
    by (auto simp: cluster_step_def set_pc_def Let_def)
next
  case (Exited k)
  then show ?thesis using assms(1) by (simp add: cluster_step_def)
qed

lemma claims_inv_reach: "sched_reach p n s \<Longrightarrow> claims_inv n s"
proof (induction rule: sched_reach.induct)
  case start
  then show ?case by (simp add: claims_inv_def claims_def sched_init_def)
next
  case (cluster s c)
  then show ?case by (intro claims_inv_step)
next
  case (producer s tile d)
  then show ?case by (simp add: claims_inv_def arrive_def)
qed

text \<open>What each program point knows, and the executed tiles: in range, decoded, ready.\<close>

abbreviation arrived :: "sched_params \<Rightarrow> sched_state \<Rightarrow> nat \<Rightarrow> bool" where
  "arrived p s k \<equiv> arrival_count s (k div num_pid_n p) = p_target p ! (k div num_pid_n p)"

definition ready_inv :: "sched_params \<Rightarrow> sched_state \<Rightarrow> bool" where
  "ready_inv p s \<longleftrightarrow>
     (\<forall>(k, w) \<in> set (executed s). k < total_work p \<and> w = delinearize p k \<and> arrived p s k) \<and>
     (\<forall>c k. sched_at s c = Exited k \<longrightarrow> total_work p \<le> k) \<and>
     (\<forall>c k. sched_at s c = Spinning k \<longrightarrow> k < total_work p) \<and>
     (\<forall>c k. sched_at s c = Fetched k \<longrightarrow> k < total_work p \<longrightarrow> arrived p s k)"

lemma ready_inv_step: "ready_inv p s \<Longrightarrow> ready_inv p (cluster_step p c s)"
  by (cases "sched_at s c") (auto simp: ready_inv_def cluster_step_def set_pc_def Let_def)

lemma ready_inv_arrive:
  assumes "ready_inv p s" "0 < d" "arrival_count s tile + d \<le> p_target p ! tile"
  shows "ready_inv p (arrive tile d s)"
proof -
  have "arrived p s k \<Longrightarrow> arrived p (arrive tile d s) k" for k
    using assms(2,3) by (auto simp: arrive_def)
  then show ?thesis using assms(1) by (auto simp: ready_inv_def arrive_def simp del: fun_upd_apply)
qed

lemma ready_inv_reach: "sched_reach p n s \<Longrightarrow> ready_inv p s"
proof (induction rule: sched_reach.induct)
  case start
  then show ?case by (simp add: ready_inv_def sched_init_def)
next
  case (cluster s c)
  then show ?case by (intro ready_inv_step)
next
  case (producer s tile d)
  then show ?case by (intro ready_inv_arrive)
qed

text \<open>The launch-gate flag.\<close>

definition flag_due :: "sched_params \<Rightarrow> sched_state \<Rightarrow> int" where
  "flag_due p s = (if p_started_flag p \<and> 0 < consumer_head s \<and> (\<forall>c. sched_at s c \<noteq> Claimed 0) then 1 else 0)"

lemma flag_due_move:
  assumes "sched_at s c \<noteq> Claimed 0" "pc' \<noteq> Claimed 0" "sched_at s' = (sched_at s)(c := pc')"
    "consumer_head s' = consumer_head s"
  shows "flag_due p s' = flag_due p s"
proof -
  have "sched_at s' c' = Claimed 0 \<longleftrightarrow> sched_at s c' = Claimed 0" for c'
    using assms(1-3) by (cases "c' = c") auto
  then show ?thesis using assms(4) by (simp add: flag_due_def)
qed

lemma started_flag_step:
  assumes "claims_inv n s" and "started_flag s = flag_due p s"
  shows "started_flag (cluster_step p c s) = flag_due p (cluster_step p c s)"
proof (cases "sched_at s c")
  case (Claimed k)
  have uniq: "sched_at s c' = Claimed 0 \<Longrightarrow> k = 0 \<Longrightarrow> c' = c" for c'
    using assms(1) Claimed unfolding claims_inv_def claims_def by (metis held.simps(2))
  have head: "0 < consumer_head s" using assms(1) Claimed unfolding claims_inv_def claims_def
    by (metis held.simps(2) gr_zeroI not_less_zero)
  show ?thesis
  proof (cases "k = 0")
    case True
    then have "flag_due p s = 0" using Claimed by (auto simp: flag_due_def)
    moreover have "sched_at (cluster_step p c s) = (sched_at s)(c := Gated k)"
      "consumer_head (cluster_step p c s) = consumer_head s"
      "started_flag (cluster_step p c s) = (if p_started_flag p then started_flag s + 1 else started_flag s)"
      using Claimed True by (simp_all add: cluster_step_def set_pc_def)
    moreover have "((sched_at s)(c := Gated k)) c' \<noteq> Claimed 0" for c'
      using uniq [OF _ True, of c'] by auto
    ultimately show ?thesis using head assms(2) unfolding flag_due_def by simp
  next
    case False
    then show ?thesis using Claimed assms(2) flag_due_move [of s c "Gated k" "cluster_step p c s" p]
      by (simp add: cluster_step_def set_pc_def)
  qed
next
  case Ready
  show ?thesis
  proof (cases "consumer_head s = 0")
    case True
    then show ?thesis using Ready assms(2) by (auto simp: cluster_step_def set_pc_def flag_due_def)
  next
    case False
    then have "sched_at (cluster_step p c s) c' = Claimed 0 \<longleftrightarrow> sched_at s c' = Claimed 0" for c'
      using Ready by (cases "c' = c") (auto simp: cluster_step_def set_pc_def)
    then show ?thesis using Ready False assms(2)
      by (simp add: cluster_step_def set_pc_def flag_due_def del: fun_upd_apply)
  qed
next
  case (Gated k)
  then show ?thesis using assms(2)
      flag_due_move [of s c "if k < total_work p then Spinning k else Fetched k" "cluster_step p c s" p]
    by (simp add: cluster_step_def set_pc_def)
next
  case (Spinning k)
  then show ?thesis using assms(2) flag_due_move [of s c "Fetched k" "cluster_step p c s" p]
    by (auto simp: cluster_step_def set_pc_def Let_def)
next
  case (Fetched k)
  then show ?thesis using assms(2)
      flag_due_move [of s c "if k < total_work p then Ready else Exited k" "cluster_step p c s" p]
    by (simp add: cluster_step_def set_pc_def Let_def split: if_splits)
next
  case (Exited k)
  then show ?thesis using assms(2) by (simp add: cluster_step_def)
qed

lemma started_flag_reach: "sched_reach p n s \<Longrightarrow> started_flag s = flag_due p s"
proof (induction rule: sched_reach.induct)
  case (cluster s c)
  then show ?case by (intro started_flag_step [OF claims_inv_reach])
qed (simp_all add: sched_init_def arrive_def flag_due_def)

text \<open>The claim counter passes the end of the queue by at most one per cluster.\<close>

lemma drained_claims:
  assumes "sched_reach p n s"
  shows "consumer_head s - total_work p \<le> card {c. c < n \<and> sched_at s c \<noteq> Ready}"
proof -
  have inv: "claims n (holds s) (done_idx s) (consumer_head s)"
    using claims_inv_reach [OF assms] by (simp add: claims_inv_def)
  have notdone: "k \<notin> set (done_idx s)" if "total_work p \<le> k" for k
    using ready_inv_reach [OF assms] that by (fastforce simp: ready_inv_def)
  define owner where "owner = (\<lambda>k. SOME c. holds s c k)"
  have own: "holds s (owner k) k" if "k \<in> {total_work p..<consumer_head s}" for k
  proof -
    have "\<exists>c. holds s c k" using inv notdone [of k] that unfolding claims_def by auto
    then show ?thesis unfolding owner_def by (rule someI_ex)
  qed
  have "inj_on owner {total_work p..<consumer_head s}"
    by (rule inj_onI) (metis own option.inject)
  then have "card {total_work p..<consumer_head s} = card (owner ` {total_work p..<consumer_head s})"
    by (simp add: card_image)
  also have "\<dots> \<le> card {c. c < n \<and> sched_at s c \<noteq> Ready}"
  proof (rule card_mono)
    show "owner ` {total_work p..<consumer_head s} \<subseteq> {c. c < n \<and> sched_at s c \<noteq> Ready}"
    proof safe
      fix k assume k: "k \<in> {total_work p..<consumer_head s}"
      show "owner k < n" using own [OF k] inv unfolding claims_def by blast
      show False if "sched_at s (owner k) = Ready" using own [OF k] that by simp
    qed
  qed simp
  finally show ?thesis by simp
qed

fun pc_rank :: "sched_pc \<Rightarrow> nat" where
  "pc_rank (Claimed k) = 5"
| "pc_rank (Gated k) = 4"
| "pc_rank (Spinning k) = 3"
| "pc_rank (Fetched k) = 2"
| "pc_rank Ready = 1"
| "pc_rank (Exited k) = 0"

definition work_left :: "sched_params \<Rightarrow> nat \<Rightarrow> sched_state \<Rightarrow> nat" where
  "work_left p n s = 7 * (total_work p + n - consumer_head s) + (\<Sum>c<n. pc_rank (sched_at s c))"

lemma rank_update:
  "c < (n::nat) \<Longrightarrow> (\<Sum>c'<n. pc_rank ((f(c := pc)) c')) + pc_rank (f c) = (\<Sum>c'<n. pc_rank (f c')) + pc_rank pc"
proof -
  assume c: "c < n"
  have "(\<Sum>c'<n. pc_rank (g c')) = pc_rank (g c) + (\<Sum>c' \<in> {..<n} - {c}. pc_rank (g c'))" for g
    using c by (intro sum.remove) auto
  from this [of "f(c := pc)"] this [of f] show ?thesis by simp
qed

lemma ready_head_bound:
  assumes "sched_reach p n s" "c < n" "sched_at s c = Ready"
  shows "consumer_head s < total_work p + n"
proof -
  have "{c. c < n \<and> sched_at s c \<noteq> Ready} \<subseteq> {..<n} - {c}" using assms(3) by auto
  then have "card {c. c < n \<and> sched_at s c \<noteq> Ready} \<le> card ({..<n} - {c})" by (intro card_mono) auto
  also have "\<dots> = n - 1" using assms(2) by (subst card_Diff_singleton) auto
  finally show ?thesis using drained_claims [OF assms(1)] assms(2) by linarith
qed

text \<open>A run of actions, to exhibit executions.\<close>

datatype sched_act = Cluster nat | Producer nat int

fun act_enabled :: "sched_params \<Rightarrow> nat \<Rightarrow> sched_act \<Rightarrow> sched_state \<Rightarrow> bool" where
  "act_enabled p n (Cluster c) s \<longleftrightarrow> c < n"
| "act_enabled p n (Producer tile d) s \<longleftrightarrow> tile < p_total_tiles p \<and> 0 < d
     \<and> arrival_count s tile + d \<le> p_target p ! tile"

fun act :: "sched_params \<Rightarrow> sched_act \<Rightarrow> sched_state \<Rightarrow> sched_state" where
  "act p (Cluster c) s = cluster_step p c s"
| "act p (Producer tile d) s = arrive tile d s"

fun run_acts :: "sched_params \<Rightarrow> nat \<Rightarrow> sched_act list \<Rightarrow> sched_state \<Rightarrow> sched_state option" where
  "run_acts p n [] s = Some s"
| "run_acts p n (a # as) s = (if act_enabled p n a s then run_acts p n as (act p a s) else None)"

lemma run_acts_reach: "run_acts p n as s = Some s' \<Longrightarrow> sched_reach p n s \<Longrightarrow> sched_reach p n s'"
proof (induction "as" arbitrary: s)
  case (Cons a as)
  then have "act_enabled p n a s" "run_acts p n as (act p a s) = Some s'" by (auto split: if_splits)
  moreover from this(1) Cons.prems(2) have "sched_reach p n (act p a s)"
    by (cases a) (auto intro: sched_reach.intros)
  ultimately show ?case using Cons.IH by blast
qed simp

section \<open>The properties of the scheduler\<close>

text \<open>C20: a cluster's claimed index decodes to the tile it stands for: the expert found by the
  ballot owns the tile, \<open>pid_m\<close> is the tile's place in that expert's run, and the row the GEMM
  addresses through \<open>cu_seqlens_m\<close> is the tile's own row of the pool.\<close>

theorem delinearize_addresses_own_tile:
  assumes "params_ok p" "k < total_work p"
  shows "is_valid (delinearize p k) \<and>
     p_offset p ! batch_idx (delinearize p k) \<le> k div num_pid_n p \<and>
     k div num_pid_n p < p_offset p ! Suc (batch_idx (delinearize p k)) \<and>
     pool_row p tile_m (delinearize p k) = (k div num_pid_n p) * tile_m \<and>
     pid_n (delinearize p k) = (k mod num_pid_n p) * p_cluster_n p"
proof -
  obtain e where e: "Suc e < length (p_offset p)" "p_offset p ! e \<le> k div num_pid_n p"
    "k div num_pid_n p < p_offset p ! Suc e"
    "delinearize p k = \<lparr>pid_m = k div num_pid_n p - p_offset p ! e,
       pid_n = k mod num_pid_n p * p_cluster_n p, batch_idx = e, is_valid = True\<rparr>"
    by (rule delinearize_owner [OF assms])
  then show ?thesis by (auto simp: pool_row_def simp flip: add_mult_distrib)
qed

theorem delinearize_addresses_own_tile_witness:
  "let p = create_params (get_scheduler_arguments 1536 192 (1, 2) 5 [128, 72, 128, 1, 128] [0, 0, 2, 2, 4, 5] True)
   in is_valid (delinearize p 13) \<and> p_offset p ! batch_idx (delinearize p 13) \<le> 13 div num_pid_n p \<and>
     13 div num_pid_n p < p_offset p ! Suc (batch_idx (delinearize p 13)) \<and>
     pool_row p 128 (delinearize p 13) = (13 div num_pid_n p) * 128 \<and>
     pid_n (delinearize p 13) = (13 mod num_pid_n p) * p_cluster_n p"
  unfolding Let_def
  by (rule delinearize_addresses_own_tile)
    (simp_all add: params_ok_def create_params_def get_scheduler_arguments_def total_work_def
      MAX_LOCAL_EXPERTS_def INT_MAX_def ceil_div_def expert_blocks_def)

text \<open>C13: a tile is only handed to the math warps when every contribution to it has arrived, and the
  range test keeps the spin inside the arrival arrays.\<close>

theorem executed_tiles_are_ready:
  assumes "sched_reach p n s" "(k, w) \<in> set (executed s)"
  shows "k < total_work p \<and> w = delinearize p k \<and> arrived p s k"
  using ready_inv_reach [OF assms(1)] assms(2) by (auto simp: ready_inv_def)

definition demo_params :: sched_params where
  "demo_params = create_params (get_scheduler_arguments 512 256 (1, 2) 1 [3] [0, 0, 1] True)"

definition demo_acts :: "sched_act list" where
  \<comment> \<open>two clusters, one output tile whose rows arrive in two parts\<close>
  "demo_acts = [Cluster 0, Cluster 1, Cluster 0, Cluster 0, Cluster 0, Producer 0 1, Cluster 1, Cluster 1,
     Cluster 0, Cluster 1, Producer 0 2, Cluster 0, Cluster 0, Cluster 0, Cluster 0, Cluster 0, Cluster 0]"

definition demo_final :: sched_state where
  "demo_final = the (run_acts demo_params 2 demo_acts sched_init)"

lemma demo_facts:
  "p_total_tiles demo_params = 1" "num_pid_n demo_params = 1" "p_target demo_params = [3]"
  "p_started_flag demo_params" "total_work demo_params = 1"
  by (simp_all add: demo_params_def create_params_def get_scheduler_arguments_def ceil_div_def total_work_def)

lemma demo_final_eq:
  "run_acts demo_params 2 demo_acts sched_init = Some
    \<lparr>consumer_head = 3, arrival_count = (\<lambda>_. 0)(0 := 3), started_flag = 1,
     sched_at = (\<lambda>_. Ready)(0 := Exited 2, Suc 0 := Exited 1), executed = [(0, delinearize demo_params 0)]\<rparr>"
  by (simp add: demo_acts_def sched_init_def demo_facts cluster_step_def set_pc_def arrive_def
      fun_upd_twist numeral_2_eq_2 numeral_3_eq_3)

lemma demo_runs: "run_acts demo_params 2 demo_acts sched_init = Some demo_final"
  by (simp add: demo_final_def demo_final_eq)

lemmas demo_final_val = demo_final_def [unfolded demo_final_eq option.sel]

lemma demo_reach: "sched_reach demo_params 2 demo_final"
  by (rule run_acts_reach [OF demo_runs sched_reach.start])

theorem executed_tiles_are_ready_witness:
  "0 < total_work demo_params \<and> delinearize demo_params 0 = delinearize demo_params 0 \<and>
     arrived demo_params demo_final 0"
  by (rule executed_tiles_are_ready [OF demo_reach]) (simp add: demo_final_def demo_final_eq)

definition all_exited :: "nat \<Rightarrow> sched_state \<Rightarrow> bool" where
  "all_exited n s \<longleftrightarrow> (\<forall>c < n. \<exists>k. sched_at s c = Exited k)"

text \<open>C1: when every cluster has left the loop, every work index of the launch was executed exactly
  once, whatever the interleaving and the number of clusters.\<close>

theorem every_index_executed_once:
  assumes "sched_reach p n s" "0 < n" "all_exited n s"
  shows "distinct (map fst (executed s)) \<and> set (map fst (executed s)) = {..<total_work p}"
proof -
  have inv: "claims n (holds s) (done_idx s) (consumer_head s)"
    using claims_inv_reach [OF assms(1)] by (simp add: claims_inv_def)
  have ready: "ready_inv p s" by (rule ready_inv_reach [OF assms(1)])
  obtain k where k: "sched_at s 0 = Exited k" using assms(2,3) by (auto simp: all_exited_def)
  then have "total_work p \<le> k" using ready by (auto simp: ready_inv_def)
  moreover have "k < consumer_head s" using inv k unfolding claims_def by (metis held.simps(6))
  ultimately have head: "total_work p < consumer_head s" by simp
  have "j \<in> set (done_idx s)" if j: "j < total_work p" for j
  proof (rule ccontr)
    assume "j \<notin> set (done_idx s)"
    moreover have "j < consumer_head s" using j head by simp
    ultimately obtain c where c: "holds s c j" using inv unfolding claims_def by blast
    then have "c < n" using inv unfolding claims_def by blast
    then obtain k' where "sched_at s c = Exited k'" using assms(3) by (auto simp: all_exited_def)
    moreover from this c have "k' = j" by simp
    ultimately have "total_work p \<le> j" using ready unfolding ready_inv_def by blast
    then show False using j by simp
  qed
  moreover have "set (done_idx s) \<subseteq> {..<total_work p}" using ready by (auto simp: ready_inv_def)
  ultimately show ?thesis using inv unfolding claims_def by auto
qed

theorem every_index_executed_once_witness:
  "distinct (map fst (executed demo_final)) \<and> set (map fst (executed demo_final)) = {..<total_work demo_params}"
  by (rule every_index_executed_once [OF demo_reach])
    (auto simp: all_exited_def demo_final_val less_2_cases_iff)

text \<open>The launch flag is raised at most once, only by a cluster that has claimed work, and when
  all clusters are gone it is raised exactly when the launch carried a flag.\<close>

lemma started_flag_once:
  assumes "sched_reach p n s" "0 < n"
  shows "(started_flag s = 0 \<or> started_flag s = 1 \<and> p_started_flag p \<and> 0 < consumer_head s) \<and>
    \<not> (all_exited n s \<and> started_flag s \<noteq> (if p_started_flag p then 1 else 0))"
proof -
  have flag: "started_flag s = flag_due p s" by (rule started_flag_reach [OF assms(1)])
  have inv: "claims n (holds s) (done_idx s) (consumer_head s)"
    using claims_inv_reach [OF assms(1)] by (simp add: claims_inv_def)
  have "0 < consumer_head s \<and> (\<forall>c. sched_at s c \<noteq> Claimed 0)" if ex: "all_exited n s"
  proof
    obtain k where "sched_at s 0 = Exited k" using assms(2) ex by (auto simp: all_exited_def)
    then show "0 < consumer_head s" using inv unfolding claims_def
      by (metis held.simps(6) gr_zeroI not_less_zero)
    show "\<forall>c. sched_at s c \<noteq> Claimed 0"
    proof (intro allI notI)
      fix c assume c: "sched_at s c = Claimed 0"
      then have "c < n" using inv unfolding claims_def by (metis held.simps(2))
      then show False using ex c by (auto simp: all_exited_def)
    qed
  qed
  then show ?thesis using flag by (auto simp: flag_due_def)
qed

text \<open>C21: the kernel drains: once the producers have delivered every target, each step of a cluster
  that has not left decreases \<open>work_left\<close>, so every execution in which clusters keep running
  ends with all of them gone; a cluster waits only on a tile whose target is not reached.\<close>

theorem scheduler_progress:
  assumes "sched_reach p n s" "c < n" "\<nexists>k. sched_at s c = Exited k"
    and "\<And>tile. tile < p_total_tiles p \<Longrightarrow> arrival_count s tile = p_target p ! tile"
  shows "work_left p n (cluster_step p c s) < work_left p n s"
proof -
  have decrease: "(\<Sum>c'<n. pc_rank (((sched_at s)(c := pc')) c')) < (\<Sum>c'<n. pc_rank (sched_at s c'))"
    if "pc_rank pc' < pc_rank (sched_at s c)" for pc'
    using rank_update [OF assms(2), of "sched_at s" pc'] that by linarith
  show ?thesis
  proof (cases "sched_at s c")
    case Ready
    have "(\<Sum>c'<n. pc_rank (((sched_at s)(c := Claimed (consumer_head s))) c')) = (\<Sum>c'<n. pc_rank (sched_at s c')) + 4"
      using rank_update [OF assms(2), of "sched_at s" "Claimed (consumer_head s)"] Ready by simp
    then show ?thesis using ready_head_bound [OF assms(1,2) Ready] Ready
      by (simp add: work_left_def cluster_step_def set_pc_def del: fun_upd_apply)
  next
    case (Spinning k)
    then have "k < total_work p" using ready_inv_reach [OF assms(1)] by (auto simp: ready_inv_def)
    then have "arrived p s k" using assms(4) work_split [of k p] by simp
    then show ?thesis using Spinning decrease [of "Fetched k"]
      by (simp add: work_left_def cluster_step_def set_pc_def del: fun_upd_apply)
  next
    case (Fetched k)
    then show ?thesis using decrease [of "if k < total_work p then Ready else Exited k"]
      by (auto simp: work_left_def cluster_step_def set_pc_def Let_def simp del: fun_upd_apply)
  next
    case (Claimed k)
    then show ?thesis using decrease [of "Gated k"]
      by (cases "p_started_flag p"; cases "k = 0")
        (simp_all add: work_left_def cluster_step_def set_pc_def del: fun_upd_apply)
  next
    case (Gated k)
    then show ?thesis using decrease [of "if k < total_work p then Spinning k else Fetched k"]
      by (auto simp: work_left_def cluster_step_def set_pc_def simp del: fun_upd_apply)
  qed (use assms(3) in blast)
qed

theorem scheduler_progress_witness:
  "work_left demo_params 2 (cluster_step demo_params 0 (arrive 0 3 sched_init))
    < work_left demo_params 2 (arrive 0 3 sched_init)"
proof (rule scheduler_progress)
  show "sched_reach demo_params 2 (arrive 0 3 sched_init)"
    by (rule sched_reach.producer [OF sched_reach.start]) (simp_all add: demo_facts sched_init_def)
qed (simp_all add: demo_facts arrive_def sched_init_def)

section \<open>Output tiles and cluster peers\<close>

text \<open>
  The peers of a cluster take the N-tiles after the leader's: with cluster width \<open>c\<close>, index
  \<open>k\<close> covers the N-tiles \<open>pid_n .. pid_n + c - 1\<close> of its pool tile.
\<close>

definition peer_tiles :: "sched_params \<Rightarrow> nat \<Rightarrow> (nat \<times> nat) set" where
  "peer_tiles p k = {(k div num_pid_n p, pid_n (delinearize p k) + b) |b. b < p_cluster_n p}"

lemma pid_n_delinearize:
  "k < total_work p \<Longrightarrow> pid_n (delinearize p k) = k mod num_pid_n p * p_cluster_n p"
  by (simp add: delinearize_def Let_def split: prod.split)

lemma peer_tile_index:
  assumes "tile < p_total_tiles p" "j < num_pid_n p * p_cluster_n p"
  shows "k < total_work p \<and> (tile, j) \<in> peer_tiles p k \<longleftrightarrow> k = tile * num_pid_n p + j div p_cluster_n p"
    (is "?L \<longleftrightarrow> k = ?k")
proof -
  have c: "0 < p_cluster_n p" and m: "0 < num_pid_n p" using assms(2) by (auto intro: gr0I)
  have jd: "j div p_cluster_n p < num_pid_n p" using assms(2) by (simp add: less_mult_imp_div_less)
  show ?thesis
  proof
    assume L: ?L
    then obtain b where b: "b < p_cluster_n p" "tile = k div num_pid_n p" "j = k mod num_pid_n p * p_cluster_n p + b"
      using pid_n_delinearize [of k p] by (auto simp: peer_tiles_def)
    then have "j div p_cluster_n p = k mod num_pid_n p" using c by simp
    then show "k = ?k" using b(2) by simp
  next
    assume k: "k = ?k"
    have "Suc tile * num_pid_n p \<le> total_work p"
      using assms(1) unfolding total_work_def by (intro mult_le_mono1) simp
    then have lt: "k < total_work p" using jd k by simp
    have "k div num_pid_n p = tile" "k mod num_pid_n p = j div p_cluster_n p" using jd k m by auto
    then show ?L using lt c pid_n_delinearize [OF lt]
      by (auto simp: peer_tiles_def intro!: exI [of _ "j mod p_cluster_n p"])
  qed
qed

text \<open>C22: together with \<open>every_index_executed_once\<close>: every output tile of the GEMM is computed by
  exactly one work index and peer; and a CTA tile beyond the output exists exactly when the
  cluster width does not divide the number of N-tiles.\<close>

theorem output_tiles_covered_once:
  assumes "p = create_params a" "0 < cluster_n a" "tile < args_total_tiles a"
  shows "{j. \<exists>!k. k < total_work p \<and> (tile, j) \<in> peer_tiles p k} = {..<num_pid_n p * cluster_n a} \<and>
    ntile_n a \<le> num_pid_n p * cluster_n a \<and>
    (num_pid_n p * cluster_n a = ntile_n a \<longleftrightarrow> cluster_n a dvd ntile_n a)"
proof (intro conjI)
  have p: "p_total_tiles p = args_total_tiles a" "p_cluster_n p = cluster_n a"
    "num_pid_n p = ceil_div (ntile_n a) (cluster_n a)"
    using assms(1) by (simp_all add: create_params_def)
  show "{j. \<exists>!k. k < total_work p \<and> (tile, j) \<in> peer_tiles p k} = {..<num_pid_n p * cluster_n a}"
  proof (intro set_eqI iffI)
    fix j assume "j \<in> {..<num_pid_n p * cluster_n a}"
    then show "j \<in> {j. \<exists>!k. k < total_work p \<and> (tile, j) \<in> peer_tiles p k}"
      using peer_tile_index [of tile p j] assms(3) p by auto
  next
    fix j assume "j \<in> {j. \<exists>!k. k < total_work p \<and> (tile, j) \<in> peer_tiles p k}"
    then obtain k where k: "k < total_work p" "(tile, j) \<in> peer_tiles p k" by auto
    then obtain b where b: "b < p_cluster_n p" "j = k mod num_pid_n p * p_cluster_n p + b"
      using pid_n_delinearize [of k p] by (auto simp: peer_tiles_def)
    have "Suc (k mod num_pid_n p) * p_cluster_n p \<le> num_pid_n p * p_cluster_n p"
      using work_split [OF k(1)] by (intro mult_le_mono1) (simp add: Suc_leI)
    then show "j \<in> {..<num_pid_n p * cluster_n a}" using b p by simp
  qed
  show "ntile_n a \<le> num_pid_n p * cluster_n a" unfolding p by (rule ceil_div_mult_ge [OF assms(2)])
  show "num_pid_n p * cluster_n a = ntile_n a \<longleftrightarrow> cluster_n a dvd ntile_n a"
    unfolding p using ceil_div_dvd [OF assms(2), of "ntile_n a"] by (metis dvd_div_mult_self dvd_triv_right)
qed

definition odd_args :: sched_args where
  \<comment> \<open>three N-tiles under a cluster of two\<close>
  "odd_args = get_scheduler_arguments 768 256 (1, 2) 5 [1, 1, 1, 1, 1] [0, 5] True"

theorem output_tiles_covered_once_witness:
  "{j. \<exists>!k. k < total_work (create_params odd_args) \<and> (3, j) \<in> peer_tiles (create_params odd_args) k}
      = {..<num_pid_n (create_params odd_args) * cluster_n odd_args} \<and>
    ntile_n odd_args \<le> num_pid_n (create_params odd_args) * cluster_n odd_args \<and>
    (num_pid_n (create_params odd_args) * cluster_n odd_args = ntile_n odd_args
     \<longleftrightarrow> cluster_n odd_args dvd ntile_n odd_args)"
  by (rule output_tiles_covered_once) (simp_all add: odd_args_def get_scheduler_arguments_def)

end
