(* ===== verification/Scatter_Epilogue.thy ===== *)
theory Scatter_Epilogue
  imports Tile_Scheduler
begin

text \<open>
  The atomic-scatter epilogue of \<^verbatim>\<open>stream_ep/stream_moe/kernel_y.py\<close>, shared by kernel Y and
  kernel A's backward: the padded staging layout of \<open>AtomicScatterStore\<close>, the lane mapping of
  \<open>_scatter_store\<close>, and the per-tile bookkeeping of \<open>end\<close> (last-stripe gate, countdown per
  receive token, release stamp) as a transition system over all CTAs of a launch.
\<close>

section \<open>The staging layout\<close>

definition SMEM_N_PAD :: nat where "SMEM_N_PAD = 34"

record staging_layout =
  shape :: "nat \<times> nat \<times> nat"
  stride :: "nat \<times> nat \<times> nat"

definition make_staging_layout :: "nat \<Rightarrow> nat \<Rightarrow> nat \<Rightarrow> staging_layout" where
  "make_staging_layout epi_tile_M epi_tile_N epi_stage =
     \<lparr>shape = (epi_tile_M, epi_tile_N, epi_stage),
      stride = (SMEM_N_PAD, 1, epi_tile_M * SMEM_N_PAD)\<rparr>"

fun layout_index :: "staging_layout \<Rightarrow> nat \<times> nat \<times> nat \<Rightarrow> nat" where
  \<comment> \<open>the linear offset a layout assigns to a coordinate\<close>
  "layout_index L (m, n, s) = (case stride L of (a, b, c) \<Rightarrow> m * a + n * b + s * c)"

definition in_shape :: "staging_layout \<Rightarrow> nat \<times> nat \<times> nat \<Rightarrow> bool" where
  "in_shape L c \<longleftrightarrow> (case (shape L, c) of ((M, N, S), (m, n, s)) \<Rightarrow> m < M \<and> n < N \<and> s < S)"

record epi_smem_bytes =
  d_stage :: nat
  c_stage :: nat
  unstaged :: nat

definition scatter_smem_bytes :: "nat \<times> nat \<times> nat \<Rightarrow> nat \<times> nat \<Rightarrow> epi_smem_bytes" where
  "scatter_smem_bytes cta_tile epi_tile =
     \<lparr>d_stage = fst epi_tile * SMEM_N_PAD * 2, c_stage = 0, unstaged = fst cta_tile * 4 + 16\<rparr>"

lemma staging_injective:
  assumes "N \<le> SMEM_N_PAD" "in_shape (make_staging_layout M N S) c" "in_shape (make_staging_layout M N S) c'"
    and "layout_index (make_staging_layout M N S) c = layout_index (make_staging_layout M N S) c'"
  shows "c = c'"
proof -
  obtain m n s m' n' s' where c: "c = (m, n, s)" "c' = (m', n', s')" by (cases c, cases c') auto
  have b: "m < M" "n < SMEM_N_PAD" "m' < M" "n' < SMEM_N_PAD"
    using assms(1-3) by (auto simp: c in_shape_def make_staging_layout_def)
  have eq: "(s * M + m) * SMEM_N_PAD + n = (s' * M + m') * SMEM_N_PAD + n'"
    using assms(4) by (simp add: c make_staging_layout_def algebra_simps)
  have "((s * M + m) * SMEM_N_PAD + n) mod SMEM_N_PAD = n" "((s' * M + m') * SMEM_N_PAD + n') mod SMEM_N_PAD = n'"
    using b by simp_all
  then have n: "n = n'" using eq by simp
  then have sm: "s * M + m = s' * M + m'" using eq b by simp
  have "(s * M + m) mod M = m" "(s' * M + m') mod M = m'" using b by simp_all
  then have "m = m'" using sm by simp
  then show ?thesis using sm n b c by simp
qed

lemma staging_within_bytes:
  assumes "N \<le> SMEM_N_PAD" "in_shape (make_staging_layout M N S) c"
  shows "2 * layout_index (make_staging_layout M N S) c + 2 \<le> S * d_stage (scatter_smem_bytes (tM, tN, tK) (M, N))"
proof -
  obtain m n s where c: "c = (m, n, s)" by (cases c) auto
  have b: "m < M" "n < SMEM_N_PAD" "s < S"
    using assms by (auto simp: c in_shape_def make_staging_layout_def)
  have "Suc m * SMEM_N_PAD \<le> M * SMEM_N_PAD" using b by (intro mult_le_mono1) simp
  then have "m * SMEM_N_PAD + n + 1 \<le> M * SMEM_N_PAD" using b by simp
  moreover have "Suc s * (M * SMEM_N_PAD) \<le> S * (M * SMEM_N_PAD)" using b by (intro mult_le_mono1) simp
  ultimately have "m * SMEM_N_PAD + n + s * (M * SMEM_N_PAD) + 1 \<le> S * (M * SMEM_N_PAD)" by simp
  then show ?thesis by (simp add: c make_staging_layout_def scatter_smem_bytes_def)
qed

section \<open>The lane mapping of the scatter\<close>

definition v4_chunks_per_row :: "nat \<Rightarrow> nat" where "v4_chunks_per_row epi_N = (epi_N + 7) div 8"

definition rows_per_warp :: "nat \<Rightarrow> nat \<Rightarrow> nat" where
  "rows_per_warp epi_M warps = (epi_M + warps - 1) div warps"

definition work_per_warp :: "nat \<Rightarrow> nat \<Rightarrow> nat \<Rightarrow> nat" where
  "work_per_warp epi_M epi_N warps = rows_per_warp epi_M warps * v4_chunks_per_row epi_N"

definition work_iters_per_warp :: "nat \<Rightarrow> nat \<Rightarrow> nat \<Rightarrow> nat" where
  "work_iters_per_warp epi_M epi_N warps = (work_per_warp epi_M epi_N warps + 32 - 1) div 32"

record lane_op =
  op_row :: nat          \<comment> \<open>\<open>m_safe\<close>, the staging row read\<close>
  op_chunk :: nat        \<comment> \<open>\<open>v4_chunk\<close>\<close>
  op_in_range :: bool    \<comment> \<open>\<open>row_in_range\<close>\<close>

definition lane_work :: "nat \<Rightarrow> nat \<Rightarrow> nat \<Rightarrow> nat \<Rightarrow> nat \<Rightarrow> nat \<Rightarrow> lane_op" where
  \<comment> \<open>warp, inner iteration, lane\<close>
  "lane_work epi_M epi_N warps warp w lane =
     (let work_idx = w * 32 + lane;
          work_in_range = work_idx < work_per_warp epi_M epi_N warps;
          work_safe = (if work_in_range then work_idx else 0);
          m_off = work_safe div v4_chunks_per_row epi_N;
          v4_chunk = work_safe mod v4_chunks_per_row epi_N;
          m_in_subtile = warp * rows_per_warp epi_M warps + m_off;
          row_in_range = (m_in_subtile < epi_M \<and> work_in_range)
      in \<lparr>op_row = (if row_in_range then m_in_subtile else 0), op_chunk = v4_chunk,
          op_in_range = row_in_range\<rparr>)"

record red_op =
  red_pred :: bool          \<comment> \<open>\<open>atomic_pred\<close>, the PTX predicate\<close>
  red_row :: nat            \<comment> \<open>row of \<open>mO\<close> addressed\<close>
  red_col :: nat            \<comment> \<open>first of its 8 columns, \<open>n_global\<close>\<close>
  red_src :: "nat \<times> nat"    \<comment> \<open>staging row and first Int32 of the 4 read\<close>

definition scatter_lane ::
  "(nat \<Rightarrow> int) \<Rightarrow> nat \<Rightarrow> nat \<times> nat \<Rightarrow> nat \<Rightarrow> nat \<Rightarrow> nat \<times> nat \<Rightarrow> nat \<Rightarrow> nat \<Rightarrow> nat \<Rightarrow> red_op" where
  \<comment> \<open>recv tokens of the tile, \<open>T_recv\<close>, epi tile, warps, N origin of the CTA tile, epi coordinate\<close>
  "scatter_lane recv T_recv epi warps cta_n_origin epi_coord warp w lane =
     (let l = lane_work (fst epi) (snd epi) warps warp w lane;
          n_origin = cta_n_origin + snd epi_coord * snd epi;
          m_local_in_tile = fst epi_coord * fst epi + op_row l;
          r_raw = recv m_local_in_tile;
          atomic_pred = (0 \<le> r_raw \<and> r_raw < int T_recv \<and> op_in_range l);
          r_safe = (if atomic_pred then nat r_raw else 0)
      in \<lparr>red_pred = atomic_pred, red_row = r_safe, red_col = n_origin + op_chunk l * 8,
          red_src = (op_row l, op_chunk l * 4)\<rparr>)"

lemma lane_covers:
  assumes "0 < warps" "m < epi_M" "c < v4_chunks_per_row epi_N"
  shows "\<exists>!(warp, w, lane). warp < warps \<and> w < work_iters_per_warp epi_M epi_N warps \<and> lane < 32 \<and>
    op_in_range (lane_work epi_M epi_N warps warp w lane) \<and>
    op_row (lane_work epi_M epi_N warps warp w lane) = m \<and>
    op_chunk (lane_work epi_M epi_N warps warp w lane) = c"
    (is "\<exists>!(warp, w, lane). ?P warp w lane")
proof -
  define R V W where "R = rows_per_warp epi_M warps" and "V = v4_chunks_per_row epi_N"
    and "W = work_per_warp epi_M epi_N warps"
  have V: "0 < V" "c < V" using assms(3) by (auto simp: V_def)
  have RW: "epi_M \<le> R * warps"
    using ceil_div_mult_ge [OF assms(1), of epi_M] by (simp add: R_def rows_per_warp_def ceil_div_def)
  then have R: "0 < R" using assms(2) by (cases "R = 0") auto
  have W: "W = R * V" by (simp add: W_def R_def V_def work_per_warp_def)
  have inv: "op_in_range (lane_work epi_M epi_N warps warp w lane) \<and>
      op_row (lane_work epi_M epi_N warps warp w lane) = m' \<and>
      op_chunk (lane_work epi_M epi_N warps warp w lane) = c' \<longleftrightarrow>
      w * 32 + lane < W \<and> m' < epi_M \<and> m' = warp * R + (w * 32 + lane) div V \<and> c' = (w * 32 + lane) mod V"
    for warp w lane m' c'
    by (auto simp: lane_work_def Let_def R_def V_def W_def)
  have char: "w * 32 + lane < W \<and> m = warp * R + (w * 32 + lane) div V \<and> c = (w * 32 + lane) mod V
      \<longleftrightarrow> warp = m div R \<and> w * 32 + lane = m mod R * V + c" for warp w lane
  proof
    assume L: "w * 32 + lane < W \<and> m = warp * R + (w * 32 + lane) div V \<and> c = (w * 32 + lane) mod V"
    then have "(w * 32 + lane) div V < R" by (simp add: W less_mult_imp_div_less)
    then have "m div R = warp" "m mod R = (w * 32 + lane) div V" using L by auto
    then show "warp = m div R \<and> w * 32 + lane = m mod R * V + c" using L by simp
  next
    assume A: "warp = m div R \<and> w * 32 + lane = m mod R * V + c"
    have "Suc (m mod R) * V \<le> R * V" using R by (intro mult_le_mono1) (simp add: Suc_leI)
    then show "w * 32 + lane < W \<and> m = warp * R + (w * 32 + lane) div V \<and> c = (w * 32 + lane) mod V"
      using A V by (auto simp: W)
  qed
  define x where "x = m mod R * V + c"
  have xW: "x < W" using char [of "x div 32" "x mod 32" "m div R"] by (simp add: x_def)
  have wb: "m div R < warps" using RW assms(2) R by (simp add: less_mult_imp_div_less mult.commute)
  have ib: "x div 32 < work_iters_per_warp epi_M epi_N warps"
  proof -
    have "W \<le> work_iters_per_warp epi_M epi_N warps * 32"
      using ceil_div_mult_ge [of 32 W] by (simp add: work_iters_per_warp_def ceil_div_def W_def)
    then show ?thesis using xW by (simp add: less_mult_imp_div_less)
  qed
  have P: "?P warp w lane \<longleftrightarrow> warp = m div R \<and> w = x div 32 \<and> lane = x mod 32" for warp w lane
  proof -
    have "?P warp w lane \<longleftrightarrow> warp < warps \<and> w < work_iters_per_warp epi_M epi_N warps \<and> lane < 32 \<and>
        warp = m div R \<and> w * 32 + lane = x"
      using inv [of warp w lane m c] char [of w lane warp] assms(2) by (auto simp: x_def)
    also have "\<dots> \<longleftrightarrow> warp = m div R \<and> w = x div 32 \<and> lane = x mod 32" using wb ib by auto
    finally show ?thesis .
  qed
  show ?thesis by (rule ex1I [of _ "(m div R, x div 32, x mod 32)"]) (auto simp: P)
qed

text \<open>In every subtile, each element of a row that carries a receive token is added by exactly one
  predicated 16-byte atomic, to that token's row at the element's global column and from its
  place in the staging row; rows without a token (padding, or out of range) are added by none.\<close>

lemma scatter_adds_each_element_once:
  assumes "0 < warps" "8 dvd epi_N" "m < epi_M" "n < epi_N"
  shows "(if 0 \<le> recv (em * epi_M + m) \<and> recv (em * epi_M + m) < int T_recv
     then (\<exists>!(warp, w, lane). warp < warps \<and> w < work_iters_per_warp epi_M epi_N warps \<and> lane < 32 \<and>
       (let op = scatter_lane recv T_recv (epi_M, epi_N) warps org (em, en) warp w lane
        in red_pred op \<and> fst (red_src op) = m \<and> red_row op = nat (recv (em * epi_M + m)) \<and>
          red_col op \<le> org + en * epi_N + n \<and> org + en * epi_N + n < red_col op + 8 \<and>
          org + en * epi_N + n - red_col op = n - 2 * snd (red_src op)))
     else \<not> (\<exists>warp w lane. red_pred (scatter_lane recv T_recv (epi_M, epi_N) warps org (em, en) warp w lane) \<and>
          fst (red_src (scatter_lane recv T_recv (epi_M, epi_N) warps org (em, en) warp w lane)) = m))"
proof (cases "0 \<le> recv (em * epi_M + m) \<and> recv (em * epi_M + m) < int T_recv")
  case False
  then show ?thesis by (auto simp: scatter_lane_def Let_def)
next
  case True
  have chunk: "org + en * epi_N + c * 8 \<le> org + en * epi_N + n \<and> org + en * epi_N + n < org + en * epi_N + c * 8 + 8
      \<and> org + en * epi_N + n - (org + en * epi_N + c * 8) = n - 2 * (c * 4) \<longleftrightarrow> c = n div 8" for c
    by auto
  have "n div 8 < v4_chunks_per_row epi_N"
    using assms(2,4) by (auto simp: v4_chunks_per_row_def elim!: dvdE)
  from lane_covers [OF assms(1,3) this]
  have "\<exists>!(warp, w, lane). warp < warps \<and> w < work_iters_per_warp epi_M epi_N warps \<and> lane < 32 \<and>
      op_in_range (lane_work epi_M epi_N warps warp w lane) \<and>
      op_row (lane_work epi_M epi_N warps warp w lane) = m \<and>
      op_chunk (lane_work epi_M epi_N warps warp w lane) = n div 8" .
  moreover have "red_pred op \<and> fst (red_src op) = m \<and> red_row op = nat (recv (em * epi_M + m)) \<and>
      red_col op \<le> org + en * epi_N + n \<and> org + en * epi_N + n < red_col op + 8 \<and>
      org + en * epi_N + n - red_col op = n - 2 * snd (red_src op)
      \<longleftrightarrow> op_in_range (lane_work epi_M epi_N warps warp w lane) \<and>
      op_row (lane_work epi_M epi_N warps warp w lane) = m \<and>
      op_chunk (lane_work epi_M epi_N warps warp w lane) = n div 8"
    if "op = scatter_lane recv T_recv (epi_M, epi_N) warps org (em, en) warp w lane" for op warp w lane
    using True chunk [of "op_chunk (lane_work epi_M epi_N warps warp w lane)"]
    by (auto simp: that scatter_lane_def Let_def)
  ultimately show ?thesis using True by (simp add: Let_def)
qed

section \<open>The per-tile bookkeeping\<close>

text \<open>
  A launch: \<open>ctas\<close> CTAs work on each tile, one per N-stripe the scheduler hands out (peers
  included); the gate counts to \<open>gate\<close>, the host's \<open>num_pid_n = ceil(H / tile_n)\<close>, and only
  stripes below \<open>gate\<close> lie inside the output.
\<close>

record scatter_launch =
  sc_tiles :: nat
  sc_tile_m :: nat
  sc_ctas :: nat
  sc_gate :: nat
  sc_recv :: "int list"           \<comment> \<open>\<open>pool_recv_token\<close>, slot to token, -1 padding\<close>
  sc_T_recv :: nat
  sc_seq :: int                   \<comment> \<open>\<open>combine_seq\<close>\<close>

datatype cta_phase =
    Scattering "nat set"              \<comment> \<open>rows whose atomics are still to be issued\<close>
  | Counting bool "nat set" "nat set" \<comment> \<open>past the gate; rows to decrement, rows to stamp\<close>

record scatter_state =
  stripes_done :: "nat \<Rightarrow> nat"
  remaining :: "nat \<Rightarrow> int"
  y_done :: "nat \<Rightarrow> int"
  phase :: "nat \<times> nat \<Rightarrow> cta_phase"
  landed :: "(nat \<times> nat) set"      \<comment> \<open>history: (slot, stripe) pairs added into \<open>o\<close>\<close>
  counted :: "nat set"             \<comment> \<open>history: slots that ran their decrement\<close>

definition slot_of :: "scatter_launch \<Rightarrow> nat \<Rightarrow> nat \<Rightarrow> nat" where
  "slot_of L t m = t * sc_tile_m L + m"

definition recv_ok :: "scatter_launch \<Rightarrow> nat \<Rightarrow> bool" where
  \<comment> \<open>\<open>r >= 0 and r < T_recv\<close> for the token of a slot\<close>
  "recv_ok L slot \<longleftrightarrow> 0 \<le> sc_recv L ! slot \<and> sc_recv L ! slot < int (sc_T_recv L)"

definition token :: "scatter_launch \<Rightarrow> nat \<Rightarrow> nat" where "token L slot = nat (sc_recv L ! slot)"

definition slots_of :: "scatter_launch \<Rightarrow> nat \<Rightarrow> nat set" where
  "slots_of L r = {s. s < sc_tiles L * sc_tile_m L \<and> recv_ok L s \<and> token L s = r}"

text \<open>\<open>Buffer.dispatch\<close> initialises \<open>k_local_remaining\<close> to the number of local slots of a token.\<close>

definition scatter_init :: "scatter_launch \<Rightarrow> scatter_state" where
  "scatter_init L = \<lparr>stripes_done = (\<lambda>_. 0), remaining = (\<lambda>r. int (card (slots_of L r))),
     y_done = (\<lambda>_. 0), phase = (\<lambda>_. Scattering {..<sc_tile_m L}), landed = {}, counted = {}\<rparr>"

definition scatter_row :: "scatter_launch \<Rightarrow> nat \<times> nat \<Rightarrow> nat \<Rightarrow> nat set \<Rightarrow> scatter_state \<Rightarrow> scatter_state" where
  \<comment> \<open>the predicated atomics of one row of a CTA's tile\<close>
  "scatter_row L c m P s = s\<lparr>phase := (phase s)(c := Scattering (P - {m})),
     landed := (if recv_ok L (slot_of L (fst c) m)
                then insert (slot_of L (fst c) m, snd c) (landed s) else landed s)\<rparr>"

definition pass_gate :: "scatter_launch \<Rightarrow> nat \<times> nat \<Rightarrow> scatter_state \<Rightarrow> scatter_state" where
  \<comment> \<open>thread 0's atomic add, the flag broadcast, and the rows \<open>end\<close> goes on with\<close>
  "pass_gate L c s =
     (let prev_stripes = stripes_done s (fst c);
          is_last = (int prev_stripes = int (sc_gate L) - 1)
      in s\<lparr>stripes_done := (stripes_done s)(fst c := prev_stripes + 1),
           phase := (phase s)(c := Counting is_last
             (if is_last then {m. m < sc_tile_m L \<and> recv_ok L (slot_of L (fst c) m)} else {}) {})\<rparr>)"

definition count_row :: "scatter_launch \<Rightarrow> nat \<times> nat \<Rightarrow> nat \<Rightarrow> bool \<Rightarrow> nat set \<Rightarrow> nat set \<Rightarrow> scatter_state \<Rightarrow> scatter_state" where
  \<comment> \<open>one thread's \<open>atomic_add(rem_ptr, -1)\<close>; on the value 1 it goes on to stamp\<close>
  "count_row L c m b A B s =
     (let r = token L (slot_of L (fst c) m); prev = remaining s r
      in s\<lparr>remaining := (remaining s)(r := prev - 1),
           phase := (phase s)(c := Counting b (A - {m}) (if prev = 1 then insert m B else B)),
           counted := insert (slot_of L (fst c) m) (counted s)\<rparr>)"

definition stamp_row :: "scatter_launch \<Rightarrow> nat \<times> nat \<Rightarrow> nat \<Rightarrow> bool \<Rightarrow> nat set \<Rightarrow> nat set \<Rightarrow> scatter_state \<Rightarrow> scatter_state" where
  \<comment> \<open>\<open>st_release_gpu_global(done_ptr, combine_seq)\<close>\<close>
  "stamp_row L c m b A B s =
     s\<lparr>y_done := (y_done s)(token L (slot_of L (fst c) m) := sc_seq L),
       phase := (phase s)(c := Counting b A (B - {m}))\<rparr>"

inductive scatter_step :: "scatter_launch \<Rightarrow> scatter_state \<Rightarrow> scatter_state \<Rightarrow> bool" for L where
  scatter: "t < sc_tiles L \<Longrightarrow> j < sc_ctas L \<Longrightarrow> phase s (t, j) = Scattering P \<Longrightarrow> m \<in> P \<Longrightarrow>
    scatter_step L s (scatter_row L (t, j) m P s)"
| gate: "t < sc_tiles L \<Longrightarrow> j < sc_ctas L \<Longrightarrow> phase s (t, j) = Scattering {} \<Longrightarrow>
    scatter_step L s (pass_gate L (t, j) s)"
| count: "t < sc_tiles L \<Longrightarrow> j < sc_ctas L \<Longrightarrow> phase s (t, j) = Counting b A B \<Longrightarrow> m \<in> A \<Longrightarrow>
    scatter_step L s (count_row L (t, j) m b A B s)"
| stamp: "t < sc_tiles L \<Longrightarrow> j < sc_ctas L \<Longrightarrow> phase s (t, j) = Counting b A B \<Longrightarrow> m \<in> B \<Longrightarrow>
    scatter_step L s (stamp_row L (t, j) m b A B s)"

inductive scatter_reach :: "scatter_launch \<Rightarrow> scatter_state \<Rightarrow> bool" for L where
  init: "scatter_reach L (scatter_init L)"
| step: "scatter_reach L s \<Longrightarrow> scatter_step L s s' \<Longrightarrow> scatter_reach L s'"

section \<open>The gate\<close>

definition passed :: "scatter_launch \<Rightarrow> scatter_state \<Rightarrow> nat \<Rightarrow> nat set" where
  "passed L s t = {j. j < sc_ctas L \<and> (\<exists>b A B. phase s (t, j) = Counting b A B)}"

definition is_last :: "scatter_state \<Rightarrow> nat \<times> nat \<Rightarrow> bool" where
  "is_last s c \<longleftrightarrow> (\<exists>A B. phase s c = Counting True A B)"

definition gate_inv :: "scatter_launch \<Rightarrow> scatter_state \<Rightarrow> bool" where
  "gate_inv L s \<longleftrightarrow>
     (\<forall>t. stripes_done s t = card (passed L s t)) \<and>
     (\<forall>t j. is_last s (t, j) \<longrightarrow> sc_gate L \<le> stripes_done s t) \<and>
     (\<forall>t j j'. is_last s (t, j) \<longrightarrow> is_last s (t, j') \<longrightarrow> j = j') \<and>
     (\<forall>t. 0 < sc_gate L \<longrightarrow> sc_gate L \<le> stripes_done s t \<longrightarrow> (\<exists>j < sc_ctas L. is_last s (t, j)))"

text \<open>A step that keeps a CTA on its side of the gate keeps the gate's invariant.\<close>

lemma gate_inv_same:
  assumes "gate_inv L s" "stripes_done s' = stripes_done s" "phase s' = (phase s)(c := ph)"
    and "case (phase s c, ph) of (Scattering _, Scattering _) \<Rightarrow> True
       | (Counting b _ _, Counting b' _ _) \<Rightarrow> b = b' | _ \<Rightarrow> False"
  shows "gate_inv L s'"
proof -
  have pas: "passed L s' t = passed L s t" for t
    using assms(3,4) by (cases "phase s c"; cases ph) (auto simp: passed_def)
  have last: "is_last s' c' = is_last s c'" for c'
    using assms(3,4) by (cases "phase s c"; cases ph) (auto simp: is_last_def)
  show ?thesis using assms(1) unfolding gate_inv_def pas last assms(2) .
qed

lemma gate_inv_pass:
  assumes inv: "gate_inv L s" and j: "j < sc_ctas L" and ph: "phase s (t, j) = Scattering {}"
  shows "gate_inv L (pass_gate L (t, j) s)"
proof -
  let ?s = "pass_gate L (t, j) s"
  have fin: "finite (passed L s t')" for t' by (simp add: passed_def)
  have notin: "j \<notin> passed L s t" using ph by (simp add: passed_def)
  have pas: "passed L ?s t' = (if t' = t then insert j (passed L s t) else passed L s t')" for t'
    using j by (auto simp: passed_def pass_gate_def Let_def)
  have str: "stripes_done ?s t' = (if t' = t then Suc (stripes_done s t) else stripes_done s t')" for t'
    by (simp add: pass_gate_def Let_def)
  have last: "is_last ?s (t', j') \<longleftrightarrow>
      (if (t', j') = (t, j) then Suc (stripes_done s t) = sc_gate L else is_last s (t', j'))" for t' j'
    by (auto simp: is_last_def pass_gate_def Let_def)
  show ?thesis unfolding gate_inv_def
  proof (intro conjI allI impI)
    fix t' show "stripes_done ?s t' = card (passed L ?s t')"
      using inv fin notin by (auto simp: gate_inv_def str pas)
  next
    fix t' j' assume "is_last ?s (t', j')"
    then show "sc_gate L \<le> stripes_done ?s t'"
      using inv by (auto simp: gate_inv_def last str split: if_splits intro: le_SucI)
  next
    fix t' j1 j2 assume l: "is_last ?s (t', j1)" "is_last ?s (t', j2)"
    have no: "\<not> is_last s (t, j')" if "Suc (stripes_done s t) = sc_gate L" for j'
      using inv that unfolding gate_inv_def by (metis Suc_n_not_le_n)
    show "j1 = j2"
    proof (cases "t' = t")
      case False
      then show ?thesis using l inv unfolding last gate_inv_def by auto
    next
      case True
      then show ?thesis using l no inv unfolding last gate_inv_def
        by (cases "j1 = j"; cases "j2 = j") auto
    qed
  next
    fix t' assume g: "0 < sc_gate L" "sc_gate L \<le> stripes_done ?s t'"
    show "\<exists>j' < sc_ctas L. is_last ?s (t', j')"
    proof (cases "t' = t \<and> Suc (stripes_done s t) = sc_gate L")
      case True
      then show ?thesis using j last by auto
    next
      case False
      then have "sc_gate L \<le> stripes_done s t'" using g str by (auto split: if_splits)
      then obtain j' where "j' < sc_ctas L" "is_last s (t', j')" using inv g unfolding gate_inv_def by blast
      moreover have "(t', j') \<noteq> (t, j)" using calculation(2) ph by (auto simp: is_last_def)
      ultimately show ?thesis using last by auto
    qed
  qed
qed

lemma gate_inv_reach: "scatter_reach L s \<Longrightarrow> gate_inv L s"
proof (induction rule: scatter_reach.induct)
  case init
  then show ?case by (auto simp: gate_inv_def scatter_init_def passed_def is_last_def)
next
  case (step s s')
  from step(2) show ?case
  proof (cases rule: scatter_step.cases)
    case (scatter t j P m)
    then show ?thesis by (intro gate_inv_same [OF step(3)]) (auto simp: scatter_row_def)
  next
    case (gate t j)
    then show ?thesis using gate_inv_pass [OF step(3)] by simp
  next
    case (count t j b A B m)
    then show ?thesis by (intro gate_inv_same [OF step(3)]) (auto simp: count_row_def Let_def)
  next
    case (stamp t j b A B m)
    then show ?thesis by (intro gate_inv_same [OF step(3)]) (auto simp: stamp_row_def)
  qed
qed

text \<open>Rows a CTA is past have landed.\<close>

definition landed_inv :: "scatter_launch \<Rightarrow> scatter_state \<Rightarrow> bool" where
  "landed_inv L s \<longleftrightarrow> (\<forall>t < sc_tiles L. \<forall>j < sc_ctas L. \<forall>m < sc_tile_m L. recv_ok L (slot_of L t m) \<longrightarrow>
     (slot_of L t m, j) \<in> landed s \<or> (\<exists>P. phase s (t, j) = Scattering P \<and> m \<in> P))"

lemma landed_inv_reach: "scatter_reach L s \<Longrightarrow> landed_inv L s"
proof (induction rule: scatter_reach.induct)
  case init
  then show ?case by (simp add: landed_inv_def scatter_init_def)
next
  case (step s s')
  from step(2) show ?case
  proof (cases rule: scatter_step.cases)
    case (scatter t j P m)
    show ?thesis unfolding landed_inv_def
    proof (intro allI impI)
      fix t' j' m' assume b: "t' < sc_tiles L" "j' < sc_ctas L" "m' < sc_tile_m L" "recv_ok L (slot_of L t' m')"
      then have old: "(slot_of L t' m', j') \<in> landed s \<or> (\<exists>P. phase s (t', j') = Scattering P \<and> m' \<in> P)"
        using step(3) by (simp add: landed_inv_def)
      show "(slot_of L t' m', j') \<in> landed s' \<or> (\<exists>P. phase s' (t', j') = Scattering P \<and> m' \<in> P)"
        using old scatter b by (cases "(t', j') = (t, j)"; cases "m' = m") (auto simp: scatter_row_def)
    qed
  next
    case (gate t j)
    then show ?thesis using step(3)
      by (fastforce simp: landed_inv_def pass_gate_def Let_def)
  next
    case (count t j b A B m)
    then show ?thesis using step(3) by (fastforce simp: landed_inv_def count_row_def Let_def)
  next
    case (stamp t j b A B m)
    then show ?thesis using step(3) by (fastforce simp: landed_inv_def stamp_row_def)
  qed
qed

section \<open>The countdown\<close>

definition rows_of :: "scatter_launch \<Rightarrow> nat \<Rightarrow> nat set" where
  "rows_of L t = {m. m < sc_tile_m L \<and> recv_ok L (slot_of L t m)}"

definition decided :: "scatter_launch \<Rightarrow> scatter_state \<Rightarrow> nat \<Rightarrow> nat \<Rightarrow> bool" where
  "decided L s t m \<longleftrightarrow> (\<exists>j < sc_ctas L. \<exists>A B. phase s (t, j) = Counting True A B \<and> m \<notin> A)"

definition will_stamp :: "scatter_state \<Rightarrow> nat \<times> nat \<Rightarrow> nat \<Rightarrow> bool" where
  "will_stamp s c m \<longleftrightarrow> (\<exists>b A B. phase s c = Counting b A B \<and> m \<in> B)"

definition pending_stamp :: "scatter_launch \<Rightarrow> scatter_state \<Rightarrow> nat \<Rightarrow> bool" where
  "pending_stamp L s r \<longleftrightarrow> (\<exists>t < sc_tiles L. \<exists>j < sc_ctas L. \<exists>m. will_stamp s (t, j) m
     \<and> token L (slot_of L t m) = r)"

lemma slot_of_inject:
  "m < sc_tile_m L \<Longrightarrow> m' < sc_tile_m L \<Longrightarrow> slot_of L t m = slot_of L t' m' \<longleftrightarrow> t = t' \<and> m = m'"
proof
  assume m: "m < sc_tile_m L" "m' < sc_tile_m L" and eq: "slot_of L t m = slot_of L t' m'"
  have "(t * sc_tile_m L + m) div sc_tile_m L = t" "(t' * sc_tile_m L + m') div sc_tile_m L = t'" using m by auto
  then show "t = t' \<and> m = m'" using eq by (auto simp: slot_of_def)
qed simp

lemma slot_of_bound: "t < sc_tiles L \<Longrightarrow> m < sc_tile_m L \<Longrightarrow> slot_of L t m < sc_tiles L * sc_tile_m L"
proof -
  assume t: "t < sc_tiles L" and m: "m < sc_tile_m L"
  have "Suc t * sc_tile_m L \<le> sc_tiles L * sc_tile_m L" using t by (intro mult_le_mono1) simp
  then show ?thesis using m by (simp add: slot_of_def)
qed

lemma slot_cases:
  assumes "s \<in> slots_of L r"
  obtains t m where "t < sc_tiles L" "m \<in> rows_of L t" "s = slot_of L t m"
proof -
  have lt: "s < sc_tiles L * sc_tile_m L" and ok: "recv_ok L s" using assms by (auto simp: slots_of_def)
  then have pos: "0 < sc_tile_m L" by (cases "sc_tile_m L") auto
  show thesis
  proof (rule that)
    show "s div sc_tile_m L < sc_tiles L" using lt by (simp add: less_mult_imp_div_less)
    show "s = slot_of L (s div sc_tile_m L) (s mod sc_tile_m L)" by (simp add: slot_of_def)
    then show "s mod sc_tile_m L \<in> rows_of L (s div sc_tile_m L)"
      using ok pos by (simp add: rows_of_def)
  qed
qed

lemma finite_slots [simp]: "finite (slots_of L r)"
  by (simp add: slots_of_def)

lemma slots_of_slot:
  "t < sc_tiles L \<Longrightarrow> m \<in> rows_of L t \<Longrightarrow> slot_of L t m \<in> slots_of L r \<longleftrightarrow> token L (slot_of L t m) = r"
  using slot_of_bound by (auto simp: slots_of_def rows_of_def)

definition count_inv :: "scatter_launch \<Rightarrow> scatter_state \<Rightarrow> bool" where
  "count_inv L s \<longleftrightarrow>
     (\<forall>t j b A B. phase s (t, j) = Counting b A B \<longrightarrow> A \<subseteq> rows_of L t \<and> B \<subseteq> rows_of L t \<and> (b \<or> A = {} \<and> B = {})) \<and>
     (\<forall>t < sc_tiles L. \<forall>m \<in> rows_of L t. slot_of L t m \<in> counted s \<longleftrightarrow> decided L s t m) \<and>
     (\<forall>r. remaining s r = int (card (slots_of L r - counted s)))"

lemma count_inv_reach: "scatter_reach L s \<Longrightarrow> count_inv L s"
proof (induction rule: scatter_reach.induct)
  case init
  then show ?case by (simp add: count_inv_def scatter_init_def decided_def)
next
  case (step s s')
  have inv1: "\<And>t j b A B. phase s (t, j) = Counting b A B \<Longrightarrow> A \<subseteq> rows_of L t \<and> B \<subseteq> rows_of L t \<and> (b \<or> A = {} \<and> B = {})"
    and inv2: "\<And>t m. t < sc_tiles L \<Longrightarrow> m \<in> rows_of L t \<Longrightarrow> slot_of L t m \<in> counted s \<longleftrightarrow> decided L s t m"
    and inv3: "\<And>r. remaining s r = int (card (slots_of L r - counted s))"
    using step(3) by (auto simp: count_inv_def)
  from step(2) show ?case
  proof (cases rule: scatter_step.cases)
    case (scatter t j P m)
    have "phase s' (t', j') = Counting True A B \<longleftrightarrow> phase s (t', j') = Counting True A B" for t' j' A B
      using scatter by (cases "(t', j') = (t, j)") (auto simp: scatter_row_def)
    then have "decided L s' t' m' \<longleftrightarrow> decided L s t' m'" for t' m' by (simp add: decided_def)
    then show ?thesis using scatter inv1 inv2 inv3 by (auto simp: count_inv_def scatter_row_def)
  next
    case (gate t j)
    have "(\<exists>A B. phase s' (t', j') = Counting True A B \<and> m' \<notin> A)
        \<longleftrightarrow> (\<exists>A B. phase s (t', j') = Counting True A B \<and> m' \<notin> A)" if "m' \<in> rows_of L t'" for t' m' j'
      using gate that by (cases "(t', j') = (t, j)") (auto simp: pass_gate_def Let_def rows_of_def)
    then have "decided L s' t' m' \<longleftrightarrow> decided L s t' m'" if "m' \<in> rows_of L t'" for t' m'
      using that by (simp add: decided_def)
    moreover have "phase s' (t', j') = Counting b A B \<Longrightarrow>
        A \<subseteq> rows_of L t' \<and> B \<subseteq> rows_of L t' \<and> (b \<or> A = {} \<and> B = {})" for t' j' b A B
      using gate inv1 [of t' j' b A B]
      by (auto simp: pass_gate_def Let_def rows_of_def split: if_splits)
    ultimately show ?thesis using gate inv2 inv3 unfolding count_inv_def
      by (auto simp: pass_gate_def Let_def)
  next
    case (count t j b A B m)
    have A: "A \<subseteq> rows_of L t" "B \<subseteq> rows_of L t" and b
      using inv1 [OF count(4)] count(5) by auto
    then have m: "m \<in> rows_of L t" "m < sc_tile_m L" using count by (auto simp: rows_of_def)
    have uniq: "j' = j" if "phase s (t, j') = Counting True A' B'" for j' A' B'
      using gate_inv_reach [OF step(1)] that count \<open>b\<close> unfolding gate_inv_def is_last_def by metis
    obtain B1 where ph: "phase s' = (phase s)((t, j) := Counting True (A - {m}) B1)"
      using count \<open>b\<close> by (auto simp: count_row_def Let_def)
    have "(\<exists>A' B'. phase s' (t', j') = Counting True A' B' \<and> m' \<notin> A')
        \<longleftrightarrow> (\<exists>A' B'. phase s (t', j') = Counting True A' B' \<and> m' \<notin> A') \<or> (t', m', j') = (t, m, j)" for t' m' j'
      using count(4,5) \<open>b\<close> by (cases "(t', j') = (t, j)") (auto simp: ph)
    then have dec: "decided L s' t' m' \<longleftrightarrow> decided L s t' m' \<or> (t', m') = (t, m)" for t' m'
      using count(3) by (auto simp: decided_def)
    have "\<not> decided L s t m" using count uniq by (auto simp: decided_def)
    then have fresh: "slot_of L t m \<notin> counted s" using inv2 count m by blast
    have cnt: "counted s' = insert (slot_of L t m) (counted s)"
      and rem: "remaining s' r = (if r = token L (slot_of L t m) then remaining s r - 1 else remaining s r)" for r
      using count by (simp_all add: count_row_def Let_def)
    have "remaining s' r = int (card (slots_of L r - counted s'))" for r
    proof (cases "r = token L (slot_of L t m)")
      case True
      then have "slot_of L t m \<in> slots_of L r - counted s" using fresh slots_of_slot [OF count(2) m(1)] by simp
      then have "card (slots_of L r - counted s) = Suc (card (slots_of L r - counted s - {slot_of L t m}))"
        by (intro card.remove) auto
      moreover have "slots_of L r - counted s' = slots_of L r - counted s - {slot_of L t m}" using cnt by auto
      ultimately show ?thesis using rem inv3 True by simp
    next
      case False
      then have "slots_of L r - counted s' = slots_of L r - counted s"
        using cnt slots_of_slot [OF count(2) m(1), of r] by auto
      then show ?thesis using rem inv3 False by simp
    qed
    moreover have "slot_of L t' m' \<in> counted s' \<longleftrightarrow> decided L s' t' m'"
      if "t' < sc_tiles L" "m' \<in> rows_of L t'" for t' m'
      using inv2 [OF that] that m(2) slot_of_inject [of m' L m t' t] unfolding cnt dec
      by (auto simp: rows_of_def)
    moreover have "phase s' (t', j') = Counting b' A' B' \<Longrightarrow>
        A' \<subseteq> rows_of L t' \<and> B' \<subseteq> rows_of L t' \<and> (b' \<or> A' = {} \<and> B' = {})" for t' j' b' A' B'
      using count inv1 [of t' j' b' A' B'] A m \<open>b\<close>
      by (auto simp: count_row_def Let_def split: if_splits)
    ultimately show ?thesis unfolding count_inv_def by blast
  next
    case (stamp t j b A B m)
    have "(\<exists>B'. phase s' (t', j') = Counting True A' B') \<longleftrightarrow> (\<exists>B'. phase s (t', j') = Counting True A' B')" for t' j' A'
      using stamp by (cases "(t', j') = (t, j)") (auto simp: stamp_row_def)
    then have "decided L s' t' m' \<longleftrightarrow> decided L s t' m'" for t' m'
      by (simp add: decided_def) 
    moreover have "phase s' (t', j') = Counting b' A' B' \<Longrightarrow>
        A' \<subseteq> rows_of L t' \<and> B' \<subseteq> rows_of L t' \<and> (b' \<or> A' = {} \<and> B' = {})" for t' j' b' A' B'
      using stamp inv1 [of t' j' b' A' B'] inv1 [of t j b A B] by (auto simp: stamp_row_def split: if_splits)
    ultimately show ?thesis using stamp inv2 inv3 unfolding count_inv_def
      by (auto simp: stamp_row_def)
  qed
qed

text \<open>What a stamp, and the decision to stamp, imply.\<close>

definition stamp_inv :: "scatter_launch \<Rightarrow> scatter_state \<Rightarrow> bool" where
  "stamp_inv L s \<longleftrightarrow>
     (\<forall>r. pending_stamp L s r \<longrightarrow> remaining s r = 0) \<and>
     (\<forall>r. y_done s r \<noteq> 0 \<longrightarrow> y_done s r = sc_seq L \<and> remaining s r = 0) \<and>
     (\<forall>r. slots_of L r \<noteq> {} \<and> remaining s r = 0 \<longrightarrow> y_done s r = sc_seq L \<or> pending_stamp L s r)"

lemma pending_stamp_same:
  "(\<And>c m. will_stamp s' c m \<longleftrightarrow> will_stamp s c m) \<Longrightarrow> pending_stamp L s' r \<longleftrightarrow> pending_stamp L s r"
  by (simp add: pending_stamp_def)

lemma stamp_inv_count:
  assumes inv: "stamp_inv L s" and pos: "1 \<le> remaining s tok"
    and c: "t < sc_tiles L" "j < sc_ctas L" "tok = token L (slot_of L t m)"
    and ws: "\<And>c' m'. will_stamp s' c' m' \<longleftrightarrow> will_stamp s c' m' \<or> c' = (t, j) \<and> m' = m \<and> remaining s tok = 1"
    and rem: "remaining s' = (remaining s)(tok := remaining s tok - 1)" and yd: "y_done s' = y_done s"
  shows "stamp_inv L s'"
proof -
  have pend: "pending_stamp L s' r \<longleftrightarrow> pending_stamp L s r \<or> r = tok \<and> remaining s tok = 1" for r
    unfolding pending_stamp_def ws using c by auto
  have "\<not> pending_stamp L s tok" "y_done s tok = 0"
    using inv pos unfolding stamp_inv_def by (metis not_one_le_zero)+
  then show ?thesis using inv pos unfolding stamp_inv_def pend rem yd by auto
qed

lemma stamp_inv_stamp:
  assumes inv: "stamp_inv L s"
    and c: "t < sc_tiles L" "j < sc_ctas L" "tok = token L (slot_of L t m)" "will_stamp s (t, j) m"
    and ws: "\<And>c' m'. will_stamp s' c' m' \<longleftrightarrow> will_stamp s c' m' \<and> \<not> (c' = (t, j) \<and> m' = m)"
    and rem: "remaining s' = remaining s" and yd: "y_done s' = (y_done s)(tok := sc_seq L)"
  shows "stamp_inv L s'"
proof -
  have "pending_stamp L s tok" using c unfolding pending_stamp_def by auto
  then have zero: "remaining s tok = 0" using inv unfolding stamp_inv_def by blast
  have sub: "pending_stamp L s' r \<Longrightarrow> pending_stamp L s r" for r
    unfolding pending_stamp_def ws by blast
  have sup: "pending_stamp L s r \<Longrightarrow> r \<noteq> tok \<Longrightarrow> pending_stamp L s' r" for r
    unfolding pending_stamp_def ws c(3) by auto
  show ?thesis unfolding stamp_inv_def rem yd
  proof (intro conjI allI impI)
    fix r assume "pending_stamp L s' r"
    then show "remaining s r = 0" using sub inv unfolding stamp_inv_def by blast
  next
    fix r assume "((y_done s)(tok := sc_seq L)) r \<noteq> 0"
    then show "((y_done s)(tok := sc_seq L)) r = sc_seq L" "remaining s r = 0"
      using inv zero unfolding stamp_inv_def by (cases "r = tok"; auto)+
  next
    fix r assume "slots_of L r \<noteq> {} \<and> remaining s r = 0"
    then show "((y_done s)(tok := sc_seq L)) r = sc_seq L \<or> pending_stamp L s' r"
      using inv sup [of r] unfolding stamp_inv_def by (cases "r = tok") auto
  qed
qed

lemma stamp_inv_reach: "scatter_reach L s \<Longrightarrow> stamp_inv L s"
proof (induction rule: scatter_reach.induct)
  case init
  have "slots_of L r \<noteq> {} \<Longrightarrow> card (slots_of L r) \<noteq> 0" for r by simp
  then show ?case by (simp add: stamp_inv_def scatter_init_def pending_stamp_def will_stamp_def)
next
  case (step s s')
  from step(2) show ?case
  proof (cases rule: scatter_step.cases)
    case (scatter t j P m)
    have "will_stamp s' c m' \<longleftrightarrow> will_stamp s c m'" for c m'
      using scatter by (cases "c = (t, j)") (auto simp: scatter_row_def will_stamp_def)
    from pending_stamp_same [OF this] show ?thesis
      using step(3) scatter by (simp add: stamp_inv_def scatter_row_def)
  next
    case (gate t j)
    have "will_stamp s' c m' \<longleftrightarrow> will_stamp s c m'" for c m'
      using gate by (cases "c = (t, j)") (auto simp: pass_gate_def Let_def will_stamp_def)
    from pending_stamp_same [OF this] show ?thesis
      using step(3) gate by (simp add: stamp_inv_def pass_gate_def Let_def)
  next
    case (count t j b A B m)
    have "0 \<le> remaining s' (token L (slot_of L t m))"
      using count_inv_reach [OF scatter_reach.step [OF step(1,2)]] by (simp add: count_inv_def)
    then have pos: "1 \<le> remaining s (token L (slot_of L t m))" using count by (simp add: count_row_def Let_def)
    have ws: "will_stamp s' c' m' \<longleftrightarrow> will_stamp s c' m' \<or>
        c' = (t, j) \<and> m' = m \<and> remaining s (token L (slot_of L t m)) = 1" for c' m'
      using count by (cases "c' = (t, j)") (auto simp: count_row_def Let_def will_stamp_def)
    show ?thesis
      by (rule stamp_inv_count [OF step(3) pos count(2,3) refl ws]) (simp_all add: count count_row_def Let_def)
  next
    case (stamp t j b A B m)
    have ws: "will_stamp s' c' m' \<longleftrightarrow> will_stamp s c' m' \<and> \<not> (c' = (t, j) \<and> m' = m)" for c' m'
      using stamp by (cases "c' = (t, j)") (auto simp: stamp_row_def will_stamp_def)
    have "will_stamp s (t, j) m" using stamp by (simp add: will_stamp_def)
    from stamp_inv_stamp [OF step(3) stamp(2,3) refl this ws] show ?thesis
      by (simp add: stamp stamp_row_def)
  qed
qed

section \<open>The launch of kernel Y\<close>

definition y_launch :: "nat \<Rightarrow> nat \<Rightarrow> nat \<Rightarrow> nat \<Rightarrow> nat \<Rightarrow> int list \<Rightarrow> nat \<Rightarrow> int \<Rightarrow> scatter_launch" where
  \<comment> \<open>tiles, \<open>tile_m\<close>, H, \<open>tile_n\<close>, \<open>cluster_n\<close>, receive tokens, \<open>T_recv\<close>, sequence number: the
    scheduler's CTAs per tile against the host's \<open>num_pid_n\<close>\<close>
  "y_launch tiles tile_m H tile_n cl recv T_recv seq =
     (let sched = create_params (get_scheduler_arguments H tile_n (1, cl) tiles [] [] True)
      in \<lparr>sc_tiles = tiles, sc_tile_m = tile_m, sc_ctas = num_pid_n sched * p_cluster_n sched,
          sc_gate = (H + tile_n - 1) div tile_n, sc_recv = recv, sc_T_recv = T_recv, sc_seq = seq\<rparr>)"

lemma y_launch_ctas:
  assumes "0 < cl"
  shows "sc_gate (y_launch tiles tile_m H tile_n cl recv T_recv seq)
      \<le> sc_ctas (y_launch tiles tile_m H tile_n cl recv T_recv seq)"
    and "cl dvd (H + tile_n - 1) div tile_n \<Longrightarrow> sc_ctas (y_launch tiles tile_m H tile_n cl recv T_recv seq)
      = sc_gate (y_launch tiles tile_m H tile_n cl recv T_recv seq)"
  using ceil_div_mult_ge [OF assms, of "ceil_div H tile_n"] ceil_div_dvd [OF assms, of "ceil_div H tile_n"]
  by (simp_all add: y_launch_def create_params_def get_scheduler_arguments_def Let_def
      ceil_div_def [of H tile_n])

lemma stamped_landed:
  assumes reach: "scatter_reach L s" and ctas: "sc_ctas L \<le> sc_gate L" and yd: "y_done s r \<noteq> 0"
    and slot: "s1 \<in> slots_of L r" and j: "j < sc_ctas L"
  shows "(s1, j) \<in> landed s"
proof -
  have cinv: "count_inv L s" and ginv: "gate_inv L s" and linv: "landed_inv L s"
    using count_inv_reach gate_inv_reach landed_inv_reach reach by blast+
  have "remaining s r = 0" using stamp_inv_reach [OF reach] yd by (simp add: stamp_inv_def)
  then have "slots_of L r - counted s = {}" using cinv by (simp add: count_inv_def)
  then have cnt: "s1 \<in> counted s" using slot by blast
  obtain t m where tm: "t < sc_tiles L" "m \<in> rows_of L t" "s1 = slot_of L t m" using slot_cases [OF slot] .
  then have "decided L s t m" using cnt cinv by (simp add: count_inv_def)
  then have "sc_gate L \<le> stripes_done s t"
    using ginv unfolding decided_def gate_inv_def is_last_def by blast
  then have "sc_ctas L \<le> card (passed L s t)" using ginv ctas by (simp add: gate_inv_def)
  moreover have "passed L s t \<subseteq> {..<sc_ctas L}" by (auto simp: passed_def)
  ultimately have "passed L s t = {..<sc_ctas L}" by (intro card_seteq) auto
  then have "j \<in> passed L s t" using j by simp
  then have "\<nexists>P. phase s (t, j) = Scattering P" by (auto simp: passed_def)
  moreover have "m < sc_tile_m L" "recv_ok L (slot_of L t m)" using tm(2) by (auto simp: rows_of_def)
  ultimately show ?thesis using linv tm j unfolding landed_inv_def by blast
qed

definition all_finished :: "scatter_launch \<Rightarrow> scatter_state \<Rightarrow> bool" where
  "all_finished L s \<longleftrightarrow> (\<forall>t < sc_tiles L. \<forall>j < sc_ctas L. \<exists>b. phase s (t, j) = Counting b {} {})"

lemma finished_stamped:
  assumes reach: "scatter_reach L s" and gate: "0 < sc_gate L" "sc_gate L \<le> sc_ctas L"
    and fin: "all_finished L s" and r: "slots_of L r \<noteq> {}"
  shows "y_done s r = sc_seq L"
proof -
  have cinv: "count_inv L s" and ginv: "gate_inv L s" and sinv: "stamp_inv L s"
    using count_inv_reach gate_inv_reach stamp_inv_reach reach by blast+
  have "slots_of L r \<subseteq> counted s"
  proof
    fix s1 assume "s1 \<in> slots_of L r"
    then obtain t m where tm: "t < sc_tiles L" "m \<in> rows_of L t" "s1 = slot_of L t m"
      by (rule slot_cases)
    have "passed L s t = {..<sc_ctas L}" using fin tm(1) by (fastforce simp: passed_def all_finished_def)
    then have "sc_gate L \<le> stripes_done s t" using ginv gate by (simp add: gate_inv_def)
    then obtain j where j: "j < sc_ctas L" "is_last s (t, j)" using ginv gate(1) by (auto simp: gate_inv_def)
    moreover from j fin tm(1) have "phase s (t, j) = Counting True {} {}"
      unfolding is_last_def all_finished_def by (metis cta_phase.inject(2))
    ultimately have "decided L s t m" by (auto simp: decided_def)
    then show "s1 \<in> counted s" using cinv tm by (simp add: count_inv_def)
  qed
  then have "slots_of L r - counted s = {}" by blast
  then have "remaining s r = 0" using cinv by (simp add: count_inv_def)
  moreover have "\<not> pending_stamp L s r"
    using fin unfolding pending_stamp_def will_stamp_def all_finished_def by fastforce
  ultimately show ?thesis using sinv r by (auto simp: stamp_inv_def)
qed

lemma drain_rows:
  "finite P \<Longrightarrow> scatter_reach L s \<Longrightarrow> t < sc_tiles L \<Longrightarrow> j < sc_ctas L \<Longrightarrow> phase s (t, j) = Scattering P \<Longrightarrow>
   \<exists>s'. scatter_reach L s' \<and> phase s' = (phase s)((t, j) := Scattering {}) \<and> stripes_done s' = stripes_done s
     \<and> remaining s' = remaining s \<and> y_done s' = y_done s \<and> landed s' \<subseteq> landed s \<union> UNIV \<times> {j}"
proof (induction P arbitrary: s rule: finite_induct)
  case empty
  then show ?case by (intro exI [of _ s]) auto
next
  case (insert m P)
  let ?s = "scatter_row L (t, j) m (insert m P) s"
  have "scatter_reach L ?s"
    using insert.prems by (intro scatter_reach.step [OF insert.prems(1)] scatter_step.scatter) auto
  moreover have "phase ?s (t, j) = Scattering P" using insert.hyps by (simp add: scatter_row_def)
  ultimately obtain s' where s': "scatter_reach L s'" "phase s' = (phase ?s)((t, j) := Scattering {})"
    "stripes_done s' = stripes_done ?s" "remaining s' = remaining ?s" "y_done s' = y_done ?s"
    "landed s' \<subseteq> landed ?s \<union> UNIV \<times> {j}"
    using insert.IH [of ?s] insert.prems(2,3) by blast
  then show ?case by (intro exI [of _ s']) (auto simp: scatter_row_def split: if_splits)
qed

lemma finish_scatter:
  assumes "scatter_reach L s" "t < sc_tiles L" "j < sc_ctas L" "phase s (t, j) = Scattering {..<sc_tile_m L}"
  obtains s' where "scatter_reach L s'" "phase s' = (phase s)((t, j) := Counting
        (Suc (stripes_done s t) = sc_gate L) (if Suc (stripes_done s t) = sc_gate L then rows_of L t else {}) {})"
    "stripes_done s' = (stripes_done s)(t := Suc (stripes_done s t))" "remaining s' = remaining s"
    "y_done s' = y_done s" "landed s' \<subseteq> landed s \<union> UNIV \<times> {j}"
proof -
  obtain s1 where s1: "scatter_reach L s1" "phase s1 = (phase s)((t, j) := Scattering {})"
    "stripes_done s1 = stripes_done s" "remaining s1 = remaining s" "y_done s1 = y_done s"
    "landed s1 \<subseteq> landed s \<union> UNIV \<times> {j}"
    using drain_rows [OF _ assms] by auto
  have "scatter_reach L (pass_gate L (t, j) s1)"
    using s1 assms by (intro scatter_reach.step [OF s1(1)] scatter_step.gate) auto
  then show thesis
    by (rule that) (use s1 in \<open>auto simp: pass_gate_def Let_def rows_of_def\<close>)
qed

text \<open>A launch of one tile whose first row carries token 0, run without its stripe 0.\<close>

lemma run_single:
  assumes L: "sc_tiles L = 1" "rows_of L 0 = {0}" "token L (slot_of L 0 0) = 0" "0 < sc_tile_m L"
    and reach: "scatter_reach L s" and jL: "j < sc_ctas L"
    and ph: "phase s (0, j) = Scattering {..<sc_tile_m L}" and last: "Suc (stripes_done s 0) = sc_gate L"
    and rem: "remaining s 0 = 1"
  obtains s' where "scatter_reach L s'" "y_done s' 0 = sc_seq L" "landed s' \<subseteq> landed s \<union> UNIV \<times> {j}"
    "\<And>c. c \<noteq> (0, j) \<Longrightarrow> phase s' c = phase s c" "phase s' (0, j) = Counting True {} {}"
proof -
  have t: "0 < sc_tiles L" using L(1) by simp
  obtain s1 where s1: "scatter_reach L s1" "phase s1 = (phase s)((0, j) := Counting True {0} {})"
      "remaining s1 = remaining s" "landed s1 \<subseteq> landed s \<union> UNIV \<times> {j}"
    by (rule finish_scatter [OF reach t jL ph]) (auto simp: last L)
  let ?s2 = "count_row L (0, j) 0 True {0} {} s1"
  have s2: "scatter_reach L ?s2"
    by (intro scatter_reach.step [OF s1(1)] scatter_step.count [OF t jL]) (simp_all add: s1)
  have ph2: "phase ?s2 (0, j) = Counting True {} {0}" by (simp add: count_row_def Let_def s1 L rem)
  let ?s3 = "stamp_row L (0, j) 0 True {} {0} ?s2"
  have "scatter_reach L ?s3"
    by (intro scatter_reach.step [OF s2] scatter_step.stamp [OF t jL]) (simp_all add: ph2)
  then show thesis
    by (rule that) (use s1 in \<open>auto simp: stamp_row_def count_row_def Let_def L\<close>)
qed

definition even_launch :: scatter_launch where
  "even_launch = y_launch 1 128 512 256 2 (0 # replicate 127 (- 1)) 1 7"

definition odd_launch :: scatter_launch where
  "odd_launch = y_launch 1 128 768 256 2 (0 # replicate 127 (- 1)) 1 7"

lemma single_token_rows:
  assumes "sc_tile_m L = 128" "sc_recv L = 0 # replicate 127 (- 1)" "sc_T_recv L = 1" "sc_tiles L = 1"
  shows "rows_of L 0 = {0}" "token L (slot_of L 0 0) = 0" "slots_of L 0 = {0}"
proof -
  have "recv_ok L m \<longleftrightarrow> m = 0" if "m < 128" for m
    using that assms by (cases m) (auto simp: recv_ok_def)
  then show "rows_of L 0 = {0}" "slots_of L 0 = {0}"
    using assms by (auto simp: rows_of_def slot_of_def slots_of_def token_def)
  show "token L (slot_of L 0 0) = 0" using assms by (simp add: token_def slot_of_def)
qed

lemma launch_facts:
  "sc_tile_m even_launch = 128" "sc_recv even_launch = 0 # replicate 127 (- 1)" "sc_T_recv even_launch = 1"
  "sc_tiles even_launch = 1" "sc_ctas even_launch = 2" "sc_gate even_launch = 2" "sc_seq even_launch = 7"
  "sc_tile_m odd_launch = 128" "sc_recv odd_launch = 0 # replicate 127 (- 1)" "sc_T_recv odd_launch = 1"
  "sc_tiles odd_launch = 1" "sc_ctas odd_launch = 4" "sc_gate odd_launch = 3" "sc_seq odd_launch = 7"
  by (simp_all add: even_launch_def odd_launch_def y_launch_def create_params_def get_scheduler_arguments_def
      Let_def ceil_div_def)

lemmas even_rows = single_token_rows [of even_launch, OF launch_facts(1-4)]
lemmas odd_rows = single_token_rows [of odd_launch, OF launch_facts(8-11)]

lemma even_run:
  obtains s where "scatter_reach even_launch s" "y_done s 0 = 7" "all_finished even_launch s"
proof -
  have t: "0 < sc_tiles even_launch" "0 < sc_ctas even_launch" "1 < sc_ctas even_launch" by (simp_all add: launch_facts)
  have init: "phase (scatter_init even_launch) (0, j) = Scattering {..<sc_tile_m even_launch}"
    "stripes_done (scatter_init even_launch) 0 = 0" "remaining (scatter_init even_launch) 0 = 1" for j
    by (simp_all add: scatter_init_def even_rows)
  obtain s1 where s1: "scatter_reach even_launch s1"
    "phase s1 = (phase (scatter_init even_launch))((0, 0) := Counting False {} {})"
    "stripes_done s1 0 = 1" "remaining s1 0 = 1"
    by (rule finish_scatter [OF scatter_reach.init t(1,2) init(1)]) (auto simp: init launch_facts)
  obtain s2 where s2: "scatter_reach even_launch s2" "y_done s2 0 = 7"
      "\<And>c. c \<noteq> (0, 1) \<Longrightarrow> phase s2 c = phase s1 c" "phase s2 (0, 1) = Counting True {} {}"
    by (rule run_single [OF launch_facts(4) even_rows(1,2) _ s1(1) t(3)])
      (auto simp: s1 init launch_facts)
  have "all_finished even_launch s2"
    using s2(3,4) s1(2) by (auto simp: all_finished_def launch_facts less_2_cases_iff)
  then show thesis using that s2(1,2) by blast
qed

section \<open>The properties of the scatter epilogue\<close>

text \<open>C15: a token is stamped only when it is complete: if the cluster width divides the number of
  N-stripes, then whenever \<open>y_done\<close> of a token is set, every one of its local slots has been
  added into its output row in every stripe, whatever the interleaving of CTAs and threads.\<close>

theorem stamped_token_is_complete:
  assumes "L = y_launch tiles tile_m H tile_n cl recv T_recv seq" "0 < cl"
    and "cl dvd (H + tile_n - 1) div tile_n"
    and "scatter_reach L s" "y_done s r \<noteq> 0"
  shows "slots_of L r \<times> {..<(H + tile_n - 1) div tile_n} \<subseteq> landed s \<and> y_done s r = seq"
proof -
  have eq: "sc_ctas L = sc_gate L" using y_launch_ctas(2) [OF assms(2,3)] assms(1) by simp
  have "sc_gate L = (H + tile_n - 1) div tile_n" "sc_seq L = seq"
    using assms(1) by (simp_all add: y_launch_def Let_def)
  then show ?thesis
    using stamped_landed [OF assms(4) _ assms(5)] stamp_inv_reach [OF assms(4)] assms(5) eq
    by (auto simp: stamp_inv_def)
qed

theorem stamped_token_is_complete_witness:
  "\<exists>s. scatter_reach even_launch s \<and> y_done s 0 \<noteq> 0 \<and>
     slots_of even_launch 0 \<times> {..<(512 + 256 - 1) div 256} \<subseteq> landed s \<and> y_done s 0 = 7"
proof -
  obtain s where s: "scatter_reach even_launch s" "y_done s 0 = 7" by (rule even_run)
  have "slots_of even_launch 0 \<times> {..<(512 + 256 - 1) div 256} \<subseteq> landed s \<and> y_done s 0 = 7"
    by (rule stamped_token_is_complete [OF even_launch_def _ _ s(1)]) (simp_all add: s(2))
  then show ?thesis using s by (intro exI [of _ s]) simp
qed

text \<open>C24: no token is forgotten: when all CTAs have finished, every token with a local slot carries
  the stamp of this launch (with or without a partial cluster), so the combine never waits
  for a token that stays unstamped.\<close>

theorem finished_launch_stamps_all:
  assumes "L = y_launch tiles tile_m H tile_n cl recv T_recv seq" "0 < cl" "0 < tile_n" "0 < H"
    and "scatter_reach L s" "all_finished L s" "slots_of L r \<noteq> {}"
  shows "y_done s r = seq"
proof -
  have g: "sc_gate L = (H + tile_n - 1) div tile_n" "sc_seq L = seq"
    using assms(1) by (simp_all add: y_launch_def Let_def)
  then have "0 < sc_gate L" using ceil_div_pos [OF assms(3,4)] by (simp add: ceil_div_def)
  moreover have "sc_gate L \<le> sc_ctas L" using y_launch_ctas(1) [OF assms(2)] assms(1) by simp
  ultimately show ?thesis using finished_stamped [OF assms(5) _ _ assms(6,7)] g by simp
qed

theorem finished_launch_stamps_all_witness:
  "\<exists>s. all_finished even_launch s \<and> y_done s 0 = 7"
proof -
  obtain s where s: "scatter_reach even_launch s" "all_finished even_launch s" by (rule even_run)
  have "y_done s 0 = 7"
    by (rule finished_launch_stamps_all [OF even_launch_def _ _ _ s]) (simp_all add: even_rows)
  then show ?thesis using s by blast
qed

text \<open>C38: with a partial cluster the gate opens early: for H = 768 the defaults give three stripes of
  256, the cluster width 2 of the layer launches a fourth CTA per tile, and its increment lets
  the third arrival pass the gate: a token can be stamped while its first stripe is missing.\<close>

theorem partial_cluster_stamps_early:
  "\<exists>s. scatter_reach odd_launch s \<and> y_done s 0 = sc_seq odd_launch \<and> 0 \<in> slots_of odd_launch 0 \<and> (0, 0) \<notin> landed s"
proof -
  have t: "0 < sc_tiles odd_launch" "1 < sc_ctas odd_launch" "2 < sc_ctas odd_launch" "3 < sc_ctas odd_launch"
    by (simp_all add: launch_facts)
  have init: "phase (scatter_init odd_launch) (0, j) = Scattering {..<sc_tile_m odd_launch}" for j
    by (simp add: scatter_init_def)
  have init': "stripes_done (scatter_init odd_launch) 0 = 0" "remaining (scatter_init odd_launch) 0 = 1"
    "landed (scatter_init odd_launch) = {}"
    by (simp_all add: scatter_init_def odd_rows)
  obtain s1 where s1: "scatter_reach odd_launch s1"
    "phase s1 = (phase (scatter_init odd_launch))((0, 1) := Counting False {} {})"
    "stripes_done s1 0 = 1" "remaining s1 0 = 1" "landed s1 \<subseteq> UNIV \<times> {1}"
    by (rule finish_scatter [OF scatter_reach.init t(1,2) init]) (auto simp: init' launch_facts)
  obtain s2 where s2: "scatter_reach odd_launch s2"
    "phase s2 = (phase s1)((0, 2) := Counting False {} {})"
    "stripes_done s2 0 = 2" "remaining s2 0 = 1" "landed s2 \<subseteq> landed s1 \<union> UNIV \<times> {2}"
    by (rule finish_scatter [OF s1(1) t(1,3)]) (use s1 in \<open>auto simp: init launch_facts\<close>)
  obtain s3 where s3: "scatter_reach odd_launch s3" "y_done s3 0 = sc_seq odd_launch" "landed s3 \<subseteq> landed s2 \<union> UNIV \<times> {3}"
    by (rule run_single [OF launch_facts(11) odd_rows(1,2) _ s2(1) t(4)])
      (use s1 s2 in \<open>auto simp: init launch_facts\<close>)
  have "landed s3 \<subseteq> UNIV \<times> {1, 2, 3}" using s1(5) s2(5) s3(3) by blast
  then have "(0, 0) \<notin> landed s3" by auto
  then show ?thesis using s3(1,2) by (intro exI [of _ s3]) (simp add: odd_rows)
qed

end
