(* ===== verification/Tensor_Meta.thy ===== *)
theory Tensor_Meta
  imports SE_Prelude
begin

text \<open>
  What the host wrappers see of a tensor (shape, dtype, device, contiguity, last stride), and
  the symbolic signatures the kernels are compiled for: every operand is declared with a
  dtype and a list of symbolic dimensions, and a call conforms when one assignment of the
  symbols gives all the actual shapes. Torch's \<open>view\<close> is an argument of the wrappers; what they
  rely on is the documented behaviour \<open>view_ok\<close>.
\<close>

datatype dtype = BF16 | FP16 | FP32 | INT32 | INT64

fun element_size :: "dtype \<Rightarrow> int" where
  "element_size BF16 = 2"
| "element_size FP16 = 2"
| "element_size FP32 = 4"
| "element_size INT32 = 4"
| "element_size INT64 = 8"

record tensor =
  t_shape :: "int list"
  t_dtype :: dtype
  t_cuda :: bool
  t_contiguous :: bool
  t_last_stride :: int

abbreviation "ndim t \<equiv> length (t_shape t)"

definition mk_tensor :: "int list \<Rightarrow> dtype \<Rightarrow> tensor" where
  \<comment> \<open>a fresh CUDA allocation\<close>
  "mk_tensor s d = \<lparr>t_shape = s, t_dtype = d, t_cuda = True, t_contiguous = True, t_last_stride = 1\<rparr>"

lemma mk_tensor_simps [simp]:
  "t_shape (mk_tensor s d) = s" "t_dtype (mk_tensor s d) = d" "t_cuda (mk_tensor s d)"
  "t_contiguous (mk_tensor s d)" "t_last_stride (mk_tensor s d) = 1"
  by (simp_all add: mk_tensor_def)

section \<open>Views\<close>

type_synonym view_fn = "tensor \<Rightarrow> int list \<Rightarrow> tensor py"
type_synonym view_dtype_fn = "tensor \<Rightarrow> dtype \<Rightarrow> tensor py"

text \<open>
  Documented behaviour: a contiguous tensor can be viewed at any shape with the same number of
  elements, and a view that succeeds has the requested shape and the tensor's dtype; a contiguous tensor with unit last stride can be viewed at a wider dtype when its
  last dimension is a multiple of the ratio, and that dimension shrinks by it.
\<close>

definition view_ok :: "view_fn \<Rightarrow> bool" where
  "view_ok view \<longleftrightarrow> (\<forall>t s. t_contiguous t \<longrightarrow> prod_list (t_shape t) = prod_list s \<longrightarrow>
     view t s = Inr (t\<lparr>t_shape := s\<rparr>)) \<and>
     (\<forall>t s t'. view t s = Inr t' \<longrightarrow> t_shape t' = s \<and> t_dtype t' = t_dtype t \<and> t_cuda t' = t_cuda t)"

definition view_dtype_ok :: "view_dtype_fn \<Rightarrow> bool" where
  "view_dtype_ok vd \<longleftrightarrow> (\<forall>t d m n. t_contiguous t \<longrightarrow> t_shape t = [m, n] \<longrightarrow>
     element_size (t_dtype t) dvd element_size d \<longrightarrow>
     n mod (element_size d div element_size (t_dtype t)) = 0 \<longrightarrow>
     vd t d = Inr (t\<lparr>t_shape := [m, n div (element_size d div element_size (t_dtype t))], t_dtype := d\<rparr>)) \<and>
     (\<forall>t d t'. vd t d = Inr t' \<longrightarrow> t_dtype t' = d)"

text \<open>Concrete functions with this behaviour, used in examples.\<close>

definition std_view :: view_fn where
  "std_view t s = (if t_contiguous t \<and> prod_list (t_shape t) = prod_list s then Inr (t\<lparr>t_shape := s\<rparr>)
     else Inl (RuntimeError ''view size is not compatible''))"

definition std_view_dtype :: view_dtype_fn where
  "std_view_dtype t d = (let r = element_size d div element_size (t_dtype t) in
     if t_contiguous t \<and> ndim t = 2 \<and> element_size (t_dtype t) dvd element_size d \<and> t_shape t ! 1 mod r = 0
     then Inr (t\<lparr>t_shape := [t_shape t ! 0, t_shape t ! 1 div r], t_dtype := d\<rparr>)
     else Inl (RuntimeError ''view dtype''))"

lemma std_view_ok: "view_ok std_view"
  by (auto simp: view_ok_def std_view_def split: if_splits)

lemma std_view_dtype_ok: "view_dtype_ok std_view_dtype"
  by (auto simp: view_dtype_ok_def std_view_dtype_def Let_def split: if_splits)

section \<open>Symbolic signatures\<close>

record fake_tensor =
  f_dtype :: dtype
  f_dims :: "string list"
  f_leading :: "nat option"
  f_divisibility :: int

definition fake :: "dtype \<Rightarrow> string list \<Rightarrow> nat option \<Rightarrow> int \<Rightarrow> fake_tensor" where
  "fake d dims leading dv = \<lparr>f_dtype = d, f_dims = dims, f_leading = leading, f_divisibility = dv\<rparr>"

fun bind_dims :: "string list \<Rightarrow> int list \<Rightarrow> (string \<rightharpoonup> int) \<Rightarrow> (string \<rightharpoonup> int) option" where
  "bind_dims [] [] env = Some env"
| "bind_dims (d # ds) (n # ns) env =
     (case env d of
        None \<Rightarrow> bind_dims ds ns (env(d \<mapsto> n))
      | Some m \<Rightarrow> if m = n then bind_dims ds ns env else None)"
| "bind_dims _ _ env = None"

fun bind_args :: "(fake_tensor \<times> tensor) list \<Rightarrow> (string \<rightharpoonup> int) \<Rightarrow> (string \<rightharpoonup> int) option" where
  "bind_args [] env = Some env"
| "bind_args ((f, t) # xs) env =
     (if f_dtype f = t_dtype t then
        (case bind_dims (f_dims f) (t_shape t) env of None \<Rightarrow> None | Some env' \<Rightarrow> bind_args xs env')
      else None)"

text \<open>A call with these actual tensors fits the compiled signature.\<close>

definition conforms :: "(string \<times> fake_tensor) list \<Rightarrow> (string \<times> tensor) list \<Rightarrow> bool" where
  "conforms spec args \<longleftrightarrow> map fst spec = map fst args
     \<and> bind_args (zip (map snd spec) (map snd args)) Map.empty \<noteq> None"

definition agrees :: "(string \<Rightarrow> int) \<Rightarrow> (string \<rightharpoonup> int) \<Rightarrow> bool" where
  "agrees g env \<longleftrightarrow> (\<forall>d n. env d = Some n \<longrightarrow> g d = n)"

lemma bind_dims_iff:
  "agrees g env \<Longrightarrow> map g ds = ns \<Longrightarrow> \<exists>env'. bind_dims ds ns env = Some env' \<and> agrees g env'"
proof (induction ds ns env rule: bind_dims.induct)
  case (2 d ds n ns env)
  show ?case
  proof (cases "env d")
    case None
    have "agrees g (env(d \<mapsto> n))" using "2.prems" by (auto simp: agrees_def)
    then show ?thesis using "2.IH"(1) [OF None] "2.prems" None by (auto simp: fun_upd_def)
  next
    case (Some m)
    then have "m = n" using "2.prems" by (auto simp: agrees_def)
    then show ?thesis using "2.IH"(2) [OF Some] "2.prems" Some by auto
  qed
qed auto

lemma bind_args_assignment:
  "agrees g env \<Longrightarrow> \<forall>(f, t) \<in> set xs. f_dtype f = t_dtype t \<and> map g (f_dims f) = t_shape t \<Longrightarrow>
   bind_args xs env \<noteq> None"
proof (induction xs arbitrary: env)
  case (Cons x xs)
  obtain f t where x: "x = (f, t)" by (cases x)
  have ft: "f_dtype f = t_dtype t" "map g (f_dims f) = t_shape t" using Cons.prems(2) by (auto simp: x)
  obtain env' where "bind_dims (f_dims f) (t_shape t) env = Some env'" "agrees g env'"
    using bind_dims_iff [OF Cons.prems(1) ft(2)] by blast
  then show ?case using Cons.IH [of env'] Cons.prems(2) ft(1) by (auto simp: x)
qed simp

text \<open>One assignment of the symbols is enough for a call to conform.\<close>

lemma conforms_by_assignment:
  assumes "map fst spec = map fst args"
    and "\<forall>(f, t) \<in> set (zip (map snd spec) (map snd args)). f_dtype f = t_dtype t \<and> map g (f_dims f) = t_shape t"
  shows "conforms spec args"
  using bind_args_assignment [of g Map.empty] assms by (simp add: conforms_def agrees_def)

end
