(* ===== verification/Smem_Stages.thy ===== *)
theory Smem_Stages
  imports SE_Prelude
begin

text \<open>
  How kernel Y's backward divides its shared memory into pipeline stages:
  \<open>StreamingMoeYBwd._compute_stages\<close> of \<^verbatim>\<open>kernel_y_bwd.py\<close>, called while the kernel is compiled. What
  quack hands it (epilogue tile, operand widths, bytes of the epilogue operands, capacity and occupancy)
  is the record \<open>stage_request\<close>.
\<close>

section \<open>Pipeline stages within the shared-memory budget\<close>

definition AB_STAGE_TARGET :: int where "AB_STAGE_TARGET = 4"
definition EPI_C_STAGE_TARGET :: int where "EPI_C_STAGE_TARGET = 2"

text \<open>Bytes of the epilogue operands, as quack reports them.\<close>

record epi_smem =
  unstaged :: int
  d_stage :: int
  c_stage :: int

record stage_request =
  rq_tile :: "int \<times> int \<times> int"       \<comment> \<open>\<open>cta_tile_shape_mnk\<close>\<close>
  rq_epi_elems :: int               \<comment> \<open>\<open>cute.size(cute.shape(epi_tile))\<close>\<close>
  rq_a_width :: int
  rq_b_width :: int
  rq_d_width :: "int option"
  rq_c_width :: "int option"
  rq_epi :: epi_smem
  rq_capacity :: int
  rq_occupancy :: int
  rq_a_override :: "int option"
  rq_ab_extra :: int

definition epi_bytes_per_stage :: "stage_request \<Rightarrow> int" where
  "epi_bytes_per_stage r =
     (case rq_d_width r of None \<Rightarrow> 0 | Some w \<Rightarrow> rq_epi_elems r * w div 8) + d_stage (rq_epi r)"

definition fixed_bytes :: "stage_request \<Rightarrow> int" where
  "fixed_bytes r = unstaged (rq_epi r)
     + (case rq_c_width r of None \<Rightarrow> 0 | Some w \<Rightarrow> rq_epi_elems r * w div 8 * EPI_C_STAGE_TARGET)
     + (if c_stage (rq_epi r) > 0 then c_stage (rq_epi r) * EPI_C_STAGE_TARGET else 0)"

definition ab_bytes_per_stage :: "stage_request \<Rightarrow> int" where
  "ab_bytes_per_stage r = (case rq_tile r of (m, n, k) \<Rightarrow>
     (case rq_a_override r of None \<Rightarrow> m * k * rq_a_width r div 8 | Some b \<Rightarrow> b)
       + n * k * rq_b_width r div 8 + rq_ab_extra r)"

definition align_pad_bytes :: "stage_request \<Rightarrow> int" where
  "align_pad_bytes r =
     (let op = unstaged (rq_epi r) + d_stage (rq_epi r) + c_stage (rq_epi r)
      in (if op \<noteq> 0 then 1024 else 0) + (if rq_ab_extra r mod 1024 \<noteq> 0 then 1024 else 0))"

definition compute_stages :: "stage_request \<Rightarrow> (int \<times> int \<times> int) py" where
  "compute_stages r =
     py_bind (py_floordiv (rq_capacity r) (rq_occupancy r)) (\<lambda>budget.
     let epi_budget = budget - 1024 - align_pad_bytes r - fixed_bytes r - ab_bytes_per_stage r * AB_STAGE_TARGET;
         epi_stage = (if epi_bytes_per_stage r > 0 then epi_budget div epi_bytes_per_stage r else 1)
     in if epi_stage < 1 then Inl (ValueError ''shrink tile_n_y_bwd'')
        else Inr (AB_STAGE_TARGET, epi_stage, EPI_C_STAGE_TARGET))"

text \<open>The shared memory a choice of stages takes: the whole struct of the parent class.\<close>

definition smem_of_stages :: "stage_request \<Rightarrow> int \<Rightarrow> int" where
  "smem_of_stages r s = 1024 + align_pad_bytes r + fixed_bytes r + ab_bytes_per_stage r * 4 + epi_bytes_per_stage r * s"

lemma floor_div_fits: "0 < (b::int) \<Longrightarrow> s \<le> x div b \<longleftrightarrow> b * s \<le> x"
proof
  assume b: "0 < b" and "s \<le> x div b"
  then have "b * s \<le> b * (x div b)" by simp
  also have "\<dots> = x - x mod b" by (rule minus_mod_eq_mult_div [symmetric])
  also have "\<dots> \<le> x" using b by simp
  finally show "b * s \<le> x" .
next
  assume b: "0 < b" and "b * s \<le> x"
  then have "b * s div b \<le> x div b" by (intro zdiv_mono1)
  then show "s \<le> x div b" using b by simp
qed

text \<open>When the epilogue stages something, \<open>_compute_stages\<close> answers with four operand stages, two
  C stages and the largest number of epilogue stages, at least one, that fits the per-CTA budget;
  it raises \<open>ValueError\<close> exactly when not even one fits.\<close>

lemma compute_stages_maximal:
  assumes "0 < rq_occupancy r" "0 < epi_bytes_per_stage r"
  shows "case compute_stages r of
      Inr (ab, epi, epi_c) \<Rightarrow> ab = 4 \<and> epi_c = 2 \<and> 1 \<le> epi \<and>
        smem_of_stages r epi \<le> rq_capacity r div rq_occupancy r \<and>
        rq_capacity r div rq_occupancy r < smem_of_stages r (epi + 1)
    | Inl err \<Rightarrow> err = ValueError ''shrink tile_n_y_bwd'' \<and>
        rq_capacity r div rq_occupancy r < smem_of_stages r 1"
proof -
  let ?B = "rq_capacity r div rq_occupancy r" and ?e = "epi_bytes_per_stage r"
  let ?x = "?B - 1024 - align_pad_bytes r - fixed_bytes r - ab_bytes_per_stage r * 4"
  have fits: "smem_of_stages r s \<le> ?B \<longleftrightarrow> s \<le> ?x div ?e" for s
    unfolding floor_div_fits [OF assms(2)] smem_of_stages_def by (auto simp: algebra_simps)
  show ?thesis
    using assms fits [of "?x div ?e"] fits [of "?x div ?e + 1"] fits [of 1]
    by (auto simp: compute_stages_def py_floordiv_def Let_def AB_STAGE_TARGET_def EPI_C_STAGE_TARGET_def)
qed

text \<open>Tiles of 128 rows and 64 columns of depth with 16-bit operands and a 128 x 32 epilogue tile on the 227 KB of an
  H100: 192 output columns fit with one epilogue stage, 256 do not.\<close>

definition demo_request :: "int \<times> int \<Rightarrow> stage_request" where
  "demo_request tile = \<lparr>rq_tile = (fst tile, snd tile, 64), rq_epi_elems = fst tile * 32, rq_a_width = 16, rq_b_width = 16,
     rq_d_width = Some 32, rq_c_width = Some 32,
     rq_epi = \<lparr>unstaged = 2048, d_stage = 8192, c_stage = 0\<rparr>, rq_capacity = 232448, rq_occupancy = 1,
     rq_a_override = None, rq_ab_extra = 0\<rparr>"

lemma demo_request_stages: "compute_stages (demo_request (128, 192)) = Inr (4, 1, 2)"
    "compute_stages (demo_request (128, 128)) = Inr (4, 2, 2)"
    "compute_stages (demo_request (128, 256)) = Inl (ValueError ''shrink tile_n_y_bwd'')"
  by code_simp+

end
