(* ===== verification/Kernel_Launch.thy ===== *)
theory Kernel_Launch
  imports Tensor_Meta Tile_Config Smem_Stages Expert_Dropout Scatter_Epilogue
begin

text \<open>
  The forward launches: \<open>_compile_streaming_moe_a\<close>, \<open>streaming_moe_a\<close> of
  \<^verbatim>\<open>kernel_a.py\<close> and \<open>_compile_streaming_moe_y\<close>, \<open>streaming_moe_y\<close> of
  \<^verbatim>\<open>kernel_y.py\<close>: the signature each kernel is compiled for, the wrapper's checks in source
  order, and the arguments it launches with.
\<close>

section \<open>What every launch has\<close>

text \<open>The device and what quack does (arguments of the model): building a GEMM for a tile and a cluster may raise,
  and so may its grouped GEMM; quack hands kernel Y's backward a request for shared memory.\<close>

datatype gemm_class = GemmA | GemmY | GemmYBwd | GemmABwd
  | GroupedGemm bool                       \<comment> \<open>\<open>gemm(...)\<close>, with or without \<open>pingpong\<close>\<close>

record env =
  capability :: int                          \<comment> \<open>\<open>get_device_capacity(device)[0]\<close>\<close>
  max_clusters :: "int \<Rightarrow> int"               \<comment> \<open>\<open>get_max_active_clusters\<close>\<close>
  gate_fns :: "string list"                  \<comment> \<open>keys of \<open>gate_fn_map\<close>\<close>
  view :: view_fn
  view_dtype :: view_dtype_fn
  gemm_new :: "gemm_class \<Rightarrow> int \<times> int \<Rightarrow> int \<times> int \<Rightarrow> unit py"  \<comment> \<open>quack builds the class for a tile and a cluster\<close>
  y_bwd_smem :: "dtype \<Rightarrow> dtype \<Rightarrow> dtype \<Rightarrow> int \<times> int \<Rightarrow> stage_request"
    \<comment> \<open>what quack passes to \<open>_compute_stages\<close>\<close>

definition assert_divides :: "int \<Rightarrow> int \<Rightarrow> string \<Rightarrow> unit py" where
  \<comment> \<open>\<open>assert N % tile_n == 0\<close>\<close>
  "assert_divides tile N msg = py_bind (py_mod N tile) (\<lambda>r. asserts [(r = 0, msg)])"

lemma assert_divides_ok [host_simps]: "assert_divides tile N msg = Inr u \<longleftrightarrow> tile \<noteq> 0 \<and> tile dvd N"
  by (auto simp: assert_divides_def py_mod_def dvd_eq_mod_eq_0 asserts_ok_iff)

definition grid_cap :: "env \<Rightarrow> int \<Rightarrow> int \<Rightarrow> int option \<Rightarrow> int py" where
  \<comment> \<open>\<open>max_active_clusters\<close>, capped by \<open>num_sms\<close>\<close>
  "grid_cap e cm cn num_sms =
     (let mac = max_clusters e (cm * cn)
      in case num_sms of None \<Rightarrow> Inr mac
         | Some n \<Rightarrow> py_bind (py_floordiv n (cm * cn)) (\<lambda>q. Inr (min mac q)))"

record signature =
  sig_tile :: "int \<times> int"
  sig_cluster :: "int \<times> int"
  sig_b_transposed :: bool
  sig_args :: "(string \<times> fake_tensor) list"
  sig_activation :: "string option"
  sig_dropout :: "pyfloat option"       \<comment> \<open>the rate whose mask is compiled in\<close>
  sig_threshold :: int
  sig_started :: bool
  sig_implicit :: "dtype option"      \<comment> \<open>16-bit type packed in 32-bit operands\<close>

record launch =
  l_sig :: signature
  l_args :: "(string \<times> tensor) list"
  l_max_active :: int
  l_total_tiles :: int
  l_T_recv :: int
  l_seq :: int
  l_num_pid_n :: int
  l_seed :: "int option"

definition int32 :: "string \<Rightarrow> fake_tensor" where "int32 d = fake INT32 [d] None 1"

text \<open>The scheduler's operands, common to all four kernels.\<close>

definition sched_fakes :: "(string \<times> fake_tensor) list" where
  "sched_fakes = [(''consumer_head'', int32 ''head''), (''pool_arrival_count'', int32 ''total_tiles''),
     (''pool_arrival_target'', int32 ''total_tiles''),
     (''expert_pool_block_offset'', int32 ''cu_seqlens_len''), (''mCuSeqlensM'', fake INT32 [''cu_seqlens_len''] (Some 0) 1)]"

definition consumer_head_tensor :: tensor where "consumer_head_tensor = mk_tensor [1] INT32"

definition sched_tensors :: "tensor \<Rightarrow> tensor \<Rightarrow> tensor \<Rightarrow> (string \<times> tensor) list" where
  \<comment> \<open>the counter is allocated by the wrapper; \<open>cu_seqlens_m = (offset.to(int32) * tile_m).contiguous()\<close>\<close>
  "sched_tensors count target off =
     [(''consumer_head'', consumer_head_tensor), (''pool_arrival_count'', count),
      (''pool_arrival_target'', target), (''expert_pool_block_offset'', off),
      (''mCuSeqlensM'', mk_tensor (t_shape off) INT32)]"

definition started_or_fresh :: "tensor option \<Rightarrow> tensor py" where
  "started_or_fresh flag =
     (let t = (case flag of None \<Rightarrow> mk_tensor [1] INT32 | Some t \<Rightarrow> t)
      in py_bind (asserts [(t_shape t = [1] \<and> t_dtype t = INT32, ''started_flag'')]) (\<lambda>_. Inr t))"

definition gt_zero :: "pyfloat \<Rightarrow> bool" where
  \<comment> \<open>\<open>dropout_p > 0\<close>: false on NaN\<close>
  "gt_zero p = (case p of Fin x \<Rightarrow> 0 < x | PInf \<Rightarrow> True | NInf \<Rightarrow> False | NaN \<Rightarrow> False)"

section \<open>Kernel A\<close>

definition compile_streaming_moe_a ::
  "env \<Rightarrow> dtype \<Rightarrow> dtype \<Rightarrow> dtype \<Rightarrow> int \<times> int \<Rightarrow> int \<times> int \<Rightarrow> string \<Rightarrow> bool \<Rightarrow> pyfloat \<Rightarrow> signature py" where
  "compile_streaming_moe_a e a_dtype b_dtype postact_dtype tile cluster activation store_preact dropout_p =
     py_bind (asserts [(capability e = 9, ''SM90-only''), (activation \<in> set (gate_fns e), ''Need a gated activation'')]) (\<lambda>_.
     py_bind (gemm_new e GemmA tile cluster) (\<lambda>_.
     py_bind (keep_threshold dropout_p) (\<lambda>thr.
     Inr \<lparr>sig_tile = tile, sig_cluster = cluster, sig_b_transposed = False,
       sig_args = [(''mA'', fake a_dtype [''TK_padded'', ''H''] (Some 1) 8),
                   (''mB'', fake b_dtype [''E'', ''I2'', ''H''] (Some 2) 8)]
         @ (if store_preact then [(''mD'', fake postact_dtype [''Mflat'', ''I2''] (Some 1) 8)] else [])
         @ [(''mAuxOut'', fake postact_dtype [''Mflat'', ''I''] (Some 1) 8)] @ sched_fakes,
       sig_activation = Some activation, sig_dropout = (if gt_zero dropout_p then Some dropout_p else None),
       sig_threshold = thr, sig_started = False, sig_implicit = None\<rparr>)))"

definition streaming_moe_a ::
  "env \<Rightarrow> tensor \<Rightarrow> tensor \<Rightarrow> tensor \<Rightarrow> tensor \<Rightarrow> tensor \<Rightarrow> tensor \<Rightarrow> tensor option \<Rightarrow> int \<times> int \<Rightarrow> int \<times> int
    \<Rightarrow> string \<Rightarrow> int option \<Rightarrow> pyfloat \<Rightarrow> int option \<Rightarrow> launch py" where
  "streaming_moe_a e pool W1 postact_a off count target preact_a tile cluster activation num_sms dropout_p dropout_seed =
    (let tile_m = fst tile; tile_n = snd tile;
         total_tiles = t_shape postact_a ! 0; I = t_shape postact_a ! 2;
         H = t_shape pool ! 1; E_local = t_shape W1 ! 0; two_I = t_shape W1 ! 1
     in
     py_bind (asserts
      [(t_cuda pool \<and> t_cuda W1 \<and> t_cuda postact_a, ''is_cuda''),
       (ndim pool = 2 \<and> t_contiguous pool, ''pool''), (ndim W1 = 3, ''W1.dim''), (ndim postact_a = 3, ''postact_a.dim''),
       (t_shape postact_a ! 1 = tile_m, ''postact_tile_m''),
       (t_shape count = [total_tiles] \<and> t_dtype count = INT32, ''pool_arrival_count''),
       (t_shape target = [total_tiles] \<and> t_dtype target = INT32, ''pool_arrival_target''),
       (E_local \<le> int MAX_LOCAL_EXPERTS, ''local experts''), (t_shape off = [E_local + 1], ''expert_pool_block_offset''),
       (t_shape W1 ! 1 = 2 * I, ''W1 dim 1''), (t_shape W1 ! 2 = H, ''W1 dim 2'')]) (\<lambda>_.
     py_bind (assert_divides tile_n two_I ''tile_n must divide 2I'') (\<lambda>_.
     py_bind (assert_divides tile_n I ''tile_n must divide I'') (\<lambda>_.
     py_bind (asserts (case preact_a of None \<Rightarrow> []
       | Some p \<Rightarrow> [(t_cuda p \<and> ndim p = 3, ''preact_a''), (t_shape p = [total_tiles, tile_m, two_I], ''preact_a shape''),
                    (t_dtype p = t_dtype postact_a, ''preact_a dtype'')])) (\<lambda>_.
     py_bind (asserts [(t_last_stride W1 = 1, ''W1 H-contiguous''), (t_shape W1 = [E_local, two_I, H], ''W1 shape'')]) (\<lambda>_.
     py_bind (view e postact_a [total_tiles * tile_m, I]) (\<lambda>postact_flat.
     py_bind (case preact_a of None \<Rightarrow> Inr []
       | Some p \<Rightarrow> py_bind (view e p [total_tiles * tile_m, two_I]) (\<lambda>t. Inr [(''mD'', t)])) (\<lambda>preact_flat.
     py_bind (asserts [(capability e = 9, ''SM90-only'')]) (\<lambda>_.
     py_bind (compile_streaming_moe_a e (t_dtype pool) (t_dtype W1) (t_dtype postact_a) tile cluster activation
        (preact_a \<noteq> None) dropout_p) (\<lambda>sg.
     py_bind (grid_cap e (fst cluster) (snd cluster) num_sms) (\<lambda>mac.
     py_bind (asserts (if gt_zero dropout_p then [(dropout_seed \<noteq> None, ''dropout_p > 0 needs a dropout_seed'')] else [])) (\<lambda>_.
     Inr \<lparr>l_sig = sg,
       l_args = [(''mA'', pool), (''mB'', W1)] @ preact_flat @ [(''mAuxOut'', postact_flat)] @ sched_tensors count target off,
       l_max_active = mac, l_total_tiles = total_tiles, l_T_recv = 0, l_seq = 0, l_num_pid_n = 0,
       l_seed = (if gt_zero dropout_p then dropout_seed else None)\<rparr>))))))))))))"

section \<open>Kernel Y\<close>

definition scatter_fakes :: "dtype \<Rightarrow> (string \<times> fake_tensor) list" where
  "scatter_fakes o_dtype =
     [(''mO'', fake o_dtype [''T_recv'', ''H''] (Some 1) 8), (''pool_recv_token'', fake INT32 [''TK_padded''] (Some 0) 1),
      (''k_local_remaining'', fake INT32 [''T_rem''] (Some 0) 1), (''y_done_per_token'', fake INT64 [''T_done''] (Some 0) 1),
      (''tile_n_stripes_done'', fake INT32 [''total_tiles''] (Some 0) 1),
      (''expert_pool_block_offset_scatter'', fake INT32 [''cu_seqlens_len''] (Some 0) 1)]"

definition scatter_tensors :: "tensor \<Rightarrow> tensor \<Rightarrow> tensor \<Rightarrow> tensor \<Rightarrow> int \<Rightarrow> tensor \<Rightarrow> (string \<times> tensor) list" where
  "scatter_tensors out recv_token remaining_t done_t tiles off =
     [(''mO'', out), (''pool_recv_token'', recv_token), (''k_local_remaining'', remaining_t),
      (''y_done_per_token'', done_t), (''tile_n_stripes_done'', mk_tensor [tiles] INT32),
      (''expert_pool_block_offset_scatter'', off)]"

definition compile_streaming_moe_y ::
  "env \<Rightarrow> dtype \<Rightarrow> dtype \<Rightarrow> dtype \<Rightarrow> int \<times> int \<Rightarrow> int \<times> int \<Rightarrow> signature py" where
  "compile_streaming_moe_y e a_dtype b_dtype o_dtype tile cluster =
     py_bind (asserts [(capability e = 9, ''SM90-only'')]) (\<lambda>_.
     py_bind (gemm_new e GemmY tile cluster) (\<lambda>_.
     Inr \<lparr>sig_tile = tile, sig_cluster = cluster, sig_b_transposed = False,
       sig_args = [(''mA'', fake a_dtype [''TK_padded'', ''I''] (Some 1) 8),
                   (''mB'', fake b_dtype [''E'', ''H'', ''I''] (Some 2) 8)]
         @ scatter_fakes o_dtype @ [(''mColVecBroadcast'', fake FP32 [''TK_padded''] (Some 0) 1)]
         @ sched_fakes @ [(''started_flag'', int32 ''flag'')],
       sig_activation = None, sig_dropout = None, sig_threshold = 0, sig_started = True, sig_implicit = None\<rparr>))"

definition streaming_moe_y ::
  "env \<Rightarrow> tensor \<Rightarrow> tensor \<Rightarrow> tensor \<Rightarrow> tensor \<Rightarrow> tensor \<Rightarrow> tensor \<Rightarrow> tensor \<Rightarrow> tensor \<Rightarrow> tensor \<Rightarrow> tensor \<Rightarrow> int
    \<Rightarrow> tensor option \<Rightarrow> int \<times> int \<Rightarrow> int \<times> int \<Rightarrow> int option \<Rightarrow> launch py" where
  "streaming_moe_y e postact_a W2 out recv_token topk_weight remaining_t done_t off count target combine_seq
     flag_opt tile cluster num_sms =
    (let tile_m = fst tile; tile_n = snd tile;
         total_tiles = t_shape postact_a ! 0; I = t_shape postact_a ! 2;
         T_recv = t_shape out ! 0; H = t_shape out ! 1; E_local = t_shape W2 ! 0
     in
     py_bind (asserts
      [(t_cuda postact_a \<and> t_cuda W2 \<and> t_cuda out, ''is_cuda''), (ndim postact_a = 3, ''postact_a.dim''),
       (ndim W2 = 3, ''W2.dim''), (ndim out = 2, ''o.dim''), (t_shape postact_a ! 1 = tile_m, ''postact_tile_m''),
       (E_local \<le> int MAX_LOCAL_EXPERTS, ''local experts''), (t_shape W2 = [E_local, H, I], ''W2 shape'')]) (\<lambda>_.
     py_bind (assert_divides tile_n H ''tile_n must divide H'') (\<lambda>_.
     py_bind (asserts
      [(t_shape recv_token = [total_tiles * tile_m], ''pool_recv_token''), (t_dtype recv_token = INT32, ''pool_recv_token dtype''),
       (t_shape topk_weight = [total_tiles * tile_m], ''pool_topk_weight''), (t_dtype topk_weight = FP32, ''pool_topk_weight dtype''),
       (t_shape remaining_t = [T_recv], ''k_local_remaining''), (t_dtype remaining_t = INT32, ''k_local_remaining dtype''),
       (t_shape done_t = [T_recv], ''y_done_per_token''), (t_dtype done_t = INT64, ''y_done_per_token dtype''),
       (t_shape off = [E_local + 1], ''expert_pool_block_offset''),
       (t_shape count = [total_tiles], ''pool_arrival_count''), (t_dtype count = INT32, ''pool_arrival_count dtype''),
       (t_shape target = [total_tiles], ''pool_arrival_target''), (t_dtype target = INT32, ''pool_arrival_target dtype''),
       (t_last_stride W2 = 1, ''W2 I-contiguous''), (t_shape W2 = [E_local, H, I], ''W2 shape'')]) (\<lambda>_.
     py_bind (view e postact_a [total_tiles * tile_m, I]) (\<lambda>postact_flat.
     py_bind (asserts [(capability e = 9, ''SM90-only'')]) (\<lambda>_.
     py_bind (compile_streaming_moe_y e (t_dtype postact_a) (t_dtype W2) (t_dtype out) tile cluster) (\<lambda>sg.
     py_bind (grid_cap e (fst cluster) (snd cluster) num_sms) (\<lambda>mac.
     py_bind (started_or_fresh flag_opt) (\<lambda>flag.
     Inr \<lparr>l_sig = sg,
       l_args = [(''mA'', postact_flat), (''mB'', W2)] @ scatter_tensors out recv_token remaining_t done_t total_tiles off
         @ [(''mColVecBroadcast'', topk_weight)] @ sched_tensors count target off @ [(''started_flag'', flag)],
       l_max_active = mac, l_total_tiles = total_tiles, l_T_recv = T_recv, l_seq = combine_seq,
       l_num_pid_n = (H + tile_n - 1) div tile_n, l_seed = None\<rparr>)))))))))"

section \<open>The launched arguments fit the compiled signature\<close>

definition assign :: "(string \<times> int) list \<Rightarrow> string \<Rightarrow> int" where
  "assign m d = the (map_of m d)"

lemma list_of_length: "length xs = 2 \<Longrightarrow> xs = [xs ! 0, xs ! 1]" "length xs = 3 \<Longrightarrow> xs = [xs ! 0, xs ! 1, xs ! 2]"
  by (auto simp: length_Suc_conv numeral_2_eq_2 numeral_3_eq_3)

lemma view_shape: "view_ok v \<Longrightarrow> v t s = Inr t' \<Longrightarrow> t_shape t' = s \<and> t_dtype t' = t_dtype t"
  by (auto simp: view_ok_def)

lemma started_or_fresh_ok: "started_or_fresh f = Inr t \<Longrightarrow> t_shape t = [1] \<and> t_dtype t = INT32"
  by (auto simp: started_or_fresh_def Let_def py_bind_Inr_iff asserts_ok_iff split: option.splits)

lemmas sig_defs = fake_def int32_def sched_fakes_def sched_tensors_def consumer_head_tensor_def
  scatter_fakes_def scatter_tensors_def assign_def

lemma compile_a_sig:
  "compile_streaming_moe_a e ad bd pd tile cluster actv sp p = Inr sg \<Longrightarrow>
   sig_args sg = [(''mA'', fake ad [''TK_padded'', ''H''] (Some 1) 8), (''mB'', fake bd [''E'', ''I2'', ''H''] (Some 2) 8)]
         @ (if sp then [(''mD'', fake pd [''Mflat'', ''I2''] (Some 1) 8)] else [])
         @ [(''mAuxOut'', fake pd [''Mflat'', ''I''] (Some 1) 8)] @ sched_fakes
     \<and> keep_threshold p = Inr (sig_threshold sg) \<and> actv \<in> set (gate_fns e)"
  by (auto simp: compile_streaming_moe_a_def py_bind_Inr_iff asserts_ok_iff)

text \<open>A launch of kernel A that passes the wrapper's checks fits the signature it was compiled
  for, its N-tile divides both outputs (2I and I), so its N-stripes are even in number and a
  cluster of two is never partial; a mask is compiled in only together with a seed.\<close>

lemma kernel_a_launch_sound:
  assumes "view_ok (view e)" "t_dtype off = INT32"
    and "streaming_moe_a e pool W1 postact_a off count target preact_a (tm, tn) cluster actv sms p seed = Inr l"
  shows "conforms (sig_args (l_sig l)) (l_args l) \<and> tn dvd t_shape postact_a ! 2 \<and>
    even (2 * (t_shape postact_a ! 2) div tn) \<and> (sig_dropout (l_sig l) = None \<longleftrightarrow> l_seed l = None)"
proof -
  let ?I = "t_shape postact_a ! 2" and ?T = "t_shape postact_a ! 0"
  obtain pf pre sg mac where
    pf: "view e postact_a [?T * tm, ?I] = Inr pf"
    and pre0: "(case preact_a of None \<Rightarrow> Inr []
       | Some q \<Rightarrow> py_bind (view e q [?T * tm, t_shape W1 ! 1]) (\<lambda>t. Inr [(''mD'', t)])) = Inr pre"
    and sg: "compile_streaming_moe_a e (t_dtype pool) (t_dtype W1) (t_dtype postact_a) (tm, tn) cluster actv
        (preact_a \<noteq> None) p = Inr sg"
    and mac: "grid_cap e (fst cluster) (snd cluster) sms = Inr mac"
    and shapes: "ndim pool = 2" "ndim W1 = 3" "t_shape count = [?T]" "t_dtype count = INT32"
      "t_shape target = [?T]" "t_dtype target = INT32" "t_shape off = [t_shape W1 ! 0 + 1]"
      "t_shape W1 ! 1 = 2 * ?I" "t_shape W1 ! 2 = t_shape pool ! 1"
    and tn: "tn \<noteq> 0" "tn dvd ?I"
    and preact: "list_all fst (case preact_a of None \<Rightarrow> []
       | Some q \<Rightarrow> [(t_cuda q \<and> ndim q = 3, ''preact_a''), (t_shape q = [?T, tm, t_shape W1 ! 1], ''preact_a shape''),
                    (t_dtype q = t_dtype postact_a, ''preact_a dtype'')])"
    and seed: "gt_zero p \<longrightarrow> seed \<noteq> None"
    and l: "l_sig l = sg" "l_args l = [(''mA'', pool), (''mB'', W1)] @ pre @ [(''mAuxOut'', pf)] @ sched_tensors count target off"
      "l_seed l = (if gt_zero p then seed else None)"
    using assms(3) unfolding streaming_moe_a_def Let_def fst_conv snd_conv
    by - (elim py_bind_InrE, rule that, assumption, assumption, assumption, assumption,
      auto simp: asserts_ok_iff assert_divides_ok split: if_splits)
  note pre = pre0 [unfolded shapes]
  have pf': "t_shape pf = [?T * tm, ?I] \<and> t_dtype pf = t_dtype postact_a"
    using view_shape [OF assms(1) pf] .
  have pre': "pre = [] \<and> preact_a = None \<or>
      (\<exists>t. pre = [(''mD'', t)] \<and> preact_a \<noteq> None \<and> t_shape t = [?T * tm, 2 * ?I] \<and> t_dtype t = t_dtype postact_a)"
    using pre preact view_shape [OF assms(1)] by (cases preact_a) (auto simp: py_bind_Inr_iff)
  define g where "g = assign [(''TK_padded'', t_shape pool ! 0), (''H'', t_shape pool ! 1), (''E'', t_shape W1 ! 0),
    (''I2'', 2 * ?I), (''I'', ?I), (''Mflat'', ?T * tm), (''head'', 1), (''total_tiles'', ?T),
    (''cu_seqlens_len'', t_shape W1 ! 0 + 1)]"
  have "conforms (sig_args sg) (l_args l)"
    unfolding compile_a_sig [OF sg, THEN conjunct1] l(2)
  proof (rule conforms_by_assignment [where g = g])
    show "\<forall>(f, t) \<in> set (zip (map snd ([(''mA'', fake (t_dtype pool) [''TK_padded'', ''H''] (Some 1) 8),
          (''mB'', fake (t_dtype W1) [''E'', ''I2'', ''H''] (Some 2) 8)]
        @ (if preact_a \<noteq> None then [(''mD'', fake (t_dtype postact_a) [''Mflat'', ''I2''] (Some 1) 8)] else [])
        @ [(''mAuxOut'', fake (t_dtype postact_a) [''Mflat'', ''I''] (Some 1) 8)] @ sched_fakes))
        (map snd ([(''mA'', pool), (''mB'', W1)] @ pre @ [(''mAuxOut'', pf)] @ sched_tensors count target off))).
        f_dtype f = t_dtype t \<and> map g (f_dims f) = t_shape t"
      using shapes list_of_length(1) [OF shapes(1)] list_of_length(2) [OF shapes(2)] pf' pre' assms(2)
      unfolding g_def by (auto simp: sig_defs)
  qed (use pre' in \<open>auto simp: sig_defs\<close>)
  moreover have "even (2 * ?I div tn)" using tn by (auto elim!: dvdE)
  moreover have "sig_dropout sg = None \<longleftrightarrow> l_seed l = None"
    using sg seed l(3) by (auto simp: compile_streaming_moe_a_def py_bind_Inr_iff asserts_ok_iff)
  ultimately show ?thesis using l(1) tn(2) by simp
qed

lemma gate_exact: "0 < (t::int) \<Longrightarrow> t dvd H \<Longrightarrow> (H + t - 1) div t * t = H"
proof -
  assume t: "0 < t" and "t dvd H"
  then obtain k where "H = t * k" by (auto elim: dvdE)
  moreover have "(t * k + (t - 1)) div t = k" using t by simp
  ultimately show ?thesis by (simp add: algebra_simps)
qed

text \<open>The scatter operands of kernel Y and of kernel A's backward.\<close>

lemma zip_conform:
  "list_all2 (\<lambda>(n, f) (n', t). n = n' \<and> f_dtype f = t_dtype t \<and> map g (f_dims f) = t_shape t) spec args
    \<Longrightarrow> conforms spec args"
proof (rule conforms_by_assignment [where g = g])
  assume all: "list_all2 (\<lambda>(n, f) (n', t). n = n' \<and> f_dtype f = t_dtype t \<and> map g (f_dims f) = t_shape t) spec args"
  then show "map fst spec = map fst args" by (induction rule: list_all2_induct) auto
  from all show "\<forall>(f, t) \<in> set (zip (map snd spec) (map snd args)). f_dtype f = t_dtype t \<and> map g (f_dims f) = t_shape t"
    by (induction rule: list_all2_induct) auto
qed

text \<open>A launch of kernel Y that passes the wrapper's checks fits the signature it was compiled for;
  its N-tile divides H, so the gate counts exactly the stripes of the output.\<close>

lemma kernel_y_launch_sound:
  assumes "view_ok (view e)" "t_dtype off = INT32" "0 < tn"
    and "streaming_moe_y e postact W2 out rt tw rem dn off count target seq flag (tm, tn) cluster sms = Inr l"
  shows "conforms (sig_args (l_sig l)) (l_args l) \<and> l_num_pid_n l * tn = t_shape out ! 1 \<and> l_seq l = seq"
proof -
  let ?T = "t_shape postact ! 0" and ?I = "t_shape postact ! 2" and ?H = "t_shape out ! 1" and ?R = "t_shape out ! 0"
    and ?E = "t_shape W2 ! 0"
  obtain pf sg mac fl where
    pf: "view e postact [?T * tm, ?I] = Inr pf"
    and sg: "compile_streaming_moe_y e (t_dtype postact) (t_dtype W2) (t_dtype out) (tm, tn) cluster = Inr sg"
    and mac: "grid_cap e (fst cluster) (snd cluster) sms = Inr mac"
    and fl: "started_or_fresh flag = Inr fl"
    and shapes: "ndim out = 2" "t_shape W2 = [?E, ?H, ?I]" "t_shape rt = [?T * tm]" "t_dtype rt = INT32"
      "t_shape tw = [?T * tm]" "t_dtype tw = FP32" "t_shape rem = [?R]" "t_dtype rem = INT32"
      "t_shape dn = [?R]" "t_dtype dn = INT64" "t_shape off = [?E + 1]" "t_shape count = [?T]" "t_dtype count = INT32"
      "t_shape target = [?T]" "t_dtype target = INT32"
    and tn: "tn dvd ?H"
    and l: "l_sig l = sg" "l_args l = [(''mA'', pf), (''mB'', W2)] @ scatter_tensors out rt rem dn ?T off
         @ [(''mColVecBroadcast'', tw)] @ sched_tensors count target off @ [(''started_flag'', fl)]"
      "l_seq l = seq" "l_num_pid_n l = (?H + tn - 1) div tn"
    using assms(4) unfolding streaming_moe_y_def Let_def fst_conv snd_conv
    by - (elim py_bind_InrE, rule that, assumption, assumption, assumption, assumption,
      auto simp: asserts_ok_iff assert_divides_ok)
  have sig: "sig_args sg = [(''mA'', fake (t_dtype postact) [''TK_padded'', ''I''] (Some 1) 8),
      (''mB'', fake (t_dtype W2) [''E'', ''H'', ''I''] (Some 2) 8)] @ scatter_fakes (t_dtype out)
      @ [(''mColVecBroadcast'', fake FP32 [''TK_padded''] (Some 0) 1)] @ sched_fakes @ [(''started_flag'', int32 ''flag'')]"
    using sg by (auto simp: compile_streaming_moe_y_def py_bind_Inr_iff)
  have "conforms (sig_args sg) (l_args l)" unfolding sig l
  proof (rule zip_conform [where g = "assign [(''TK_padded'', ?T * tm), (''I'', ?I), (''E'', ?E), (''H'', ?H),
      (''T_recv'', ?R), (''T_rem'', ?R), (''T_done'', ?R), (''total_tiles'', ?T), (''cu_seqlens_len'', ?E + 1),
      (''head'', 1), (''flag'', 1)]"])
  qed (use shapes list_of_length(1) [OF shapes(1)] view_shape [OF assms(1) pf] assms(2) started_or_fresh_ok [OF fl]
      in \<open>simp add: sig_defs\<close>)
  then show ?thesis using l gate_exact [OF assms(3) tn] by simp
qed

section \<open>Example launches\<close>

text \<open>A quack that raises by the CTA-shape rules of the \<open>TileConfig\<close> documentation.\<close>

definition documented_gemm :: "gemm_class \<Rightarrow> int \<times> int \<Rightarrow> int \<times> int \<Rightarrow> unit py" where
  "documented_gemm c tile cluster = asserts
     [(fst tile \<in> (if c = GroupedGemm True then {64, 128, 192} else {64, 128, 192, 256, 320}), ''CTA tile M''),
      (quack_cta_n (snd tile), ''CTA tile N'')]"

definition demo_env :: env where
  "demo_env = \<lparr>capability = 9, max_clusters = (\<lambda>n. 132 div n), gate_fns = [''swiglu''],
     view = std_view, view_dtype = std_view_dtype, gemm_new = documented_gemm, y_bwd_smem = (\<lambda>_ _ _. demo_request)\<rparr>"

lemma demo_env_simps [simp]:
  "capability demo_env = 9" "max_clusters demo_env n = 132 div n" "gate_fns demo_env = [''swiglu'']"
  "view demo_env = std_view" "view_dtype demo_env = std_view_dtype" "gemm_new demo_env = documented_gemm"
  "y_bwd_smem demo_env a b c = demo_request"
  by (simp_all add: demo_env_def)

definition demo_a :: "launch py" where
  "demo_a = streaming_moe_a demo_env (mk_tensor [640, 1024] BF16) (mk_tensor [5, 768, 1024] BF16)
     (mk_tensor [5, 128, 384] BF16) (mk_tensor [6] INT32) (mk_tensor [5] INT32) (mk_tensor [5] INT32)
     (Some (mk_tensor [5, 128, 768] BF16)) (128, 192) (1, 2) ''swiglu'' None (Fin (1 / 5)) (Some 1234)"

definition demo_y :: "launch py" where
  "demo_y = streaming_moe_y demo_env (mk_tensor [5, 128, 384] BF16) (mk_tensor [5, 1024, 384] BF16)
     (mk_tensor [300, 1024] BF16) (mk_tensor [640] INT32) (mk_tensor [640] FP32) (mk_tensor [300] INT32)
     (mk_tensor [300] INT64) (mk_tensor [6] INT32) (mk_tensor [5] INT32) (mk_tensor [5] INT32) 7 None
     (128, 256) (1, 2) (Some 120)"

lemmas launch_simps = Let_def asserts.simps assert_divides_def py_mod_def grid_cap_def py_floordiv_def std_view_def
  gt_zero_def keep_threshold_def started_or_fresh_def MAX_LOCAL_EXPERTS_def documented_gemm_def quack_cta_n_def

lemma demo_a_ok: "\<exists>l. demo_a = Inr l"
  by (simp add: demo_a_def streaming_moe_a_def compile_streaming_moe_a_def launch_simps)

lemma demo_y_ok: "\<exists>l. demo_y = Inr l"
  by (simp add: demo_y_def streaming_moe_y_def compile_streaming_moe_y_def launch_simps)

end
