(* ===== verification/Kernel_Launch_Bwd.thy ===== *)
theory Kernel_Launch_Bwd
  imports Kernel_Launch
begin

text \<open>
  The backward launches: \<open>_compile_streaming_moe_y_bwd\<close>, \<open>streaming_moe_y_bwd\<close> of
  \<^verbatim>\<open>kernel_y_bwd.py\<close> and \<open>_compile_streaming_moe_a_bwd\<close>, \<open>streaming_moe_a_bwd\<close> of
  \<^verbatim>\<open>kernel_a_bwd.py\<close>. \<open>preact_a\<close> and \<open>dL_dswiglu_in\<close> are 16-bit \<open>(M, 2I)\<close> tensors the kernel
  sees as 32-bit \<open>(M, I)\<close>.
\<close>

section \<open>Kernel Y backward\<close>

definition compile_streaming_moe_y_bwd ::
  "env \<Rightarrow> dtype \<Rightarrow> dtype \<Rightarrow> dtype \<Rightarrow> dtype \<Rightarrow> int \<times> int \<Rightarrow> int \<times> int \<Rightarrow> pyfloat \<Rightarrow> signature py" where
  "compile_streaming_moe_y_bwd e a_dtype b_dtype d_dtype implicit_dtype tile cluster dropout_p =
     py_bind (asserts [(capability e = 9, ''SM90-only'')]) (\<lambda>_.
     py_bind (gemm_new e GemmYBwd tile cluster) (\<lambda>_.
     py_bind (keep_threshold dropout_p) (\<lambda>thr.
     py_bind (compute_stages (y_bwd_smem e a_dtype b_dtype d_dtype tile)) (\<lambda>_.
     Inr \<lparr>sig_tile = tile, sig_cluster = cluster, sig_b_transposed = True,
       sig_args = [(''mA'', fake a_dtype [''TK_padded'', ''H''] (Some 1) 8),
                   (''mB'', fake b_dtype [''E'', ''H'', ''I''] (Some 2) 8),
                   (''mD'', fake d_dtype [''Mflat'', ''I''] (Some 1) 4),
                   (''mC'', fake FP32 [''Mflat'', ''I''] (Some 1) 4),
                   (''mAuxOut'', fake b_dtype [''Mflat'', ''I''] (Some 1) 8),
                   (''mColVecBroadcast'', fake FP32 [''TK_padded''] (Some 0) 1),
                   (''mPaddingMask'', fake INT32 [''TK_padded''] (Some 0) 1),
                   (''mColVecReduce'', fake FP32 [''Mflat''] (Some 0) 1)] @ sched_fakes,
       sig_activation = None, sig_dropout = (if gt_zero dropout_p then Some dropout_p else None),
       sig_threshold = thr, sig_started = False, sig_implicit = Some implicit_dtype\<rparr>))))"

definition y_bwd_checks ::
  "tensor \<Rightarrow> tensor \<Rightarrow> tensor \<Rightarrow> tensor \<Rightarrow> tensor \<Rightarrow> tensor \<Rightarrow> tensor \<Rightarrow> tensor \<Rightarrow> tensor \<Rightarrow> tensor \<Rightarrow> tensor
    \<Rightarrow> int \<times> int \<Rightarrow> unit py" where
  \<comment> \<open>the wrapper's contract on its arguments\<close>
  "y_bwd_checks do_pool W2 dswiglu_in postact_dW2 topk_weight recv_token preact_a dweight off count target tile =
    (let tile_m = fst tile; tile_n = snd tile;
         tiles = t_shape dswiglu_in ! 0; two_I = t_shape dswiglu_in ! 2; I = two_I div 2;
         H = t_shape do_pool ! 1; TK = t_shape do_pool ! 0; E_local = t_shape W2 ! 0
     in
     py_bind (asserts
      [(t_cuda do_pool \<and> t_cuda W2 \<and> t_cuda dswiglu_in, ''is_cuda''),
       (ndim do_pool = 2 \<and> t_contiguous do_pool, ''dL_do_pool''), (ndim W2 = 3, ''W2.dim''),
       (ndim dswiglu_in = 3, ''dL_dswiglu_in.dim''), (t_shape dswiglu_in ! 1 = tile_m, ''dswiglu_tile_m''),
       (two_I mod 2 = 0, ''2*I''), (E_local \<le> int MAX_LOCAL_EXPERTS, ''local experts''),
       (t_shape W2 = [E_local, H, I], ''W2 shape'')]) (\<lambda>_.
     py_bind (assert_divides tile_n I ''tile_n must divide I'') (\<lambda>_.
     asserts
      [(t_shape off = [E_local + 1], ''expert_pool_block_offset''),
       (t_shape topk_weight = [TK], ''pool_topk_weight''), (t_dtype topk_weight = FP32, ''pool_topk_weight dtype''),
       (t_shape recv_token = [TK], ''pool_recv_token''), (t_dtype recv_token = INT32, ''pool_recv_token dtype''),
       (t_shape count = [tiles] \<and> t_dtype count = INT32, ''bwd_dispatch_arrival_count''),
       (t_shape target = [tiles] \<and> t_dtype target = INT32, ''pool_arrival_target''),
       (t_cuda preact_a \<and> ndim preact_a = 3, ''preact_a''), (t_shape preact_a = [tiles, tile_m, 2 * I], ''preact_a shape''),
       (t_dtype preact_a = t_dtype dswiglu_in, ''preact_a dtype''),
       (element_size (t_dtype preact_a) = 2, ''preact_a 16-bit''), (element_size (t_dtype dswiglu_in) = 2, ''dL_dswiglu_in 16-bit''),
       (t_cuda postact_dW2 \<and> ndim postact_dW2 = 3, ''postact_a_for_dW2''),
       (t_shape postact_dW2 = [tiles, tile_m, I], ''postact_a_for_dW2 shape''),
       (t_dtype postact_dW2 = t_dtype W2, ''postact_a_for_dW2 dtype''),
       (t_cuda dweight \<and> ndim dweight = 1, ''dL_dweight''), (t_shape dweight = [TK], ''dL_dweight shape''),
       (t_dtype dweight = FP32, ''dL_dweight dtype''), (t_contiguous dweight, ''dL_dweight contiguous''),
       (t_last_stride W2 = 1, ''W2 I-contiguous''), (t_shape W2 = [E_local, H, I], ''W2 shape'')])))"

definition streaming_moe_y_bwd ::
  "env \<Rightarrow> tensor \<Rightarrow> tensor \<Rightarrow> tensor \<Rightarrow> tensor \<Rightarrow> tensor \<Rightarrow> tensor \<Rightarrow> tensor \<Rightarrow> tensor \<Rightarrow> tensor \<Rightarrow> tensor \<Rightarrow> tensor
    \<Rightarrow> int \<times> int \<Rightarrow> int \<times> int \<Rightarrow> int option \<Rightarrow> pyfloat \<Rightarrow> int option \<Rightarrow> launch py" where
  "streaming_moe_y_bwd e do_pool W2 dswiglu_in postact_dW2 topk_weight recv_token preact_a dweight off count target
     tile cluster num_sms dropout_p dropout_seed =
    (let tile_m = fst tile; tiles = t_shape dswiglu_in ! 0; I = t_shape dswiglu_in ! 2 div 2
     in
     py_bind (y_bwd_checks do_pool W2 dswiglu_in postact_dW2 topk_weight recv_token preact_a dweight off count target tile) (\<lambda>_.
     py_bind (view e preact_a [tiles * tile_m, 2 * I]) (\<lambda>pv.
     py_bind (view_dtype e pv FP32) (\<lambda>preact_flat.
     py_bind (asserts [(t_shape preact_flat = [tiles * tile_m, I], ''preact_flat'')]) (\<lambda>_.
     py_bind (view e dswiglu_in [tiles * tile_m, 2 * I]) (\<lambda>dv.
     py_bind (view_dtype e dv FP32) (\<lambda>dswiglu_flat.
     py_bind (asserts [(t_shape dswiglu_flat = [tiles * tile_m, I], ''dL_dswiglu_in_flat''), (capability e = 9, ''SM90-only'')]) (\<lambda>_.
     py_bind (compile_streaming_moe_y_bwd e (t_dtype do_pool) (t_dtype W2) FP32 (t_dtype preact_a) tile cluster dropout_p) (\<lambda>sg.
     py_bind (grid_cap e (fst cluster) (snd cluster) num_sms) (\<lambda>mac.
     py_bind (view e postact_dW2 [tiles * tile_m, I]) (\<lambda>postact_flat.
     py_bind (asserts ((t_shape postact_flat = [tiles * tile_m, I], ''postact_a_for_dW2_flat'')
       # (if gt_zero dropout_p then [(dropout_seed \<noteq> None, ''dropout_p > 0 needs a dropout_seed'')] else []))) (\<lambda>_.
     Inr \<lparr>l_sig = sg,
       l_args = [(''mA'', do_pool), (''mB'', W2), (''mD'', dswiglu_flat), (''mC'', preact_flat), (''mAuxOut'', postact_flat),
         (''mColVecBroadcast'', topk_weight), (''mPaddingMask'', recv_token), (''mColVecReduce'', dweight)]
         @ sched_tensors count target off,
       l_max_active = mac, l_total_tiles = tiles, l_T_recv = 0, l_seq = 0, l_num_pid_n = 0,
       l_seed = (if gt_zero dropout_p then dropout_seed else None)\<rparr>))))))))))))"

section \<open>Kernel A backward\<close>

definition compile_streaming_moe_a_bwd ::
  "env \<Rightarrow> dtype \<Rightarrow> dtype \<Rightarrow> dtype \<Rightarrow> int \<times> int \<Rightarrow> int \<times> int \<Rightarrow> signature py" where
  "compile_streaming_moe_a_bwd e a_dtype b_dtype o_dtype tile cluster =
     py_bind (asserts [(capability e = 9, ''SM90-only'')]) (\<lambda>_.
     py_bind (gemm_new e GemmABwd tile cluster) (\<lambda>_.
     Inr \<lparr>sig_tile = tile, sig_cluster = cluster, sig_b_transposed = True,
       sig_args = [(''mA'', fake a_dtype [''TK_padded'', ''I2''] (Some 1) 8),
                   (''mB'', fake b_dtype [''E'', ''I2'', ''H''] (Some 2) 8)]
         @ scatter_fakes o_dtype @ sched_fakes @ [(''started_flag'', int32 ''flag'')],
       sig_activation = None, sig_dropout = None, sig_threshold = 0, sig_started = True, sig_implicit = None\<rparr>))"

definition streaming_moe_a_bwd ::
  "env \<Rightarrow> tensor \<Rightarrow> tensor \<Rightarrow> tensor \<Rightarrow> tensor \<Rightarrow> tensor \<Rightarrow> tensor \<Rightarrow> tensor \<Rightarrow> tensor \<Rightarrow> tensor \<Rightarrow> int
    \<Rightarrow> tensor option \<Rightarrow> int \<times> int \<Rightarrow> int \<times> int \<Rightarrow> int option \<Rightarrow> launch py" where
  "streaming_moe_a_bwd e dswiglu_in W1 dx recv_token remaining_t done_t off count target dispatch_seq
     flag_opt tile cluster num_sms =
    (let tile_m = fst tile; tile_n = snd tile;
         tiles = t_shape dswiglu_in ! 0; two_I = t_shape dswiglu_in ! 2;
         T_recv = t_shape dx ! 0; H = t_shape dx ! 1; E_local = t_shape W1 ! 0
     in
     py_bind (asserts
      [(t_cuda dswiglu_in \<and> t_cuda W1 \<and> t_cuda dx, ''is_cuda''), (ndim dswiglu_in = 3, ''dL_dswiglu_in.dim''),
       (ndim W1 = 3, ''W1.dim''), (ndim dx = 2, ''dL_dx_per_r.dim''), (t_shape dswiglu_in ! 1 = tile_m, ''tile_m''),
       (E_local \<le> int MAX_LOCAL_EXPERTS, ''local experts''), (t_shape W1 = [E_local, two_I, H], ''W1 shape'')]) (\<lambda>_.
     py_bind (assert_divides tile_n H ''tile_n must divide H'') (\<lambda>_.
     py_bind (asserts
      [(t_shape recv_token = [tiles * tile_m], ''pool_recv_token''), (t_dtype recv_token = INT32, ''pool_recv_token dtype''),
       (t_shape remaining_t = [T_recv], ''bwd_k_local_remaining''), (t_dtype remaining_t = INT32, ''bwd_k_local_remaining dtype''),
       (t_shape done_t = [T_recv], ''bwd_a_done_per_token''), (t_dtype done_t = INT64, ''bwd_a_done_per_token dtype''),
       (t_shape off = [E_local + 1], ''expert_pool_block_offset''),
       (t_shape count = [tiles] \<and> t_dtype count = INT32, ''bwd_dispatch_arrival_count''),
       (t_shape target = [tiles] \<and> t_dtype target = INT32, ''pool_arrival_target''),
       (t_last_stride W1 = 1, ''W1 H-contiguous''), (t_shape W1 = [E_local, two_I, H], ''W1 shape'')]) (\<lambda>_.
     py_bind (view e dswiglu_in [tiles * tile_m, two_I]) (\<lambda>dswiglu_flat.
     py_bind (asserts [(capability e = 9, ''SM90-only'')]) (\<lambda>_.
     py_bind (compile_streaming_moe_a_bwd e (t_dtype dswiglu_in) (t_dtype W1) (t_dtype dx) tile cluster) (\<lambda>sg.
     py_bind (grid_cap e (fst cluster) (snd cluster) num_sms) (\<lambda>mac.
     py_bind (started_or_fresh flag_opt) (\<lambda>flag.
     Inr \<lparr>l_sig = sg,
       l_args = [(''mA'', dswiglu_flat), (''mB'', W1)] @ scatter_tensors dx recv_token remaining_t done_t tiles off
         @ sched_tensors count target off @ [(''started_flag'', flag)],
       l_max_active = mac, l_total_tiles = tiles, l_T_recv = T_recv, l_seq = dispatch_seq,
       l_num_pid_n = (H + tile_n - 1) div tile_n, l_seed = None\<rparr>)))))))))"

section \<open>The launched arguments fit the compiled signature\<close>

text \<open>A launch of kernel Y's backward that passes the wrapper's checks, on a gradient pool with the
  slots of its tiles, fits the compiled signature: the two 16-bit \<open>(M, 2I)\<close> operands arrive as
  32-bit \<open>(M, I)\<close>, and a mask is compiled in only together with a seed.\<close>

lemma kernel_y_bwd_launch_sound:
  assumes "view_ok (view e)" "view_dtype_ok (view_dtype e)" "t_dtype off = INT32"
    and "t_shape do_pool ! 0 = t_shape dsw ! 0 * tm"
    and "streaming_moe_y_bwd e do_pool W2 dsw post tw rt pre dw off count target (tm, tn) cluster sms p seed = Inr l"
  shows "conforms (sig_args (l_sig l)) (l_args l) \<and> tn dvd t_shape dsw ! 2 div 2 \<and>
    (sig_dropout (l_sig l) = None \<longleftrightarrow> l_seed l = None) \<and> sig_implicit (l_sig l) = Some (t_dtype dsw)"
proof -
  let ?T = "t_shape dsw ! 0" and ?I = "t_shape dsw ! 2 div 2" and ?H = "t_shape do_pool ! 1" and ?K = "t_shape do_pool ! 0"
    and ?E = "t_shape W2 ! 0"
  obtain pv pfl dv dfl sg mac pf where
    pv: "view e pre [?T * tm, 2 * ?I] = Inr pv" and pfl: "view_dtype e pv FP32 = Inr pfl"
    and dv: "view e dsw [?T * tm, 2 * ?I] = Inr dv" and dfl: "view_dtype e dv FP32 = Inr dfl"
    and sg: "compile_streaming_moe_y_bwd e (t_dtype do_pool) (t_dtype W2) FP32 (t_dtype pre) (tm, tn) cluster p = Inr sg"
    and mac: "grid_cap e (fst cluster) (snd cluster) sms = Inr mac"
    and pf: "view e post [?T * tm, ?I] = Inr pf"
    and shapes: "ndim do_pool = 2" "t_shape W2 = [?E, ?H, ?I]" "t_shape off = [?E + 1]" "t_shape tw = [?K]"
      "t_dtype tw = FP32" "t_shape rt = [?K]" "t_dtype rt = INT32" "t_shape count = [?T]" "t_dtype count = INT32"
      "t_shape target = [?T]" "t_dtype target = INT32" "t_dtype post = t_dtype W2" "t_dtype pre = t_dtype dsw" "t_shape dw = [?K]" "t_dtype dw = FP32"
      "t_shape pfl = [?T * tm, ?I]" "t_shape dfl = [?T * tm, ?I]"
    and tn: "tn dvd ?I" and seed: "gt_zero p \<longrightarrow> seed \<noteq> None"
    and l: "l_sig l = sg" "l_args l = [(''mA'', do_pool), (''mB'', W2), (''mD'', dfl), (''mC'', pfl), (''mAuxOut'', pf),
         (''mColVecBroadcast'', tw), (''mPaddingMask'', rt), (''mColVecReduce'', dw)] @ sched_tensors count target off"
      "l_seed l = (if gt_zero p then seed else None)"
    using assms(5) unfolding streaming_moe_y_bwd_def y_bwd_checks_def Let_def fst_conv snd_conv
    by - (elim py_bind_InrE, rule that, assumption, assumption, assumption, assumption, assumption, assumption, assumption,
      auto simp: asserts_ok_iff assert_divides_ok split: if_splits)
  have sig: "sig_args sg = [(''mA'', fake (t_dtype do_pool) [''TK_padded'', ''H''] (Some 1) 8),
                   (''mB'', fake (t_dtype W2) [''E'', ''H'', ''I''] (Some 2) 8),
                   (''mD'', fake FP32 [''Mflat'', ''I''] (Some 1) 4),
                   (''mC'', fake FP32 [''Mflat'', ''I''] (Some 1) 4),
                   (''mAuxOut'', fake (t_dtype W2) [''Mflat'', ''I''] (Some 1) 8),
                   (''mColVecBroadcast'', fake FP32 [''TK_padded''] (Some 0) 1),
                   (''mPaddingMask'', fake INT32 [''TK_padded''] (Some 0) 1),
                   (''mColVecReduce'', fake FP32 [''Mflat''] (Some 0) 1)] @ sched_fakes"
    and drop: "sig_dropout sg = (if gt_zero p then Some p else None)" and imp: "sig_implicit sg = Some (t_dtype pre)"
    using sg by (auto simp: compile_streaming_moe_y_bwd_def py_bind_Inr_iff)
  have fp: "t_dtype pfl = FP32" "t_dtype dfl = FP32" using assms(2) pfl dfl by (auto simp: view_dtype_ok_def)
  have "conforms (sig_args sg) (l_args l)" unfolding sig l
  proof (rule zip_conform [where g = "assign [(''TK_padded'', ?K), (''I'', ?I), (''E'', ?E), (''H'', ?H), (''Mflat'', ?K),
      (''total_tiles'', ?T), (''cu_seqlens_len'', ?E + 1), (''head'', 1)]"])
  qed (use shapes list_of_length(1) [OF shapes(1)] view_shape [OF assms(1) pf] assms(3,4) fp in \<open>simp add: sig_defs\<close>)
  then show ?thesis using l drop imp seed tn shapes(13) by auto
qed

text \<open>A launch of kernel A's backward that passes the wrapper's checks fits the signature it was
  compiled for, and its gate counts exactly the stripes of the output.\<close>

lemma kernel_a_bwd_launch_sound:
  assumes "view_ok (view e)" "t_dtype off = INT32" "0 < tn"
    and "streaming_moe_a_bwd e dsw W1 dx rt rem dn off count target seq flag (tm, tn) cluster sms = Inr l"
  shows "conforms (sig_args (l_sig l)) (l_args l) \<and> l_num_pid_n l * tn = t_shape dx ! 1 \<and> l_seq l = seq"
proof -
  let ?T = "t_shape dsw ! 0" and ?I2 = "t_shape dsw ! 2" and ?H = "t_shape dx ! 1" and ?R = "t_shape dx ! 0"
    and ?E = "t_shape W1 ! 0"
  obtain dfl sg mac fl where
    dfl: "view e dsw [?T * tm, ?I2] = Inr dfl"
    and sg: "compile_streaming_moe_a_bwd e (t_dtype dsw) (t_dtype W1) (t_dtype dx) (tm, tn) cluster = Inr sg"
    and mac: "grid_cap e (fst cluster) (snd cluster) sms = Inr mac"
    and fl: "started_or_fresh flag = Inr fl"
    and shapes: "ndim dx = 2" "t_shape W1 = [?E, ?I2, ?H]" "t_shape rt = [?T * tm]" "t_dtype rt = INT32"
      "t_shape rem = [?R]" "t_dtype rem = INT32" "t_shape dn = [?R]" "t_dtype dn = INT64" "t_shape off = [?E + 1]"
      "t_shape count = [?T]" "t_dtype count = INT32" "t_shape target = [?T]" "t_dtype target = INT32"
    and tn: "tn dvd ?H"
    and l: "l_sig l = sg" "l_args l = [(''mA'', dfl), (''mB'', W1)] @ scatter_tensors dx rt rem dn ?T off
         @ sched_tensors count target off @ [(''started_flag'', fl)]"
      "l_seq l = seq" "l_num_pid_n l = (?H + tn - 1) div tn"
    using assms(4) unfolding streaming_moe_a_bwd_def Let_def fst_conv snd_conv
    by - (elim py_bind_InrE, rule that, assumption, assumption, assumption, assumption,
      auto simp: asserts_ok_iff assert_divides_ok)
  have sig: "sig_args sg = [(''mA'', fake (t_dtype dsw) [''TK_padded'', ''I2''] (Some 1) 8),
      (''mB'', fake (t_dtype W1) [''E'', ''I2'', ''H''] (Some 2) 8)] @ scatter_fakes (t_dtype dx) @ sched_fakes
      @ [(''started_flag'', int32 ''flag'')]"
    using sg by (auto simp: compile_streaming_moe_a_bwd_def py_bind_Inr_iff)
  have "conforms (sig_args sg) (l_args l)" unfolding sig l
  proof (rule zip_conform [where g = "assign [(''TK_padded'', ?T * tm), (''I2'', ?I2), (''E'', ?E), (''H'', ?H),
      (''T_recv'', ?R), (''T_rem'', ?R), (''T_done'', ?R), (''total_tiles'', ?T), (''cu_seqlens_len'', ?E + 1),
      (''head'', 1), (''flag'', 1)]"])
  qed (use shapes list_of_length(1) [OF shapes(1)] view_shape [OF assms(1) dfl] assms(2) started_or_fresh_ok [OF fl]
      in \<open>simp add: sig_defs\<close>)
  then show ?thesis using l gate_exact [OF assms(3) tn] by simp
qed

end
