(* ===== verification/Backward_Epilogue.thy ===== *)
theory Backward_Epilogue
  imports Complex_Main "HOL-Library.Multiset" Kernel_Launch
begin

text \<open>
  What the two gated epilogues compute: \<open>epi_visit_subtile\<close> of \<^verbatim>\<open>kernel_y_bwd.py\<close>,
  \<open>StreamingMoeA.epi_visit_subtile\<close> of \<^verbatim>\<open>kernel_a.py\<close>, and
  \<open>ColVecReduceAtomic.end_loop_finish\<close> of \<^verbatim>\<open>epi_ops.py\<close>.

  Register arithmetic is written over a type with \<open>0\<close>, \<open>+\<close> and \<open>*\<close> that need not obey any law
  (IEEE arithmetic does not); the recasts between one 32-bit and two 16-bit registers are
  on words. The activation \<open>act_fn\<close>, its derivative \<open>dsw\<close> (\<open>dswiglu\<close>), the conversions between the 16-bit
  type and fp32, the row reduction \<open>accum\<close> (\<open>colvec_reduce_accumulate\<close>) and its \<open>merge\<close>/\<open>finalize\<close>
  are quack's and CUTLASS's: arguments.
\<close>

section \<open>The gated epilogues in registers\<close>

text \<open>One 32-bit register recast as two 16-bit ones, gate in the low half.\<close>

definition recast_pair :: "32 word \<Rightarrow> 16 word \<times> 16 word" where
  "recast_pair w = (ucast w, ucast (drop_bit 16 w))"

definition pack_pair :: "16 word \<times> 16 word \<Rightarrow> 32 word" where
  "pack_pair p = ucast (fst p) OR push_bit 16 (ucast (snd p))"

lemma recast_pack [simp]: "recast_pair (pack_pair p) = p"
proof -
  have "ucast (ucast a OR push_bit 16 (ucast b :: 32 word)) = a" for a b :: "16 word"
    by (rule bit_word_eqI) (auto simp: bit_simps)
  moreover have "ucast (drop_bit 16 (ucast a OR push_bit 16 (ucast b :: 32 word))) = b" for a b :: "16 word"
    by (rule bit_word_eqI) (auto simp: bit_simps dest: bit_imp_le_length)
  ultimately show ?thesis by (simp add: recast_pair_def pack_pair_def)
qed

lemma pack_recast [simp]: "pack_pair (recast_pair w) = w"
proof -
  have "ucast (ucast w :: 16 word) OR push_bit 16 (ucast (ucast (drop_bit 16 w) :: 16 word)) = w" for w :: "32 word"
    by (rule bit_word_eqI) (auto simp: bit_simps)
  then show ?thesis by (simp add: recast_pair_def pack_pair_def)
qed

text \<open>The operand of an active \<open>DropoutSeed\<close>: seed, the tile coordinates of the registers, the tile
  origin, and the constants baked into the kernel.\<close>

record 'f dropout_op =
  dr_seed :: "32 word"
  dr_coords :: "(int \<times> int) list"
  dr_origin :: "32 word \<times> 32 word"
  dr_threshold :: "32 word"
  dr_scale :: 'f

definition epi_visit_a ::
  "('f list \<Rightarrow> 'f list) \<Rightarrow> ('f \<Rightarrow> 'f \<Rightarrow> 'f) \<Rightarrow> 'f dropout_op option \<Rightarrow> 'f::{zero,plus,times} list \<Rightarrow> 'f list \<times> 'f list" where
  \<comment> \<open>returns the main output (preact) and the auxiliary one (postact)\<close>
  "epi_visit_a linear_part act_fn dropout rD0 =
     (let rD = linear_part rD0;
          aux = map (\<lambda>i. act_fn (rD ! (2 * i)) (rD ! (2 * i + 1))) [0..<length rD div 2]
      in (rD, case dropout of None \<Rightarrow> aux
         | Some d \<Rightarrow> map (\<lambda>i. aux ! i *
             mask_a (dr_seed d) (dr_origin d) (dr_coords d ! (2 * i)) (dr_threshold d) (dr_scale d)) [0..<length aux]))"

type_synonym 'f triple = "'f \<times> 'f \<times> 'f"

abbreviation dgate :: "'f triple \<Rightarrow> 'f" where "dgate t \<equiv> fst t"
abbreviation dup :: "'f triple \<Rightarrow> 'f" where "dup t \<equiv> fst (snd t)"
abbreviation postact :: "'f triple \<Rightarrow> 'f" where "postact t \<equiv> snd (snd t)"

definition dswiglu_lane ::
  "('f \<Rightarrow> 'f \<Rightarrow> 'f \<Rightarrow> 'f triple) \<Rightarrow> 'f dropout_op option \<Rightarrow> ('f \<times> 'f) list \<Rightarrow> 'f::{zero,plus,times} list \<Rightarrow> nat \<Rightarrow> 'f triple" where
  \<comment> \<open>step 2 for register \<open>i\<close>\<close>
  "dswiglu_lane dsw dropout xy rD i =
     (case dropout of
        None \<Rightarrow> dsw (fst (xy ! i)) (snd (xy ! i)) (rD ! i)
      | Some dr \<Rightarrow>
          (let d = mask_y_bwd (dr_seed dr) (dr_origin dr) (dr_coords dr ! i) (dr_threshold dr) (dr_scale dr);
               t = dsw (fst (xy ! i)) (snd (xy ! i)) (rD ! i * d)
           in (dgate t, dup t, postact t * d)))"

definition row_active :: "int list option \<Rightarrow> nat \<Rightarrow> bool" where
  \<comment> \<open>\<open>pool_recv_token\<close> of the register's row; its cast to fp32 keeps the sign\<close>
  "row_active pad i = (case pad of None \<Rightarrow> True | Some m \<Rightarrow> m ! i \<ge> 0)"

definition epi_visit_y_bwd ::
  "(16 word \<Rightarrow> 'f) \<Rightarrow> ('f \<Rightarrow> 16 word) \<Rightarrow> ('f \<Rightarrow> 'f \<Rightarrow> 'f \<Rightarrow> 'f triple) \<Rightarrow> ('acc \<Rightarrow> 'f list \<Rightarrow> 'f list \<Rightarrow> 'acc)
    \<Rightarrow> 'f dropout_op option \<Rightarrow> int list option \<Rightarrow> 'f list option \<Rightarrow> 'acc option
    \<Rightarrow> 32 word list option \<Rightarrow> 'f::{zero,plus,times} list \<Rightarrow> (32 word list \<times> 'f list \<times> 'acc option) py" where
  \<comment> \<open>returns the packed main output, the weighted postact and the row accumulators\<close>
  "epi_visit_y_bwd widen narrow dsw accum dropout pad colvec acc rC rD =
     (case rC of None \<Rightarrow> Inl (AssertionError ''kernel_y_bwd requires preact via mC'')
      | Some c \<Rightarrow>
     let n = length rD;
         xy = map (\<lambda>w. (widen (fst (recast_pair w)), widen (snd (recast_pair w)))) c;
         t2 = map (dswiglu_lane dsw dropout xy rD) [0..<n];
         g = map (\<lambda>i. if row_active pad i then rD ! i else 0) [0..<n];
         t3 = map (\<lambda>i. if row_active pad i then t2 ! i else (0, 0, 0)) [0..<n];
         acc' = map_option (\<lambda>a. accum a g (map postact t3)) acc;
         t4 = (case colvec of None \<Rightarrow> t3
           | Some w \<Rightarrow> map (\<lambda>i. (dgate (t3 ! i) * w ! i, dup (t3 ! i) * w ! i, postact (t3 ! i) * w ! i)) [0..<n])
     in Inr (map (\<lambda>t. pack_pair (narrow (dgate t), narrow (dup t))) t4, map postact t4, acc'))"


text \<open>What each register of the backward epilogue holds, lane by lane.\<close>

definition lane_mask :: "'f::{zero,plus,times} dropout_op option \<Rightarrow> nat \<Rightarrow> 'f option" where
  "lane_mask dropout i = map_option (\<lambda>dr.
     mask_y_bwd (dr_seed dr) (dr_origin dr) (dr_coords dr ! i) (dr_threshold dr) (dr_scale dr)) dropout"

lemma epi_visit_y_bwd_lanes:
  assumes "epi_visit_y_bwd widen narrow dsw accum dropout pad (Some w) (Some a) (Some c) rD = Inr (out, aux, acc)"
    and "i < length rD" "length c = length rD"
  obtains t g p where
    "t = (if row_active pad i
          then dswiglu_lane dsw dropout (map (\<lambda>x. (widen (fst (recast_pair x)), widen (snd (recast_pair x)))) c) rD i
          else (0, 0, 0))"
    "recast_pair (out ! i) = (narrow (dgate t * w ! i), narrow (dup t * w ! i))"
    "aux ! i = postact t * w ! i" "acc = Some (accum a g p)"
    "g ! i = (if row_active pad i then rD ! i else 0)" "p ! i = postact t"
proof -
  let ?lane = "dswiglu_lane dsw dropout (map (\<lambda>x. (widen (fst (recast_pair x)), widen (snd (recast_pair x)))) c) rD"
  let ?t3 = "map (\<lambda>i. if row_active pad i then map ?lane [0..<length rD] ! i else (0, 0, 0)) [0..<length rD]"
  show thesis
    by (rule that [of _ "map (\<lambda>i. if row_active pad i then rD ! i else 0) [0..<length rD]" "map postact ?t3", OF refl])
      (use assms in \<open>auto simp: epi_visit_y_bwd_def Let_def\<close>)
qed

text \<open>C37: a padding row leaves zeros in the packed gradient, in the operand of dW2 and in both factors
  of the dL/dweight reduction, whatever the GEMM and the saved preactivation hold there (NaN and
  infinities included), as long as the row's weight times zero is zero.\<close>

theorem y_bwd_padding_clean:
  assumes "epi_visit_y_bwd widen narrow dsw accum dropout (Some toks) (Some w) (Some a) (Some c) rD = Inr (out, aux, acc)"
    and "i < length rD" "length c = length rD" "toks ! i < 0" "0 * w ! i = 0"
  shows "recast_pair (out ! i) = (narrow 0, narrow 0) \<and> aux ! i = 0 \<and>
    (\<exists>g p. acc = Some (accum a g p) \<and> g ! i = 0 \<and> p ! i = 0)"
  by (rule epi_visit_y_bwd_lanes [OF assms(1-3)]) (use assms(4,5) in \<open>auto simp: row_active_def intro!: exI\<close>)

text \<open>C39: with exact arithmetic, and \<open>dswiglu\<close> returning the partial derivatives of the activation times
  the incoming gradient together with the activation itself, an active row's packed outputs
  are the partial derivatives, in gate and in up, of the row's weighted and masked contribution to the
  loss; the reduction's two factors multiply to its derivative in the weight.\<close>

theorem y_bwd_outputs_are_gradients:
  fixes rD :: "real list"
  assumes "epi_visit_y_bwd widen narrow dsw accum dropout (Some toks) (Some w) (Some a) (Some c) rD = Inr (out, aux, acc)"
    and "i < length rD" "length c = length rD" "0 \<le> toks ! i" "recast_pair (c ! i) = (x16, y16)"
    and "\<And>x y g. ((\<lambda>x. act_fn x y * g) has_real_derivative dgate (dsw x y g)) (at x)"
    and "\<And>x y g. ((\<lambda>y. act_fn x y * g) has_real_derivative dup (dsw x y g)) (at y)"
    and "\<And>x y g. postact (dsw x y g) = act_fn x y"
    and "d = (case lane_mask dropout i of None \<Rightarrow> 1 | Some m \<Rightarrow> m)"
  shows "\<exists>gx gy g p. recast_pair (out ! i) = (narrow gx, narrow gy) \<and>
      ((\<lambda>x. w ! i * (d * act_fn x (widen y16)) * rD ! i) has_real_derivative gx) (at (widen x16)) \<and>
      ((\<lambda>y. w ! i * (d * act_fn (widen x16) y) * rD ! i) has_real_derivative gy) (at (widen y16)) \<and>
      acc = Some (accum a g p) \<and>
      ((\<lambda>v. v * (d * act_fn (widen x16) (widen y16)) * rD ! i) has_real_derivative g ! i * p ! i) (at (w ! i)) \<and>
      aux ! i = w ! i * (d * act_fn (widen x16) (widen y16))"
proof (rule epi_visit_y_bwd_lanes [OF assms(1-3)])
  fix t g p
  let ?X = "widen x16" and ?Y = "widen y16"
  assume t: "t = (if row_active (Some toks) i
      then dswiglu_lane dsw dropout (map (\<lambda>x. (widen (fst (recast_pair x)), widen (snd (recast_pair x)))) c) rD i
      else (0, 0, 0))"
    and out: "recast_pair (out ! i) = (narrow (dgate t * w ! i), narrow (dup t * w ! i))" and aux: "aux ! i = postact t * w ! i"
    and acc: "acc = Some (accum a g p)" and gi: "g ! i = (if row_active (Some toks) i then rD ! i else 0)"
    and pi: "p ! i = postact t"
  have tv: "dgate t = dgate (dsw ?X ?Y (rD ! i * d))" "dup t = dup (dsw ?X ?Y (rD ! i * d))"
    "postact t = act_fn ?X ?Y * d"
    using assms(2,3,4,5,8,9) t
    by (auto simp: row_active_def dswiglu_lane_def lane_mask_def Let_def split: option.splits)
  have gx: "((\<lambda>x. w ! i * (d * act_fn x ?Y) * rD ! i) has_real_derivative dgate t * w ! i) (at ?X)"
    using DERIV_cmult [OF assms(6) [of ?Y "rD ! i * d" ?X], of "w ! i"] by (simp add: tv ac_simps)
  have gy: "((\<lambda>y. w ! i * (d * act_fn ?X y) * rD ! i) has_real_derivative dup t * w ! i) (at ?Y)"
    using DERIV_cmult [OF assms(7) [of ?X "rD ! i * d" ?Y], of "w ! i"] by (simp add: tv ac_simps)
  have gp: "g ! i = rD ! i" "p ! i = act_fn ?X ?Y * d" using assms(4) tv gi pi by (auto simp: row_active_def)
  have gw: "((\<lambda>v. v * (d * act_fn ?X ?Y) * rD ! i) has_real_derivative g ! i * p ! i) (at (w ! i))"
    unfolding gp by (auto intro!: derivative_eq_intros)
  show ?thesis using out gx gy gw acc aux tv by (intro exI conjI) (auto simp: ac_simps)
qed


text \<open>The backward works on the activation the forward stored: where the saved preactivation is exact,
  the operand of dW2 at hidden column \<open>j\<close> of a token's row is the row's weight times the masked
  activation that kernel A wrote there, whatever tiles the two kernels use.\<close>

lemma y_bwd_reuses_forward_activation:
  fixes rD :: "'f::{zero,plus,times} list" and g :: "'f list"
  assumes fwd: "epi_visit_a (\<lambda>x. x) act_fn (Some da) rD = (preact, postact_a)"
    and bwd: "epi_visit_y_bwd widen narrow dsw accum (Some db) (Some toks) (Some w) (Some a) (Some c) g = Inr (out, aux, acc)"
    and lanes: "2 * i + 1 < length rD" "i' < length g" "length c = length g" "0 \<le> toks ! i'"
    and saved: "recast_pair (c ! i') = (x16, y16)" "widen x16 = preact ! (2 * i)" "widen y16 = preact ! (2 * i + 1)"
    and quack: "\<And>x y dy. postact (dsw x y dy) = act_fn x y"
    and same: "dr_seed da = dr_seed db" "dr_threshold da = dr_threshold db" "dr_scale da = dr_scale db"
    and unit: "dr_origin da = dropout_origin tM tN (Some cu) pm pn e" "dr_coords da ! (2 * i) = (m, n)"
      "dr_origin db = dropout_origin tM' tN' (Some cu') pm' pn' e'" "dr_coords db ! i' = (m', n')"
      "0 \<le> j" "2 * j < 2 ^ 31" "pn * tN + n = 2 * j" "pn' * tN' + n' = j"
      "pm * tM + cu ! e + m = pm' * tM' + cu' ! e' + m'"
  shows "aux ! i' = postact_a ! i * w ! i'"
proof (rule epi_visit_y_bwd_lanes [OF bwd lanes(2,3)])
  fix t gg p
  assume t: "t = (if row_active (Some toks) i'
      then dswiglu_lane dsw (Some db) (map (\<lambda>x. (widen (fst (recast_pair x)), widen (snd (recast_pair x)))) c) g i'
      else (0, 0, 0))" and aux: "aux ! i' = postact t * w ! i'"
  have mask: "mask_a (dr_seed da) (dr_origin da) (dr_coords da ! (2 * i)) (dr_threshold da) (dr_scale da)
      = mask_y_bwd (dr_seed db) (dr_origin db) (dr_coords db ! i') (dr_threshold db) (dr_scale db)"
    unfolding same unit(1-4) by (rule mask_agree [OF unit(5-9)])
  have i: "i < length rD div 2" using lanes(1) by simp
  have "postact_a ! i = act_fn (preact ! (2 * i)) (preact ! (2 * i + 1)) *
      mask_a (dr_seed da) (dr_origin da) (dr_coords da ! (2 * i)) (dr_threshold da) (dr_scale da)"
    using fwd i by (auto simp: epi_visit_a_def Let_def)
  moreover have "postact t = act_fn (widen x16) (widen y16) *
      mask_y_bwd (dr_seed db) (dr_origin db) (dr_coords db ! i') (dr_threshold db) (dr_scale db)"
    using t lanes saved(1) quack by (simp add: row_active_def dswiglu_lane_def Let_def)
  ultimately show ?thesis using aux saved(2,3) mask by simp
qed


section \<open>Example registers\<close>

text \<open>Floats with infinities and NaN, without rounding: enough to see that a multiplied mask would leak.\<close>

instantiation pyfloat :: "{zero,plus,times}"
begin

definition zero_pyfloat :: pyfloat where "zero_pyfloat = Fin 0"

fun plus_pyfloat :: "pyfloat \<Rightarrow> pyfloat \<Rightarrow> pyfloat" where
  "plus_pyfloat (Fin a) (Fin b) = Fin (a + b)"
| "plus_pyfloat NaN _ = NaN"
| "plus_pyfloat _ NaN = NaN"
| "plus_pyfloat PInf NInf = NaN"
| "plus_pyfloat NInf PInf = NaN"
| "plus_pyfloat PInf _ = PInf"
| "plus_pyfloat _ PInf = PInf"
| "plus_pyfloat NInf _ = NInf"
| "plus_pyfloat _ NInf = NInf"

definition signed_inf :: "rat \<Rightarrow> pyfloat \<Rightarrow> pyfloat \<Rightarrow> pyfloat" where
  "signed_inf a up down = (if a = 0 then NaN else if 0 < a then up else down)"

fun times_pyfloat :: "pyfloat \<Rightarrow> pyfloat \<Rightarrow> pyfloat" where
  "times_pyfloat (Fin a) (Fin b) = Fin (a * b)"
| "times_pyfloat NaN _ = NaN"
| "times_pyfloat _ NaN = NaN"
| "times_pyfloat (Fin a) PInf = signed_inf a PInf NInf"
| "times_pyfloat (Fin a) NInf = signed_inf a NInf PInf"
| "times_pyfloat PInf (Fin a) = signed_inf a PInf NInf"
| "times_pyfloat NInf (Fin a) = signed_inf a NInf PInf"
| "times_pyfloat PInf PInf = PInf"
| "times_pyfloat NInf NInf = PInf"
| "times_pyfloat _ _ = NInf"

instance ..

end

definition f16 :: "16 word \<Rightarrow> pyfloat" where "f16 v = Fin (of_nat (unat v))"

definition to16 :: "pyfloat \<Rightarrow> 16 word" where
  "to16 x = (case x of Fin r \<Rightarrow> word_of_int \<lfloor>r\<rfloor> | _ \<Rightarrow> 0x7F80)"

definition bilinear :: "'f \<Rightarrow> 'f \<Rightarrow> 'f \<Rightarrow> 'f::times triple" where
  \<comment> \<open>the gradients of \<open>x * y\<close>\<close>
  "bilinear x y g = (y * g, x * g, x * y)"

definition rows :: "'f list list \<Rightarrow> 'f list \<Rightarrow> 'f list \<Rightarrow> 'f::times list list" where
  "rows acc g p = acc @ [map2 (*) g p]"

definition demo_padding where
  "demo_padding = epi_visit_y_bwd f16 to16 bilinear rows None (Some [4, -1]) (Some [Fin 2, Fin 0]) (Some [])
     (Some [pack_pair (3, 5), pack_pair (9, 9)]) [Fin 7, NaN]"

theorem y_bwd_padding_clean_witness:
  "\<exists>out aux acc. demo_padding = Inr (out, aux, acc) \<and> recast_pair (out ! 1) = (to16 0, to16 0) \<and> aux ! 1 = 0 \<and>
    (\<exists>g p. acc = Some (rows [] g p) \<and> g ! 1 = 0 \<and> p ! 1 = 0)"
proof -
  obtain out aux acc where run: "demo_padding = Inr (out, aux, acc)"
    by (auto simp: demo_padding_def epi_visit_y_bwd_def Let_def)
  have "recast_pair (out ! 1) = (to16 0, to16 0) \<and> aux ! 1 = 0 \<and>
    (\<exists>g p. acc = Some (rows [] g p) \<and> g ! 1 = 0 \<and> p ! 1 = 0)"
    by (rule y_bwd_padding_clean [OF run [unfolded demo_padding_def]]) (simp_all add: zero_pyfloat_def)
  with run show ?thesis by blast
qed

definition silu :: "real \<Rightarrow> real" where "silu x = x / (1 + exp (- x))"

definition dsilu :: "real \<Rightarrow> real" where
  "dsilu x = (1 + exp (- x) + x * exp (- x)) / (1 + exp (- x))\<^sup>2"

lemma silu_deriv: "(silu has_real_derivative dsilu x) (at x)"
proof -
  have "1 + exp (- x) \<noteq> 0" using exp_gt_zero [of "- x"] by linarith
  then show ?thesis unfolding silu_def dsilu_def
    by (auto intro!: derivative_eq_intros simp: power2_eq_square field_simps)
qed

definition swiglu_grad :: "real \<Rightarrow> real \<Rightarrow> real \<Rightarrow> real triple" where
  "swiglu_grad x y g = (dsilu x * y * g, silu x * g, silu x * y)"

definition demo_gradients where
  "demo_gradients = epi_visit_y_bwd (\<lambda>v. real (unat v)) (\<lambda>r. word_of_int \<lfloor>r\<rfloor>) swiglu_grad rows None (Some [4])
     (Some [1 / 2]) (Some []) (Some [pack_pair (3, 5)]) [7]"

theorem y_bwd_outputs_are_gradients_witness:
  "\<exists>out aux acc gx gy g p. demo_gradients = Inr (out, aux, acc) \<and>
     recast_pair (out ! 0) = (word_of_int \<lfloor>gx\<rfloor>, word_of_int \<lfloor>gy\<rfloor>) \<and>
     ((\<lambda>x. 1 / 2 * (1 * (silu x * real (unat (5 :: 16 word)))) * 7) has_real_derivative gx) (at (real (unat (3 :: 16 word)))) \<and>
     ((\<lambda>y. 1 / 2 * (1 * (silu (real (unat (3 :: 16 word))) * y)) * 7) has_real_derivative gy) (at (real (unat (5 :: 16 word)))) \<and>
     acc = Some (rows [] g p) \<and>
     ((\<lambda>v. v * (1 * (silu (real (unat (3 :: 16 word))) * real (unat (5 :: 16 word)))) * 7) has_real_derivative g ! 0 * p ! 0) (at (1 / 2)) \<and>
     aux ! 0 = 1 / 2 * (1 * (silu (real (unat (3 :: 16 word))) * real (unat (5 :: 16 word))))"
proof -
  obtain out aux acc where run: "demo_gradients = Inr (out, aux, acc)"
    by (auto simp: demo_gradients_def epi_visit_y_bwd_def Let_def)
  have dx: "((\<lambda>x. silu x * y * g) has_real_derivative dgate (swiglu_grad x y g)) (at x)" for x y g
  proof -
    have "((\<lambda>x. (y * g) * silu x) has_real_derivative (y * g) * dsilu x) (at x)" by (rule DERIV_cmult [OF silu_deriv])
    then show ?thesis by (simp add: swiglu_grad_def ac_simps)
  qed
  have dy: "((\<lambda>y. silu x * y * g) has_real_derivative dup (swiglu_grad x y g)) (at y)" for x y g
    by (auto intro!: derivative_eq_intros simp: swiglu_grad_def)
  have d: "1 = (case lane_mask (None :: real dropout_op option) 0 of None \<Rightarrow> 1 | Some m \<Rightarrow> m)" by (simp add: lane_mask_def)
  from y_bwd_outputs_are_gradients [where act_fn = "\<lambda>x y. silu x * y", OF run [unfolded demo_gradients_def], of 0 3 5, OF _ _ _ _ dx dy _ d]
  show ?thesis using run by (simp add: swiglu_grad_def) blast
qed


definition demo_drop :: "(int \<times> int) list \<Rightarrow> 32 word \<times> 32 word \<Rightarrow> int dropout_op" where
  "demo_drop crds org = \<lparr>dr_seed = 1234, dr_coords = crds, dr_origin = org, dr_threshold = 858993459, dr_scale = 3\<rparr>"

definition demo_fwd :: "int list \<times> int list" where
  "demo_fwd = epi_visit_a (\<lambda>x. x) (*)
     (Some (demo_drop [(5, 24), (5, 25)] (dropout_origin 128 192 (Some [0, 256]) 1 3 1))) [3, 5]"

definition demo_bwd where
  "demo_bwd = epi_visit_y_bwd (\<lambda>v. int (unat v)) word_of_int bilinear rows
     (Some (demo_drop [(5, 44)] (dropout_origin 128 128 (Some [0, 256]) 1 2 1))) (Some [4]) (Some [2]) (Some [])
     (Some [pack_pair (3, 5)]) [7 :: int]"

section \<open>The atomic row reduction\<close>

text \<open>What \<open>ColVecReduce\<close> staged for one thread: its values and their rows, the other warps' values in
  shared memory, and the thread's place.\<close>

record 'v staged =
  vals :: "'v list"
  row_of :: "nat list"
  exch :: "nat \<Rightarrow> nat \<Rightarrow> 'v"
  warps_in_N :: nat
  warp_n_idx :: nat
  is_leader :: bool
  swap_shuffle :: bool
  num_slices :: nat
  slice_elems :: nat
  lane_g :: nat

definition merged :: "('v \<Rightarrow> 'v \<Rightarrow> 'v) \<Rightarrow> 'v staged \<Rightarrow> nat \<times> 'v \<Rightarrow> 'v" where
  \<comment> \<open>the inter-warp merge of one row\<close>
  "merged merge st rv = foldl (\<lambda>v w. merge v (exch st (fst rv) (w - 1))) (snd rv) [1..<warps_in_N st]"

definition owned_rows :: "'v staged \<Rightarrow> (nat \<times> 'v) list" where
  "owned_rows st =
     (if swap_shuffle st then
        (if lane_g st < num_slices st
         then map (\<lambda>j. (row_of st ! (lane_g st * slice_elems st + j), vals st ! j)) [0..<slice_elems st] else [])
      else (if is_leader st then map (\<lambda>m. (row_of st ! m, vals st ! m)) [0..<length (row_of st)] else []))"

definition finish_thread ::
  "('v \<Rightarrow> 'v \<Rightarrow> 'v) \<Rightarrow> ('v \<Rightarrow> 'f) \<Rightarrow> int \<Rightarrow> 'v staged \<Rightarrow> (nat \<times> 'f) list" where
  \<comment> \<open>the rows the thread adds to, with the added values\<close>
  "finish_thread merge finalize limit_m st =
     (if warps_in_N st = 1 \<or> warp_n_idx st = 0
      then map (\<lambda>rv. (fst rv, finalize (merged merge st rv))) (filter (\<lambda>rv. int (fst rv) < limit_m) (owned_rows st))
      else [])"

definition end_loop_finish ::
  "('v \<Rightarrow> 'v \<Rightarrow> 'v) \<Rightarrow> ('v \<Rightarrow> 'f) \<Rightarrow> bool \<Rightarrow> int list \<Rightarrow> int \<Rightarrow> nat \<times> int \<Rightarrow> 'v staged \<Rightarrow> (int \<times> 'f) list py" where
  \<comment> \<open>the atomic adds of one thread, by slot of the flat buffer\<close>
  "end_loop_finish merge finalize varlen_m cu_seqlens tile_size coord st =
     (if \<not> varlen_m then Inl (AssertionError ''ColVecReduceAtomic only supports varlen_m mode'')
      else (let b = fst coord; m = snd coord;
                len_m = cu_seqlens ! (b + 1) - cu_seqlens ! b;
                limit_m = min (len_m - m * tile_size) tile_size
            in Inr (map (\<lambda>(r, v). (cu_seqlens ! b + m * tile_size + int r, v)) (finish_thread merge finalize limit_m st))))"

text \<open>
  quack's staging contract for a CTA, as its documentation states it: the threads of the first
  warp along N own every row of the tile once, hold that warp's partial, and find the partial of warp \<open>w\<close> in
  the exchange buffer.
\<close>

definition staging_ok :: "nat \<Rightarrow> nat \<Rightarrow> (nat \<Rightarrow> nat \<Rightarrow> 'v) \<Rightarrow> 'v staged list \<Rightarrow> bool" where
  "staging_ok warps tile_size part sts \<longleftrightarrow>
     (\<forall>st \<in> set sts. warps_in_N st = warps \<and> (\<forall>rv \<in> set (owned_rows st). warp_n_idx st = 0 \<longrightarrow> snd rv = part 0 (fst rv)) \<and>
        (\<forall>r w. 0 < w \<longrightarrow> w < warps \<longrightarrow> exch st r (w - 1) = part w r)) \<and>
     mset (map fst (concat (map owned_rows (filter (\<lambda>st. warps = 1 \<or> warp_n_idx st = 0) sts)))) = mset [0..<tile_size] \<and>
     (warps = 1 \<longrightarrow> (\<forall>st \<in> set sts. warp_n_idx st = 0))"

definition row_total :: "('v \<Rightarrow> 'v \<Rightarrow> 'v) \<Rightarrow> ('v \<Rightarrow> 'f) \<Rightarrow> (nat \<Rightarrow> nat \<Rightarrow> 'v) \<Rightarrow> nat \<Rightarrow> nat \<Rightarrow> 'f" where
  "row_total merge finalize part warps r = finalize (foldl (\<lambda>v w. merge v (part w r)) (part 0 r) [1..<warps])"

lemma finish_thread_rows:
  assumes "staging_ok warps ts part sts" "st \<in> set sts" "limit = int ts"
  shows "finish_thread merge fin limit st =
    (if warps = 1 \<or> warp_n_idx st = 0 then map (\<lambda>r. (r, row_total merge fin part warps r)) (map fst (owned_rows st)) else [])"
proof (cases "warps = 1 \<or> warp_n_idx st = 0")
  case True
  have st: "warps_in_N st = warps" "warp_n_idx st = 0" using assms True by (auto simp: staging_ok_def)
  have part0: "rv \<in> set (owned_rows st) \<Longrightarrow> snd rv = part 0 (fst rv)" for rv
    using assms(1,2) st by (auto simp: staging_ok_def)
  have "fst rv \<in># mset [0..<ts]" if "rv \<in> set (owned_rows st)" for rv
  proof -
    have "fst rv \<in> set (map fst (concat (map owned_rows (filter (\<lambda>st. warps = 1 \<or> warp_n_idx st = 0) sts))))"
      using that assms(2) True by force
    then show ?thesis using assms(1) by (simp only: staging_ok_def set_mset_mset [symmetric])
  qed
  then have all: "filter (\<lambda>rv. int (fst rv) < limit) (owned_rows st) = owned_rows st"
    using assms(3) by (intro filter_True) auto
  have row: "merged merge st rv = foldl (\<lambda>v w. merge v (part w (fst rv))) (part 0 (fst rv)) [1..<warps]"
    if "rv \<in> set (owned_rows st)" for rv
    unfolding merged_def st part0 [OF that] using assms(1,2) by (intro foldl_cong) (auto simp: staging_ok_def)
  show ?thesis using True st all row by (auto simp: finish_thread_def row_total_def)
qed (use assms in \<open>auto simp: finish_thread_def staging_ok_def\<close>)

text \<open>For a full tile of an expert, the threads of one CTA together add to \<open>dL_dweight\<close> exactly once
  per slot of the tile, each time the merged partials of all the warps along N for that row.\<close>

lemma dweight_added_once_per_slot:
  assumes stage: "staging_ok warps ts part sts"
    and full: "(m + 1) * int ts \<le> cu ! (b + 1) - cu ! b"
  shows "\<exists>adds. map (end_loop_finish merge fin True cu (int ts) (b, m)) sts = map Inr adds \<and>
    mset (concat adds) = mset (map (\<lambda>r. (cu ! b + m * int ts + int r, row_total merge fin part warps r)) [0..<ts])"
proof (intro exI conjI)
  let ?slot = "\<lambda>(r, v). (cu ! b + m * int ts + int r, v)"
  let ?on = "\<lambda>st. warps = 1 \<or> warp_n_idx st = 0"
  let ?adds = "map (\<lambda>st. map ?slot (finish_thread merge fin (int ts) st)) sts"
  have "min (cu ! (b + 1) - cu ! b - m * int ts) (int ts) = int ts" using full by (simp add: algebra_simps)
  then show "map (end_loop_finish merge fin True cu (int ts) (b, m)) sts = map Inr ?adds"
    by (simp add: end_loop_finish_def)
  have "mset (concat ?adds) = image_mset ?slot (mset (concat (map (finish_thread merge fin (int ts)) sts)))"
    by (induction sts) auto
  also have "map (finish_thread merge fin (int ts)) sts =
      map (\<lambda>st. if ?on st then map (\<lambda>r. (r, row_total merge fin part warps r)) (map fst (owned_rows st)) else []) sts"
    by (rule map_cong [OF refl], rule finish_thread_rows [OF stage _ refl])
  also have "mset (concat \<dots>) = image_mset (\<lambda>r. (r, row_total merge fin part warps r))
      (mset (map fst (concat (map owned_rows (filter ?on sts)))))"
    by (induction sts) (auto simp: multiset.map_comp comp_def)
  also have "mset (map fst (concat (map owned_rows (filter ?on sts)))) = mset [0..<ts]"
    using stage by (simp only: staging_ok_def)
  finally show "mset (concat ?adds) =
      mset (map (\<lambda>r. (cu ! b + m * int ts + int r, row_total merge fin part warps r)) [0..<ts])"
    by (simp add: multiset.map_comp comp_def)
qed

end
