(* ===== verification/Buffer_Sizing.thy ===== *)
theory Buffer_Sizing
  imports SE_Prelude
begin

text \<open>
  How a \<open>Buffer\<close> of \<^verbatim>\<open>stream_ep/buffer.py\<close> is sized: the process-wide SM count
  (\<open>num_sms\<close>, \<open>set_num_sms\<close>, \<open>autopick_num_sms\<close>), the recommended configurations
  (\<open>get_dispatch_config\<close>, \<open>get_combine_config\<close>), the size hints of \<open>Config\<close>
  (\<^verbatim>\<open>csrc/config.hpp\<close>, over the region layouts of \<^verbatim>\<open>csrc/kernels/api.cuh\<close>) and
  \<open>sized_for\<close>. C++'s \<open>EP_HOST_ASSERT\<close> reaches Python as a \<open>RuntimeError\<close>. Sizes are integers: the
  largest ones are far below \<open>2 ^ 63\<close>, the width the C++ code keeps them in.
\<close>

section \<open>Configurations\<close>

definition NUM_MAX_NVL_PEERS :: int where "NUM_MAX_NVL_PEERS = 8"
definition NUM_MAX_LOCAL_EXPERTS :: int where "NUM_MAX_LOCAL_EXPERTS = 64"

record comm_config =
  cf_num_sms :: int
  cf_nvl_send :: int
  cf_nvl_recv :: int
  cf_rdma_send :: int
  cf_rdma_recv :: int

definition host_asserts :: "(bool \<times> string) list \<Rightarrow> unit py" where
  "host_asserts cs = (case find (\<lambda>c. \<not> fst c) cs of None \<Rightarrow> Inr () | Some c \<Rightarrow> Inl (RuntimeError (snd c)))"

lemma host_asserts_ok [host_simps]: "host_asserts cs = Inr u \<longleftrightarrow> list_all fst cs"
  by (auto simp: host_asserts_def list_all_iff find_None_iff find_Some_iff split: option.splits)

definition align_up :: "int \<Rightarrow> int \<Rightarrow> int" where
  "align_up a b = (a + b - 1) div b * b"

definition mk_config :: "int \<Rightarrow> int \<Rightarrow> int \<Rightarrow> int \<Rightarrow> int \<Rightarrow> comm_config py" where
  \<comment> \<open>inside the constructor the parameter, not the rounded member, is tested\<close>
  "mk_config sms ns nr rs rr =
     py_bind (host_asserts
      [(0 \<le> sms, ''num_sms''), (0 < ns \<and> 0 < nr, ''nvl''), (ns < nr, ''nvl send < recv''), (0 < rs \<and> 0 < rr, ''rdma''),
       (rs < rr, ''rdma send < recv''), (rs \<le> rr div 2, ''lazy head update'')]) (\<lambda>_.
     Inr \<lparr>cf_num_sms = sms, cf_nvl_send = ns, cf_nvl_recv = nr, cf_rdma_send = rs, cf_rdma_recv = align_up rr rs\<rparr>)"

section \<open>Ring regions\<close>

definition num_bytes_per_token :: "int \<Rightarrow> int \<Rightarrow> int \<Rightarrow> int" where
  "num_bytes_per_token hidden_int4 topk_idx topk_weights =
     align_up (hidden_int4 * 16 + 8 + topk_idx * 4 + topk_weights * 4) 16"

definition dispatch_nvl_region_bytes :: "int \<Rightarrow> int \<Rightarrow> int \<Rightarrow> int \<Rightarrow> int \<Rightarrow> int" where
  "dispatch_nvl_region_bytes hidden_int4 topk recv channels rdma_ranks =
     recv * num_bytes_per_token hidden_int4 topk topk * NUM_MAX_NVL_PEERS * channels
       + 2 * (rdma_ranks * 8 * NUM_MAX_NVL_PEERS * channels) + 2 * (8 * NUM_MAX_NVL_PEERS * channels)"

definition combine_nvl_region_bytes :: "int \<Rightarrow> int \<Rightarrow> int \<Rightarrow> int \<Rightarrow> int \<Rightarrow> int" where
  "combine_nvl_region_bytes hidden_int4 topk recv channels rdma_ranks =
     recv * num_bytes_per_token hidden_int4 0 topk * NUM_MAX_NVL_PEERS * channels
       + 2 * (rdma_ranks * 8 * NUM_MAX_NVL_PEERS * channels)"

definition metadata_nvl_region_bytes :: "int \<Rightarrow> int \<Rightarrow> int \<Rightarrow> int" where
  "metadata_nvl_region_bytes local_experts channels rdma_ranks =
     (local_experts * NUM_MAX_NVL_PEERS + rdma_ranks * NUM_MAX_NVL_PEERS + local_experts * NUM_MAX_NVL_PEERS
       + rdma_ranks * channels * local_experts * NUM_MAX_NVL_PEERS) * 4"

definition dispatch_rdma_region_bytes :: "int \<Rightarrow> int \<Rightarrow> int \<Rightarrow> int \<Rightarrow> int \<Rightarrow> int" where
  "dispatch_rdma_region_bytes hidden_int4 topk recv channels rdma_ranks =
     2 * recv * num_bytes_per_token hidden_int4 topk topk * rdma_ranks * channels + 2 * 8 * rdma_ranks * channels"

definition combine_rdma_region_bytes :: "int \<Rightarrow> int \<Rightarrow> int \<Rightarrow> int \<Rightarrow> int \<Rightarrow> int" where
  "combine_rdma_region_bytes hidden_int4 topk recv channels rdma_ranks =
     2 * recv * num_bytes_per_token hidden_int4 0 topk * rdma_ranks * channels + 2 * 8 * rdma_ranks * channels"

definition K_MAX_TOPK :: int where "K_MAX_TOPK = 128"

definition round128 :: "int \<Rightarrow> int" where "round128 n = (n + 127) div 128 * 128"

definition rdma_ranks_of :: "int \<Rightarrow> int" where
  "rdma_ranks_of num_ranks = max (num_ranks div NUM_MAX_NVL_PEERS) 1"

definition nvl_size_hint :: "comm_config \<Rightarrow> int \<Rightarrow> int \<Rightarrow> int py" where
  "nvl_size_hint cf hidden_bytes num_ranks =
     py_bind (host_asserts
       [(num_ranks < NUM_MAX_NVL_PEERS \<or> num_ranks mod NUM_MAX_NVL_PEERS = 0, ''num_ranks''),
        (num_ranks \<le> NUM_MAX_NVL_PEERS \<or> cf_num_sms cf mod 2 = 0, ''num_sms'')]) (\<lambda>_.
     let R = rdma_ranks_of num_ranks; ch = cf_num_sms cf div 2; h4 = hidden_bytes div 16
     in Inr (round128
       (dispatch_nvl_region_bytes h4 K_MAX_TOPK (cf_nvl_recv cf) ch R + combine_nvl_region_bytes h4 K_MAX_TOPK (cf_nvl_recv cf) ch R
        + (if num_ranks > NUM_MAX_NVL_PEERS then metadata_nvl_region_bytes NUM_MAX_LOCAL_EXPERTS ch R else 0))))"

definition rdma_size_hint :: "comm_config \<Rightarrow> int \<Rightarrow> int \<Rightarrow> int py" where
  "rdma_size_hint cf hidden_bytes num_ranks =
     (if num_ranks \<le> NUM_MAX_NVL_PEERS then Inr 0
      else py_bind (host_asserts
        [(num_ranks mod NUM_MAX_NVL_PEERS = 0, ''num_ranks''), (cf_num_sms cf mod 2 = 0, ''num_sms'')]) (\<lambda>_.
      let R = num_ranks div NUM_MAX_NVL_PEERS; ch = cf_num_sms cf div 2; h4 = hidden_bytes div 16
      in Inr (round128
        (dispatch_rdma_region_bytes h4 K_MAX_TOPK (cf_rdma_recv cf) ch R
         + combine_rdma_region_bytes h4 K_MAX_TOPK (cf_rdma_recv cf) ch R))))"

section \<open>The rings of one node, and what a launch asserts\<close>

text \<open>With at most eight ranks the rings are laid out without the RDMA tier. Every dispatch and combine kernel
  asserts \<open>num_topk \<le> kMaxTopK\<close>; \<open>topk_idx_t\<close> has 64 bits.\<close>

definition kMaxTopK :: int where "kMaxTopK = 32"

definition intranode_dispatch_section_bytes :: "int \<Rightarrow> int \<Rightarrow> int \<Rightarrow> int \<Rightarrow> int \<Rightarrow> int" where
  "intranode_dispatch_section_bytes channels ranks slots h4 topk = round128
     (ranks * ranks * 4 + 4 * channels * ranks * 8 + channels * ranks * slots * h4 * 16 + channels * ranks * slots * 4
      + channels * ranks * slots * topk * 8 + channels * ranks * slots * topk * 4)"

definition intranode_combine_section_bytes :: "int \<Rightarrow> int \<Rightarrow> int \<Rightarrow> int \<Rightarrow> int \<Rightarrow> int" where
  "intranode_combine_section_bytes channels ranks slots h4 topk = round128
     (2 * channels * ranks * 8 + channels * ranks * slots * h4 * 16 + channels * ranks * slots * 4
      + channels * ranks * slots * topk * 4)"

definition intranode_dispatch_asserts :: "int \<Rightarrow> int \<Rightarrow> int \<Rightarrow> int \<Rightarrow> int \<Rightarrow> int \<Rightarrow> int \<Rightarrow> unit py" where
  \<comment> \<open>the product of channels, ranks, ring length and hidden size is formed in \<open>int\<close>\<close>
  "intranode_dispatch_asserts ranks channels recv hidden elem topk nvl = host_asserts
     [(ranks * ranks * 4 + 4 * channels * ranks * 8 \<le> nvl, ''ring metadata''),
      (ranks * ranks * 4 + channels * ranks * 4 + channels * ranks * 4 + channels * ranks * 4 * 2
        + i32 (channels * ranks * recv * hidden) * elem + channels * ranks * recv * 4
        + channels * ranks * recv * topk * 8 + channels * ranks * recv * topk * 4 \<le> nvl, ''rings'')]"

definition intranode_combine_asserts :: "int \<Rightarrow> int \<Rightarrow> int \<Rightarrow> int \<Rightarrow> int \<Rightarrow> int \<Rightarrow> unit py" where
  "intranode_combine_asserts ranks channels recv h4 topk nvl = host_asserts
     [(intranode_dispatch_section_bytes channels ranks recv h4 topk
        + intranode_combine_section_bytes channels ranks recv h4 topk \<le> nvl, ''sections'')]"

definition internode_dispatch_asserts :: "int \<Rightarrow> int \<Rightarrow> int \<Rightarrow> int \<Rightarrow> comm_config \<Rightarrow> int \<Rightarrow> int \<Rightarrow> unit py" where
  \<comment> \<open>the metadata kernel's payloads lie behind both rings, in the RDMA and in the NVL buffer\<close>
  "internode_dispatch_asserts ranks experts h4 topk cf nvl rdma =
     (let R = rdma_ranks_of ranks; ch = cf_num_sms cf div 2; local_experts = experts div ranks; rdma_experts = experts div R;
          metadata_rdma_offset = dispatch_rdma_region_bytes h4 topk (cf_rdma_recv cf) ch R
            + combine_rdma_region_bytes h4 topk (cf_rdma_recv cf) ch R;
          streaming_rdma_offset = 2 * R * (NUM_MAX_NVL_PEERS + rdma_experts + 1) * 4;
          streaming_rdma_total = 2 * R * ch * NUM_MAX_NVL_PEERS * local_experts * 4;
          nvl_metadata_offset = dispatch_nvl_region_bytes h4 topk (cf_nvl_recv cf) ch R
            + combine_nvl_region_bytes h4 topk (cf_nvl_recv cf) ch R
      in host_asserts
        [(1 < R, ''num_rdma_ranks''), (cf_num_sms cf mod 2 = 0, ''num_sms''),
         (metadata_rdma_offset + streaming_rdma_offset + streaming_rdma_total \<le> rdma, ''RDMA bytes''),
         (nvl_metadata_offset + metadata_nvl_region_bytes local_experts ch R \<le> nvl, ''NVL bytes'')])"

section \<open>The process-wide SM count\<close>

record sm_policy =
  num_sms :: int
  sms_explicit :: bool

definition initial_policy :: sm_policy where "initial_policy = \<lparr>num_sms = 64, sms_explicit = False\<rparr>"

definition set_num_sms :: "int \<Rightarrow> (sm_policy, unit) meth" where
  "set_num_sms n = m_bind (m_lift (asserts [(n mod 2 = 0, ''The SM count must be even'')])) (\<lambda>_.
     m_modify (\<lambda>p. p\<lparr>num_sms := n, sms_explicit := True\<rparr>))"

definition autopick_num_sms :: "int \<Rightarrow> (sm_policy, int) meth" where
  "autopick_num_sms group_size = m_bind (m_modify (\<lambda>p.
       if sms_explicit p then p
       else p\<lparr>num_sms := (if (group_size + 7) div 8 \<le> 2 then 80 else 64)\<rparr>)) (\<lambda>_. m_get num_sms)"

type_synonym tuning_row = "int \<times> int \<times> int \<times> int \<times> int"  \<comment> \<open>ranks, then the four token counts\<close>

definition dispatch_rows :: "tuning_row list" where
  "dispatch_rows = [(2, 24, 256, 6, 128), (4, 6, 256, 6, 128), (8, 6, 256, 6, 128), (16, 36, 288, 20, 256),
     (24, 32, 288, 8, 128), (32, 32, 288, 8, 256), (48, 32, 288, 8, 128), (64, 32, 288, 8, 128), (96, 20, 480, 12, 128),
     (128, 20, 560, 12, 128), (144, 32, 720, 12, 128), (160, 28, 720, 12, 128)]"

definition combine_rows :: "tuning_row list" where
  "combine_rows = [(2, 10, 256, 6, 128), (4, 9, 256, 6, 128), (8, 4, 256, 6, 128), (16, 1, 288, 12, 256),
     (24, 1, 288, 8, 128), (32, 1, 288, 8, 256), (48, 1, 288, 8, 128), (64, 1, 288, 8, 128), (96, 1, 480, 8, 128),
     (128, 1, 560, 8, 128), (144, 2, 720, 8, 128), (160, 2, 720, 8, 128)]"

fun build_map :: "int \<Rightarrow> tuning_row list \<Rightarrow> (int \<times> comm_config) list py" where
  \<comment> \<open>the dict literal: every entry is constructed before the lookup\<close>
  "build_map sms [] = Inr []"
| "build_map sms ((n, a, b, c, d) # rows) =
     py_bind (mk_config sms a b c d) (\<lambda>cf. py_bind (build_map sms rows) (\<lambda>m. Inr ((n, cf) # m)))"

definition recommended :: "tuning_row list \<Rightarrow> int \<Rightarrow> (sm_policy, comm_config) meth" where
  "recommended rows num_ranks =
     m_bind (autopick_num_sms num_ranks) (\<lambda>sms.
     m_bind (m_lift (build_map sms rows)) (\<lambda>m.
     m_lift (case map_of m num_ranks of
       None \<Rightarrow> Inl (AssertionError ''Unsupported number of EP ranks'')
     | Some cf \<Rightarrow> Inr cf)))"

definition get_dispatch_config :: "int \<Rightarrow> (sm_policy, comm_config) meth" where
  "get_dispatch_config num_ranks = recommended dispatch_rows num_ranks"

definition get_combine_config :: "int \<Rightarrow> (sm_policy, comm_config) meth" where
  "get_combine_config num_ranks = recommended combine_rows num_ranks"

definition sized_for :: "int \<Rightarrow> int \<Rightarrow> (sm_policy, int \<times> int) meth" where
  \<comment> \<open>the two sizes the buffer is then constructed with\<close>
  "sized_for num_ranks hidden_bytes =
     m_bind (get_dispatch_config num_ranks) (\<lambda>d.
     m_bind (get_combine_config num_ranks) (\<lambda>c.
     m_bind (m_lift (nvl_size_hint d hidden_bytes num_ranks)) (\<lambda>n1.
     m_bind (m_lift (nvl_size_hint c hidden_bytes num_ranks)) (\<lambda>n2.
     m_bind (m_lift (rdma_size_hint d hidden_bytes num_ranks)) (\<lambda>r1.
     m_bind (m_lift (rdma_size_hint c hidden_bytes num_ranks)) (\<lambda>r2.
     m_return (max n1 n2, max r1 r2)))))))"

section \<open>The recommended configurations\<close>

lemma autopick_result [simp]: "fst (autopick_num_sms n p) = Inr (num_sms (snd (autopick_num_sms n p)))"
  by (simp add: autopick_num_sms_def meth_simps)

lemma autopick_state: "snd (autopick_num_sms n p) =
    (if sms_explicit p then p else p\<lparr>num_sms := (if (n + 7) div 8 \<le> 2 then 80 else 64)\<rparr>)"
  by (simp add: autopick_num_sms_def meth_simps)

text \<open>What a reachable policy is: the default, or an even number that was set.\<close>

definition policy_ok :: "sm_policy \<Rightarrow> bool" where "policy_ok p \<longleftrightarrow> even (num_sms p)"

lemma policy_ok_initial: "policy_ok initial_policy" by (simp add: policy_ok_def initial_policy_def)

lemma policy_ok_autopick: "policy_ok p \<Longrightarrow> policy_ok (snd (autopick_num_sms n p))"
  by (simp add: policy_ok_def autopick_state)

lemma policy_ok_set: "policy_ok p \<Longrightarrow> policy_ok (snd (set_num_sms n p))"
  by (auto simp: policy_ok_def set_num_sms_def meth_simps asserts.simps split: sum.splits)

lemma recommended_state: "snd (recommended rows n p) = snd (autopick_num_sms n p)"
  by (simp add: recommended_def m_bind_run m_run split: sum.splits)

text \<open>Picking twice is picking once.\<close>

lemma autopick_idem: "snd (autopick_num_sms n (snd (autopick_num_sms n p))) = snd (autopick_num_sms n p)"
  by (simp add: autopick_state)

lemma build_map_sms: "build_map sms rows = Inr m \<Longrightarrow> (n, cf) \<in> set m \<Longrightarrow> cf_num_sms cf = sms"
proof (induction rows arbitrary: m)
  case (Cons row rows)
  obtain k a b c d where row: "row = (k, a, b, c, d)" by (cases row)
  with Cons show ?case by (auto simp: py_bind_Inr_iff mk_config_def)
qed simp

text \<open>Every configuration is built for the SM count in force.\<close>

lemma recommended_sms:
  assumes "fst (recommended rows n p) = Inr cf"
  shows "cf_num_sms cf = num_sms (snd (recommended rows n p))"
  using assms build_map_sms map_of_SomeD
  by (fastforce simp: recommended_def m_bind_run m_run split: sum.splits option.splits)

lemma build_map_row:
  "build_map sms rows = Inr m \<Longrightarrow> map_of m n = Some cf \<Longrightarrow>
   \<exists>a b c d. map_of rows n = Some (a, b, c, d) \<and> mk_config sms a b c d = Inr cf"
proof (induction rows arbitrary: m)
  case (Cons row rows)
  obtain k a b c d where row: "row = (k, a, b, c, d)" by (cases row)
  with Cons show ?case by (auto simp: py_bind_Inr_iff split: if_splits)
qed simp

lemma recommended_row:
  assumes "fst (recommended rows n p) = Inr cf"
  obtains a b c d where "map_of rows n = Some (a, b, c, d)" "mk_config (num_sms (snd (autopick_num_sms n p))) a b c d = Inr cf"
proof -
  from assms obtain m where "build_map (num_sms (snd (autopick_num_sms n p))) rows = Inr m" "map_of m n = Some cf"
    by (auto simp: recommended_def m_bind_run m_run split: sum.splits option.splits)
  then show thesis using build_map_row that by blast
qed

lemma mk_config_fields:
  assumes "mk_config sms a b c d = Inr cf"
  shows "cf_nvl_recv cf = b" "cf_num_sms cf = sms" "0 \<le> sms" "0 < b" "cf_rdma_recv cf = align_up d c" "0 < d" "0 < c"
  using assms by (auto simp: mk_config_def py_bind_Inr_iff host_asserts_ok)

text \<open>Dispatch and combine of one world size ring the same number of NVL tokens.\<close>

lemma tables_agree:
  assumes "map_of dispatch_rows n = Some (a, b, c, d)" "map_of combine_rows n = Some (a', b', c', d')"
  shows "b = b'"
proof -
  have "n \<in> {2, 4, 8, 16, 24, 32, 48, 64, 96, 128, 144, 160}"
    using assms(1) by (auto simp: dispatch_rows_def split: if_splits)
  then show ?thesis using assms by (elim insertE emptyE) (simp_all add: dispatch_rows_def combine_rows_def)
qed

lemma align_up_mono: "0 < k \<Longrightarrow> a \<le> b \<Longrightarrow> align_up a k \<le> align_up b k"
  by (auto simp: align_up_def intro!: mult_right_mono zdiv_mono1)

lemma align_up_ge: "0 < k \<Longrightarrow> a \<le> align_up a k"
proof -
  assume k: "0 < k"
  have "(a + k - 1) div k * k = a + k - 1 - (a + k - 1) mod k" by (simp add: minus_mod_eq_div_mult)
  moreover have "(a + k - 1) mod k \<le> k - 1" using pos_mod_bound [OF k, of "a + k - 1"] by simp
  ultimately show ?thesis unfolding align_up_def by linarith
qed

lemma round128_ge: "n \<le> round128 n"
  using align_up_ge [of 128 n] by (simp add: align_up_def round128_def)

lemma token_bytes_mono: "i \<le> i' \<Longrightarrow> k \<le> k' \<Longrightarrow> num_bytes_per_token h i k \<le> num_bytes_per_token h i' k'"
  unfolding num_bytes_per_token_def by (rule align_up_mono) simp_all

lemma token_bytes_nonneg: "0 \<le> h \<Longrightarrow> 0 \<le> i \<Longrightarrow> 0 \<le> k \<Longrightarrow> 0 \<le> num_bytes_per_token h i k"
  unfolding num_bytes_per_token_def by (rule order_trans [OF _ align_up_ge]) simp_all

lemma region_mono:
  assumes "k \<le> k'" "0 \<le> recv" "0 \<le> ch" "0 \<le> R"
  shows "dispatch_nvl_region_bytes h k recv ch R \<le> dispatch_nvl_region_bytes h k' recv ch R"
    "combine_nvl_region_bytes h k recv ch R \<le> combine_nvl_region_bytes h k' recv ch R"
    "dispatch_rdma_region_bytes h k recv ch R \<le> dispatch_rdma_region_bytes h k' recv ch R"
    "combine_rdma_region_bytes h k recv ch R \<le> combine_rdma_region_bytes h k' recv ch R"
  unfolding dispatch_nvl_region_bytes_def combine_nvl_region_bytes_def dispatch_rdma_region_bytes_def
    combine_rdma_region_bytes_def NUM_MAX_NVL_PEERS_def
  using assms by (auto intro!: add_mono mult_right_mono mult_left_mono token_bytes_mono)

lemma metadata_mono: "e \<le> e' \<Longrightarrow> 0 \<le> ch \<Longrightarrow> 0 \<le> R \<Longrightarrow> metadata_nvl_region_bytes e ch R \<le> metadata_nvl_region_bytes e' ch R"
  unfolding metadata_nvl_region_bytes_def NUM_MAX_NVL_PEERS_def
  by (auto intro!: add_mono mult_right_mono mult_left_mono)

lemma sized_forE:
  assumes "fst (sized_for n hb p) = Inr (nvl, rdma)"
  obtains d c n1 n2 r1 r2 where
    "fst (get_dispatch_config n p) = Inr d" "fst (get_combine_config n (snd (get_dispatch_config n p))) = Inr c"
    "nvl_size_hint d hb n = Inr n1" "nvl_size_hint c hb n = Inr n2" "rdma_size_hint d hb n = Inr r1"
    "rdma_size_hint c hb n = Inr r2" "nvl = max n1 n2" "rdma = max r1 r2"
    "snd (sized_for n hb p) = snd (autopick_num_sms n p)"
  using assms that
  by (auto simp: sized_for_def m_bind_run m_run get_dispatch_config_def get_combine_config_def recommended_state
      autopick_idem split: sum.splits)

lemma nvl_hint_bound:
  assumes "nvl_size_hint cf hb n = Inr b" "0 \<le> cf_nvl_recv cf" "0 \<le> cf_num_sms cf" "k \<le> 128" "e \<le> 64"
    and "R = rdma_ranks_of n" "ch = cf_num_sms cf div 2" "h = hb div 16"
  shows "dispatch_nvl_region_bytes h k (cf_nvl_recv cf) ch R + combine_nvl_region_bytes h k (cf_nvl_recv cf) ch R
    + (if n > 8 then metadata_nvl_region_bytes e ch R else 0) \<le> b"
proof -
  let ?x = "dispatch_nvl_region_bytes h 128 (cf_nvl_recv cf) ch R + combine_nvl_region_bytes h 128 (cf_nvl_recv cf) ch R
        + (if n > 8 then metadata_nvl_region_bytes NUM_MAX_LOCAL_EXPERTS ch R else 0)"
  have nn: "0 \<le> ch" "0 \<le> R" using assms by (auto simp: rdma_ranks_of_def)
  have "metadata_nvl_region_bytes e ch R \<le> metadata_nvl_region_bytes NUM_MAX_LOCAL_EXPERTS ch R"
    using metadata_mono [OF _ nn] assms(5) by (simp add: NUM_MAX_LOCAL_EXPERTS_def)
  moreover have "b = round128 ?x"
    using assms(1) unfolding nvl_size_hint_def py_bind_Inr_iff Let_def K_MAX_TOPK_def assms(6-8)
    by (simp add: NUM_MAX_NVL_PEERS_def split: if_splits)
  ultimately show ?thesis
    using region_mono(1,2) [OF assms(4,2) nn, of h] round128_ge [of ?x] by (cases "n > 8") auto
qed

lemma rdma_hint_bound:
  assumes "rdma_size_hint cf hb n = Inr b" "8 < n" "0 \<le> cf_rdma_recv cf" "0 \<le> cf_num_sms cf" "k \<le> 128"
    and "R = rdma_ranks_of n" "ch = cf_num_sms cf div 2" "h = hb div 16"
  shows "dispatch_rdma_region_bytes h k (cf_rdma_recv cf) ch R + combine_rdma_region_bytes h k (cf_rdma_recv cf) ch R \<le> b"
proof -
  let ?x = "dispatch_rdma_region_bytes h 128 (cf_rdma_recv cf) ch R + combine_rdma_region_bytes h 128 (cf_rdma_recv cf) ch R"
  have nn: "0 \<le> ch" "0 \<le> R" using assms by (auto simp: rdma_ranks_of_def)
  have R: "R = n div 8" using assms(2,6) by (simp add: rdma_ranks_of_def NUM_MAX_NVL_PEERS_def)
  have "b = round128 ?x"
    using assms(1,2) unfolding rdma_size_hint_def py_bind_Inr_iff Let_def K_MAX_TOPK_def assms(7,8) R
    by (simp add: NUM_MAX_NVL_PEERS_def py_bind_Inr_iff)
  then show ?thesis using region_mono(3,4) [OF assms(5,3) nn, of h] round128_ge [of ?x] by linarith
qed

lemma recommended_run:
  "recommended rows n p = (let q = snd (autopick_num_sms n p) in
     (case build_map (num_sms q) rows of Inl e \<Rightarrow> Inl e
      | Inr m \<Rightarrow> (case map_of m n of None \<Rightarrow> Inl (AssertionError ''Unsupported number of EP ranks'') | Some cf \<Rightarrow> Inr cf), q))"
  by (simp add: recommended_def m_bind_run m_run Let_def split: sum.splits)

lemma recommended_again: "recommended rows n (snd (autopick_num_sms n p)) = recommended rows n p"
  by (simp add: recommended_run autopick_idem)

section \<open>Every launch fits\<close>

lemma known_world: "map_of dispatch_rows n = Some r \<Longrightarrow> n \<in> {2, 4, 8, 16, 24, 32, 48, 64, 96, 128, 144, 160}"
  by (auto simp: dispatch_rows_def split: if_splits)

lemma rdma_rings_long:
  assumes "map_of dispatch_rows n = Some (a, b, c, d)"
  shows "128 \<le> d"
proof -
  have "n \<in> {2, 4, 8, 16, 24, 32, 48, 64, 96, 128, 144, 160}" by (rule known_world [OF assms])
  then show ?thesis using assms by (elim insertE emptyE) (simp_all add: dispatch_rows_def)
qed

lemma token_bytes_128: "num_bytes_per_token h 128 128 = 16 * h + 1040" "num_bytes_per_token h 0 128 = 16 * h + 528"
proof -
  have "(h * 16 + m) div 16 = h + m div 16" for m :: int by simp
  from this [of 1047] this [of 535] show "num_bytes_per_token h 128 128 = 16 * h + 1040" "num_bytes_per_token h 0 128 = 16 * h + 528"
    by (simp_all add: num_bytes_per_token_def align_up_def algebra_simps)
qed

lemma token_bytes_le: "k \<le> 32 \<Longrightarrow> num_bytes_per_token h k k \<le> 16 * h + 279" "k \<le> 32 \<Longrightarrow> num_bytes_per_token h 0 k \<le> 16 * h + 151"
proof -
  have up: "align_up a 16 \<le> a + 15" for a :: int
    using minus_mod_eq_div_mult [of "a + 15" 16] pos_mod_sign [of 16 "a + 15"] by (simp add: align_up_def algebra_simps)
  show "k \<le> 32 \<Longrightarrow> num_bytes_per_token h k k \<le> 16 * h + 279" "k \<le> 32 \<Longrightarrow> num_bytes_per_token h 0 k \<le> 16 * h + 151"
    using up [of "h * 16 + 8 + k * 4 + k * 4"] up [of "h * 16 + 8 + 0 * 4 + k * 4"] by (simp_all add: num_bytes_per_token_def)
qed

lemma round128_le: "round128 n \<le> n + 127"
  using minus_mod_eq_div_mult [of "n + 127" 128] pos_mod_sign [of 128 "n + 127"] by (simp add: round128_def algebra_simps)

text \<open>The size hint of one node, and what its launches need of it.\<close>

lemma intranode_hint:
  assumes "nvl_size_hint cf hb n = Inr b" "2 \<le> n" "n \<le> 8" "ch = cf_num_sms cf div 2" "h = hb div 16"
  shows "384 * ch + 256 * (ch * cf_nvl_recv cf * h) + 12544 * (ch * cf_nvl_recv cf) \<le> b"
proof -
  have "rdma_ranks_of n = 1"
    using assms(2,3) by (cases "n = 8") (auto simp: rdma_ranks_of_def NUM_MAX_NVL_PEERS_def div_pos_pos_trivial)
  then have "b = round128 (dispatch_nvl_region_bytes h 128 (cf_nvl_recv cf) ch 1 + combine_nvl_region_bytes h 128 (cf_nvl_recv cf) ch 1)"
    using assms(1,3) unfolding nvl_size_hint_def py_bind_Inr_iff Let_def assms(4,5)
    by (simp add: K_MAX_TOPK_def NUM_MAX_NVL_PEERS_def)
  then show ?thesis
    using round128_ge [of "dispatch_nvl_region_bytes h 128 (cf_nvl_recv cf) ch 1 + combine_nvl_region_bytes h 128 (cf_nvl_recv cf) ch 1"]
    by (simp add: dispatch_nvl_region_bytes_def combine_nvl_region_bytes_def NUM_MAX_NVL_PEERS_def token_bytes_128 algebra_simps)
qed

lemma ranks_le_8:
  assumes "0 \<le> n" "n \<le> (8::int)" "0 \<le> ch" "0 \<le> r" "0 \<le> h" "0 \<le> k" "k \<le> 32"
  shows "n * n \<le> 64" "ch * n \<le> 8 * ch" "ch * n * r \<le> 8 * (ch * r)" "ch * n * r * h \<le> 8 * (ch * r * h)" "ch * n * r * k \<le> 256 * (ch * r)"
proof -
  show "n * n \<le> 64" using mult_mono [of n 8 n 8] assms by simp
  show c: "ch * n \<le> 8 * ch" using mult_left_mono [OF assms(2,3)] by simp
  show r: "ch * n * r \<le> 8 * (ch * r)" using mult_right_mono [OF c assms(4)] by (simp add: ac_simps)
  show "ch * n * r * h \<le> 8 * (ch * r * h)" using mult_right_mono [OF r assms(5)] by (simp add: ac_simps)
  have "ch * n * r * k \<le> ch * n * r * 32" using assms by (intro mult_left_mono) simp_all
  also have "\<dots> \<le> 8 * (ch * r) * 32" by (intro mult_right_mono r) simp
  finally show "ch * n * r * k \<le> 256 * (ch * r)" by simp
qed

lemma intranode_fits:
  assumes b: "384 * ch + 256 * (ch * r * h) + 12544 * (ch * r) \<le> nvl"
    and n: "2 \<le> n" "n \<le> 8" "1 \<le> ch" "0 < r" "0 \<le> h" "0 \<le> k" "k \<le> 32"
    and hidden: "hidden * elem = 16 * h" "0 \<le> hidden" "ch * n * r * hidden < 2 ^ 31"
  shows "intranode_dispatch_asserts n ch r hidden elem k nvl = Inr ()" "intranode_combine_asserts n ch r h k nvl = Inr ()"
proof -
  note le = ranks_le_8 [of n ch r h k]
  have pos: "1 \<le> ch * r" "0 \<le> ch * r * h" using n mult_mono [of 1 ch 1 r] by simp_all
  have "0 \<le> ch * n * r * hidden" using n hidden(2) by simp
  then have i: "i32 (ch * n * r * hidden) = ch * n * r * hidden" using hidden(3) by (intro i32_exact) simp_all
  have x: "ch * n * r * hidden * elem = 16 * (ch * n * r * h)" using hidden(1) by (metis mult.assoc mult.left_commute)
  have bound: "n * n \<le> 64" "ch * n \<le> 8 * ch" "ch * n * r \<le> 8 * (ch * r)" "ch * n * r * h \<le> 8 * (ch * r * h)" "ch * n * r * k \<le> 256 * (ch * r)"
    using le n by linarith+
  have "n * n * 4 + 4 * ch * n * 8 \<le> nvl"
    "n * n * 4 + ch * n * 4 + ch * n * 4 + ch * n * 4 * 2 + 16 * (ch * n * r * h) + ch * n * r * 4 + ch * n * r * k * 8 + ch * n * r * k * 4 \<le> nvl"
    using bound n b pos by linarith+
  then show "intranode_dispatch_asserts n ch r hidden elem k nvl = Inr ()"
    unfolding intranode_dispatch_asserts_def host_asserts_ok i x by simp
  have "intranode_dispatch_section_bytes ch n r h k + intranode_combine_section_bytes ch n r h k \<le> nvl"
    using bound n b pos round128_le [of "n * n * 4 + 4 * ch * n * 8 + ch * n * r * h * 16 + ch * n * r * 4 + ch * n * r * k * 8 + ch * n * r * k * 4"]
      round128_le [of "2 * ch * n * 8 + ch * n * r * h * 16 + ch * n * r * 4 + ch * n * r * k * 4"]
    unfolding intranode_dispatch_section_bytes_def intranode_combine_section_bytes_def by linarith
  then show "intranode_combine_asserts n ch r h k nvl = Inr ()" by (simp add: intranode_combine_asserts_def host_asserts_ok)
qed

lemma internode_fits:
  assumes d: "nvl_size_hint cf hb n = Inr nvl" "rdma_size_hint cf hb n = Inr rdma" "16 \<le> n" "0 < cf_nvl_recv cf" "128 \<le> cf_rdma_recv cf"
    and sms: "2 \<le> cf_num_sms cf" and k: "k \<le> 32" and E: "experts = E * n" "0 \<le> E" "E \<le> 64" and le: "nvl \<le> nvl'" "rdma \<le> rdma'"
  shows "internode_dispatch_asserts n experts (hb div 16) k cf nvl' rdma' = Inr ()"
proof -
  define R ch h r where "R = n div 8" and "ch = cf_num_sms cf div 2" and "h = hb div 16" and "r = cf_rdma_recv cf"
  have ev: "n mod 8 = 0" "cf_num_sms cf mod 2 = 0"
    using d(2,3) by (auto simp: rdma_size_hint_def NUM_MAX_NVL_PEERS_def py_bind_Inr_iff host_asserts_ok)
  have R: "rdma_ranks_of n = R" "n = 8 * R" "2 \<le> R"
    using d(3) ev(1) by (auto simp: R_def rdma_ranks_of_def NUM_MAX_NVL_PEERS_def)
  have ch: "1 \<le> ch" using sms by (simp add: ch_def)
  have ex: "experts div n = E" "experts div R = 8 * E" using E R by simp_all
  have nvl: "dispatch_nvl_region_bytes h k (cf_nvl_recv cf) ch R + combine_nvl_region_bytes h k (cf_nvl_recv cf) ch R
      + metadata_nvl_region_bytes E ch R \<le> nvl'"
    using nvl_hint_bound [OF d(1), of k E R ch h] d(3,4) sms k E le R by (simp add: ch_def h_def)
  have "rdma = round128 (dispatch_rdma_region_bytes h 128 r ch R + combine_rdma_region_bytes h 128 r ch R)"
    using d(2,3) by (simp add: rdma_size_hint_def py_bind_Inr_iff K_MAX_TOPK_def NUM_MAX_NVL_PEERS_def R_def ch_def h_def r_def Let_def)
  then have hint: "dispatch_rdma_region_bytes h 128 r ch R + combine_rdma_region_bytes h 128 r ch R \<le> rdma'"
    using round128_ge order_trans le(2) by blast
  let ?q = "r * R * ch"
  have q: "128 * (R * ch) \<le> ?q" using mult_right_mono [of 128 r "R * ch"] d(5) R(3) ch by (simp add: r_def mult.assoc)
  have "0 \<le> ?q" using d(5) R(3) ch by (simp add: r_def)
  then have X: "?q * num_bytes_per_token h k k \<le> 16 * (?q * h) + 279 * ?q" "?q * num_bytes_per_token h 0 k \<le> 16 * (?q * h) + 151 * ?q"
    using mult_left_mono [OF token_bytes_le(1) [OF k, of h], of ?q] mult_left_mono [OF token_bytes_le(2) [OF k, of h], of ?q]
    by (simp_all add: algebra_simps)
  have e: "R * ch * E \<le> 64 * (R * ch)" "R * E \<le> 64 * R" "R \<le> R * ch"
    using mult_left_mono [OF E(3), of "R * ch"] mult_left_mono [OF E(3), of R] mult_left_mono [OF ch, of R] R(3) ch by simp_all
  have lhs: "dispatch_rdma_region_bytes h k r ch R + combine_rdma_region_bytes h k r ch R + 2 * R * (8 + 8 * E + 1) * 4 + 2 * R * ch * 8 * E * 4
      = 2 * (?q * num_bytes_per_token h k k) + 2 * (?q * num_bytes_per_token h 0 k) + 32 * (R * ch) + 72 * R + 64 * (R * E) + 64 * (R * ch * E)"
    by (simp add: dispatch_rdma_region_bytes_def combine_rdma_region_bytes_def algebra_simps)
  have rhs: "dispatch_rdma_region_bytes h 128 r ch R + combine_rdma_region_bytes h 128 r ch R = 64 * (?q * h) + 3136 * ?q + 32 * (R * ch)"
    by (simp add: dispatch_rdma_region_bytes_def combine_rdma_region_bytes_def token_bytes_128 algebra_simps)
  have "dispatch_rdma_region_bytes h k r ch R + combine_rdma_region_bytes h k r ch R
      + 2 * R * (8 + 8 * E + 1) * 4 + 2 * R * ch * 8 * E * 4 \<le> rdma'"
    using X hint R(3) q e unfolding lhs rhs by linarith
  then show ?thesis
    using nvl ev R(3) unfolding internode_dispatch_asserts_def Let_def host_asserts_ok R(1) ex NUM_MAX_NVL_PEERS_def
      ch_def [symmetric] h_def [symmetric] r_def [symmetric] by (simp add: ac_simps)
qed

text \<open>C29: a buffer sized by \<open>sized_for\<close> passes every size assertion of the launches at the recommended configurations, on
  one node and on several, for up to 64 local experts and any \<open>num_topk\<close> the kernels accept
  (\<open>kMaxTopK\<close>, asserted on the device; for larger values the claim is false): the rings and sections of intranode
  dispatch and combine, or the RDMA and NVL carves of internode dispatch with the metadata payloads behind both
  rings. Both configurations carry the SM count in force at sizing, combine's NVL ring starts where dispatch's
  ends, and each RDMA chain ends inside its half. Needed: at least one channel, a hidden row of whole
  16-byte vectors (asserted by \<open>validate_dispatch_inputs\<close>), and on one node that the element count of the ring, which the
  code multiplies in \<open>int\<close>, stays below 2^31.\<close>

theorem sized_for_fits:
  assumes "fst (sized_for n hb p) = Inr (nvl, rdma)" "p' = snd (sized_for n hb p)"
    and "fst (get_dispatch_config n p') = Inr d" "fst (get_combine_config n p') = Inr c"
    and "2 \<le> num_sms p'" "hb = hidden * elem" "hb mod 16 = 0" "0 \<le> hb" "0 \<le> hidden"
    and "0 \<le> k" "k \<le> kMaxTopK" "experts = E * n" "0 \<le> E" "E \<le> NUM_MAX_LOCAL_EXPERTS"
    and "R = rdma_ranks_of n" "ch = num_sms p' div 2" "h = hb div 16"
    and "ch * n * cf_nvl_recv d * hidden < 2 ^ 31 \<or> 8 < n"
  shows "cf_num_sms d = num_sms p' \<and> cf_num_sms c = num_sms p' \<and>
    (if n \<le> 8 then intranode_dispatch_asserts n ch (cf_nvl_recv d) hidden elem k nvl = Inr () \<and>
        intranode_combine_asserts n ch (cf_nvl_recv c) h k nvl = Inr () \<and>
        intranode_dispatch_section_bytes ch n (cf_nvl_recv c) h k = intranode_dispatch_section_bytes ch n (cf_nvl_recv d) h k
     else internode_dispatch_asserts n experts h k d nvl rdma = Inr () \<and>
        dispatch_nvl_region_bytes h k (cf_nvl_recv c) ch R = dispatch_nvl_region_bytes h k (cf_nvl_recv d) ch R \<and>
        combine_nvl_region_bytes h k (cf_nvl_recv c) ch R = combine_nvl_region_bytes h k (cf_nvl_recv d) ch R \<and>
        dispatch_rdma_region_bytes h k (cf_rdma_recv c) ch R + combine_rdma_region_bytes h k (cf_rdma_recv c) ch R \<le> rdma)"
proof -
  from assms(1) obtain d0 c0 n1 n2 r1 r2 where
    d0: "fst (get_dispatch_config n p) = Inr d0" and c0: "fst (get_combine_config n (snd (get_dispatch_config n p))) = Inr c0"
    and n1: "nvl_size_hint d0 hb n = Inr n1" and r1: "rdma_size_hint d0 hb n = Inr r1" and r2: "rdma_size_hint c0 hb n = Inr r2"
    and mx: "nvl = max n1 n2" "rdma = max r1 r2" and p': "p' = snd (autopick_num_sms n p)"
    by (rule sized_forE) (use assms(2) in auto)
  have same: "d0 = d" "c0 = c"
    using d0 c0 assms(3,4)
    by (simp_all add: get_dispatch_config_def get_combine_config_def recommended_state recommended_again p')
  obtain a b x y where dr: "map_of dispatch_rows n = Some (a, b, x, y)" "mk_config (num_sms p') a b x y = Inr d"
    using assms(3) recommended_row [of dispatch_rows n p'] by (metis get_dispatch_config_def p' autopick_idem)
  obtain a' b' x' y' where cr: "map_of combine_rows n = Some (a', b', x', y')" "mk_config (num_sms p') a' b' x' y' = Inr c"
    using assms(4) recommended_row [of combine_rows n p'] by (metis get_combine_config_def p' autopick_idem)
  note df = mk_config_fields [OF dr(2)] and cf = mk_config_fields [OF cr(2)]
  have nvl_eq: "cf_nvl_recv c = cf_nvl_recv d" using tables_agree [OF dr(1) cr(1)] df cf by simp
  have recv: "128 \<le> cf_rdma_recv d" "0 \<le> cf_rdma_recv c"
    using df cf align_up_ge [of x y] align_up_ge [of x' y'] rdma_rings_long [OF dr(1)] by linarith+
  have n: "2 \<le> n" "n \<le> 8 \<or> 16 \<le> n" using known_world [OF dr(1)] by auto
  have k: "k \<le> 32" and E: "E \<le> 64" using assms(11,14) by (simp_all add: kMaxTopK_def NUM_MAX_LOCAL_EXPERTS_def)
  have h: "16 * h = hb" "0 \<le> h" using assms(7,8,17) by auto
  show ?thesis
  proof (cases "n \<le> 8")
    case True
    have "384 * ch + 256 * (ch * cf_nvl_recv d * h) + 12544 * (ch * cf_nvl_recv d) \<le> nvl"
      using intranode_hint [OF n1 [unfolded same] n(1) True _ assms(17)] df(2) mx(1) assms(16) by simp
    moreover have "1 \<le> ch" "0 < cf_nvl_recv d" "ch * n * cf_nvl_recv d * hidden < 2 ^ 31"
      using assms(5,16,18) df(1,4) True by auto
    moreover have "hidden * elem = 16 * h" using h(1) assms(6) by simp
    ultimately have "intranode_dispatch_asserts n ch (cf_nvl_recv d) hidden elem k nvl = Inr ()"
      "intranode_combine_asserts n ch (cf_nvl_recv d) h k nvl = Inr ()"
      using intranode_fits [OF _ n(1) True _ _ h(2) assms(10) k] assms(9) by blast+
    then show ?thesis using True df(2) cf(2) nvl_eq by simp
  next
    case False
    then have "internode_dispatch_asserts n experts (hb div 16) k d nvl rdma = Inr ()"
      using internode_fits [OF n1 [unfolded same] r1 [unfolded same] _ _ recv(1) _ k assms(12,13) E] n df assms(5) mx by simp
    moreover have "dispatch_rdma_region_bytes h k (cf_rdma_recv c) ch R + combine_rdma_region_bytes h k (cf_rdma_recv c) ch R \<le> r2"
      using rdma_hint_bound [OF r2 [unfolded same] _ recv(2) _ _ assms(15) _ assms(17)] False cf(2,3) k assms(16) by simp
    ultimately show ?thesis using False df(2) cf(2) nvl_eq assms(17) mx(2) by simp
  qed
qed

text \<open>Sixteen and eight ranks, tokens of 2048 bf16 values, eight experts per token, eight experts per rank.\<close>

definition demo_sizing :: "int \<Rightarrow> (int \<times> int) py \<times> sm_policy" where
  "demo_sizing n = sized_for n 4096 initial_policy"

lemma demo_sizing_run:
  assumes "\<not> isl (fst (demo_sizing n))" "\<not> isl (fst (get_dispatch_config n (snd (demo_sizing n))))"
    "\<not> isl (fst (get_combine_config n (snd (demo_sizing n))))"
  obtains nvl rdma d c where "fst (demo_sizing n) = Inr (nvl, rdma)" "fst (get_dispatch_config n (snd (demo_sizing n))) = Inr d"
    "fst (get_combine_config n (snd (demo_sizing n))) = Inr c"
  using assms that by (cases "fst (demo_sizing n)"; cases "fst (get_dispatch_config n (snd (demo_sizing n)))";
      cases "fst (get_combine_config n (snd (demo_sizing n)))") auto

lemma demo_sizing_values:
  "\<not> isl (fst (demo_sizing 16))" "\<not> isl (fst (get_dispatch_config 16 (snd (demo_sizing 16))))"
  "\<not> isl (fst (get_combine_config 16 (snd (demo_sizing 16))))" "num_sms (snd (demo_sizing 16)) = 80"
  "\<not> isl (fst (demo_sizing 8))" "\<not> isl (fst (get_dispatch_config 8 (snd (demo_sizing 8))))"
  "\<not> isl (fst (get_combine_config 8 (snd (demo_sizing 8))))" "num_sms (snd (demo_sizing 8)) = 80"
  "cf_nvl_recv (projr (fst (get_dispatch_config 8 (snd (demo_sizing 8))))) = 256"
  by code_simp+

lemma demo_numbers:
  "2 \<le> (80::int)" "4096 = 2048 * (2::int)" "4096 mod 16 = (0::int)" "0 \<le> (4096::int)" "0 \<le> (2048::int)" "0 \<le> (8::int)"
  "8 \<le> kMaxTopK" "128 = 8 * (16::int)" "64 = 8 * (8::int)" "0 \<le> (8::int)" "8 \<le> NUM_MAX_LOCAL_EXPERTS"
  "40 = 80 div (2::int)" "256 = 4096 div (16::int)"
  by (simp_all add: kMaxTopK_def NUM_MAX_LOCAL_EXPERTS_def)

theorem sized_for_fits_witness:
  "(\<exists>nvl rdma d. fst (demo_sizing 16) = Inr (nvl, rdma) \<and> fst (get_dispatch_config 16 (snd (demo_sizing 16))) = Inr d \<and>
     internode_dispatch_asserts 16 128 256 8 d nvl rdma = Inr ()) \<and>
   (\<exists>nvl rdma d c. fst (demo_sizing 8) = Inr (nvl, rdma) \<and> fst (get_dispatch_config 8 (snd (demo_sizing 8))) = Inr d \<and>
     fst (get_combine_config 8 (snd (demo_sizing 8))) = Inr c \<and>
     intranode_dispatch_asserts 8 40 (cf_nvl_recv d) 2048 2 8 nvl = Inr () \<and>
     intranode_combine_asserts 8 40 (cf_nvl_recv c) 256 8 nvl = Inr ())"
proof
  obtain nvl rdma d c where w: "fst (demo_sizing 16) = Inr (nvl, rdma)"
    "fst (get_dispatch_config 16 (snd (demo_sizing 16))) = Inr d" "fst (get_combine_config 16 (snd (demo_sizing 16))) = Inr c"
    by (rule demo_sizing_run [of 16]) (rule demo_sizing_values; assumption?)+
  have "internode_dispatch_asserts 16 128 256 8 d nvl rdma = Inr ()"
    using sized_for_fits [OF w(1) [unfolded demo_sizing_def] refl w(2,3) [unfolded demo_sizing_def],
        unfolded demo_sizing_def [symmetric] demo_sizing_values(4), OF demo_numbers(1-8,10,11) refl demo_numbers(12,13) disjI2] by simp
  with w show "\<exists>nvl rdma d. fst (demo_sizing 16) = Inr (nvl, rdma) \<and> fst (get_dispatch_config 16 (snd (demo_sizing 16))) = Inr d \<and>
     internode_dispatch_asserts 16 128 256 8 d nvl rdma = Inr ()" by blast
next
  obtain nvl rdma d c where v: "fst (demo_sizing 8) = Inr (nvl, rdma)"
    "fst (get_dispatch_config 8 (snd (demo_sizing 8))) = Inr d" "fst (get_combine_config 8 (snd (demo_sizing 8))) = Inr c"
    by (rule demo_sizing_run [of 8]) (rule demo_sizing_values; assumption?)+
  have "cf_nvl_recv d = 256" using demo_sizing_values(9) by (simp add: v(2))
  then have "intranode_dispatch_asserts 8 40 (cf_nvl_recv d) 2048 2 8 nvl = Inr () \<and> intranode_combine_asserts 8 40 (cf_nvl_recv c) 256 8 nvl = Inr ()"
    using sized_for_fits [OF v(1) [unfolded demo_sizing_def] refl v(2,3) [unfolded demo_sizing_def],
        unfolded demo_sizing_def [symmetric] demo_sizing_values(8), OF demo_numbers(1-7,9,10,11) refl demo_numbers(12,13) disjI1] by simp
  with v show "\<exists>nvl rdma d c. fst (demo_sizing 8) = Inr (nvl, rdma) \<and> fst (get_dispatch_config 8 (snd (demo_sizing 8))) = Inr d \<and>
     fst (get_combine_config 8 (snd (demo_sizing 8))) = Inr c \<and>
     intranode_dispatch_asserts 8 40 (cf_nvl_recv d) 2048 2 8 nvl = Inr () \<and>
     intranode_combine_asserts 8 40 (cf_nvl_recv c) 256 8 nvl = Inr ()" by blast
qed

text \<open>The hints are computed for 128 choices per token; with as many, the sections of one node do not fit.\<close>

lemma hint_misses_128_choices:
  "case fst (demo_sizing 8) of Inl e \<Rightarrow> False
   | Inr (nvl, rdma) \<Rightarrow> intranode_combine_asserts 8 40 256 256 128 nvl = Inl (RuntimeError ''sections'')"
  by code_simp

end
