(* ===== verification/EP_Buffer.thy ===== *)
theory EP_Buffer
  imports Buffer_Sizing Tensor_Meta
begin

text \<open>
  The \<open>Buffer\<close> of \<^verbatim>\<open>stream_ep/buffer.py\<close> around the C++ runtime: construction,
  the pinned layouts, the dispatch counter, and the four communication calls with the topology branch. The runtime
  (\<^verbatim>\<open>csrc/stream_ep.cpp\<close> and its kernels) is an argument: a function of the number of
  earlier calls and of the call. Every call the Buffer makes on it is recorded in a trace, with its
  arguments in order. A tensor carries an address beside its metadata, so that two tensors of one shape differ.
\<close>

unbundle bit_operations_syntax

section \<open>Handles and runtime calls\<close>

record dtensor = tensor + addr :: nat

text \<open>\<open>StreamingDispatchOutputs\<close>, as far as Python reads it.\<close>

record dispatch_out =
  o_pool :: dtensor
  o_pool_topk_weight :: dtensor
  o_pool_recv_token :: dtensor
  o_pool_k_slot :: dtensor
  o_send_head :: dtensor
  o_rank_prefix :: dtensor
  o_channel_prefix :: dtensor
  o_recv_channel_prefix :: dtensor
  o_expert_frequency :: dtensor
  o_block_offset :: dtensor
  o_base_pool :: dtensor
  o_seen :: dtensor
  o_tile_expert :: dtensor
  o_target :: dtensor
  o_count :: dtensor
  o_k_remaining :: dtensor
  o_y_done :: dtensor
  o_out :: dtensor
  o_slots :: dtensor
  o_k_total :: dtensor
  o_total_tiles :: int
  o_event :: nat

record streaming_handle =
  h_pool :: dtensor
  h_pool_topk_weight :: dtensor
  h_pool_recv_token :: dtensor
  h_pool_k_slot :: dtensor
  h_send_head :: dtensor
  h_is_token_in_rank :: dtensor
  h_rank_prefix :: dtensor
  h_channel_prefix :: dtensor
  h_recv_channel_prefix :: dtensor
  h_expert_frequency :: dtensor
  h_block_offset :: dtensor
  h_base_pool :: dtensor
  h_seen :: dtensor
  h_tile_expert :: dtensor
  h_target :: dtensor
  h_count :: dtensor
  h_k_remaining :: dtensor
  h_y_done :: dtensor
  h_out :: dtensor
  h_slots :: dtensor
  h_k_total :: dtensor
  h_total_tiles :: int
  h_tile_m :: int
  h_TK_padded :: int
  h_seq :: int
  h_dispatch_out :: dispatch_out

datatype call =
    DispatchCall (internode: bool) (arg_x: dtensor) (arg_topk: dtensor) dtensor dtensor int int int (arg_seq: int) (arg_config: comm_config)
  | IntraGrads (arg_x: dtensor) dtensor (arg_slots: dtensor) dtensor dtensor dtensor dtensor int int int int (arg_seq: int) (arg_config: comm_config)
  | InterGrads (arg_x: dtensor) dtensor (arg_out: dispatch_out) int (arg_seq: int) (arg_config: comm_config)
  | IntraCombine (arg_x: dtensor) (arg_weights: dtensor) (arg_slots: dtensor) dtensor dtensor dtensor (arg_done: dtensor)
      (arg_seq: int) (is_fwd: bool) (arg_config: comm_config)
  | InterCombine (arg_x: dtensor) (arg_weights: dtensor) (arg_out: dispatch_out) (arg_done: dtensor)
      (arg_seq: int) (arg_phase: int) (is_fwd: bool) (arg_config: comm_config)

record runtime =
  rdma_ranks :: int
  rt_dispatch :: "nat \<Rightarrow> call \<Rightarrow> dispatch_out py"
  rt_grads :: "nat \<Rightarrow> call \<Rightarrow> (dtensor \<times> dtensor \<times> nat) py"
  rt_combine :: "nat \<Rightarrow> call \<Rightarrow> (dtensor \<times> dtensor option) py"

text \<open>The process (the SM policy) and one Buffer.\<close>

record buffer_state =
  policy :: sm_policy
  b_rank :: int
  b_group_size :: int
  b_nvl_bytes :: int
  b_rdma_bytes :: int
  b_explicitly_destroy :: bool
  b_nvshmem_env :: "(string \<times> int) list"
  b_runtime_alive :: bool
  b_next_seq :: int
  b_layouts :: "string \<rightharpoonup> int list"
  b_calls :: "call list"

section \<open>Construction and destruction\<close>

definition check_nvlink_connections :: "bool \<Rightarrow> int option \<Rightarrow> int list \<Rightarrow> (int \<Rightarrow> int \<Rightarrow> bool) \<Rightarrow> unit py" where
  \<comment> \<open>is the device a PCIe card, the group size, the gathered physical indices, NVML's answer per pair\<close>
  "check_nvlink_connections pcie group_size devices linked =
     (if \<not> pcie then Inr ()
      else case group_size of None \<Rightarrow> Inl (AttributeError ''size'')
      | Some n \<Rightarrow> py_bind (asserts [(n \<le> 2, ''PCIe GPUs only have pairwise NVLink connections'')]) (\<lambda>_.
          asserts [(linked (devices ! i) (devices ! j), ''not connected via NVLink'').
            i \<leftarrow> [0..<length devices], j \<leftarrow> [0..<length devices], \<not> i \<ge> j]))"

definition nvshmem_env :: "int \<Rightarrow> int \<Rightarrow> bool \<Rightarrow> (string \<times> int) list" where
  "nvshmem_env sms qp_depth allow_mnnvl =
     [(''NVSHMEM_DISABLE_P2P'', 1), (''NVSHMEM_IB_ENABLE_IBGDA'', 1), (''NVSHMEM_QP_DEPTH'', qp_depth),
      (''NVSHMEM_IBGDA_NUM_RC_PER_PE'', sms), (''NVSHMEM_MAX_TEAMS'', 7), (''NVSHMEM_DISABLE_NVLS'', 1),
      (''NVSHMEM_CUMEM_GRANULARITY'', 2 ^ 29)] @ (if allow_mnnvl then [] else [(''NVSHMEM_DISABLE_MNNVL'', 1)])"

definition buffer_init ::
  "runtime \<Rightarrow> bool \<Rightarrow> unit py \<Rightarrow> (int \<times> int) option \<Rightarrow> (int \<times> int) option \<Rightarrow> int \<Rightarrow> int \<Rightarrow> bool \<Rightarrow> bool \<Rightarrow> int
    \<Rightarrow> (sm_policy, buffer_state) meth" where
  \<comment> \<open>\<open>group\<close> and \<open>comm\<close> are (rank, size); \<open>available\<close> is the runtime's answer after \<open>sync\<close>\<close>
  "buffer_init rt available nvlink pgroup comm nvl_bytes rdma_bytes explicitly_destroy allow_mnnvl qp_depth =
     m_bind (m_lift nvlink) (\<lambda>_.
     m_bind (autopick_num_sms (case pgroup of Some g \<Rightarrow> snd g | None \<Rightarrow> (case comm of Some c \<Rightarrow> snd c | None \<Rightarrow> 1))) (\<lambda>sms.
     m_bind (m_lift (case pgroup of Some g \<Rightarrow> Inr g
       | None \<Rightarrow> (case comm of Some c \<Rightarrow> Inr c | None \<Rightarrow> Inl (ValueError ''Either group or comm must be provided'')))) (\<lambda>g.
     m_bind (m_lift (asserts [(available, ''is_available'')])) (\<lambda>_.
     m_bind (m_get (\<lambda>p. p)) (\<lambda>p.
     m_return \<lparr>policy = p, b_rank = fst g, b_group_size = snd g, b_nvl_bytes = nvl_bytes, b_rdma_bytes = rdma_bytes,
       b_explicitly_destroy = explicitly_destroy,
       b_nvshmem_env = (if rdma_ranks rt > 1 then nvshmem_env sms qp_depth allow_mnnvl else []),
       b_runtime_alive = True, b_next_seq = 0, b_layouts = Map.empty, b_calls = []\<rparr>)))))"

definition destroy :: "(buffer_state, unit) meth" where
  "destroy =
     m_bind (m_get (\<lambda>b. b)) (\<lambda>b.
     m_bind (m_lift (asserts [(b_explicitly_destroy b, ''explicitly_destroy flag must be set'')])) (\<lambda>_.
     m_bind (m_lift (if b_runtime_alive b then Inr () else Inl (AttributeError ''destroy''))) (\<lambda>_.
     m_modify (\<lambda>b. b\<lparr>b_runtime_alive := False\<rparr>))))"

section \<open>Layouts, the counter, the topology\<close>

definition pin :: "string \<Rightarrow> int list \<Rightarrow> (buffer_state, unit) meth" where
  \<comment> \<open>\<open>setdefault\<close> and compare\<close>
  "pin name layout =
     m_bind (m_get (\<lambda>b. b_layouts b name)) (\<lambda>entry.
     case entry of None \<Rightarrow> m_modify (\<lambda>b. b\<lparr>b_layouts := (b_layouts b)(name \<mapsto> layout)\<rparr>)
     | Some pinned \<Rightarrow> m_lift (if layout \<noteq> pinned then Inl (ValueError (''Buffer '' @ name @ '' changed'')) else Inr ()))"

definition config_fields :: "comm_config \<Rightarrow> int list" where
  "config_fields c = [cf_num_sms c, cf_nvl_send c, cf_nvl_recv c, cf_rdma_send c, cf_rdma_recv c]"

definition hidden_bytes :: "dtensor \<Rightarrow> int" where
  "hidden_bytes x = t_shape x ! 1 * element_size (t_dtype x)"

definition check_layout :: "string \<Rightarrow> dtensor \<Rightarrow> int \<Rightarrow> comm_config \<Rightarrow> (buffer_state, unit) meth" where
  "check_layout rings x num_topk config =
     m_bind (pin ''token geometry'' [hidden_bytes x, num_topk]) (\<lambda>_. pin (rings @ '' config'') (config_fields config))"

definition on_policy :: "(sm_policy, 'a) meth \<Rightarrow> (buffer_state, 'a) meth" where
  "on_policy m = (\<lambda>b. (fst (m (policy b)), b\<lparr>policy := snd (m (policy b))\<rparr>))"

definition config_or :: "(int \<Rightarrow> (sm_policy, comm_config) meth) \<Rightarrow> comm_config option \<Rightarrow> (buffer_state, comm_config) meth" where
  "config_or recommend config = (case config of Some c \<Rightarrow> m_return c
     | None \<Rightarrow> m_bind (m_get b_group_size) (\<lambda>n. on_policy (recommend n)))"

definition allocate_seq :: "int option \<Rightarrow> (buffer_state, int) meth" where
  "allocate_seq given = (case given of Some s \<Rightarrow> m_return s
     | None \<Rightarrow> m_bind (m_modify (\<lambda>b. b\<lparr>b_next_seq := b_next_seq b + 1\<rparr>)) (\<lambda>_. m_get b_next_seq))"

definition is_internode :: "runtime \<Rightarrow> (buffer_state, bool) meth" where
  "is_internode rt = m_bind (m_get b_runtime_alive) (\<lambda>alive.
     m_lift (if alive then Inr (rdma_ranks rt > 1) else Inl (AttributeError ''get_num_rdma_ranks'')))"

definition invoke :: "(nat \<Rightarrow> call \<Rightarrow> 'a py) \<Rightarrow> call \<Rightarrow> (buffer_state, 'a) meth" where
  "invoke f c = (\<lambda>b. (f (length (b_calls b)) c, b\<lparr>b_calls := b_calls b @ [c]\<rparr>))"

section \<open>The four communication calls\<close>

definition handle_of :: "dispatch_out \<Rightarrow> dtensor \<Rightarrow> int \<Rightarrow> int \<Rightarrow> streaming_handle" where
  "handle_of out is_token_in_rank tile_m seq =
     \<lparr>h_pool = o_pool out, h_pool_topk_weight = o_pool_topk_weight out, h_pool_recv_token = o_pool_recv_token out,
      h_pool_k_slot = o_pool_k_slot out, h_send_head = o_send_head out, h_is_token_in_rank = is_token_in_rank,
      h_rank_prefix = o_rank_prefix out, h_channel_prefix = o_channel_prefix out,
      h_recv_channel_prefix = o_recv_channel_prefix out, h_expert_frequency = o_expert_frequency out,
      h_block_offset = o_block_offset out, h_base_pool = o_base_pool out, h_seen = o_seen out,
      h_tile_expert = o_tile_expert out, h_target = o_target out, h_count = o_count out,
      h_k_remaining = o_k_remaining out, h_y_done = o_y_done out, h_out = o_out out, h_slots = o_slots out,
      h_k_total = o_k_total out, h_total_tiles = o_total_tiles out, h_tile_m = tile_m,
      h_TK_padded = o_total_tiles out * tile_m, h_seq = seq, h_dispatch_out = out\<rparr>"

definition dispatch ::
  "runtime \<Rightarrow> dtensor \<Rightarrow> dtensor \<Rightarrow> dtensor \<Rightarrow> dtensor \<Rightarrow> int \<Rightarrow> int \<Rightarrow> int \<Rightarrow> int option \<Rightarrow> comm_config option
    \<Rightarrow> (buffer_state, dtensor \<times> streaming_handle \<times> nat) meth" where
  "dispatch rt x topk_idx topk_weights is_token_in_rank num_experts expert_alignment tile_m dispatch_seq config =
     m_bind (config_or get_dispatch_config config) (\<lambda>cf.
     m_bind (check_layout ''dispatch'' x (t_shape topk_idx ! 1) cf) (\<lambda>_.
     m_bind (allocate_seq dispatch_seq) (\<lambda>seq.
     m_bind (is_internode rt) (\<lambda>multi.
     m_bind (invoke (rt_dispatch rt)
       (DispatchCall multi x topk_idx topk_weights is_token_in_rank num_experts expert_alignment tile_m seq cf)) (\<lambda>out.
     m_return (o_pool out, handle_of out is_token_in_rank tile_m seq, o_event out))))))"

definition dispatch_grads ::
  "runtime \<Rightarrow> streaming_handle \<Rightarrow> dtensor \<Rightarrow> int option \<Rightarrow> comm_config option
    \<Rightarrow> (buffer_state, dtensor \<times> dtensor \<times> nat) meth" where
  "dispatch_grads rt h dL_dy dispatch_seq config =
     m_bind (config_or get_dispatch_config config) (\<lambda>cf.
     let seq = (case dispatch_seq of None \<Rightarrow> h_seq h | Some s \<Rightarrow> s);
         num_topk = t_shape (h_slots h) ! 1
     in
     m_bind (check_layout ''dispatch'' dL_dy num_topk cf) (\<lambda>_.
     m_bind (m_get b_group_size) (\<lambda>gs.
     let num_experts = t_shape (h_expert_frequency h) ! 0 * gs
     in
     m_bind (is_internode rt) (\<lambda>multi.
     invoke (rt_grads rt)
       (if multi then InterGrads dL_dy (h_is_token_in_rank h) (h_dispatch_out h) (h_TK_padded h) seq cf
        else IntraGrads dL_dy (h_is_token_in_rank h) (h_slots h) (h_base_pool h) (h_seen h) (h_target h) (h_rank_prefix h)
          num_experts num_topk (h_tile_m h) (h_TK_padded h) seq cf)))))"

definition combine_call :: "bool \<Rightarrow> dtensor \<Rightarrow> streaming_handle \<Rightarrow> dtensor \<Rightarrow> dtensor \<Rightarrow> int \<Rightarrow> int \<Rightarrow> bool
    \<Rightarrow> comm_config \<Rightarrow> call" where
  "combine_call multi x h weights done_stamp seq phase fwd cf =
     (if multi then InterCombine x weights (h_dispatch_out h) done_stamp seq phase fwd cf
      else IntraCombine x weights (h_slots h) (h_rank_prefix h) (h_recv_channel_prefix h) (h_send_head h) done_stamp seq fwd cf)"

definition combine ::
  "runtime \<Rightarrow> dtensor \<Rightarrow> streaming_handle \<Rightarrow> int option \<Rightarrow> comm_config option
    \<Rightarrow> (buffer_state, dtensor \<times> dtensor option) meth" where
  "combine rt x h combine_seq config =
     m_bind (config_or get_combine_config config) (\<lambda>cf.
     m_bind (check_layout ''combine'' x (t_shape (h_slots h) ! 1) cf) (\<lambda>_.
     let seq = (case combine_seq of None \<Rightarrow> h_seq h | Some s \<Rightarrow> s) in
     m_bind (is_internode rt) (\<lambda>multi.
     m_bind (invoke (rt_combine rt) (combine_call multi x h (h_pool_topk_weight h) (h_y_done h) seq 0 True cf)) (\<lambda>r.
     m_return (fst r, None)))))"

definition combine_grads ::
  "runtime \<Rightarrow> dtensor \<Rightarrow> streaming_handle \<Rightarrow> dtensor \<Rightarrow> dtensor \<Rightarrow> int option \<Rightarrow> comm_config option
    \<Rightarrow> (buffer_state, dtensor \<times> dtensor option) meth" where
  "combine_grads rt dL_dx h weight_grads bwd_a_done dispatch_seq config =
     m_bind (config_or get_combine_config config) (\<lambda>cf.
     m_bind (check_layout ''combine'' dL_dx (t_shape (h_slots h) ! 1) cf) (\<lambda>_.
     let seq = (case dispatch_seq of None \<Rightarrow> h_seq h | Some s \<Rightarrow> s) in
     m_bind (is_internode rt) (\<lambda>multi.
     invoke (rt_combine rt) (combine_call multi dL_dx h weight_grads bwd_a_done seq 1 False cf))))"

section \<open>Small accessors\<close>

definition get_local_buffer_tensor :: "dtensor \<Rightarrow> int list option \<Rightarrow> dtensor py" where
  \<comment> \<open>the runtime's flat tensor, cut and viewed at the requested size\<close>
  "get_local_buffer_tensor t sz = (case sz of None \<Rightarrow> Inr t
     | Some s \<Rightarrow> py_bind (asserts [(prod_list (t_shape t) \<ge> prod_list s, ''numel'')]) (\<lambda>_. Inr (t\<lparr>t_shape := s\<rparr>)))"

datatype bias = NoBias | OneBias dtensor | BiasTuple "dtensor list"

definition unpack_bias :: "bias \<Rightarrow> (dtensor option \<times> dtensor option) py" where
  "unpack_bias b = (case b of NoBias \<Rightarrow> Inr (None, None) | OneBias t \<Rightarrow> Inr (Some t, None)
     | BiasTuple ts \<Rightarrow> py_bind (asserts [(length ts = 2, ''bias'')]) (\<lambda>_. Inr (Some (ts ! 0), Some (ts ! 1))))"

section \<open>A session of calls\<close>

text \<open>Any sequence of calls on one Buffer; a call that raises leaves what it had changed.\<close>

datatype buffer_op =
    Dispatch dtensor dtensor dtensor dtensor int int int "int option" "comm_config option"
  | DispatchGrads streaming_handle dtensor "int option" "comm_config option"
  | Combine dtensor streaming_handle "int option" "comm_config option"
  | CombineGrads dtensor streaming_handle dtensor dtensor "int option" "comm_config option"
  | SetNumSms int
  | Destroy

fun apply_op :: "runtime \<Rightarrow> buffer_op \<Rightarrow> buffer_state \<Rightarrow> buffer_state" where
  "apply_op rt (Dispatch x ti tw itr ne ea tm seq cf) b = snd (dispatch rt x ti tw itr ne ea tm seq cf b)"
| "apply_op rt (DispatchGrads h g seq cf) b = snd (dispatch_grads rt h g seq cf b)"
| "apply_op rt (Combine x h seq cf) b = snd (combine rt x h seq cf b)"
| "apply_op rt (CombineGrads x h wg dn seq cf) b = snd (combine_grads rt x h wg dn seq cf b)"
| "apply_op rt (SetNumSms n) b = snd (on_policy (set_num_sms n) b)"
| "apply_op rt Destroy b = snd (destroy b)"

definition run_session :: "runtime \<Rightarrow> buffer_op list \<Rightarrow> buffer_state \<Rightarrow> buffer_state" where
  "run_session rt ops b = foldl (\<lambda>b op. apply_op rt op b) b ops"

text \<open>What each call is made with.\<close>

fun ring_of :: "call \<Rightarrow> string" where
  "ring_of (DispatchCall _ _ _ _ _ _ _ _ _ _) = ''dispatch''"
| "ring_of (IntraGrads _ _ _ _ _ _ _ _ _ _ _ _ _) = ''dispatch''"
| "ring_of (InterGrads _ _ _ _ _ _) = ''dispatch''"
| "ring_of _ = ''combine''"

fun topk_of :: "call \<Rightarrow> int" where
  "topk_of (DispatchCall _ _ ti _ _ _ _ _ _ _) = t_shape ti ! 1"
| "topk_of (InterGrads _ _ out _ _ _) = t_shape (o_slots out) ! 1"
| "topk_of (InterCombine _ _ out _ _ _ _ _) = t_shape (o_slots out) ! 1"
| "topk_of c = t_shape (arg_slots c) ! 1"

fun multi_node :: "call \<Rightarrow> bool" where
  "multi_node (DispatchCall m _ _ _ _ _ _ _ _ _) = m"
| "multi_node (InterGrads _ _ _ _ _ _) = True"
| "multi_node (InterCombine _ _ _ _ _ _ _ _) = True"
| "multi_node _ = False"

fun phase_of :: "call \<Rightarrow> int" where
  \<comment> \<open>\<open>intranode::launch_combine_main\<close> derives the phase from the direction\<close>
  "phase_of (InterCombine _ _ _ _ _ ph _ _) = ph"
| "phase_of c = (if is_fwd c then 0 else 1)"

definition handle_ok :: "streaming_handle \<Rightarrow> bool" where
  "handle_ok h \<longleftrightarrow> h_slots h = o_slots (h_dispatch_out h)"

fun op_ok :: "buffer_op \<Rightarrow> bool" where
  "op_ok (DispatchGrads h _ _ _) = handle_ok h"
| "op_ok (Combine _ h _ _) = handle_ok h"
| "op_ok (CombineGrads _ h _ _ _ _) = handle_ok h"
| "op_ok _ = True"

lemma handle_of_ok [simp]: "handle_ok (handle_of out itr tm seq)"
  by (simp add: handle_ok_def handle_of_def)

section \<open>The invariant of a session\<close>

definition call_fits :: "(string \<rightharpoonup> int list) \<Rightarrow> call \<Rightarrow> bool" where
  "call_fits L c \<longleftrightarrow> L ''token geometry'' = Some [hidden_bytes (arg_x c), topk_of c]
     \<and> L (ring_of c @ '' config'') = Some (config_fields (arg_config c))"

definition call_ok :: "runtime \<Rightarrow> (string \<rightharpoonup> int list) \<Rightarrow> call \<Rightarrow> bool" where
  "call_ok rt L c \<longleftrightarrow> call_fits L c \<and> multi_node c = (rdma_ranks rt > 1) \<and>
     (ring_of c = ''combine'' \<longrightarrow> phase_of c = (if is_fwd c then 0 else 1))"

definition session_inv :: "runtime \<Rightarrow> buffer_state \<Rightarrow> bool" where
  "session_inv rt b \<longleftrightarrow> list_all (call_ok rt (b_layouts b)) (b_calls b)"

text \<open>Pinning only adds entries.\<close>

lemma pin_state:
  "b_calls (snd (pin name l b)) = b_calls b \<and> b_layouts b \<subseteq>\<^sub>m b_layouts (snd (pin name l b)) \<and>
   b_next_seq (snd (pin name l b)) = b_next_seq b \<and>
   (fst (pin name l b) = Inr u \<longrightarrow> b_layouts (snd (pin name l b)) name = Some l)"
  by (auto simp: pin_def m_bind_run m_run map_le_def split: option.splits if_splits)

lemma check_layout_state:
  "b_calls (snd (check_layout r x k cf b)) = b_calls b \<and> b_layouts b \<subseteq>\<^sub>m b_layouts (snd (check_layout r x k cf b)) \<and>
   b_next_seq (snd (check_layout r x k cf b)) = b_next_seq b \<and>
   (fst (check_layout r x k cf b) = Inr u \<longrightarrow>
     b_layouts (snd (check_layout r x k cf b)) ''token geometry'' = Some [hidden_bytes x, k] \<and>
     b_layouts (snd (check_layout r x k cf b)) (r @ '' config'') = Some (config_fields cf))"
proof -
  let ?b1 = "snd (pin ''token geometry'' [hidden_bytes x, k] b)"
  note p1 = pin_state [of "''token geometry''" "[hidden_bytes x, k]" b "()"]
    and p2 = pin_state [of "r @ '' config''" "config_fields cf" ?b1 "()"]
  show ?thesis
  proof (cases "fst (pin ''token geometry'' [hidden_bytes x, k] b)")
    case (Inl e)
    then show ?thesis using p1 by (simp add: check_layout_def m_bind_run)
  next
    case (Inr v)
    then have "b_layouts ?b1 ''token geometry'' = Some [hidden_bytes x, k]" using p1 by simp
    then show ?thesis
      using Inr p1 p2 by (auto simp: check_layout_def m_bind_run map_le_def dom_def intro: map_le_trans)
  qed
qed

lemma config_or_state [simp]:
  "b_calls (snd (config_or d c b)) = b_calls b" "b_layouts (snd (config_or d c b)) = b_layouts b"
  "b_next_seq (snd (config_or d c b)) = b_next_seq b"
  by (auto simp: config_or_def on_policy_def m_bind_run m_run split: option.splits)

definition grows :: "(call \<Rightarrow> bool) \<Rightarrow> buffer_state \<Rightarrow> buffer_state \<Rightarrow> bool" where
  "grows P b b' \<longleftrightarrow> b_layouts b \<subseteq>\<^sub>m b_layouts b' \<and>
     (b_calls b' = b_calls b \<or> (\<exists>c. b_calls b' = b_calls b @ [c] \<and> P c \<and> call_fits (b_layouts b') c))"

lemma grows_mono: "grows P b b' \<Longrightarrow> (\<And>c. P c \<Longrightarrow> Q c) \<Longrightarrow> grows Q b b'"
  by (auto simp: grows_def)

text \<open>Every communication call is a configuration, a layout check, and then at most one runtime call.\<close>

lemma ring_call_grows:
  assumes rest: "\<And>cf b1. b_layouts (snd (rest cf b1)) = b_layouts b1 \<and>
      (b_calls (snd (rest cf b1)) = b_calls b1 \<or> (\<exists>c. b_calls (snd (rest cf b1)) = b_calls b1 @ [c] \<and> P c \<and>
         ring_of c = r \<and> hidden_bytes (arg_x c) = hidden_bytes x \<and> topk_of c = k \<and> arg_config c = cf))"
  shows "grows P b (snd (m_bind (config_or d c) (\<lambda>cf. m_bind (check_layout r x k cf) (\<lambda>_. rest cf)) b))"
proof (cases "fst (config_or d c b)")
  case (Inr cf)
  let ?b1 = "snd (config_or d c b)"
  let ?b2 = "snd (check_layout r x k cf ?b1)"
  note st = check_layout_state [of r x k cf ?b1 "()"]
  show ?thesis
  proof (cases "fst (check_layout r x k cf ?b1)")
    case (Inr u)
    then show ?thesis using \<open>fst (config_or d c b) = Inr cf\<close> st rest [of cf ?b2]
      by (auto simp: grows_def m_bind_run call_fits_def)
  qed (use Inr st in \<open>auto simp: grows_def m_bind_run\<close>)
qed (auto simp: grows_def m_bind_run)

lemmas call_simps = m_bind_run m_run is_internode_def invoke_def allocate_seq_def combine_call_def Let_def

lemma op_grows:
  assumes "op_ok op"
  shows "grows (\<lambda>c. multi_node c = (rdma_ranks rt > 1) \<and>
      (ring_of c = ''combine'' \<longrightarrow> phase_of c = (if is_fwd c then 0 else 1))) b (apply_op rt op b)"
proof (cases op)
  case (Dispatch x ti tw itr ne ea tm sq cf)
  show ?thesis unfolding Dispatch apply_op.simps dispatch_def
    by (rule ring_call_grows) (auto simp: call_simps split: option.splits sum.splits)
next
  case (DispatchGrads h g sq cf)
  then show ?thesis using assms unfolding DispatchGrads apply_op.simps dispatch_grads_def Let_def
    by (intro ring_call_grows) (auto simp: call_simps handle_ok_def)
next
  case (Combine x h sq cf)
  then show ?thesis using assms unfolding Combine apply_op.simps combine_def Let_def
    by (intro ring_call_grows) (auto simp: call_simps handle_ok_def split: sum.splits)
next
  case (CombineGrads x h wg dn sq cf)
  then show ?thesis using assms unfolding CombineGrads apply_op.simps combine_grads_def Let_def
    by (intro ring_call_grows) (auto simp: call_simps handle_ok_def)
next
  case (SetNumSms n)
  then show ?thesis by (simp add: grows_def on_policy_def)
next
  case Destroy
  then show ?thesis by (auto simp: grows_def destroy_def m_bind_run m_run asserts.simps)
qed

lemma call_fits_mono: "call_fits L c \<Longrightarrow> L \<subseteq>\<^sub>m L' \<Longrightarrow> call_fits L' c"
  by (auto simp: call_fits_def map_le_def dom_def)

lemma session_inv_op:
  assumes "session_inv rt b" "op_ok op"
  shows "session_inv rt (apply_op rt op b)"
proof -
  let ?b = "apply_op rt op b"
  have g: "b_layouts b \<subseteq>\<^sub>m b_layouts ?b" "b_calls ?b = b_calls b \<or> (\<exists>c. b_calls ?b = b_calls b @ [c] \<and> call_ok rt (b_layouts ?b) c)"
    using op_grows [OF assms(2), of rt b] by (auto simp: grows_def call_ok_def)
  have "call_ok rt (b_layouts ?b) c" if "c \<in> set (b_calls b)" for c
    using that assms(1) call_fits_mono [OF _ g(1)] by (auto simp: session_inv_def list_all_iff call_ok_def)
  with g(2) show ?thesis by (auto simp: session_inv_def list_all_iff)
qed

lemma run_session_simps [simp]:
  "run_session rt [] b = b" "run_session rt (op # ops) b = run_session rt ops (apply_op rt op b)"
  "run_session rt (ops @ ops') b = run_session rt ops' (run_session rt ops b)"
  by (simp_all add: run_session_def)

lemma session_inv_run: "session_inv rt b \<Longrightarrow> list_all op_ok ops \<Longrightarrow> session_inv rt (run_session rt ops b)"
  by (induction ops arbitrary: b) (auto intro: session_inv_op)

text \<open>C27: whatever sequence of calls a new Buffer is given, accepted or raising, all the runtime calls it makes
  use one token geometry, one configuration per ring, and the kernels of one topology; a
  combine is stamped with phase 0 forward and 1 backward.\<close>

theorem session_keeps_geometry:
  assumes "b_calls b = []" "list_all op_ok ops"
    and "c \<in> set (b_calls (run_session rt ops b))" "c' \<in> set (b_calls (run_session rt ops b))"
  shows "hidden_bytes (arg_x c) = hidden_bytes (arg_x c') \<and> topk_of c = topk_of c' \<and>
    (ring_of c = ring_of c' \<longrightarrow> config_fields (arg_config c) = config_fields (arg_config c')) \<and>
    multi_node c = (rdma_ranks rt > 1) \<and> (ring_of c = ''combine'' \<longrightarrow> phase_of c = (if is_fwd c then 0 else 1))"
proof -
  have "session_inv rt (run_session rt ops b)"
    by (rule session_inv_run [OF _ assms(2)]) (simp add: session_inv_def assms(1))
  then have "call_ok rt (b_layouts (run_session rt ops b)) c" "call_ok rt (b_layouts (run_session rt ops b)) c'"
    using assms(3,4) by (auto simp: session_inv_def list_all_iff)
  then show ?thesis by (auto simp: call_ok_def call_fits_def)
qed

section \<open>The dispatch counter\<close>

definition dispatch_seqs :: "buffer_state \<Rightarrow> int list" where
  "dispatch_seqs b = map arg_seq (filter is_DispatchCall (b_calls b))"

fun auto_seq :: "buffer_op \<Rightarrow> bool" where
  "auto_seq (Dispatch _ _ _ _ _ _ _ sq _) = (sq = None)"
| "auto_seq _ = True"

definition seq_step :: "buffer_state \<Rightarrow> buffer_state \<Rightarrow> bool" where
  "seq_step b b' \<longleftrightarrow> b_next_seq b \<le> b_next_seq b' \<and> (b_calls b' = b_calls b \<or>
     (\<exists>c. b_calls b' = b_calls b @ [c] \<and> (is_DispatchCall c \<longrightarrow> b_next_seq b < arg_seq c \<and> arg_seq c \<le> b_next_seq b')))"

lemma ring_call_seq:
  assumes "\<And>cf b1. seq_step b1 (snd (rest cf b1))"
  shows "seq_step b (snd (m_bind (config_or d c) (\<lambda>cf. m_bind (check_layout r x k cf) (\<lambda>_. rest cf)) b))"
proof (cases "fst (config_or d c b)")
  case (Inr cf)
  note st = check_layout_state [of r x k cf "snd (config_or d c b)" "()"]
  show ?thesis
  proof (cases "fst (check_layout r x k cf (snd (config_or d c b)))")
    case (Inr u)
    then show ?thesis
      using \<open>fst (config_or d c b) = Inr cf\<close> st assms [of "snd (check_layout r x k cf (snd (config_or d c b)))" cf]
      by (simp add: m_bind_run seq_step_def)
  qed (use Inr st in \<open>simp add: m_bind_run seq_step_def\<close>)
qed (simp add: m_bind_run seq_step_def)

lemma op_seq_step: "auto_seq op \<Longrightarrow> seq_step b (apply_op rt op b)"
proof (cases op)
  case (Dispatch x ti tw itr ne ea tm sq cf)
  assume "auto_seq op"
  then show ?thesis unfolding Dispatch apply_op.simps dispatch_def
    by (intro ring_call_seq) (auto simp: call_simps seq_step_def split: sum.splits)
next
  case (DispatchGrads h g sq cf)
  show ?thesis unfolding DispatchGrads apply_op.simps dispatch_grads_def Let_def
    by (intro ring_call_seq) (auto simp: call_simps seq_step_def)
next
  case (Combine x h sq cf)
  show ?thesis unfolding Combine apply_op.simps combine_def Let_def
    by (intro ring_call_seq) (auto simp: call_simps seq_step_def split: sum.splits)
next
  case (CombineGrads x h wg dn sq cf)
  show ?thesis unfolding CombineGrads apply_op.simps combine_grads_def Let_def
    by (intro ring_call_seq) (auto simp: call_simps seq_step_def)
next
  case (SetNumSms n)
  then show ?thesis by (simp add: seq_step_def on_policy_def)
next
  case Destroy
  then show ?thesis by (auto simp: seq_step_def destroy_def m_bind_run m_run asserts.simps)
qed

definition seq_inv :: "buffer_state \<Rightarrow> bool" where
  "seq_inv b \<longleftrightarrow> sorted_wrt (<) (dispatch_seqs b) \<and> (\<forall>s \<in> set (dispatch_seqs b). s \<le> b_next_seq b)"

lemma seq_inv_step: "seq_inv b \<Longrightarrow> seq_step b b' \<Longrightarrow> seq_inv b'"
  by (fastforce simp: seq_inv_def seq_step_def dispatch_seqs_def sorted_wrt_append)

text \<open>As long as no caller overrides it, the dispatch counter stamps the dispatches of a Buffer with
  strictly increasing numbers, whatever other calls come between and whichever of them raise.\<close>

lemma dispatch_seqs_increase:
  assumes "b_calls b = []" "list_all auto_seq ops"
  shows "sorted_wrt (<) (dispatch_seqs (run_session rt ops b))"
proof -
  have "seq_inv b" by (simp add: seq_inv_def dispatch_seqs_def assms(1))
  then have "seq_inv (run_session rt ops b)" using assms(2)
    by (induction ops arbitrary: b) (auto intro: seq_inv_step op_seq_step)
  then show ?thesis by (simp add: seq_inv_def)
qed

section \<open>Generation stamps of the combine rings\<close>

definition nvl_seq :: "int \<Rightarrow> int \<Rightarrow> int" where
  \<comment> \<open>\<open>(combine_seq << 1) | (combine_phase & 1)\<close>\<close>
  "nvl_seq sq phase = push_bit 1 sq OR (phase AND 1)"

lemma nvl_seq_eq: "nvl_seq sq ph = 2 * sq + ph mod 2"
proof (cases "even ph")
  case False
  then have "ph mod 2 = 1" by presburger
  then show ?thesis by (simp add: nvl_seq_def push_bit_eq_mult and_one_eq or_one_eq)
qed (simp add: nvl_seq_def push_bit_eq_mult and_one_eq even_iff_mod_2_eq_zero)

lemma nvl_seq_inject: "nvl_seq sq ph = nvl_seq sq' ph' \<Longrightarrow> sq = sq' \<and> ph mod 2 = ph' mod 2"
  unfolding nvl_seq_eq by presburger

text \<open>In any session two combines of one stamp are the same direction of the same dispatch.\<close>

lemma combine_stamps_distinct:
  assumes "b_calls b = []" "list_all op_ok ops"
    and "c \<in> set (b_calls (run_session rt ops b))" "c' \<in> set (b_calls (run_session rt ops b))"
    and "ring_of c = ''combine''" "ring_of c' = ''combine''"
    and "nvl_seq (arg_seq c) (phase_of c) = nvl_seq (arg_seq c') (phase_of c')"
  shows "arg_seq c = arg_seq c' \<and> is_fwd c = is_fwd c'"
proof -
  have "session_inv rt (run_session rt ops b)"
    by (rule session_inv_run [OF _ assms(2)]) (simp add: session_inv_def assms(1))
  then have "phase_of c = (if is_fwd c then 0 else 1)" "phase_of c' = (if is_fwd c' then 0 else 1)"
    using assms(3-6) by (auto simp: session_inv_def list_all_iff call_ok_def)
  moreover have "arg_seq c = arg_seq c'" "phase_of c mod 2 = phase_of c' mod 2"
    using nvl_seq_inject [OF assms(7)] by auto
  ultimately show ?thesis by (auto split: if_splits)
qed


section \<open>The calls of one layer\<close>

lemma config_or_keeps: "config_or d c b = (r, b') \<Longrightarrow> b_calls b' = b_calls b \<and> b_next_seq b' = b_next_seq b"
  using config_or_state [of d c b] by (cases "config_or d c b") auto

lemma check_layout_keeps: "check_layout r x k cf b = (v, b') \<Longrightarrow> b_calls b' = b_calls b \<and> b_next_seq b' = b_next_seq b"
  using check_layout_state [of r x k cf b] by (cases "check_layout r x k cf b") auto

lemma is_internode_ok: "is_internode rt b = (Inr m, b') \<Longrightarrow> b' = b \<and> m = (rdma_ranks rt > 1)"
  by (auto simp: is_internode_def m_bind_run m_run split: if_splits)

lemma allocate_seq_ok: "allocate_seq None b = (Inr s, b') \<Longrightarrow> s = b_next_seq b + 1 \<and> b_calls b' = b_calls b"
  by (auto simp: allocate_seq_def m_bind_run m_run)

lemma invoke_ok: "invoke f c b = (Inr r, b') \<Longrightarrow> b_calls b' = b_calls b @ [c]"
  by (auto simp: invoke_def)

lemmas method_elims = m_bind_InrE
lemmas method_facts = config_or_keeps check_layout_keeps is_internode_ok invoke_ok

lemma dispatch_returns:
  assumes "dispatch rt x ti tw itr ne ea tm None cf b = (Inr (p, h, ev), b')"
  obtains c where "b_calls b' = b_calls b @ [c]" "arg_seq c = b_next_seq b + 1" "ring_of c = ''dispatch''"
    "h_seq h = b_next_seq b + 1" "h_TK_padded h = h_total_tiles h * tm" "p = h_pool h" "handle_ok h" "arg_x c = x"
  using assms unfolding dispatch_def
  by (elim m_bind_InrE) (auto dest!: method_facts allocate_seq_ok simp: m_run handle_of_def handle_ok_def)

lemma dispatch_grads_returns:
  assumes "dispatch_grads rt h g None cf b = (Inr r, b')"
  obtains c where "b_calls b' = b_calls b @ [c]" "arg_seq c = h_seq h" "ring_of c = ''dispatch''" "arg_x c = g"
  using assms unfolding dispatch_grads_def Let_def
  by (elim m_bind_InrE) (auto dest!: method_facts simp: m_run split: if_splits)

lemma combine_returns:
  assumes "combine rt x h None cf b = (Inr r, b')"
  obtains c where "b_calls b' = b_calls b @ [c]" "arg_seq c = h_seq h" "ring_of c = ''combine''" "is_fwd c" "phase_of c = 0"
    "arg_x c = x" "arg_weights c = h_pool_topk_weight h" "arg_done c = h_y_done h" "snd r = None"
  using assms unfolding combine_def combine_call_def Let_def
  by (elim m_bind_InrE) (auto dest!: method_facts simp: m_run split: if_splits)

lemma combine_grads_returns:
  assumes "combine_grads rt x h wg dn None cf b = (Inr r, b')"
  obtains c where "b_calls b' = b_calls b @ [c]" "arg_seq c = h_seq h" "ring_of c = ''combine''" "\<not> is_fwd c" "phase_of c = 1"
    "arg_x c = x" "arg_weights c = wg" "arg_done c = dn"
  using assms unfolding combine_grads_def combine_call_def Let_def
  by (elim m_bind_InrE) (auto dest!: method_facts simp: m_run split: if_splits)

text \<open>C35: when the four calls of one layer return, the Buffer has made exactly four runtime calls,
  all with the number the dispatch drew; forward combine waits on the handle's \<open>y_done_per_token\<close> and ships
  its routing weights, the backward one waits on \<open>kernel_a_bwd\<close>'s stamps and ships the weight gradients, and their
  ring stamps differ.\<close>

theorem layer_threads_one_seq:
  assumes "dispatch rt x ti tw itr ne ea tm None cf b = (Inr (p, h, ev), b1)"
    and "combine rt y h None cf' b1 = (Inr r1, b2)"
    and "dispatch_grads rt h g None cf b2 = (Inr r2, b3)"
    and "combine_grads rt dx h wg dn None cf' b3 = (Inr r3, b4)"
  shows "\<exists>c1 c2 c3 c4. b_calls b4 = b_calls b @ [c1, c2, c3, c4] \<and>
    map arg_seq [c1, c2, c3, c4] = replicate 4 (b_next_seq b + 1) \<and> map arg_x [c1, c2, c3, c4] = [x, y, g, dx] \<and>
    (arg_weights c2, arg_done c2) = (h_pool_topk_weight h, h_y_done h) \<and> (arg_weights c4, arg_done c4) = (wg, dn) \<and>
    nvl_seq (arg_seq c2) (phase_of c2) \<noteq> nvl_seq (arg_seq c4) (phase_of c4) \<and>
    h_TK_padded h = h_total_tiles h * tm"
proof -
  obtain c1 where c1: "b_calls b1 = b_calls b @ [c1]" "arg_seq c1 = b_next_seq b + 1" "h_seq h = b_next_seq b + 1"
    "h_TK_padded h = h_total_tiles h * tm" "arg_x c1 = x" by (rule dispatch_returns [OF assms(1)])
  obtain c2 where c2: "b_calls b2 = b_calls b1 @ [c2]" "arg_seq c2 = h_seq h" "phase_of c2 = 0" "arg_x c2 = y"
    "arg_weights c2 = h_pool_topk_weight h" "arg_done c2 = h_y_done h" by (rule combine_returns [OF assms(2)])
  obtain c3 where c3: "b_calls b3 = b_calls b2 @ [c3]" "arg_seq c3 = h_seq h" "arg_x c3 = g"
    by (rule dispatch_grads_returns [OF assms(3)])
  obtain c4 where c4: "b_calls b4 = b_calls b3 @ [c4]" "arg_seq c4 = h_seq h" "phase_of c4 = 1" "arg_x c4 = dx"
    "arg_weights c4 = wg" "arg_done c4 = dn" by (rule combine_grads_returns [OF assms(4)])
  show ?thesis
    using c1 c2 c3 c4 by (intro exI conjI) (auto simp: nvl_seq_eq numeral_eq_Suc)
qed


section \<open>Example sessions\<close>

definition dt :: "nat \<Rightarrow> int list \<Rightarrow> dtype \<Rightarrow> dtensor" where
  "dt a sh d = \<lparr>t_shape = sh, t_dtype = d, t_cuda = True, t_contiguous = True, t_last_stride = 1, addr = a\<rparr>"

definition demo_out :: dispatch_out where
  "demo_out = \<lparr>o_pool = dt 1 [256, 2048] BF16, o_pool_topk_weight = dt 2 [256] FP32, o_pool_recv_token = dt 3 [256] INT32,
     o_pool_k_slot = dt 4 [256] INT32, o_send_head = dt 5 [64, 16] INT32, o_rank_prefix = dt 6 [16, 16] INT32,
     o_channel_prefix = dt 7 [16, 40] INT32, o_recv_channel_prefix = dt 8 [16, 40] INT32, o_expert_frequency = dt 9 [2] INT32,
     o_block_offset = dt 10 [3] INT32, o_base_pool = dt 11 [40, 16, 2] INT32, o_seen = dt 12 [40, 16, 2] INT32,
     o_tile_expert = dt 13 [2] INT32, o_target = dt 14 [2] INT32, o_count = dt 15 [2] INT32, o_k_remaining = dt 16 [90] INT32,
     o_y_done = dt 17 [90] INT64, o_out = dt 18 [90, 2048] BF16, o_slots = dt 19 [90, 8] INT32, o_k_total = dt 20 [90] INT32,
     o_total_tiles = 2, o_event = 7\<rparr>"

definition demo_rt :: runtime where
  "demo_rt = \<lparr>rdma_ranks = 2, rt_dispatch = (\<lambda>_ _. Inr demo_out),
     rt_grads = (\<lambda>_ _. Inr (dt 30 [256, 2048] BF16, dt 31 [2] INT32, 8)),
     rt_combine = (\<lambda>_ c. Inr (dt 32 [64, 2048] BF16, if is_fwd c then None else Some (dt 33 [64, 8] FP32)))\<rparr>"

definition demo_buffer :: buffer_state where
  "demo_buffer = \<lparr>policy = initial_policy, b_rank = 3, b_group_size = 16, b_nvl_bytes = 0, b_rdma_bytes = 0,
     b_explicitly_destroy = False, b_nvshmem_env = [], b_runtime_alive = True, b_next_seq = 0, b_layouts = Map.empty, b_calls = []\<rparr>"

lemma demo_buffer_built:
  "buffer_init demo_rt True (Inr ()) (Some (3, 16)) None 0 0 False False 1024 initial_policy =
     (Inr (demo_buffer\<lparr>policy := \<lparr>num_sms = 80, sms_explicit = False\<rparr>, b_nvshmem_env := nvshmem_env 80 1024 False\<rparr>),
      \<lparr>num_sms = 80, sms_explicit = False\<rparr>)"
  by (simp add: buffer_init_def demo_buffer_def demo_rt_def meth_simps autopick_state initial_policy_def asserts.simps)

definition x_in :: dtensor where "x_in = dt 40 [64, 2048] BF16"
definition topk_in :: dtensor where "topk_in = dt 41 [64, 8] INT64"

definition demo_ops :: "buffer_op list" where
  "demo_ops = (let h = handle_of demo_out (dt 43 [64, 16] INT32) 128 1 in
     [Dispatch x_in topk_in (dt 42 [64, 8] FP32) (dt 43 [64, 16] INT32) 32 1 128 None None,
      Combine (dt 18 [90, 2048] BF16) h None None,
      DispatchGrads h x_in None None,
      Dispatch (dt 50 [64, 1024] BF16) topk_in (dt 42 [64, 8] FP32) (dt 43 [64, 16] INT32) 32 1 128 None None,
      CombineGrads (dt 51 [90, 2048] BF16) h (dt 52 [256] FP32) (dt 53 [90] INT64) None None,
      Dispatch x_in topk_in (dt 42 [64, 8] FP32) (dt 43 [64, 16] INT32) 32 1 128 None None])"

lemma demo_ops_ok: "list_all op_ok demo_ops" "list_all auto_seq demo_ops" "b_calls demo_buffer = []"
  by (simp_all add: demo_ops_def demo_buffer_def Let_def)

definition demo_calls :: "call list" where "demo_calls = b_calls (run_session demo_rt demo_ops demo_buffer)"

lemma demo_calls_len: "length demo_calls = 5" by code_simp

lemma demo_mem: "n < 5 \<Longrightarrow> demo_calls ! n \<in> set (b_calls (run_session demo_rt demo_ops demo_buffer))"
  using demo_calls_len by (metis demo_calls_def nth_mem)

theorem session_keeps_geometry_witness:
  "hidden_bytes (arg_x (demo_calls ! 0)) = hidden_bytes (arg_x (demo_calls ! 2)) \<and> topk_of (demo_calls ! 0) = topk_of (demo_calls ! 2) \<and>
   config_fields (arg_config (demo_calls ! 0)) = config_fields (arg_config (demo_calls ! 2)) \<and>
   multi_node (demo_calls ! 0) = (rdma_ranks demo_rt > 1)"
proof -
  have "ring_of (demo_calls ! 0) = ring_of (demo_calls ! 2)" by code_simp
  with session_keeps_geometry [OF demo_ops_ok(3,1) demo_mem [of 0] demo_mem [of 2]] show ?thesis by simp
qed

definition twice :: "buffer_op list" where
  "twice = (let h = handle_of demo_out (dt 43 [64, 16] INT32) 128 5 in
     [Combine (dt 18 [90, 2048] BF16) h None None, Combine (dt 60 [90, 2048] BF16) h None None])"

definition twice_calls :: "call list" where "twice_calls = b_calls (run_session demo_rt twice demo_buffer)"

definition ret :: "'a py \<times> 's \<Rightarrow> 'a" where "ret r = projr (fst r)"

lemma ret_run: "\<not> isl (fst r) \<Longrightarrow> r = (Inr (ret r), snd r)"
  by (cases r; cases "fst r") (auto simp: ret_def)

definition lay1 where "lay1 = dispatch demo_rt x_in topk_in (dt 42 [64, 8] FP32) (dt 43 [64, 16] INT32) 32 1 128 None None demo_buffer"
definition lay2 where "lay2 = combine demo_rt (dt 18 [90, 2048] BF16) (fst (snd (ret lay1))) None None (snd lay1)"
definition lay3 where "lay3 = dispatch_grads demo_rt (fst (snd (ret lay1))) x_in None None (snd lay2)"
definition lay4 where "lay4 = combine_grads demo_rt (dt 51 [90, 2048] BF16) (fst (snd (ret lay1))) (dt 52 [256] FP32)
  (dt 53 [90] INT64) None None (snd lay3)"

theorem layer_threads_one_seq_witness:
  "\<exists>c1 c2 c3 c4. b_calls (snd lay4) = [c1, c2, c3, c4] \<and> map arg_seq [c1, c2, c3, c4] = replicate 4 1 \<and>
     nvl_seq (arg_seq c2) (phase_of c2) \<noteq> nvl_seq (arg_seq c4) (phase_of c4)"
proof -
  have ok: "\<not> isl (fst lay1)" "\<not> isl (fst lay2)" "\<not> isl (fst lay3)" "\<not> isl (fst lay4)" by code_simp+
  let ?h = "fst (snd (ret lay1))"
  have r1: "dispatch demo_rt x_in topk_in (dt 42 [64, 8] FP32) (dt 43 [64, 16] INT32) 32 1 128 None None demo_buffer
      = (Inr (fst (ret lay1), ?h, snd (snd (ret lay1))), snd lay1)"
    unfolding lay1_def [symmetric] using ret_run [OF ok(1)] by simp
  have r2: "combine demo_rt (dt 18 [90, 2048] BF16) ?h None None (snd lay1) = (Inr (ret lay2), snd lay2)"
    unfolding lay2_def [symmetric] by (rule ret_run [OF ok(2)])
  have r3: "dispatch_grads demo_rt ?h x_in None None (snd lay2) = (Inr (ret lay3), snd lay3)"
    unfolding lay3_def [symmetric] by (rule ret_run [OF ok(3)])
  have r4: "combine_grads demo_rt (dt 51 [90, 2048] BF16) ?h (dt 52 [256] FP32) (dt 53 [90] INT64) None None (snd lay3)
      = (Inr (ret lay4), snd lay4)"
    unfolding lay4_def [symmetric] by (rule ret_run [OF ok(4)])
  from layer_threads_one_seq [OF r1 r2 r3 r4] show ?thesis by (auto simp: demo_buffer_def)
qed

section \<open>The rings of mismatched configurations\<close>



















end
