(* ===== verification/Launch_Gates.thy ===== *)
theory Launch_Gates
  imports SE_Prelude
begin

text \<open>
  The launch gates of \<^verbatim>\<open>stream_ep/buffer.py\<close> (over \<^verbatim>\<open>csrc/stream_ep.cpp\<close>): a kernel's issued
  count on the host, its started flag on the device, and the queued wait that holds a stream until the
  flag has reached the count read when it was queued. Both are 32-bit and wrap; the wait compares
  cyclically, as CUDA documents for \<open>CU_STREAM_WAIT_VALUE_GEQ\<close>. The locale \<open>launch_gate\<close> states
  what a client relies on; it is interpreted on each of the four gates.
\<close>

section \<open>The four gates\<close>

datatype gate = DispatchMain | DispatchGradsMain | KernelY | KernelABwd

instantiation gate :: enum
begin

definition "enum_gate = [DispatchMain, DispatchGradsMain, KernelY, KernelABwd]"
definition "enum_all_gate P \<longleftrightarrow> P DispatchMain \<and> P DispatchGradsMain \<and> P KernelY \<and> P KernelABwd"
definition "enum_ex_gate P \<longleftrightarrow> P DispatchMain \<or> P DispatchGradsMain \<or> P KernelY \<or> P KernelABwd"

instance
proof
  show univ: "(UNIV :: gate set) = set enum_class.enum"
    by (auto simp: enum_gate_def) (metis gate.exhaust)
  show "distinct (enum_class.enum :: gate list)" by (simp add: enum_gate_def)
  fix P :: "gate \<Rightarrow> bool"
  show "enum_class.enum_all P = Ball UNIV P" by (simp add: univ enum_gate_def enum_all_gate_def)
  show "enum_class.enum_ex P = Bex UNIV P" by (simp add: univ enum_gate_def enum_ex_gate_def)
qed

end

text \<open>A queued wait; nothing is queued while the count is 0.\<close>

record wait_op =
  w_gate :: gate
  w_target :: "32 word option"

record gates =
  issued_count :: "gate \<Rightarrow> 32 word"
  started_word :: "gate \<Rightarrow> 32 word"

definition no_launches :: gates where
  "no_launches = \<lparr>issued_count = (\<lambda>_. 0), started_word = (\<lambda>_. 0)\<rparr>"

definition bump_issued :: "gate \<Rightarrow> gates \<Rightarrow> gates" where
  "bump_issued g s = s\<lparr>issued_count := (issued_count s)(g := issued_count s g + 1)\<rparr>"

definition first_cta :: "gate \<Rightarrow> gates \<Rightarrow> gates" where
  \<comment> \<open>\<open>atomicAdd(started_flag, 1)\<close> by the kernel's first CTA\<close>
  "first_cta g s = s\<lparr>started_word := (started_word s)(g := started_word s g + 1)\<rparr>"

definition queue_wait :: "gate \<Rightarrow> gates \<Rightarrow> wait_op" where
  "queue_wait g s = \<lparr>w_gate = g, w_target = (if issued_count s g = 0 then None else Some (issued_count s g))\<rparr>"

definition wait_passes :: "gates \<Rightarrow> wait_op \<Rightarrow> bool" where
  "wait_passes s w = (case w_target w of None \<Rightarrow> True | Some t \<Rightarrow> 0 \<le> sint (started_word s (w_gate w) - t))"

section \<open>The contract\<close>

text \<open>
  \<open>launches\<close> and \<open>starts\<close> count without wrap-around. A provider promises how issuing and starting
  move them, and that a wait on the first \<open>t\<close> launches passes exactly when \<open>t\<close> of them have started.
\<close>

locale launch_gate =
  fixes issue start :: "'s \<Rightarrow> 's"
    and launches starts :: "'s \<Rightarrow> nat"
    and passes :: "'s \<Rightarrow> nat \<Rightarrow> bool"
    and valid :: "'s \<Rightarrow> bool"
  assumes issue_counts: "launches (issue s) = launches s + 1" "starts (issue s) = starts s"
    and start_counts: "launches (start s) = launches s" "starts (start s) = starts s + 1"
    and passes_iff: "valid s \<Longrightarrow> t \<le> launches s \<Longrightarrow> passes s t \<longleftrightarrow> t \<le> starts s"
begin

text \<open>Moves of the host and the device: a kernel starts only after it was launched.\<close>

inductive reaches :: "'s \<Rightarrow> 's \<Rightarrow> bool" where
  refl: "reaches s s"
| issue: "reaches s t \<Longrightarrow> reaches s (issue t)"
| start: "reaches s t \<Longrightarrow> starts t < launches t \<Longrightarrow> reaches s (start t)"

lemma reaches_mono: "reaches s t \<Longrightarrow> launches s \<le> launches t \<and> starts s \<le> starts t"
  by (induction rule: reaches.induct) (auto simp: issue_counts start_counts)

lemma starts_le: "reaches s t \<Longrightarrow> starts s \<le> launches s \<Longrightarrow> starts t \<le> launches t"
  by (induction rule: reaches.induct) (auto simp: issue_counts start_counts)

text \<open>A wait queued after a launch passes only once that launch has started.\<close>

lemma wait_means_started:
  assumes "reaches s t" "valid t" "passes t (launches s)"
  shows "launches s \<le> starts t"
  using passes_iff [OF assms(2)] reaches_mono [OF assms(1)] assms(3) by blast

text \<open>And once every earlier launch has started it does pass.\<close>

lemma started_means_passes:
  assumes "reaches s t" "valid t" "launches s \<le> starts t"
  shows "passes t (launches s)"
  using passes_iff [OF assms(2)] reaches_mono [OF assms(1)] assms(3) by blast

lemma passing_persists:
  assumes "reaches s t" "valid t" "passes t (launches s)" "reaches t u" "valid u"
  shows "passes u (launches s)"
proof -
  have "launches s \<le> starts t" by (rule wait_means_started [OF assms(1-3)])
  then have "launches s \<le> starts u" "launches s \<le> launches u"
    using reaches_mono [OF assms(4)] reaches_mono [OF assms(1)] by auto
  then show ?thesis using passes_iff [OF assms(5)] by blast
qed

end

section \<open>The gates implement it\<close>

text \<open>The gates together with the true counts of one kernel, kept as history.\<close>

record history =
  h_gates :: gates
  h_launches :: nat
  h_starts :: nat

definition h_issue :: "gate \<Rightarrow> history \<Rightarrow> history" where
  "h_issue g h = h\<lparr>h_gates := bump_issued g (h_gates h), h_launches := h_launches h + 1\<rparr>"

definition h_start :: "gate \<Rightarrow> history \<Rightarrow> history" where
  "h_start g h = h\<lparr>h_gates := first_cta g (h_gates h), h_starts := h_starts h + 1\<rparr>"

text \<open>The wait a stream would hold had it been queued at launch \<open>t\<close>.\<close>

definition h_passes :: "gate \<Rightarrow> history \<Rightarrow> nat \<Rightarrow> bool" where
  "h_passes g h t = wait_passes (h_gates h) (queue_wait g (no_launches\<lparr>issued_count := (\<lambda>_. of_nat t)\<rparr>))"

definition h_valid :: "gate \<Rightarrow> history \<Rightarrow> bool" where
  \<comment> \<open>the words hold the counts, and fewer than \<open>2 ^ 31\<close> kernels were launched\<close>
  "h_valid g h \<longleftrightarrow> issued_count (h_gates h) g = of_nat (h_launches h) \<and> started_word (h_gates h) g = of_nat (h_starts h)
     \<and> h_launches h < 2 ^ 31 \<and> h_starts h \<le> h_launches h"

lemma sint_of_nat_diff:
  assumes "s < 2 ^ 31" "t < 2 ^ 31"
  shows "0 \<le> sint (of_nat s - of_nat t :: 32 word) \<longleftrightarrow> t \<le> s"
proof -
  have eq: "of_nat s - of_nat t = (word_of_int (int s - int t) :: 32 word)" by simp
  have "sint (of_nat s - of_nat t :: 32 word) = signed_take_bit 31 (int s - int t)"
    unfolding eq sint_sbintrunc' by simp
  also have "\<dots> = int s - int t" by (rule signed_take_bit_int_eq_self) (use assms in auto)
  finally show ?thesis by simp
qed

lemma of_nat_word_eq_0: "t < 2 ^ 31 \<Longrightarrow> (of_nat t :: 32 word) = 0 \<longleftrightarrow> t = 0"
  by (auto simp: word_of_nat_eq_0_iff dest!: dvd_imp_le)

lemma h_passes_iff: "h_valid g h \<Longrightarrow> t \<le> h_launches h \<Longrightarrow> h_passes g h t \<longleftrightarrow> t \<le> h_starts h"
  using sint_of_nat_diff [of "h_starts h" t] of_nat_word_eq_0 [of t]
  by (auto simp: h_passes_def wait_passes_def queue_wait_def h_valid_def)


interpretation gate: launch_gate "h_issue g" "h_start g" h_launches h_starts "h_passes g" "h_valid g" for g
  by unfold_locales (simp_all add: h_issue_def h_start_def h_passes_iff)

text \<open>The moves on one kernel's gate: the host issues a launch, the device starts one that was issued.\<close>

inductive gate_run :: "gate \<Rightarrow> history \<Rightarrow> history \<Rightarrow> bool" for g where
  stay: "gate_run g h h"
| launch: "gate_run g h h' \<Longrightarrow> h_launches h' + 1 < 2 ^ 31 \<Longrightarrow> gate_run g h (h_issue g h')"
| enter: "gate_run g h h' \<Longrightarrow> h_starts h' < h_launches h' \<Longrightarrow> gate_run g h (h_start g h')"

lemma gate_run_reaches: "gate_run g h h' \<Longrightarrow> gate.reaches g h h'"
  by (induction rule: gate_run.induct) (auto intro: gate.reaches.intros)

lemma gate_run_valid: "gate_run g h h' \<Longrightarrow> h_valid g h \<Longrightarrow> h_valid g h'"
  by (induction rule: gate_run.induct)
    (auto simp: h_valid_def h_issue_def h_start_def bump_issued_def first_cta_def)

lemma queue_wait_at: "h_valid g h \<Longrightarrow>
    queue_wait g (h_gates h) = queue_wait g (no_launches\<lparr>issued_count := (\<lambda>_. of_nat (h_launches h))\<rparr>)"
  by (simp add: queue_wait_def h_valid_def)

lemma queued_wait_iff:
  assumes "h_valid g h" "gate_run g h h'"
  shows "wait_passes (h_gates h') (queue_wait g (h_gates h)) \<longleftrightarrow> h_launches h \<le> h_starts h'"
proof -
  have v: "h_valid g h'" by (rule gate_run_valid [OF assms(2,1)])
  have r: "gate.reaches g h h'" by (rule gate_run_reaches [OF assms(2)])
  have "wait_passes (h_gates h') (queue_wait g (h_gates h)) = h_passes g h' (h_launches h)"
    by (simp add: h_passes_def queue_wait_at [OF assms(1)])
  then show ?thesis using gate.wait_means_started [OF r v] gate.started_means_passes [OF r v] by auto
qed

text \<open>The launch discipline of the orchestrator, bump the count, launch, then queue the wait: the
  wait does not pass before the launched kernel, and every earlier one, has started.\<close>

lemma bump_then_wait_holds_back:
  assumes "h_valid g h" "h_launches h + 1 < 2 ^ 31" "gate_run g (h_issue g h) h'"
    and "wait_passes (h_gates h') (queue_wait g (h_gates (h_issue g h)))"
  shows "h_launches h < h_starts h'"
proof -
  have "h_valid g (h_issue g h)" by (rule gate_run_valid [OF launch [OF stay assms(2)] assms(1)])
  from queued_wait_iff [OF this assms(3)] assms(4) show ?thesis by (simp add: h_issue_def)
qed

definition fresh_history :: history where
  "fresh_history = \<lparr>h_gates = no_launches, h_launches = 0, h_starts = 0\<rparr>"

lemma fresh_valid: "h_valid g fresh_history"
  by (simp add: h_valid_def fresh_history_def no_launches_def)

text \<open>Two launches, one started: the wait queued after both still holds; after the second start it passes.\<close>

lemma two_launches:
  "\<not> wait_passes (h_gates (h_start KernelY (h_issue KernelY (h_issue KernelY fresh_history))))
       (queue_wait KernelY (h_gates (h_issue KernelY (h_issue KernelY fresh_history)))) \<and>
   wait_passes (h_gates (h_start KernelY (h_start KernelY (h_issue KernelY (h_issue KernelY fresh_history)))))
       (queue_wait KernelY (h_gates (h_issue KernelY (h_issue KernelY fresh_history))))"
proof -
  let ?h = "h_issue KernelY (h_issue KernelY fresh_history)"
  have n: "h_launches ?h = 2" "h_starts ?h = 0" by (simp_all add: h_issue_def fresh_history_def)
  have v: "h_valid KernelY ?h"
    by (rule gate_run_valid [OF launch [OF launch [OF stay]] fresh_valid]) (simp_all add: h_issue_def fresh_history_def)
  have r1: "gate_run KernelY ?h (h_start KernelY ?h)" by (rule enter [OF stay]) (simp add: n)
  have r2: "gate_run KernelY ?h (h_start KernelY (h_start KernelY ?h))"
    by (rule enter [OF r1]) (simp add: n h_start_def)
  show ?thesis using queued_wait_iff [OF v r1] queued_wait_iff [OF v r2] n by (simp add: h_start_def)
qed

end
