(* ===== verification/Recv_Pool.thy ===== *)
theory Recv_Pool
  imports Tensor_Meta
begin

text \<open>
  The row compaction of activation checkpointing level 2 (\<^verbatim>\<open>recv_pool_compress.py\<close>): one Triton
  kernel, run as scatter (pool to received tokens) and as gather (back). A program instance of the grid
  reads and writes flat memory; the instances run in any order, and a launch is the list of their
  stores in some order of the grid. The kernel computes its element offsets in 32-bit registers
  (\<open>index_copy_rows\<close>); \<open>copy_rows\<close> is the same copy with exact offsets, and the two agree where no
  offset leaves the 32-bit range (\<open>index_copy_rows_exact\<close>).
\<close>

section \<open>The kernel\<close>

definition program_columns :: "int \<Rightarrow> nat \<Rightarrow> nat \<Rightarrow> int list" where
  \<comment> \<open>the columns of one program after the mask \<open>h < H\<close>\<close>
  "program_columns H block pid = filter (\<lambda>h. h < H) (map (\<lambda>t. i32 (int pid * int block + int t)) [0..<block])"

definition index_copy_rows ::
  "bool \<Rightarrow> int \<Rightarrow> nat \<Rightarrow> (nat \<Rightarrow> int) \<Rightarrow> (int \<Rightarrow> 'f::zero) \<Rightarrow> nat \<times> nat \<Rightarrow> (int \<times> 'f) list" where
  "index_copy_rows gather H block idx inp prog =
     (let row = int (fst prog); tok = idx (fst prog); valid = (tok \<ge> 0); tokc = max tok 0
      in if gather
         then map (\<lambda>h. (i32 (row * H + h), if valid then inp (i32 (tokc * H + h)) else 0)) (program_columns H block (snd prog))
         else (if valid then map (\<lambda>h. (i32 (tokc * H + h), inp (i32 (row * H + h)))) (program_columns H block (snd prog)) else []))"

definition launch_grid :: "nat \<Rightarrow> nat \<Rightarrow> nat \<Rightarrow> (nat \<times> nat) list" where
  "launch_grid rows H block = [(r, p). r \<leftarrow> [0..<rows], p \<leftarrow> [0..<ceil_div H block]]"

definition run_grid :: "((nat \<times> nat) \<Rightarrow> ('a \<times> 'f) list) \<Rightarrow> (nat \<times> nat) list \<Rightarrow> ('a \<Rightarrow> 'f) \<Rightarrow> 'a \<Rightarrow> 'f" where
  "run_grid body order mem = foldl (\<lambda>m (a, v). m(a := v)) mem (concat (map body order))"

section \<open>The wrappers\<close>

definition INT32_MAX :: int where "INT32_MAX = 2 ^ 31"

definition shape_at :: "tensor \<Rightarrow> nat \<Rightarrow> int py" where
  \<comment> \<open>\<open>t.shape[i]\<close>\<close>
  "shape_at t i = (if i < ndim t then Inr (t_shape t ! i) else Inl (IndexError ''tuple index out of range''))"

definition check_rows :: "tensor \<Rightarrow> tensor \<Rightarrow> tensor \<Rightarrow> (int \<times> int) py" where
  "check_rows pool x_recv recv_token =
     py_bind (asserts [(t_contiguous pool \<and> t_contiguous x_recv \<and> t_contiguous recv_token, ''contiguous'')]) (\<lambda>_.
     if ndim pool \<noteq> 2 then Inl (ValueError ''unpack'')
     else let TK = t_shape pool ! 0; H = t_shape pool ! 1 in
     py_bind (asserts [(t_shape recv_token = [TK] \<and> t_dtype recv_token = INT32, ''pool_recv_token'')]) (\<lambda>_.
     py_bind (shape_at x_recv 1) (\<lambda>width.
     py_bind (asserts
       [(width = H \<and> t_dtype x_recv = t_dtype pool, ''x_recv''), (TK * H < INT32_MAX, ''int32 offset overflow'')]) (\<lambda>_.
     Inr (TK, H)))))"

definition compress_pool_to_recv ::
  "tensor \<Rightarrow> tensor \<Rightarrow> tensor \<Rightarrow> (nat \<Rightarrow> int) \<Rightarrow> nat \<Rightarrow> (nat \<times> nat) list \<Rightarrow> (int \<Rightarrow> 'f) \<Rightarrow> (int \<Rightarrow> 'f::zero) \<Rightarrow> (int \<Rightarrow> 'f) py" where
  \<comment> \<open>the metadata of pool, index and output, the index values, \<open>BLOCK_H\<close>, the order of the grid, the two memories\<close>
  "compress_pool_to_recv pool recv_token x_recv idx block order pool_mem out_mem =
     py_bind (check_rows pool x_recv recv_token) (\<lambda>(TK, H).
     Inr (run_grid (index_copy_rows False H block idx pool_mem) order out_mem))"

definition reexpand_recv_to_pool ::
  "tensor \<Rightarrow> tensor \<Rightarrow> tensor \<Rightarrow> (nat \<Rightarrow> int) \<Rightarrow> nat \<Rightarrow> (nat \<times> nat) list \<Rightarrow> (int \<Rightarrow> 'f) \<Rightarrow> (int \<Rightarrow> 'f::zero) \<Rightarrow> (int \<Rightarrow> 'f) py" where
  "reexpand_recv_to_pool x_recv recv_token pool idx block order recv_mem out_mem =
     py_bind (check_rows pool x_recv recv_token) (\<lambda>(TK, H).
     Inr (run_grid (index_copy_rows True H block idx recv_mem) order out_mem))"

section \<open>The same copy with exact offsets\<close>

type_synonym 'f memory = "nat \<Rightarrow> 'f"

definition row_lanes :: "nat \<Rightarrow> nat \<Rightarrow> nat \<Rightarrow> nat list" where
  "row_lanes H block pid = filter (\<lambda>h. h < H) (map (\<lambda>t. pid * block + t) [0..<block])"

definition copy_rows ::
  "bool \<Rightarrow> nat \<Rightarrow> nat \<Rightarrow> (nat \<Rightarrow> int) \<Rightarrow> 'f::zero memory \<Rightarrow> nat \<times> nat \<Rightarrow> (nat \<times> 'f) list" where
  "copy_rows gather H block idx inp prog =
     (let row = fst prog; tok = idx row; valid = (tok \<ge> 0); tokc = nat (max tok 0)
      in if gather
         then map (\<lambda>h. (row * H + h, if valid then inp (tokc * H + h) else 0)) (row_lanes H block (snd prog))
         else (if valid then map (\<lambda>h. (tokc * H + h, inp (row * H + h))) (row_lanes H block (snd prog)) else []))"

section \<open>Stores in any order\<close>

lemma foldl_store:
  assumes "\<forall>(b, w) \<in> set ws. b = a \<longrightarrow> w = v" "a \<in> fst ` set ws \<or> m a = v"
  shows "foldl (\<lambda>m (a, v). m(a := v)) m ws a = v"
  using assms by (induction ws arbitrary: m) auto

lemma run_grid_value:
  assumes "\<And>p b w. p \<in> set order \<Longrightarrow> (b, w) \<in> set (body p) \<Longrightarrow> b = a \<Longrightarrow> w = v"
    and "p \<in> set order" "(a, v) \<in> set (body p)"
  shows "run_grid body order mem a = v"
  unfolding run_grid_def
proof (rule foldl_store)
  show "\<forall>(b, w) \<in> set (concat (map body order)). b = a \<longrightarrow> w = v" using assms(1) by auto
  have "(a, v) \<in> set (concat (map body order))" using assms(2,3) by auto
  then show "a \<in> fst ` set (concat (map body order)) \<or> mem a = v" by (intro disjI1) force
qed

lemma set_launch_grid: "set (launch_grid rows H block) = {0..<rows} \<times> {0..<ceil_div H block}"
  by (auto simp: launch_grid_def)

lemma row_lanes_iff: "h \<in> set (row_lanes H block pid) \<longleftrightarrow> h < H \<and> pid * block \<le> h \<and> h < (pid + 1) * block"
proof
  assume "h < H \<and> pid * block \<le> h \<and> h < (pid + 1) * block"
  then have "h < H" "h = pid * block + (h - pid * block)" "h - pid * block < block" by (auto simp: algebra_simps)
  then show "h \<in> set (row_lanes H block pid)" unfolding row_lanes_def by force
qed (auto simp: row_lanes_def)

lemma column_in_grid:
  assumes "h < H" "0 < block"
  shows "h div block < ceil_div H block \<and> h \<in> set (row_lanes H block (h div block))"
proof -
  have "h < ceil_div H block * block" using ceil_div_mult_ge [OF assms(2), of H] assms(1) by linarith
  then have "h div block < ceil_div H block" using assms(2) by (simp add: div_less_iff_less_mult)
  moreover have "h div block * block \<le> h" "h < (h div block + 1) * block"
    using dividend_less_div_times [OF assms(2), of h] by (auto simp: algebra_simps)
  ultimately show ?thesis using assms by (simp add: row_lanes_iff)
qed

lemma offset_inject:
  fixes H :: nat
  assumes "r * H + h = r' * H + h'" "h < H" "h' < H"
  shows "r = r' \<and> h = h'"
proof -
  have div: "(r * H + h) div H = r" "(r' * H + h') div H = r'" using assms(2,3) by simp_all
  have "r = r'" using assms(1) div by simp
  with assms(1) show ?thesis by simp
qed

section \<open>Compaction and expansion\<close>

lemma scatter_value:
  assumes "set order = set (launch_grid TK H block)" "0 < block" "h < H" "s < TK" "0 \<le> idx s"
    and "\<And>s'. s' < TK \<Longrightarrow> idx s' = idx s \<Longrightarrow> pool (s' * H + h) = pool (s * H + h)"
  shows "run_grid (copy_rows False H block idx pool) order mem (nat (idx s) * H + h) = pool (s * H + h)"
proof (rule run_grid_value)
  show "(s, h div block) \<in> set order" using assms column_in_grid [of h H block] by (simp add: set_launch_grid)
  show "(nat (idx s) * H + h, pool (s * H + h)) \<in> set (copy_rows False H block idx pool (s, h div block))"
    using assms(2,3,5) column_in_grid [of h H block] by (auto simp: copy_rows_def Let_def max_def)
next
  fix p b w
  assume p: "p \<in> set order" and w: "(b, w) \<in> set (copy_rows False H block idx pool p)" and b: "b = nat (idx s) * H + h"
  from w obtain h' where h': "h' < H" "b = nat (idx (fst p)) * H + h'" "w = pool (fst p * H + h')" "0 \<le> idx (fst p)"
    by (auto simp: copy_rows_def Let_def row_lanes_iff max_def split: if_splits)
  then have "nat (idx (fst p)) = nat (idx s)" "h' = h" using offset_inject b assms(3) by blast+
  then show "w = pool (s * H + h)" using h' assms(5) assms(6) [of "fst p"] p assms(1) by (auto simp: set_launch_grid)
qed

lemma gather_value:
  assumes "set order = set (launch_grid TK H block)" "0 < block" "h < H" "s < TK"
  shows "run_grid (copy_rows True H block idx inp) order mem (s * H + h) =
    (if 0 \<le> idx s then inp (nat (idx s) * H + h) else 0)"
proof (rule run_grid_value)
  show "(s, h div block) \<in> set order" using assms column_in_grid [of h H block] by (simp add: set_launch_grid)
  show "(s * H + h, if 0 \<le> idx s then inp (nat (idx s) * H + h) else 0)
      \<in> set (copy_rows True H block idx inp (s, h div block))"
    using assms(2,3) column_in_grid [of h H block] by (auto simp: copy_rows_def Let_def max_def)
next
  fix p b w
  assume "p \<in> set order" and w: "(b, w) \<in> set (copy_rows True H block idx inp p)" and b: "b = s * H + h"
  from w obtain h' where "h' < H" "b = fst p * H + h'" "w = (if 0 \<le> idx (fst p) then inp (nat (idx (fst p)) * H + h') else 0)"
    by (auto simp: copy_rows_def Let_def row_lanes_iff max_def)
  moreover from this have "fst p = s" "h' = h" using offset_inject b assms(3) by blast+
  ultimately show "w = (if 0 \<le> idx s then inp (nat (idx s) * H + h) else 0)" by simp
qed

section \<open>32-bit offsets\<close>

lemma row_offset_less:
  assumes "r < R" "h < H" "R * H < B"
  shows "r * H + h < (B::nat)"
proof -
  have "r * H + h < (r + 1) * H" using assms(2) by simp
  also have "\<dots> \<le> R * H" using assms(1) by (intro mult_le_mono1) simp
  finally show ?thesis using assms(3) by simp
qed

lemma i32_of_nat: "n < 2 ^ 31 \<Longrightarrow> i32 (int n) = int n"
  by (rule i32_exact) simp_all

lemma row_offset_int:
  assumes "r < R" "h < H" "R * H < 2 ^ 31"
  shows "int r * int H + int h < 2 ^ 31"
proof -
  have "int (r * H + h) < int (2 ^ 31)" using row_offset_less [OF assms] by (simp only: of_nat_less_iff)
  then show ?thesis by simp
qed

lemma i32_row_offset:
  assumes "r < R" "h < H" "R * H < 2 ^ 31"
  shows "i32 (int r * int H + int h) = int (r * H + h)"
  using i32_of_nat [OF row_offset_less [OF assms]] by simp

text \<open>No register of a program wraps when the last column of its block, and both tensors, stay below \<open>2 ^ 31\<close> elements.\<close>

lemma program_columns_exact:
  assumes "p < ceil_div H block" "ceil_div H block * block \<le> 2 ^ 31"
  shows "program_columns (int H) block p = map int (row_lanes H block p)"
proof -
  have "i32 (int p * int block + int t) = int (p * block + t)" if "t < block" for t
  proof -
    have "p * block + t < (p + 1) * block" using that by simp
    also have "\<dots> \<le> ceil_div H block * block" using assms(1) by (intro mult_le_mono1) simp
    finally show ?thesis using i32_of_nat [of "p * block + t"] assms(2) by simp
  qed
  then have "map (\<lambda>t. i32 (int p * int block + int t)) [0..<block] = map int (map (\<lambda>t. p * block + t) [0..<block])"
    unfolding map_map comp_def by (intro map_cong refl) simp
  then show ?thesis unfolding program_columns_def row_lanes_def by (simp only: filter_map comp_def of_nat_less_iff)
qed

lemma index_copy_rows_exact:
  assumes "r < TK" "p < ceil_div H block" "ceil_div H block * block \<le> 2 ^ 31" "TK * H < 2 ^ 31" "R * H < 2 ^ 31" "idx r < int R"
  shows "index_copy_rows g (int H) block idx inp (r, p) = map (\<lambda>(a, v). (int a, v)) (copy_rows g H block idx (\<lambda>a. inp (int a)) (r, p))"
proof -
  have row: "i32 (int r * int H + int h) = int (r * H + h)" if "h \<in> set (row_lanes H block p)" for h
    using i32_row_offset [OF assms(1) _ assms(4)] that by (simp add: row_lanes_iff)
  have tok: "i32 (max (idx r) 0 * int H + int h) = int (nat (max (idx r) 0) * H + h)" if "h \<in> set (row_lanes H block p)" "0 \<le> idx r" for h
    using i32_row_offset [of "nat (idx r)" R h H] assms(5,6) that by (simp add: row_lanes_iff max_def)
  show ?thesis
    unfolding index_copy_rows_def copy_rows_def Let_def program_columns_exact [OF assms(2,3)] fst_conv snd_conv
    using row tok by (auto simp: comp_def)
qed

lemma run_grid_exact:
  assumes "\<And>q. q \<in> set order \<Longrightarrow> body q = map (\<lambda>(a, v). (int a, v)) (body' q)"
  shows "run_grid body order mem (int a) = run_grid body' order (\<lambda>a. mem (int a)) a"
proof -
  have "foldl (\<lambda>m (a, v). m(a := v)) mem (map (\<lambda>(a, v). (int a, v)) ws) (int a) =
      foldl (\<lambda>m (a, v). m(a := v)) (\<lambda>a. mem (int a)) ws a" for ws and mem :: "int \<Rightarrow> 'a"
  proof (induction ws arbitrary: mem)
    case (Cons w ws)
    obtain b v where w: "w = (b, v)" by (cases w)
    have "(\<lambda>a. (mem(int b := v)) (int a)) = (\<lambda>a. mem (int a))(b := v)" by auto
    then show ?case using Cons [of "mem(int b := v)"] by (simp add: w)
  qed simp
  moreover have "concat (map body order) = map (\<lambda>(a, v). (int a, v)) (concat (map body' order))"
    using assms by (simp add: map_concat comp_def cong: map_cong)
  ultimately show ?thesis unfolding run_grid_def by simp
qed

section \<open>Compaction and expansion by the kernel\<close>

lemma check_rows_ok:
  assumes "check_rows pool x rt = Inr (TK, H)"
  shows "t_shape pool = [TK, H]" "TK * H < 2 ^ 31" "t_shape rt = [TK]" "t_shape x ! 1 = H"
  using assms by (auto simp: check_rows_def shape_at_def py_bind_Inr_iff asserts_ok_iff INT32_MAX_def Let_def
      length_Suc_conv numeral_2_eq_2 split: if_splits)

text \<open>Every received token has a slot, so there are no more of them than slots.\<close>

lemma tokens_le_slots:
  assumes "\<And>r. r < R \<Longrightarrow> \<exists>s<TK. idx s = int r"
  shows "R \<le> TK"
proof -
  have "int ` {..<R} \<subseteq> idx ` {..<TK}" using assms by force
  then have "card (int ` {..<R}) \<le> card (idx ` {..<TK})" by (intro card_mono) auto
  also have "\<dots> \<le> TK" using card_image_le [of "{..<TK}" idx] by simp
  finally show ?thesis by (simp add: card_image)
qed

text \<open>C30: level-2 checkpointing loses nothing. On a pool of TK slots and R received tokens, where every slot's
  index is -1 or the id of a received token, every received token has a slot (what \<^verbatim>\<open>compress_pool_to_recv\<close> documents)
  and all slots of a token hold the same row, expanding what was compressed gives back the pool on every
  token-carrying slot and zeros on the padding, in every order of the two grids and whatever the freshly
  allocated memories held. The kernel's element offsets are 32-bit: the one size the wrapper asserts, TK * H below
  2^31, is enough for both the slot offset and the received-token offset not to wrap (the columns of the last block
  must fit too, which the wrapper does not check).\<close>

theorem compress_then_reexpand:
  assumes "compress_pool_to_recv pt rt xt idx block order1 pool mem1 = Inr recv"
    and "reexpand_recv_to_pool xt rt pt idx block order2 recv mem2 = Inr pool'"
    and "t_shape pt = [int TK, int H]" "t_shape xt = [int R, int H]" "0 < block" "ceil_div H block * block \<le> 2 ^ 31"
    and "set order1 = set (launch_grid TK H block)" "set order2 = set (launch_grid TK H block)"
    and "\<And>s. s < TK \<Longrightarrow> idx s < int R" "\<And>r. r < R \<Longrightarrow> \<exists>s<TK. idx s = int r"
    and "\<And>s s'. s < TK \<Longrightarrow> s' < TK \<Longrightarrow> idx s = idx s' \<Longrightarrow> 0 \<le> idx s \<Longrightarrow> pool (int (s' * H + h)) = pool (int (s * H + h))"
    and "s < TK" "h < H"
  shows "pool' (int (s * H + h)) = (if 0 \<le> idx s then pool (int (s * H + h)) else 0) \<and>
    int s * int H + int h < 2 ^ 31 \<and> idx s * int H + int h < 2 ^ 31"
proof -
  obtain A B where c: "check_rows pt xt rt = Inr (A, B)" using assms(1) by (auto simp: compress_pool_to_recv_def py_bind_Inr_iff)
  then have AB: "A = int TK" "B = int H" "int TK * int H < 2 ^ 31" using check_rows_ok [OF c] assms(3) by auto
  have TK: "TK * H < 2 ^ 31" using AB(3) by (metis of_nat_less_iff of_nat_mult of_nat_numeral of_nat_power)
  have "R * H \<le> TK * H" by (intro mult_le_mono1 tokens_le_slots [OF assms(10)])
  then have R: "R * H < 2 ^ 31" using TK by (rule le_less_trans)
  define ideal where "ideal = run_grid (copy_rows False H block idx (\<lambda>a. pool (int a))) order1 (\<lambda>a. mem1 (int a))"
  have exact: "index_copy_rows g (int H) block idx inp q = map (\<lambda>(a, v). (int a, v)) (copy_rows g H block idx (\<lambda>a. inp (int a)) q)"
    if "q \<in> set (launch_grid TK H block)" for g q and inp :: "int \<Rightarrow> 'a"
    using index_copy_rows_exact [OF _ _ assms(6) TK R, of "fst q" "snd q" idx g inp] assms(9) [of "fst q"] that
    by (cases q) (simp add: set_launch_grid)
  have recv: "recv = run_grid (index_copy_rows False (int H) block idx pool) order1 mem1"
    and out: "pool' = run_grid (index_copy_rows True (int H) block idx recv) order2 mem2"
    using assms(1,2) c AB by (auto simp: compress_pool_to_recv_def reexpand_recv_to_pool_def py_bind_Inr_iff)
  have recv_at: "recv (int a) = ideal a" for a
    unfolding recv ideal_def by (rule run_grid_exact) (simp add: assms(7) exact)
  have out_at: "pool' (int (s * H + h)) = run_grid (copy_rows True H block idx ideal) order2 (\<lambda>a. mem2 (int a)) (s * H + h)"
    unfolding out recv_at [symmetric] by (rule run_grid_exact) (simp add: assms(8) exact)
  have "ideal (nat (idx s) * H + h) = pool (int (s * H + h))" if tok: "0 \<le> idx s"
    unfolding ideal_def
  proof (rule scatter_value [OF assms(7,5,13), where pool = "\<lambda>a. pool (int a)"])
    show "s < TK" "0 \<le> idx s" by (rule assms(12) tok)+
    show "pool (int (s' * H + h)) = pool (int (s * H + h))" if "s' < TK" "idx s' = idx s" for s'
      using assms(11) [OF assms(12) that(1) that(2) [symmetric] tok] .
  qed
  then have "pool' (int (s * H + h)) = (if 0 \<le> idx s then pool (int (s * H + h)) else 0)"
    unfolding out_at gather_value [OF assms(8,5,13,12)] by simp
  moreover have "int s * int H + int h < 2 ^ 31" using row_offset_int [OF assms(12,13) TK] .
  moreover have "idx s * int H + int h < 2 ^ 31"
  proof (cases "0 \<le> idx s")
    case True
    then have "nat (idx s) < R" using assms(9) [OF assms(12)] by simp
    from row_offset_int [OF this assms(13) R] show ?thesis using True by simp
  next
    case False
    then have "idx s * int H \<le> - 1 * int H" by (intro mult_right_mono) simp_all
    then show ?thesis using assms(13) by simp
  qed
  ultimately show ?thesis by simp
qed

text \<open>Three slots of two columns: one token in slots 0 and 2, padding between.\<close>

definition demo_idx :: "nat \<Rightarrow> int" where "demo_idx s = (if s = 1 then - 1 else 0)"
definition demo_pool :: "int \<Rightarrow> int" where "demo_pool a = [7, 8, 99, 99, 7, 8] ! nat a"

theorem compress_then_reexpand_witness:
  "\<exists>recv pool'.
     compress_pool_to_recv (mk_tensor [3, 2] BF16) (mk_tensor [3] INT32) (mk_tensor [1, 2] BF16) demo_idx 1
       (launch_grid 3 2 1) demo_pool (\<lambda>_. 55) = Inr recv \<and>
     reexpand_recv_to_pool (mk_tensor [1, 2] BF16) (mk_tensor [3] INT32) (mk_tensor [3, 2] BF16) demo_idx 1
       (rev (launch_grid 3 2 1)) recv (\<lambda>_. 66) = Inr pool' \<and> pool' 4 = 7 \<and> pool' 3 = 0"
proof -
  obtain recv where c: "compress_pool_to_recv (mk_tensor [3, 2] BF16) (mk_tensor [3] INT32) (mk_tensor [1, 2] BF16)
      demo_idx 1 (launch_grid 3 2 1) demo_pool (\<lambda>_. 55) = Inr recv"
    by (simp add: compress_pool_to_recv_def check_rows_def shape_at_def asserts.simps INT32_MAX_def)
  obtain pool' where r: "reexpand_recv_to_pool (mk_tensor [1, 2] BF16) (mk_tensor [3] INT32) (mk_tensor [3, 2] BF16)
      demo_idx 1 (rev (launch_grid 3 2 1)) recv (\<lambda>_. 66) = Inr pool'"
    by (simp add: reexpand_recv_to_pool_def check_rows_def shape_at_def asserts.simps INT32_MAX_def)
  have tok: "demo_idx s < int 1" for s by (simp add: demo_idx_def)
  have cover: "\<exists>s<3. demo_idx s = int r" if "r < 1" for r using that by (intro exI [of _ 0]) (simp add: demo_idx_def)
  have fits: "ceil_div 2 1 * 1 \<le> 2 ^ 31" by (simp add: ceil_div_def)
  have "pool' (int (s * 2 + h)) = (if 0 \<le> demo_idx s then demo_pool (int (s * 2 + h)) else 0)"
    if "s < 3" "h < 2" for s h
  proof (rule compress_then_reexpand [OF c r _ _ _ fits _ _ tok cover _ that, THEN conjunct1])
    fix t u :: nat
    assume "t < 3" "u < 3" "demo_idx t = demo_idx u" "0 \<le> demo_idx t"
    then show "demo_pool (int (u * 2 + h)) = demo_pool (int (t * 2 + h))"
      using that(2) by (auto simp: demo_idx_def demo_pool_def less_Suc_eq numeral_2_eq_2 numeral_3_eq_3 split: if_splits)
  qed simp_all
  from this [of 2 0] this [of 1 1] c r show ?thesis by (simp add: demo_idx_def demo_pool_def)
qed

text \<open>What the wrapper does not exclude: index values far beyond the slots. With rows of 8 elements the token ids 0 and
  \<open>2 ^ 29\<close> have the same 32-bit offset, so the second would overwrite the first.\<close>

lemma far_tokens_collide: "i32 (2 ^ 29 * 8 + h) = i32 (0 * 8 + h)"
  using i32_wraps [of h] by simp

end
