(* ===== verification/Stream_Programs.thy ===== *)
theory Stream_Programs
  imports Launch_Gates
begin

text \<open>
  The host side of a layer as a program of stream commands, and the device that runs it. Commands on
  one stream run in order; \<open>wait_stream\<close> and \<open>wait_event\<close> hold a stream until commands of another have
  finished; a launch gate holds it until as many kernels of the gate have started as the host had issued
  when the wait was queued (\<^theory_text>\<open>Launch_Gates\<close>). Two relations describe the device: \<open>dev_step\<close> allows whatever could
  happen, and safety is proved of it; \<open>sure_step\<close> allows only what must be possible on a device as small as it may
  be, where a kernel that spins on another keeps every other kernel from starting and ends only after the one
  it spins on. Progress is proved of \<open>sure_step\<close>.
\<close>

datatype stream = Caller | Communicate | Compute

instantiation stream :: linorder
begin

fun stream_rank :: "stream \<Rightarrow> nat" where
  "stream_rank Caller = 0" | "stream_rank Communicate = 1" | "stream_rank Compute = 2"

definition "less_eq_stream a b \<longleftrightarrow> stream_rank a \<le> stream_rank b"
definition "less_stream a b \<longleftrightarrow> stream_rank a < stream_rank b"

instance
proof
  fix a b :: stream
  show "a \<le> b \<Longrightarrow> b \<le> a \<Longrightarrow> a = b" by (cases a; cases b) (auto simp: less_eq_stream_def)
qed (auto simp: less_eq_stream_def less_stream_def)

end

datatype gpu_op =
    MetadataK | FillTilesK | ZeroSlab | DispatchK
  | KernelA bool                 \<comment> \<open>whether it stores \<open>preact_a\<close>\<close>
  | KernelYK
  | CombineK bool                \<comment> \<open>whether this rank has rows to send\<close>
  | CompressPool
  | ZeroScratch | PrepareBwd | ZeroArrival | DispatchGradsK | ReexpandPool | RecomputePreact
  | KernelYBwd | KernelABwdK | CombineGradsK bool | DW2 | DW1 | ZeroDW
  | CallerOp                     \<comment> \<open>what the model around the layer runs on the caller's stream\<close>

datatype event = MetadataDone | GradsStarted

datatype cmd =
    Launch stream gpu_op
  | WaitStream stream stream     \<comment> \<open>\<open>waiter.wait_stream(waited)\<close>\<close>
  | Record event stream
  | WaitEvent stream event
  | Bump gate
  | Gate stream gate             \<comment> \<open>\<open>buffer.wait_*_started(stream)\<close>\<close>

fun on_stream :: "cmd \<Rightarrow> stream option" where
  "on_stream (Launch s _) = Some s"
| "on_stream (WaitStream s _) = Some s"
| "on_stream (Record _ s) = Some s"
| "on_stream (WaitEvent s _) = Some s"
| "on_stream (Bump _) = None"
| "on_stream (Gate s _) = Some s"

fun gate_of :: "gpu_op \<Rightarrow> gate option" where
  "gate_of DispatchK = Some DispatchMain"
| "gate_of DispatchGradsK = Some DispatchGradsMain"
| "gate_of KernelYK = Some KernelY"
| "gate_of KernelABwdK = Some KernelABwd"
| "gate_of _ = None"

text \<open>Kernels whose blocks spin on counters or stamps another kernel writes.\<close>

fun spins_on :: "gpu_op \<Rightarrow> gpu_op option" where
  "spins_on (KernelA _) = Some DispatchK"
| "spins_on KernelYK = Some DispatchK"
| "spins_on (CombineK rows) = (if rows then Some KernelYK else None)"
| "spins_on KernelYBwd = Some DispatchGradsK"
| "spins_on KernelABwdK = Some DispatchGradsK"
| "spins_on (CombineGradsK rows) = (if rows then Some KernelABwdK else None)"
| "spins_on _ = None"

fun launches :: "gpu_op \<Rightarrow> cmd \<Rightarrow> bool" where
  "launches k (Launch _ k') = (k = k')"
| "launches _ _ = False"

fun launches_gate :: "gate \<Rightarrow> cmd \<Rightarrow> bool" where
  "launches_gate g (Launch _ k) = (gate_of k = Some g)"
| "launches_gate _ _ = False"

section \<open>The device\<close>

record dev =
  d_started :: "nat set"
  d_finished :: "nat set"

fun latest :: "(nat \<Rightarrow> bool) \<Rightarrow> nat \<Rightarrow> nat option" where
  "latest P 0 = None"
| "latest P (Suc i) = (if P i then Some i else latest P i)"

definition count_before :: "(cmd \<Rightarrow> bool) \<Rightarrow> cmd list \<Rightarrow> nat \<Rightarrow> nat" where
  "count_before P prog i = length (filter P (take i prog))"

definition started_count :: "gate \<Rightarrow> cmd list \<Rightarrow> dev \<Rightarrow> nat" where
  "started_count g prog d = card {j \<in> d_started d. j < length prog \<and> launches_gate g (prog ! j)}"

definition fifo_ok :: "cmd list \<Rightarrow> dev \<Rightarrow> nat \<Rightarrow> bool" where
  "fifo_ok prog d i \<longleftrightarrow> (\<forall>j<i. on_stream (prog ! i) \<noteq> None \<and> on_stream (prog ! j) = on_stream (prog ! i) \<longrightarrow> j \<in> d_finished d)"

definition after :: "(nat \<Rightarrow> bool) \<Rightarrow> dev \<Rightarrow> nat \<Rightarrow> bool" where
  \<comment> \<open>the latest earlier command with the property, if there is one, has finished\<close>
  "after P d i \<longleftrightarrow> (case latest P i of None \<Rightarrow> True | Some j \<Rightarrow> j \<in> d_finished d)"

definition finish_ok :: "cmd list \<Rightarrow> dev \<Rightarrow> nat \<Rightarrow> bool" where
  \<comment> \<open>what a command waits for, beyond its turn on the stream; a kernel that has begun may end at any time\<close>
  "finish_ok prog d i = (case prog ! i of
     WaitStream a b \<Rightarrow> (\<forall>j<i. on_stream (prog ! j) = Some b \<longrightarrow> j \<in> d_finished d)
   | WaitEvent s e \<Rightarrow> after (\<lambda>j. \<exists>s. prog ! j = Record e s) d i
   | Gate s g \<Rightarrow> count_before (\<lambda>c. c = Bump g) prog i \<le> started_count g prog d
   | _ \<Rightarrow> True)"

fun is_launch :: "cmd \<Rightarrow> bool" where
  "is_launch (Launch s k) = True"
| "is_launch _ = False"

inductive dev_step :: "cmd list \<Rightarrow> dev \<Rightarrow> dev \<Rightarrow> bool" for prog where
  begin_kernel: "i < length prog \<Longrightarrow> is_launch (prog ! i) \<Longrightarrow> i \<notin> d_started d \<Longrightarrow> fifo_ok prog d i \<Longrightarrow>
     dev_step prog d (d\<lparr>d_started := insert i (d_started d)\<rparr>)"
| end_kernel: "i \<in> d_started d \<Longrightarrow> i \<notin> d_finished d \<Longrightarrow> finish_ok prog d i \<Longrightarrow>
     dev_step prog d (d\<lparr>d_finished := insert i (d_finished d)\<rparr>)"
| pass: "i < length prog \<Longrightarrow> \<not> is_launch (prog ! i) \<Longrightarrow> i \<notin> d_finished d \<Longrightarrow> fifo_ok prog d i \<Longrightarrow> finish_ok prog d i \<Longrightarrow>
     dev_step prog d (d\<lparr>d_finished := insert i (d_finished d)\<rparr>)"

inductive_cases dev_stepE: "dev_step prog d d'"

definition dev_init :: dev where "dev_init = \<lparr>d_started = {}, d_finished = {}\<rparr>"

inductive dev_reach :: "cmd list \<Rightarrow> dev \<Rightarrow> bool" for prog where
  at_start: "dev_reach prog dev_init"
| step: "dev_reach prog d \<Longrightarrow> dev_step prog d d' \<Longrightarrow> dev_reach prog d'"

section \<open>What holds in every schedule\<close>

definition dev_inv :: "cmd list \<Rightarrow> dev \<Rightarrow> bool" where
  "dev_inv prog d \<longleftrightarrow> d_finished d \<subseteq> {..<length prog} \<and> d_started d \<subseteq> {i. i < length prog \<and> is_launch (prog ! i)} \<and>
     (\<forall>i \<in> d_finished d. is_launch (prog ! i) \<longrightarrow> i \<in> d_started d) \<and>
     (\<forall>i \<in> d_started d \<union> d_finished d. fifo_ok prog d i) \<and> (\<forall>i \<in> d_finished d. finish_ok prog d i)"

lemma latest_less: "latest P i = Some j \<Longrightarrow> j < i \<and> P j"
  by (induction i) (auto split: if_splits)

lemma latest_max: "latest P i = Some j \<Longrightarrow> j < k \<Longrightarrow> k < i \<Longrightarrow> \<not> P k"
  by (induction i) (auto split: if_splits simp: less_Suc_eq)

lemma latest_exists: "j < i \<Longrightarrow> P j \<Longrightarrow> \<exists>k. latest P i = Some k \<and> j \<le> k"
  by (induction i) (auto simp: less_Suc_eq)

lemma latest_None: "latest P i = None \<longleftrightarrow> (\<forall>j<i. \<not> P j)"
  by (induction i) (auto simp: less_Suc_eq)

lemma started_count_mono:
  assumes "d_started d \<subseteq> d_started d'" "d_started d' \<subseteq> {i. i < length prog \<and> is_launch (prog ! i)}"
  shows "started_count g prog d \<le> started_count g prog d'"
  unfolding started_count_def
proof (rule card_mono)
  show "finite {j \<in> d_started d'. j < length prog \<and> launches_gate g (prog ! j)}"
    by (rule finite_subset [of _ "{..<length prog}"]) auto
qed (use assms(1) in auto)

lemma fifo_mono: "d_finished d \<subseteq> d_finished d' \<Longrightarrow> fifo_ok prog d i \<Longrightarrow> fifo_ok prog d' i"
  by (auto simp: fifo_ok_def)

lemma finish_mono:
  assumes "d_started d \<subseteq> d_started d'" "d_finished d \<subseteq> d_finished d'"
    and "d_started d' \<subseteq> {i. i < length prog \<and> is_launch (prog ! i)}" and ok: "finish_ok prog d i"
  shows "finish_ok prog d' i"
proof (cases "prog ! i")
  case (WaitStream a b)
  then show ?thesis using ok assms(2) by (auto simp: finish_ok_def)
next
  case (WaitEvent s e)
  then show ?thesis using ok assms(2) by (auto simp: finish_ok_def after_def split: option.splits)
next
  case (Gate s g)
  then show ?thesis using ok order_trans [OF _ started_count_mono [OF assms(1,3)]] by (auto simp: finish_ok_def)
qed (simp_all add: finish_ok_def)

lemma dev_inv_grow:
  assumes inv: "dev_inv prog d" and le: "d_started d \<subseteq> d_started d'" "d_finished d \<subseteq> d_finished d'"
    and new_s: "\<And>i. i \<in> d_started d' \<Longrightarrow> i \<notin> d_started d \<Longrightarrow> i < length prog \<and> is_launch (prog ! i) \<and> fifo_ok prog d i"
    and new_f: "\<And>i. i \<in> d_finished d' \<Longrightarrow> i \<notin> d_finished d \<Longrightarrow>
      i < length prog \<and> (is_launch (prog ! i) \<longrightarrow> i \<in> d_started d) \<and> fifo_ok prog d i \<and> finish_ok prog d i"
  shows "dev_inv prog d'"
proof -
  have st: "d_started d' \<subseteq> {i. i < length prog \<and> is_launch (prog ! i)}"
    using inv new_s by (auto simp: dev_inv_def)
  have "fifo_ok prog d i" if "i \<in> d_started d' \<union> d_finished d'" for i
    using inv new_s [of i] new_f [of i] that unfolding dev_inv_def by blast
  then have ff: "fifo_ok prog d' i" if "i \<in> d_started d' \<union> d_finished d'" for i
    using that fifo_mono le(2) by blast
  have "finish_ok prog d i" if "i \<in> d_finished d'" for i
    using inv new_f that by (auto simp: dev_inv_def)
  then have fin: "finish_ok prog d' i" if "i \<in> d_finished d'" for i
    using that finish_mono [OF le st] by blast
  have "i < length prog \<and> (is_launch (prog ! i) \<longrightarrow> i \<in> d_started d')" if "i \<in> d_finished d'" for i
    using inv new_f [of i] that le(1) unfolding dev_inv_def by blast
  then show ?thesis using st ff fin unfolding dev_inv_def by blast
qed

lemma dev_inv_step:
  assumes "dev_inv prog d" "dev_step prog d d'"
  shows "dev_inv prog d'"
  using assms(2)
proof cases
  case (end_kernel i)
  then have "i < length prog \<and> fifo_ok prog d i" using assms(1) by (auto simp: dev_inv_def)
  then show ?thesis using end_kernel by (intro dev_inv_grow [OF assms(1)]) auto
qed (intro dev_inv_grow [OF assms(1)]; auto)+

lemma dev_reach_inv: "dev_reach prog d \<Longrightarrow> dev_inv prog d"
proof (induction rule: dev_reach.induct)
  case at_start
  show ?case by (simp add: dev_inv_def dev_init_def)
qed (rule dev_inv_step)

section \<open>A small device\<close>

definition spin_done :: "cmd list \<Rightarrow> dev \<Rightarrow> nat \<Rightarrow> bool" where
  \<comment> \<open>the latest earlier launch of the kernel that this one spins on has finished\<close>
  "spin_done prog d i = (case prog ! i of
     Launch s k \<Rightarrow> (case spins_on k of None \<Rightarrow> True | Some k' \<Rightarrow> after (\<lambda>j. launches k' (prog ! j)) d i)
   | _ \<Rightarrow> True)"

fun is_spinner :: "cmd \<Rightarrow> bool" where
  "is_spinner (Launch s k) = (spins_on k \<noteq> None)"
| "is_spinner _ = False"

inductive sure_step :: "cmd list \<Rightarrow> dev \<Rightarrow> dev \<Rightarrow> bool" for prog where
  sure_begin: "i < length prog \<Longrightarrow> is_launch (prog ! i) \<Longrightarrow> i \<notin> d_started d \<Longrightarrow> fifo_ok prog d i \<Longrightarrow>
     (\<And>j. j \<in> d_started d \<Longrightarrow> is_spinner (prog ! j) \<Longrightarrow> j \<in> d_finished d) \<Longrightarrow>
     sure_step prog d (d\<lparr>d_started := insert i (d_started d)\<rparr>)"
| sure_end: "i \<in> d_started d \<Longrightarrow> i \<notin> d_finished d \<Longrightarrow> spin_done prog d i \<Longrightarrow>
     sure_step prog d (d\<lparr>d_finished := insert i (d_finished d)\<rparr>)"
| sure_pass: "i < length prog \<Longrightarrow> \<not> is_launch (prog ! i) \<Longrightarrow> i \<notin> d_finished d \<Longrightarrow> fifo_ok prog d i \<Longrightarrow> finish_ok prog d i \<Longrightarrow>
     sure_step prog d (d\<lparr>d_finished := insert i (d_finished d)\<rparr>)"

definition complete :: "cmd list \<Rightarrow> dev \<Rightarrow> bool" where
  "complete prog d \<longleftrightarrow> d_finished d = {..<length prog}"

lemma finish_ok_launch [simp]: "is_launch (prog ! i) \<Longrightarrow> finish_ok prog d i"
  by (cases "prog ! i") (auto simp: finish_ok_def)

lemma is_spinner_launch: "is_spinner c \<Longrightarrow> is_launch c"
  by (cases c) auto

lemma sure_step_dev_step:
  assumes "dev_inv prog d" "sure_step prog d d'"
  shows "dev_step prog d d'"
  using assms(2)
proof cases
  case (sure_end i)
  then show ?thesis using assms(1) by (auto simp: dev_inv_def intro!: dev_step.end_kernel)
qed (auto intro: dev_step.begin_kernel dev_step.pass)

definition progress_made :: "dev \<Rightarrow> nat" where
  "progress_made d = card (d_started d) + card (d_finished d)"

lemma dev_inv_finite: "dev_inv prog d \<Longrightarrow> finite (d_started d) \<and> finite (d_finished d)"
  unfolding dev_inv_def by (auto intro: finite_subset [of _ "{..<length prog}"])

lemma progress_made_bound:
  assumes "dev_inv prog d"
  shows "progress_made d \<le> 2 * length prog"
proof -
  have "card (d_started d) \<le> length prog" "card (d_finished d) \<le> length prog"
    using assms card_mono [of "{..<length prog}" "d_started d"] card_mono [of "{..<length prog}" "d_finished d"]
    by (auto simp: dev_inv_def)
  then show ?thesis by (simp add: progress_made_def)
qed

lemma dev_step_progress: "dev_inv prog d \<Longrightarrow> dev_step prog d d' \<Longrightarrow> progress_made d' = Suc (progress_made d)"
  using dev_inv_finite [of prog d] by (auto elim!: dev_stepE simp: progress_made_def)

lemma run_length: "(dev_step prog ^^ n) dev_init d \<Longrightarrow> dev_reach prog d \<and> progress_made d = n"
proof (induction n arbitrary: d)
  case 0
  then show ?case using dev_reach.at_start by (auto simp: progress_made_def dev_init_def)
next
  case (Suc n)
  then obtain d1 where "dev_reach prog d1" "progress_made d1 = n" "dev_step prog d1 d" by auto
  then show ?case using dev_step_progress dev_reach_inv dev_reach.step by metis
qed

end
