(* ===== verification/Stream_Analysis.thy ===== *)
theory Stream_Analysis
  imports Stream_Programs
begin

text \<open>
  Two conditions on a program of stream commands that can be read off its text, and what they buy. A
  launch gate is \<open>exact\<close> when, at every wait queued for it, as many kernels have been launched as bumps
  were issued; a spinning kernel is \<open>armed\<close> when a wait on its own stream, queued after the launch it spins
  on, comes before it. Both are checked layer by layer. In a program that meets them no schedule deadlocks,
  even on a device that a single spinning kernel fills; and \<open>learn\<close> computes, for each launch, commands
  that have finished whenever it begins.
\<close>

section \<open>Reading the text of a program\<close>

definition gate_home :: "gate \<Rightarrow> stream" where
  \<comment> \<open>the one stream on which the kernels of a gate are launched\<close>
  "gate_home g = (case g of DispatchMain \<Rightarrow> Communicate | DispatchGradsMain \<Rightarrow> Communicate
                   | KernelY \<Rightarrow> Compute | KernelABwd \<Rightarrow> Compute)"

fun at_home :: "cmd \<Rightarrow> bool" where
  "at_home (Launch s k) = (case gate_of k of None \<Rightarrow> True | Some g \<Rightarrow> s = gate_home g)"
| "at_home _ = True"

fun owed :: "(gate \<Rightarrow> int) \<Rightarrow> cmd \<Rightarrow> gate \<Rightarrow> int" where
  \<comment> \<open>bumps less launches of each gate\<close>
  "owed b (Bump g) = b(g := b g + 1)"
| "owed b (Launch s k) = (case gate_of k of None \<Rightarrow> b | Some g \<Rightarrow> b(g := b g - 1))"
| "owed b _ = b"

fun exact :: "(gate \<Rightarrow> int) \<Rightarrow> cmd list \<Rightarrow> bool" where
  "exact b [] \<longleftrightarrow> True"
| "exact b (c # cs) \<longleftrightarrow> (case c of Gate s g \<Rightarrow> b g = 0 | _ \<Rightarrow> True) \<and> exact (owed b c) cs"

fun arm :: "(gate \<Rightarrow> stream \<Rightarrow> bool) \<Rightarrow> cmd \<Rightarrow> gate \<Rightarrow> stream \<Rightarrow> bool" where
  "arm A (Gate s g) = A(g := (A g)(s := True))"
| "arm A (Launch s k) = (case gate_of k of None \<Rightarrow> A | Some g \<Rightarrow> A(g := (\<lambda>_. False)))"
| "arm A _ = A"

fun may_spin :: "(gate \<Rightarrow> stream \<Rightarrow> bool) \<Rightarrow> cmd \<Rightarrow> bool" where
  "may_spin A (Launch s k) = (case spins_on k of None \<Rightarrow> True
     | Some k' \<Rightarrow> (case gate_of k' of None \<Rightarrow> False | Some g \<Rightarrow> A g s))"
| "may_spin A _ = True"

fun armed :: "(gate \<Rightarrow> stream \<Rightarrow> bool) \<Rightarrow> cmd list \<Rightarrow> bool" where
  "armed A [] \<longleftrightarrow> True"
| "armed A (c # cs) \<longleftrightarrow> may_spin A c \<and> armed (arm A c) cs"

definition orderly :: "cmd list \<Rightarrow> bool" where
  "orderly cs \<longleftrightarrow> exact (\<lambda>_. 0) cs \<and> armed (\<lambda>_ _. False) cs \<and> list_all at_home cs"

definition settled :: "cmd list \<Rightarrow> bool" where
  \<comment> \<open>what a whole layer meets, and a sequence of layers keeps\<close>
  "settled cs \<longleftrightarrow> orderly cs \<and> foldl owed (\<lambda>_. 0) cs = (\<lambda>_. 0)"

lemma exact_append: "exact b (xs @ ys) \<longleftrightarrow> exact b xs \<and> exact (foldl owed b xs) ys"
  by (induction xs arbitrary: b) auto

lemma armed_append: "armed A (xs @ ys) \<longleftrightarrow> armed A xs \<and> armed (foldl arm A xs) ys"
  by (induction xs arbitrary: A) auto

lemma may_spin_mono: "may_spin A c \<Longrightarrow> A \<le> B \<Longrightarrow> may_spin B c"
  by (cases c) (auto split: option.splits simp: le_fun_def)

lemma arm_mono: "A \<le> B \<Longrightarrow> arm A c \<le> arm B c"
  by (cases c) (auto split: option.splits simp: le_fun_def)

lemma armed_mono: "armed A cs \<Longrightarrow> A \<le> B \<Longrightarrow> armed B cs"
proof (induction cs arbitrary: A B)
  case (Cons c cs)
  from Cons.prems(1) have "may_spin A c" "armed (arm A c) cs" by simp_all
  then have "may_spin B c" "armed (arm B c) cs"
    using may_spin_mono Cons.prems(2) Cons.IH [OF _ arm_mono [OF Cons.prems(2)]] by blast+
  then show ?case by simp
qed simp

lemma settled_Nil: "settled []"
  by (simp add: settled_def orderly_def)

lemma settled_append: "settled xs \<Longrightarrow> settled ys \<Longrightarrow> settled (xs @ ys)"
proof -
  assume xs: "settled xs" and ys: "settled ys"
  have "armed (foldl arm (\<lambda>_ _. False) xs) ys"
    using ys by (simp add: settled_def orderly_def armed_mono [of "\<lambda>_ _. False"] le_fun_def)
  with xs ys show ?thesis by (simp add: settled_def orderly_def exact_append armed_append)
qed

text \<open>What the host has issued so far is a prefix, and a prefix is still orderly.\<close>

lemma orderly_prefix: "orderly (xs @ ys) \<Longrightarrow> orderly xs"
  by (simp add: orderly_def exact_append armed_append)

lemma settled_orderly_take: "settled cs \<Longrightarrow> orderly (take n cs)"
  using orderly_prefix [of "take n cs" "drop n cs"] by (simp add: settled_def)

lemma settled_concat: "(\<And>cs. cs \<in> set css \<Longrightarrow> settled cs) \<Longrightarrow> settled (concat css)"
  by (induction css) (auto intro: settled_Nil settled_append)

section \<open>The same, by position\<close>

lemma count_before_card: "i \<le> length prog \<Longrightarrow> count_before P prog i = card {j. j < i \<and> P (prog ! j)}"
  unfolding count_before_def length_filter_conv_card by (intro arg_cong [where f = card]) auto

lemma owed_count:
  "foldl owed b cs g = b g + int (length (filter (\<lambda>c. c = Bump g) cs)) - int (length (filter (launches_gate g) cs))"
proof (induction cs arbitrary: b)
  case (Cons c cs)
  then show ?case by (cases c) (auto split: option.splits)
qed simp

lemma exact_at: "exact b cs \<Longrightarrow> i < length cs \<Longrightarrow> cs ! i = Gate s g \<Longrightarrow> foldl owed b (take i cs) g = 0"
proof (induction cs arbitrary: b i)
  case (Cons c cs)
  then show ?case by (cases i) (auto split: cmd.splits)
qed simp

lemma exact_counts:
  assumes "exact (\<lambda>_. 0) prog" "i < length prog" "prog ! i = Gate s g"
  shows "count_before (\<lambda>c. c = Bump g) prog i = count_before (launches_gate g) prog i"
  using exact_at [OF assms] by (simp add: owed_count count_before_def)

lemma armed_at:
  assumes "armed A cs" "i < length cs" "cs ! i = Launch s k" "spins_on k = Some k'"
  obtains g where "gate_of k' = Some g" "foldl arm A (take i cs) g s"
  using assms
proof (induction cs arbitrary: A i)
  case (Cons c cs)
  then show ?case by (cases i) (auto split: option.splits)
qed simp

lemma foldl_arm_gate:
  assumes "foldl arm A cs g s" "\<not> A g s"
  obtains m where "m < length cs" "cs ! m = Gate s g" "\<And>j. m < j \<Longrightarrow> j < length cs \<Longrightarrow> \<not> launches_gate g (cs ! j)"
  using assms
proof (induction cs arbitrary: thesis rule: rev_induct)
  case (snoc c cs)
  show ?case
  proof (cases "c = Gate s g")
    case True
    then show ?thesis by (intro snoc.prems(1) [of "length cs"]) auto
  next
    case False
    then have "foldl arm A cs g s \<and> \<not> launches_gate g c"
      using snoc.prems(2) by (cases c) (auto split: option.splits if_splits)
    then obtain m where "m < length cs" "cs ! m = Gate s g" "\<And>j. m < j \<Longrightarrow> j < length cs \<Longrightarrow> \<not> launches_gate g (cs ! j)"
      using snoc.IH snoc.prems(3) by blast
    then show ?thesis using \<open>_ \<and> \<not> launches_gate g c\<close>
      by (intro snoc.prems(1) [of m]) (auto simp: nth_append less_Suc_eq)
  qed
qed simp

section \<open>What every schedule of such a program does\<close>

lemma started_facts:
  assumes "dev_inv prog d" "i \<in> d_started d"
  shows "i < length prog" "is_launch (prog ! i)" "fifo_ok prog d i"
  using assms by (auto simp: dev_inv_def)

lemma finished_facts:
  assumes "dev_inv prog d" "i \<in> d_finished d"
  shows "i < length prog" "fifo_ok prog d i" "finish_ok prog d i" "is_launch (prog ! i) \<Longrightarrow> i \<in> d_started d"
  using assms by (auto simp: dev_inv_def)

lemma fifo_prefix:
  assumes "fifo_ok prog d i" "j < i" "on_stream (prog ! j) = on_stream (prog ! i)" "on_stream (prog ! i) = Some s"
  shows "j \<in> d_finished d"
  using assms by (auto simp: fifo_ok_def)

lemma launches_gate_launch: "launches_gate g c \<Longrightarrow> is_launch c"
  by (cases c) auto

lemma launches_gate_of: "gate_of k = Some g \<Longrightarrow> launches k c \<Longrightarrow> launches_gate g c"
  by (cases c) auto

definition in_order :: "cmd list \<Rightarrow> nat \<Rightarrow> dev" where
  \<comment> \<open>the first \<open>n\<close> commands have finished and nothing else has begun\<close>
  "in_order prog n = \<lparr>d_started = {i. i < n \<and> is_launch (prog ! i)}, d_finished = {..<n}\<rparr>"

locale orderly_program =
  fixes prog :: "cmd list"
  assumes orderly: "orderly prog"
begin

lemma home:
  assumes "i < length prog" "launches_gate g (prog ! i)"
  shows "on_stream (prog ! i) = Some (gate_home g)"
proof -
  have "at_home (prog ! i)" using orderly assms(1) by (auto simp: orderly_def list_all_length)
  then show ?thesis using assms(2) by (cases "prog ! i") auto
qed

text \<open>A wait that has passed its gate has seen every earlier launch of the gate begin.\<close>

lemma gate_passed:
  assumes inv: "dev_inv prog d" and m: "m \<in> d_finished d" "prog ! m = Gate s g"
    and j: "j < m" "launches_gate g (prog ! j)"
  shows "j \<in> d_started d"
proof (rule ccontr)
  assume no: "j \<notin> d_started d"
  let ?E = "{j. j < m \<and> launches_gate g (prog ! j)}" and ?S = "{j \<in> d_started d. j < length prog \<and> launches_gate g (prog ! j)}"
  have len: "m < length prog" using finished_facts(1) [OF inv m(1)] .
  have "card ?E = count_before (\<lambda>c. c = Bump g) prog m"
    using exact_counts [of prog m s g] orderly len m(2) by (simp add: orderly_def count_before_card)
  also have "\<dots> \<le> card ?S"
    using finished_facts(3) [OF inv m(1)] m(2) by (simp add: finish_ok_def started_count_def)
  finally have le: "card ?E \<le> card ?S" .
  have "i \<in> ?E - {j}" if i: "i \<in> ?S" for i
  proof -
    have "i < j"
    proof (rule ccontr)
      assume "\<not> i < j"
      then have "j < i" using i no by (metis (lifting) mem_Collect_eq nat_neq_iff)
      then have "j \<in> d_finished d"
        using fifo_prefix [of prog d i j] started_facts(3) [OF inv] home [of i g] home [of j g] i j len by auto
      then show False using no finished_facts(4) [OF inv] launches_gate_launch [OF j(2)] by blast
    qed
    then show ?thesis using i j by auto
  qed
  then have "card ?S \<le> card (?E - {j})" by (intro card_mono) auto
  also have "\<dots> < card ?E" using j by (intro card_Diff1_less) auto
  finally show False using le by simp
qed

text \<open>A kernel that spins has begun only after the kernel it spins on.\<close>

lemma spinner_after_producer:
  assumes inv: "dev_inv prog d" and i: "i \<in> d_started d" "prog ! i = Launch s k" "spins_on k = Some k'"
    and j: "j < i" "launches k' (prog ! j)"
  shows "j \<in> d_started d"
proof -
  have len: "i < length prog" using started_facts(1) [OF inv i(1)] .
  obtain g where g: "gate_of k' = Some g" "foldl arm (\<lambda>_ _. False) (take i prog) g s"
    using armed_at [of "\<lambda>_ _. False" prog i s k k'] orderly len i(2,3) by (auto simp: orderly_def)
  obtain m where m: "m < length (take i prog)" "take i prog ! m = Gate s g"
    "\<And>j. m < j \<Longrightarrow> j < length (take i prog) \<Longrightarrow> \<not> launches_gate g (take i prog ! j)"
    using foldl_arm_gate [OF g(2)] by metis
  have gate: "m < i" "prog ! m = Gate s g" using m(1,2) len by auto
  have "launches_gate g (prog ! j)" using launches_gate_of [OF g(1) j(2)] .
  then have "j < m" using m(3) [of j] j(1) len gate by (metis launches_gate.simps(6) length_take min.absorb4 nat_neq_iff nth_take)
  moreover have "m \<in> d_finished d"
    using fifo_prefix [OF started_facts(3) [OF inv i(1)] gate(1)] gate(2) i(2) by simp
  ultimately show ?thesis using gate_passed [OF inv _ gate(2)] \<open>launches_gate g (prog ! j)\<close> by blast
qed

text \<open>No schedule is stuck, even when one spinning kernel fills the device.\<close>

lemma after_latest:
  assumes "dev_inv prog d" "i \<in> d_started d" "\<not> spin_done prog d i"
  obtains s k k' j where "prog ! i = Launch s k" "spins_on k = Some k'" "j < i" "launches k' (prog ! j)" "j \<notin> d_finished d"
proof -
  from assms(3) obtain s k k' where k: "prog ! i = Launch s k" "spins_on k = Some k'"
    "\<not> after (\<lambda>j. launches k' (prog ! j)) d i"
    by (auto simp: spin_done_def split: cmd.splits option.splits)
  then obtain j where "latest (\<lambda>j. launches k' (prog ! j)) i = Some j" "j \<notin> d_finished d"
    by (auto simp: after_def split: option.splits)
  then show ?thesis using latest_less [of _ i j] that [OF k(1,2)] by auto
qed

lemma spinner_can_end:
  assumes inv: "dev_inv prog d" and i: "i \<in> d_started d" "i \<notin> d_finished d"
  shows "\<exists>d'. sure_step prog d d'"
proof -
  \<comment> \<open>the first kernel that runs\<close>
  define r where "r = (LEAST r. r \<in> d_started d \<and> r \<notin> d_finished d)"
  have r: "r \<in> d_started d" "r \<notin> d_finished d"
    using LeastI [of "\<lambda>r. r \<in> d_started d \<and> r \<notin> d_finished d" i] i by (auto simp: r_def)
  have "spin_done prog d r"
  proof (rule ccontr)
    assume "\<not> spin_done prog d r"
    then obtain s k k' j where j: "prog ! r = Launch s k" "spins_on k = Some k'" "j < r" "launches k' (prog ! j)" "j \<notin> d_finished d"
      using after_latest [OF inv r(1)] by blast
    then have "j \<in> d_started d" using spinner_after_producer [OF inv r(1)] by blast
    then have "r \<le> j" unfolding r_def using j(5) by (intro Least_le) simp
    then show False using j(3) by simp
  qed
  then show ?thesis using sure_step.sure_end [OF r] by blast
qed

lemma first_unfinished_ready:
  assumes inv: "dev_inv prog d" and quiet: "d_started d \<subseteq> d_finished d"
    and i: "i < length prog" "i \<notin> d_finished d" "\<And>j. j < i \<Longrightarrow> j \<in> d_finished d"
  shows "fifo_ok prog d i" "finish_ok prog d i"
proof -
  show "fifo_ok prog d i" using i(3) by (simp add: fifo_ok_def)
  have gate: "count_before (\<lambda>c. c = Bump g) prog i \<le> started_count g prog d" if g: "prog ! i = Gate s g" for s g
  proof -
    have "{j. j < i \<and> launches_gate g (prog ! j)} \<subseteq> {j \<in> d_started d. j < length prog \<and> launches_gate g (prog ! j)}"
      using i finished_facts(4) [OF inv] launches_gate_launch by fastforce
    then have "card {j. j < i \<and> launches_gate g (prog ! j)} \<le> started_count g prog d"
      unfolding started_count_def using card_mono [of "{j \<in> d_started d. j < length prog \<and> launches_gate g (prog ! j)}"]
        dev_inv_finite [OF inv] by auto
    then show ?thesis
      using exact_counts [of prog i s g] orderly i(1) g by (simp add: orderly_def count_before_card)
  qed
  show "finish_ok prog d i"
  proof (cases "prog ! i")
    case (WaitEvent s e)
    then show ?thesis using i(3) latest_less by (auto simp: finish_ok_def after_def split: option.splits)
  qed (auto simp: finish_ok_def i(3) gate)
qed

lemma no_deadlock:
  assumes inv: "dev_inv prog d" and todo: "\<not> complete prog d"
  shows "\<exists>d'. sure_step prog d d'"
proof (cases "d_started d \<subseteq> d_finished d")
  case False
  then show ?thesis using spinner_can_end [OF inv] by blast
next
  case quiet: True
  define i where "i = (LEAST i. i < length prog \<and> i \<notin> d_finished d)"
  have "\<exists>i. i < length prog \<and> i \<notin> d_finished d"
    using todo inv by (auto simp: complete_def dev_inv_def)
  from LeastI_ex [OF this] have i: "i < length prog" "i \<notin> d_finished d" by (simp_all add: i_def)
  have first: "j \<in> d_finished d" if "j < i" for j
    using not_less_Least [of j "\<lambda>i. i < length prog \<and> i \<notin> d_finished d"] that i(1) by (auto simp: i_def)
  note ready = first_unfinished_ready [OF inv quiet i first]
  show ?thesis
  proof (cases "is_launch (prog ! i)")
    case True
    then show ?thesis using sure_step.sure_begin [OF i(1) True _ ready(1)] quiet i(2) by blast
  next
    case False
    then show ?thesis using sure_step.sure_pass [OF i(1) False i(2) ready] by blast
  qed
qed

text \<open>One schedule that always exists: every command in the order it was issued.\<close>

lemma in_order_reach: "n \<le> length prog \<Longrightarrow> dev_reach prog (in_order prog n)"
proof (induction n)
  case 0
  then show ?case using dev_reach.at_start [of prog] by (simp add: in_order_def dev_init_def lessThan_def)
next
  case (Suc n)
  let ?d = "in_order prog n"
  have reach: "dev_reach prog ?d" using Suc by simp
  have n: "n < length prog" "n \<notin> d_finished ?d" "\<And>j. j < n \<Longrightarrow> j \<in> d_finished ?d"
    using Suc.prems by (auto simp: in_order_def)
  have quiet: "d_started ?d \<subseteq> d_finished ?d" by (auto simp: in_order_def)
  note ready = first_unfinished_ready [OF dev_reach_inv [OF reach] quiet n]
  show ?case
  proof (cases "is_launch (prog ! n)")
    case True
    let ?b = "?d\<lparr>d_started := insert n (d_started ?d)\<rparr>"
    have "dev_step prog ?d ?b" using n True ready by (intro dev_step.begin_kernel) (auto simp: in_order_def)
    moreover have "dev_step prog ?b (?b\<lparr>d_finished := insert n (d_finished ?b)\<rparr>)"
      using n True by (intro dev_step.end_kernel) (auto simp: in_order_def)
    moreover have "?b\<lparr>d_finished := insert n (d_finished ?b)\<rparr> = in_order prog (Suc n)"
      using True by (auto simp: in_order_def less_Suc_eq)
    ultimately show ?thesis using reach dev_reach.step by metis
  next
    case False
    have "dev_step prog ?d (?d\<lparr>d_finished := insert n (d_finished ?d)\<rparr>)"
      using n False ready by (intro dev_step.pass) auto
    moreover have "?d\<lparr>d_finished := insert n (d_finished ?d)\<rparr> = in_order prog (Suc n)"
      using False by (auto simp: in_order_def less_Suc_eq)
    ultimately show ?thesis using reach dev_reach.step by metis
  qed
qed

lemma runs_complete:
  assumes "(dev_step prog ^^ n) dev_init d"
  shows "n \<le> 2 * length prog \<and> (complete prog d \<or> (\<exists>d'. sure_step prog d d' \<and> dev_step prog d d'))"
proof -
  have inv: "dev_inv prog d" and n: "progress_made d = n"
    using run_length [OF assms] dev_reach_inv by blast+
  show ?thesis using no_deadlock [OF inv] sure_step_dev_step [OF inv] progress_made_bound [OF inv] n by blast
qed

end

section \<open>Which launches are ordered\<close>

record known =
  k_stream :: "stream \<Rightarrow> nat list"  \<comment> \<open>finished once all earlier commands of the stream are\<close>
  k_event :: "event \<Rightarrow> nat list"
  k_gate :: "gate \<Rightarrow> nat list"      \<comment> \<open>finished once the latest kernel of the gate has begun\<close>

definition nothing_known :: known where
  "nothing_known = \<lparr>k_stream = (\<lambda>_. []), k_event = (\<lambda>_. []), k_gate = (\<lambda>_. [])\<rparr>"

definition add_known :: "stream \<Rightarrow> nat list \<Rightarrow> known \<Rightarrow> known" where
  "add_known s js kn = kn\<lparr>k_stream := (k_stream kn)(s := js @ k_stream kn s)\<rparr>"

fun learn :: "nat \<Rightarrow> cmd \<Rightarrow> known \<Rightarrow> known" where
  "learn i (Launch s k) kn = (let kn' = add_known s [i] kn in
     case gate_of k of None \<Rightarrow> kn' | Some g \<Rightarrow> kn'\<lparr>k_gate := (k_gate kn)(g := k_stream kn s)\<rparr>)"
| "learn i (WaitStream a b) kn = add_known a (i # k_stream kn b) kn"
| "learn i (Record e s) kn = (add_known s [i] kn)\<lparr>k_event := (k_event kn)(e := k_stream kn s)\<rparr>"
| "learn i (WaitEvent s e) kn = add_known s (i # k_event kn e) kn"
| "learn i (Gate s g) kn = add_known s (i # k_gate kn g) kn"
| "learn i (Bump g) kn = kn"

fun ordered_before :: "nat \<Rightarrow> known \<Rightarrow> cmd list \<Rightarrow> (nat \<times> nat list) list" where
  \<comment> \<open>for each launch, commands that have finished when it begins\<close>
  "ordered_before i kn [] = []"
| "ordered_before i kn (c # cs) =
     (case c of Launch s k \<Rightarrow> [(i, k_stream kn s)] | _ \<Rightarrow> []) @ ordered_before (Suc i) (learn i c kn) cs"

definition stream_done :: "cmd list \<Rightarrow> dev \<Rightarrow> nat \<Rightarrow> stream \<Rightarrow> bool" where
  "stream_done prog d i s \<longleftrightarrow> (\<forall>j<i. on_stream (prog ! j) = Some s \<longrightarrow> j \<in> d_finished d)"

definition sound_known :: "cmd list \<Rightarrow> dev \<Rightarrow> nat \<Rightarrow> known \<Rightarrow> bool" where
  "sound_known prog d i kn \<longleftrightarrow>
     (\<forall>s. stream_done prog d i s \<longrightarrow> set (k_stream kn s) \<subseteq> d_finished d) \<and>
     (\<forall>e. after (\<lambda>j. \<exists>s. prog ! j = Record e s) d i \<longrightarrow> set (k_event kn e) \<subseteq> d_finished d) \<and>
     (\<forall>g. (\<forall>j<i. launches_gate g (prog ! j) \<longrightarrow> j \<in> d_started d) \<longrightarrow> set (k_gate kn g) \<subseteq> d_finished d)"

lemma sound_nothing: "sound_known prog d i nothing_known"
  by (simp add: sound_known_def nothing_known_def)

lemma sound_knownD:
  assumes "sound_known prog d i kn"
  shows "stream_done prog d i s \<Longrightarrow> set (k_stream kn s) \<subseteq> d_finished d"
    and "after (\<lambda>j. \<exists>s. prog ! j = Record e s) d i \<Longrightarrow> set (k_event kn e) \<subseteq> d_finished d"
    and "(\<And>j. j < i \<Longrightarrow> launches_gate g (prog ! j) \<Longrightarrow> j \<in> d_started d) \<Longrightarrow> set (k_gate kn g) \<subseteq> d_finished d"
  using assms by (simp_all add: sound_known_def)

lemma stream_done_Suc:
  "stream_done prog d (Suc i) s \<longleftrightarrow> stream_done prog d i s \<and> (on_stream (prog ! i) = Some s \<longrightarrow> i \<in> d_finished d)"
  by (auto simp: stream_done_def less_Suc_eq)

lemma fifo_stream_done: "on_stream (prog ! i) = Some s \<Longrightarrow> fifo_ok prog d i \<Longrightarrow> stream_done prog d i s"
  by (auto simp: fifo_ok_def stream_done_def)

lemma after_Suc: "after P d (Suc i) \<longleftrightarrow> (if P i then i \<in> d_finished d else after P d i)"
  by (simp add: after_def)

text \<open>A step teaches its own stream \<open>js\<close>, and an event or a gate what its stream knew.\<close>

lemma sound_learn_intro:
  assumes snd: "sound_known prog d i kn"
    and str: "\<And>s. on_stream (prog ! i) = Some s \<Longrightarrow> i \<in> d_finished d \<Longrightarrow> stream_done prog d i s \<Longrightarrow>
      set (k_stream kn' s) \<subseteq> d_finished d"
    and str': "\<And>s. on_stream (prog ! i) \<noteq> Some s \<Longrightarrow> k_stream kn' s = k_stream kn s"
    and ev: "\<And>e s. prog ! i = Record e s \<Longrightarrow> i \<in> d_finished d \<Longrightarrow> set (k_event kn' e) \<subseteq> d_finished d"
    and ev': "\<And>e. (\<And>s. prog ! i \<noteq> Record e s) \<Longrightarrow> k_event kn' e = k_event kn e"
    and gt: "\<And>g. launches_gate g (prog ! i) \<Longrightarrow> i \<in> d_started d \<Longrightarrow> set (k_gate kn' g) \<subseteq> d_finished d"
    and gt': "\<And>g. \<not> launches_gate g (prog ! i) \<Longrightarrow> k_gate kn' g = k_gate kn g"
  shows "sound_known prog d (Suc i) kn'"
  unfolding sound_known_def
proof (intro conjI allI impI)
  fix s assume "stream_done prog d (Suc i) s"
  then show "set (k_stream kn' s) \<subseteq> d_finished d"
    using str [of s] str' [of s] sound_knownD(1) [OF snd, of s] by (cases "on_stream (prog ! i) = Some s") (auto simp: stream_done_Suc)
next
  fix e assume "after (\<lambda>j. \<exists>s. prog ! j = Record e s) d (Suc i)"
  then show "set (k_event kn' e) \<subseteq> d_finished d"
    using ev [of e] ev' [of e] sound_knownD(2) [OF snd, of e] by (cases "\<exists>s. prog ! i = Record e s") (auto simp: after_Suc)
next
  fix g assume "\<forall>j<Suc i. launches_gate g (prog ! j) \<longrightarrow> j \<in> d_started d"
  then show "set (k_gate kn' g) \<subseteq> d_finished d"
    using gt [of g] gt' [of g] sound_knownD(3) [OF snd, of g] by (cases "launches_gate g (prog ! i)") auto
qed

context orderly_program
begin

lemma sound_learn:
  assumes inv: "dev_inv prog d" and snd: "sound_known prog d i kn"
  shows "sound_known prog d (Suc i) (learn i (prog ! i) kn)"
proof (rule sound_learn_intro [OF snd])
  fix s assume on: "on_stream (prog ! i) = Some s" and fin: "i \<in> d_finished d" and sd: "stream_done prog d i s"
  note str = sound_knownD(1) [OF snd]
  have ok: "finish_ok prog d i" using finished_facts(3) [OF inv fin] .
  show "set (k_stream (learn i (prog ! i) kn) s) \<subseteq> d_finished d"
  proof (cases "prog ! i")
    case (WaitStream a b)
    then have "stream_done prog d i b" using ok by (simp add: finish_ok_def stream_done_def)
    then show ?thesis using str [OF sd] str [of b] WaitStream on fin by (simp add: add_known_def)
  next
    case (WaitEvent t e)
    then have "after (\<lambda>j. \<exists>s. prog ! j = Record e s) d i" using ok by (simp add: finish_ok_def)
    then show ?thesis using str [OF sd] sound_knownD(2) [OF snd, of e] WaitEvent on fin by (simp add: add_known_def)
  next
    case (Gate t g)
    then have "set (k_gate kn g) \<subseteq> d_finished d"
      using gate_passed [OF inv fin Gate] by (intro sound_knownD(3) [OF snd])
    then show ?thesis using str [OF sd] Gate on fin by (simp add: add_known_def)
  qed (use str [OF sd] on fin in \<open>auto simp: add_known_def Let_def split: option.splits\<close>)
next
  fix e s assume "prog ! i = Record e s" "i \<in> d_finished d"
  then show "set (k_event (learn i (prog ! i) kn) e) \<subseteq> d_finished d"
    using sound_knownD(1) [OF snd fifo_stream_done] finished_facts(2) [OF inv] by simp
next
  fix g assume g: "launches_gate g (prog ! i)" "i \<in> d_started d"
  then obtain s k where k: "prog ! i = Launch s k" "gate_of k = Some g" by (cases "prog ! i") auto
  then have "stream_done prog d i s" using fifo_stream_done [of prog i s d] started_facts(3) [OF inv g(2)] by simp
  then show "set (k_gate (learn i (prog ! i) kn) g) \<subseteq> d_finished d"
    using sound_knownD(1) [OF snd] k by (simp add: Let_def)
qed (cases "prog ! i"; auto simp: add_known_def Let_def split: option.splits)+

lemma ordered_before_sound:
  assumes inv: "dev_inv prog d" and snd: "sound_known prog d (length pre) kn" and split: "prog = pre @ cs @ post"
    and mem: "(i, js) \<in> set (ordered_before (length pre) kn cs)" "i \<in> d_started d"
  shows "set js \<subseteq> d_finished d"
  using snd split mem(1)
proof (induction cs arbitrary: pre kn)
  case (Cons c cs)
  have nth: "prog ! length pre = c" using Cons.prems(2) by (simp add: nth_append)
  show ?case
  proof (cases "(i, js) \<in> set (ordered_before (Suc (length pre)) (learn (length pre) c kn) cs)")
    case True
    then show ?thesis
      using Cons.IH [of "pre @ [c]"] sound_learn [OF inv Cons.prems(1)] Cons.prems(2) nth by simp
  next
    case False
    then obtain s k where k: "c = Launch s k" "i = length pre" "js = k_stream kn s"
      using Cons.prems(3) by (auto split: cmd.splits)
    then have "stream_done prog d i s"
      using fifo_stream_done [of prog i s d] nth started_facts(3) [OF inv mem(2)] by simp
    then show ?thesis using sound_knownD(1) [OF Cons.prems(1)] k by simp
  qed
qed simp

end

end
