(* ===== verification/Gate_Words.thy ===== *)
theory Gate_Words
  imports Stream_Analysis
begin

text \<open>
  The device with its gates as they are stored: started flags and issued counts are 32-bit words, a queued wait
  carries the word the host read, and the front end compares cyclically (\<^theory_text>\<open>Launch_Gates\<close>). It refines the device of
  \<^theory_text>\<open>Stream_Programs\<close>, which counts launches without bound, for programs of fewer than \<open>2 ^ 31\<close> commands; in a longer one a wait still agrees
  with the counts where they are at most one launch apart, however often both words have wrapped.
\<close>

definition host_gates :: "cmd list \<Rightarrow> nat \<Rightarrow> gates" where
  \<comment> \<open>the issued counts when the host queues command \<open>i\<close>\<close>
  "host_gates prog i = foldl (\<lambda>s c. case c of Bump g \<Rightarrow> bump_issued g s | _ \<Rightarrow> s) no_launches (take i prog)"

fun flag_started :: "cmd \<Rightarrow> gates \<Rightarrow> gates" where
  "flag_started (Launch s k) w = (case gate_of k of None \<Rightarrow> w | Some g \<Rightarrow> first_cta g w)"
| "flag_started _ w = w"

definition word_ok :: "cmd list \<Rightarrow> dev \<Rightarrow> gates \<Rightarrow> nat \<Rightarrow> bool" where
  "word_ok prog d w i = (case prog ! i of
     Gate s g \<Rightarrow> wait_passes w (queue_wait g (host_gates prog i))
   | _ \<Rightarrow> finish_ok prog d i)"

inductive word_step :: "cmd list \<Rightarrow> dev \<times> gates \<Rightarrow> dev \<times> gates \<Rightarrow> bool" for prog where
  word_begin: "i < length prog \<Longrightarrow> is_launch (prog ! i) \<Longrightarrow> i \<notin> d_started d \<Longrightarrow> fifo_ok prog d i \<Longrightarrow>
     word_step prog (d, w) (d\<lparr>d_started := insert i (d_started d)\<rparr>, flag_started (prog ! i) w)"
| word_end: "i \<in> d_started d \<Longrightarrow> i \<notin> d_finished d \<Longrightarrow>
     word_step prog (d, w) (d\<lparr>d_finished := insert i (d_finished d)\<rparr>, w)"
| word_pass: "i < length prog \<Longrightarrow> \<not> is_launch (prog ! i) \<Longrightarrow> i \<notin> d_finished d \<Longrightarrow> fifo_ok prog d i \<Longrightarrow> word_ok prog d w i \<Longrightarrow>
     word_step prog (d, w) (d\<lparr>d_finished := insert i (d_finished d)\<rparr>, w)"

inductive word_reach :: "cmd list \<Rightarrow> dev \<times> gates \<Rightarrow> bool" for prog where
  word_start: "word_reach prog (dev_init, no_launches)"
| word_next: "word_reach prog s \<Longrightarrow> word_step prog s t \<Longrightarrow> word_reach prog t"

text \<open>The abstraction forgets the words; they agree with the counts.\<close>

definition words_agree :: "cmd list \<Rightarrow> dev \<Rightarrow> gates \<Rightarrow> bool" where
  "words_agree prog d w \<longleftrightarrow> (\<forall>g. started_word w g = of_nat (started_count g prog d))"

lemma host_gates_count: "issued_count (host_gates prog i) g = of_nat (count_before (\<lambda>c. c = Bump g) prog i)"
proof -
  have "issued_count (foldl (\<lambda>s c. case c of Bump g \<Rightarrow> bump_issued g s | _ \<Rightarrow> s) s cs) g =
      issued_count s g + of_nat (length (filter (\<lambda>c. c = Bump g) cs))" for s cs
  proof (induction cs arbitrary: s)
    case (Cons c cs)
    then show ?case by (cases c) (auto simp: bump_issued_def)
  qed simp
  then show ?thesis by (simp add: host_gates_def count_before_def no_launches_def)
qed

lemma started_count_insert:
  assumes "finite (d_started d)" "i \<notin> d_started d" "i < length prog"
  shows "started_count g prog (d\<lparr>d_started := insert i (d_started d)\<rparr>) =
    started_count g prog d + (if launches_gate g (prog ! i) then 1 else 0)"
proof -
  let ?S = "{j \<in> d_started d. j < length prog \<and> launches_gate g (prog ! j)}"
  have "{j \<in> insert i (d_started d). j < length prog \<and> launches_gate g (prog ! j)} =
      (if launches_gate g (prog ! i) then insert i ?S else ?S)" using assms by auto
  then show ?thesis using assms by (simp add: started_count_def)
qed

lemma flag_started_word:
  "started_word (flag_started c w) g = started_word w g + (if launches_gate g c then 1 else 0)"
  by (cases c) (auto simp: first_cta_def split: option.splits)

lemma word_ok_iff:
  assumes "words_agree prog d w" "length prog < 2 ^ 31" "i < length prog"
  shows "word_ok prog d w i \<longleftrightarrow> finish_ok prog d i"
proof (cases "prog ! i")
  case (Gate s g)
  let ?t = "count_before (\<lambda>c. c = Bump g) prog i" and ?n = "started_count g prog d"
  have "?n \<le> card {..<length prog}" unfolding started_count_def by (intro card_mono) auto
  then have n: "?n < 2 ^ 31" using assms(2) by simp
  have "?t \<le> length prog" unfolding count_before_def by (rule order_trans [OF length_filter_le]) simp
  then have t: "?t < 2 ^ 31" using assms(2) by simp
  have "wait_passes w (queue_wait g (host_gates prog i)) \<longleftrightarrow> ?t \<le> ?n"
    using sint_of_nat_diff [OF n t] of_nat_word_eq_0 [OF t] assms(1)
    by (auto simp: wait_passes_def queue_wait_def host_gates_count words_agree_def)
  then show ?thesis using Gate by (simp add: word_ok_def finish_ok_def)
qed (simp_all add: word_ok_def)

lemma word_step_agrees:
  assumes "finite (d_started d)" "words_agree prog d w" "word_step prog (d, w) (d', w')"
  shows "words_agree prog d' w'"
  using assms(3)
proof cases
  case (word_begin i)
  then show ?thesis using assms(2) started_count_insert [of d i prog] assms(1)
    by (auto simp: words_agree_def flag_started_word)
qed (use assms(2) in \<open>auto simp: words_agree_def started_count_def\<close>)

lemma word_step_iff:
  assumes inv: "dev_inv prog d" and agree: "words_agree prog d w" and len: "length prog < 2 ^ 31"
  shows "(\<exists>w'. word_step prog (d, w) (d', w')) \<longleftrightarrow> dev_step prog d d'"
proof
  assume "\<exists>w'. word_step prog (d, w) (d', w')"
  then obtain w' where "word_step prog (d, w) (d', w')" ..
  then show "dev_step prog d d'"
  proof cases
    case (word_end i)
    then show ?thesis using started_facts(2) [OF inv, of i] by (auto intro: dev_step.end_kernel)
  next
    case (word_pass i)
    then show ?thesis using word_ok_iff [OF agree len, of i] by (auto intro: dev_step.pass)
  qed (auto intro: dev_step.begin_kernel)
next
  assume "dev_step prog d d'"
  then show "\<exists>w'. word_step prog (d, w) (d', w')"
  proof cases
    case (pass i)
    then show ?thesis using word_ok_iff [OF agree len, of i] by (auto intro: word_step.word_pass)
  qed (auto intro: word_step.word_begin word_step.word_end)
qed

lemma word_reach_simulated:
  assumes "word_reach prog s" "length prog < 2 ^ 31"
  shows "dev_reach prog (fst s) \<and> words_agree prog (fst s) (snd s)"
  using assms(1)
proof (induction rule: word_reach.induct)
  case word_start
  show ?case using dev_reach.at_start by (simp add: words_agree_def no_launches_def started_count_def dev_init_def)
next
  case (word_next s t)
  obtain d w d' w' where st: "s = (d, w)" "t = (d', w')" by (cases s; cases t)
  have inv: "dev_inv prog d" using word_next.IH dev_reach_inv st(1) by simp
  show ?case using word_next word_step_iff [OF inv _ assms(2), of w d'] word_step_agrees [of d prog w d' w'] dev_inv_finite [OF inv] st
    by (auto intro: dev_reach.step)
qed

lemma word_reach_complete:
  assumes "dev_reach prog d" "length prog < 2 ^ 31"
  shows "\<exists>w. word_reach prog (d, w)"
  using assms(1)
proof (induction rule: dev_reach.induct)
  case at_start
  show ?case using word_reach.word_start by blast
next
  case (step d d')
  then obtain w where w: "word_reach prog (d, w)" by blast
  then have "words_agree prog d w" using word_reach_simulated [OF w assms(2)] by simp
  then obtain w' where "word_step prog (d, w) (d', w')"
    using word_step_iff [OF dev_reach_inv [OF step.hyps(1)] _ assms(2)] step.hyps(2) by blast
  then show ?case using word_reach.word_next [OF w] by blast
qed

section \<open>Any number of launches\<close>

text \<open>
  Without a bound on the launches a queued wait may pass at the wrong time, and then the device of the words is not the
  one that counts. It is still the device of the same program with the gates taken out: what a gate holds
  back is left to its place on the stream.
\<close>

fun ungated :: "cmd \<Rightarrow> cmd" where
  "ungated (Gate s g) = WaitStream s s"
| "ungated c = c"

lemma ungated_simps [simp]:
  "on_stream (ungated c) = on_stream c" "is_launch (ungated c) = is_launch c" "launches_gate g (ungated c) = launches_gate g c"
  "ungated c = Record e s \<longleftrightarrow> c = Record e s" "ungated c = Launch s k \<longleftrightarrow> c = Launch s k"
  by (cases c; simp)+

lemma fifo_ungated: "i < length prog \<Longrightarrow> fifo_ok (map ungated prog) d i \<longleftrightarrow> fifo_ok prog d i"
  by (simp add: fifo_ok_def)

lemma latest_cong: "(\<And>j. j < i \<Longrightarrow> P j \<longleftrightarrow> Q j) \<Longrightarrow> latest P i = latest Q i"
  by (induction i) simp_all

lemma word_ok_ungated:
  assumes "i < length prog" "fifo_ok prog d i" "word_ok prog d w i"
  shows "finish_ok (map ungated prog) d i"
proof (cases "prog ! i")
  case (WaitEvent s e)
  have "latest (\<lambda>j. \<exists>s. map ungated prog ! j = Record e s) i = latest (\<lambda>j. \<exists>s. prog ! j = Record e s) i"
    by (rule latest_cong) (use assms(1) in simp)
  then show ?thesis using assms WaitEvent by (simp add: finish_ok_def word_ok_def after_def)
qed (use assms in \<open>auto simp: finish_ok_def word_ok_def fifo_ok_def\<close>)

lemma word_reach_ungated:
  assumes "word_reach prog s"
  shows "dev_reach (map ungated prog) (fst s) \<and> words_agree prog (fst s) (snd s)"
  using assms
proof (induction rule: word_reach.induct)
  case word_start
  show ?case using dev_reach.at_start by (simp add: words_agree_def no_launches_def started_count_def dev_init_def)
next
  case (word_next s t)
  obtain d w d' w' where st: "s = (d, w)" "t = (d', w')" by (cases s; cases t)
  have reach: "dev_reach (map ungated prog) d" and agree: "words_agree prog d w" using word_next.IH st(1) by simp_all
  note inv = dev_reach_inv [OF reach]
  have step: "word_step prog (d, w) (d', w')" using word_next.hyps(2) st by simp
  then have "dev_step (map ungated prog) d d'"
  proof cases
    case (word_begin i)
    then show ?thesis using fifo_ungated [of i prog d] by (auto intro: dev_step.begin_kernel)
  next
    case (word_end i)
    then show ?thesis using started_facts(2) [OF inv, of i] by (auto intro: dev_step.end_kernel)
  next
    case (word_pass i)
    then show ?thesis using fifo_ungated [of i prog d] word_ok_ungated [of i prog d w] by (auto intro: dev_step.pass)
  qed
  then show ?case using dev_reach.step [OF reach] word_step_agrees [of d prog w d' w'] dev_inv_finite [OF inv] agree step st by auto
qed

text \<open>The comparison of two words that are at most one launch apart.\<close>

lemma wait_passes_window:
  assumes "words_agree prog d w" "issued_count G g = of_nat t" "n = started_count g prog d" "n \<le> t" "t \<le> Suc n"
  shows "wait_passes w (queue_wait g G) \<longleftrightarrow> n = t \<or> 2 ^ 32 dvd t"
proof -
  have zero: "(of_nat t :: 32 word) = 0 \<longleftrightarrow> 2 ^ 32 dvd t" by (simp add: word_of_nat_eq_0_iff)
  have "n = t \<or> t = Suc n" using assms(4,5) by auto
  then have "0 \<le> sint (of_nat n - of_nat t :: 32 word) \<longleftrightarrow> n = t" by auto
  then show ?thesis using assms(1-3) zero by (auto simp: wait_passes_def queue_wait_def words_agree_def)
qed

end
