(* ===== verification/Stream_Layer.thy ===== *)
theory Stream_Layer
  imports Gate_Words
begin

text \<open>
  The stream commands of one layer, as \<^verbatim>\<open>StreamMoEFunc.forward\<close> and \<^verbatim>\<open>backward\<close> issue them
  (\<^verbatim>\<open>stream_moe.py\<close>; the commands inside \<^verbatim>\<open>buffer.dispatch\<close> and \<^verbatim>\<open>buffer.dispatch_grads\<close> are those of
  \<^verbatim>\<open>csrc/stream_ep.cpp\<close>), the tensors each kernel reads and writes, and what autograd keeps between the two.
  \<open>tiles\<close> says whether any token was routed to this rank (\<^verbatim>\<open>total_tiles > 0\<close>), \<open>lv\<close> is the checkpoint level.
\<close>

section \<open>The commands of forward and backward\<close>

definition enter_layer :: "cmd list" where
  "enter_layer = [WaitStream Communicate Caller, WaitStream Compute Caller]"

definition leave_layer :: "cmd list" where
  "leave_layer = [WaitStream Caller Communicate, WaitStream Caller Compute]"

definition dispatch_cmds :: "cmd list" where
  "dispatch_cmds =
    [Launch Communicate MetadataK, Launch Communicate FillTilesK, Launch Communicate ZeroSlab,
     Record MetadataDone Communicate, Bump DispatchMain, Launch Communicate DispatchK]"

definition compute_fwd :: "int \<Rightarrow> bool \<Rightarrow> cmd list" where
  "compute_fwd lv tiles =
    [WaitEvent Compute MetadataDone, Gate Compute DispatchMain, WaitStream Compute Caller] @
    (if tiles then [Launch Compute (KernelA (lv < 1)), Bump KernelY, Launch Compute KernelYK] else [])"

definition combine_fwd :: "bool \<Rightarrow> cmd list" where
  "combine_fwd tiles = (if tiles then [Gate Communicate KernelY] else []) @ [Launch Communicate (CombineK tiles)]"

definition compress_fwd :: "int \<Rightarrow> cmd list" where
  "compress_fwd lv = (if lv = 2 then [WaitStream Caller Compute, Launch Caller CompressPool] else [])"

definition forward :: "int \<Rightarrow> bool \<Rightarrow> cmd list py" where
  "forward lv tiles =
    (if lv \<notin> {0, 1, 2} then Inl (ValueError ''activation_checkpoint_level must be 0/1/2'')
     else Inr (enter_layer @ dispatch_cmds @ compute_fwd lv tiles @ combine_fwd tiles @ compress_fwd lv @ leave_layer))"

definition scratch_bwd :: "cmd list" where
  "scratch_bwd = [Launch Compute ZeroScratch, Launch Compute PrepareBwd]"

definition dispatch_grads_cmds :: "cmd list" where
  "dispatch_grads_cmds =
    [Launch Communicate ZeroArrival, Bump DispatchGradsMain, Record GradsStarted Communicate, Launch Communicate DispatchGradsK]"

definition recompute_bwd :: "int \<Rightarrow> bool \<Rightarrow> cmd list" where
  "recompute_bwd lv tiles =
    [WaitEvent Compute GradsStarted, Gate Compute DispatchGradsMain] @
    (if lv = 2 \<and> tiles then [Launch Compute ReexpandPool] else []) @
    (if lv \<ge> 1 \<and> tiles then [Launch Compute RecomputePreact] else [])"

definition compute_bwd :: "bool \<Rightarrow> cmd list" where
  "compute_bwd tiles = (if tiles then [Launch Compute KernelYBwd, Bump KernelABwd, Launch Compute KernelABwdK] else [])"

definition combine_bwd :: "bool \<Rightarrow> cmd list" where
  "combine_bwd tiles = (if tiles then [Gate Communicate KernelABwd] else []) @ [Launch Communicate (CombineGradsK tiles)]"

definition weights_bwd :: "bool \<Rightarrow> cmd list" where
  "weights_bwd tiles = (if tiles then [Launch Compute DW2, Launch Compute DW1] else [Launch Compute ZeroDW])"

definition backward :: "int \<Rightarrow> bool \<Rightarrow> cmd list" where
  "backward lv tiles = enter_layer @ scratch_bwd @ dispatch_grads_cmds @ recompute_bwd lv tiles @ compute_bwd tiles @
     combine_bwd tiles @ weights_bwd tiles @ leave_layer"

lemmas layer_cmds_defs = enter_layer_def leave_layer_def dispatch_cmds_def compute_fwd_def combine_fwd_def compress_fwd_def
  scratch_bwd_def dispatch_grads_cmds_def recompute_bwd_def compute_bwd_def combine_bwd_def weights_bwd_def
  forward_def backward_def

section \<open>A model's sequence of layer calls\<close>

datatype call = Fwd int bool | Bwd int bool | CallerWork

fun call_cmds :: "call \<Rightarrow> cmd list py" where
  "call_cmds (Fwd lv tiles) = forward lv tiles"
| "call_cmds (Bwd lv tiles) = Inr (backward lv tiles)"
| "call_cmds CallerWork = Inr [Launch Caller CallerOp]"

fun issue :: "call list \<Rightarrow> cmd list" where
  \<comment> \<open>everything the host issues, up to the first call that raises\<close>
  "issue [] = []"
| "issue (c # cs) = (case call_cmds c of Inl e \<Rightarrow> [] | Inr p \<Rightarrow> p @ issue cs)"

lemma settled_forward: "forward lv tiles = Inr p \<Longrightarrow> settled p"
  by (cases tiles) (auto simp: layer_cmds_defs settled_def orderly_def gate_home_def split: if_splits)

lemma settled_backward: "settled (backward lv tiles)"
  by (cases tiles) (auto simp: layer_cmds_defs settled_def orderly_def gate_home_def split: if_splits)

lemma settled_call: "call_cmds c = Inr p \<Longrightarrow> settled p"
  by (cases c) (auto intro: settled_forward simp: settled_backward, simp add: settled_def orderly_def)

lemma settled_issue: "settled (issue cs)"
  by (induction cs) (auto intro: settled_Nil settled_append settled_call split: sum.splits)

interpretation issued: orderly_program "take n (issue cs)" for n cs
  by unfold_locales (rule settled_orderly_take [OF settled_issue])

section \<open>A layer is a barrier\<close>

definition joined :: "cmd list \<Rightarrow> bool" where
  \<comment> \<open>the caller's stream waits for everything on the two others\<close>
  "joined p \<longleftrightarrow> (\<forall>j<length p. \<forall>s. on_stream (p ! j) = Some s \<longrightarrow> s \<noteq> Caller \<longrightarrow>
     (\<exists>m>j. m < length p \<and> p ! m = WaitStream Caller s))"

definition forked :: "cmd list \<Rightarrow> bool" where
  \<comment> \<open>nothing is launched on a side stream before that stream has waited for the caller's\<close>
  "forked p \<longleftrightarrow> (\<forall>i<length p. \<forall>s k. p ! i = Launch s k \<longrightarrow> s \<noteq> Caller \<longrightarrow> (\<exists>m<i. p ! m = WaitStream s Caller))"

lemma joined_Nil: "joined []" by (simp add: joined_def)
lemma forked_Nil: "forked []" by (simp add: forked_def)

lemma joined_leave: "joined (xs @ leave_layer)"
  unfolding joined_def
proof (intro allI impI)
  fix j s assume j: "j < length (xs @ leave_layer)" "on_stream ((xs @ leave_layer) ! j) = Some s" "s \<noteq> Caller"
  then have "j < length xs" by (auto simp: nth_append leave_layer_def nth_Cons' split: if_splits)
  moreover have "(xs @ leave_layer) ! (length xs + stream_rank s - 1) = WaitStream Caller s"
    using j(3) by (cases s) (auto simp: leave_layer_def nth_append)
  ultimately show "\<exists>m>j. m < length (xs @ leave_layer) \<and> (xs @ leave_layer) ! m = WaitStream Caller s"
    using j(3) by (intro exI [of _ "length xs + stream_rank s - 1"]) (cases s; auto simp: leave_layer_def)
qed

lemma forked_enter: "forked (enter_layer @ xs)"
  unfolding forked_def
proof (intro allI impI)
  fix i s k assume i: "i < length (enter_layer @ xs)" "(enter_layer @ xs) ! i = Launch s k" "s \<noteq> Caller"
  then have "2 \<le> i" by (auto simp: enter_layer_def nth_append nth_Cons' split: if_splits)
  moreover have "(enter_layer @ xs) ! (stream_rank s - 1) = WaitStream s Caller"
    using i(3) by (cases s) (auto simp: enter_layer_def nth_append)
  ultimately show "\<exists>m<i. (enter_layer @ xs) ! m = WaitStream s Caller"
    using i(3) by (intro exI [of _ "stream_rank s - 1"]) (cases s; auto)
qed

lemma joined_append: "joined xs \<Longrightarrow> joined ys \<Longrightarrow> joined (xs @ ys)"
  unfolding joined_def
proof (intro allI impI)
  fix j s
  assume xs: "\<forall>j<length xs. \<forall>s. on_stream (xs ! j) = Some s \<longrightarrow> s \<noteq> Caller \<longrightarrow> (\<exists>m>j. m < length xs \<and> xs ! m = WaitStream Caller s)"
    and ys: "\<forall>j<length ys. \<forall>s. on_stream (ys ! j) = Some s \<longrightarrow> s \<noteq> Caller \<longrightarrow> (\<exists>m>j. m < length ys \<and> ys ! m = WaitStream Caller s)"
    and j: "j < length (xs @ ys)" "on_stream ((xs @ ys) ! j) = Some s" "s \<noteq> Caller"
  show "\<exists>m>j. m < length (xs @ ys) \<and> (xs @ ys) ! m = WaitStream Caller s"
  proof (cases "j < length xs")
    case True
    then obtain m where "m > j" "m < length xs" "xs ! m = WaitStream Caller s" using xs j by (auto simp: nth_append)
    then show ?thesis by (intro exI [of _ m]) (simp add: nth_append)
  next
    case False
    moreover have "j - length xs < length ys" using j(1) False by simp
    ultimately obtain m where "m > j - length xs" "m < length ys" "ys ! m = WaitStream Caller s"
      using ys [rule_format, of "j - length xs" s] j by (auto simp: nth_append)
    then show ?thesis using False by (intro exI [of _ "length xs + m"]) (auto simp: nth_append)
  qed
qed

lemma forked_append: "forked xs \<Longrightarrow> forked ys \<Longrightarrow> forked (xs @ ys)"
  unfolding forked_def
proof (intro allI impI)
  fix i s k
  assume xs: "\<forall>i<length xs. \<forall>s k. xs ! i = Launch s k \<longrightarrow> s \<noteq> Caller \<longrightarrow> (\<exists>m<i. xs ! m = WaitStream s Caller)"
    and ys: "\<forall>i<length ys. \<forall>s k. ys ! i = Launch s k \<longrightarrow> s \<noteq> Caller \<longrightarrow> (\<exists>m<i. ys ! m = WaitStream s Caller)"
    and i: "i < length (xs @ ys)" "(xs @ ys) ! i = Launch s k" "s \<noteq> Caller"
  show "\<exists>m<i. (xs @ ys) ! m = WaitStream s Caller"
  proof (cases "i < length xs")
    case True
    then obtain m where "m < i" "xs ! m = WaitStream s Caller" using xs i by (auto simp: nth_append)
    then show ?thesis using True by (intro exI [of _ m]) (simp add: nth_append)
  next
    case False
    moreover have "i - length xs < length ys" using i(1) False by simp
    ultimately obtain m where "m < i - length xs" "ys ! m = WaitStream s Caller"
      using ys [rule_format, of "i - length xs" s k] i by (auto simp: nth_append)
    then show ?thesis using False by (intro exI [of _ "length xs + m"]) (auto simp: nth_append)
  qed
qed

lemma call_shape:
  assumes "call_cmds c = Inr p"
  shows "joined p" "forked p"
proof -
  have "(\<exists>xs. p = enter_layer @ xs @ leave_layer) \<or> p = [Launch Caller CallerOp]"
    using assms by (cases c) (auto simp: forward_def backward_def split: if_splits)
  then show "joined p" "forked p"
    using joined_leave [of "enter_layer @ _"] forked_enter by (auto simp: joined_def forked_def)
qed

lemma issue_shape: "joined (issue cs)" "forked (issue cs)"
  by (induction cs) (auto intro: joined_Nil forked_Nil joined_append forked_append dest: call_shape split: sum.splits)

lemma issue_append: "issue (cs @ ds) = issue cs @ issue ds \<or> issue (cs @ ds) = issue cs"
  by (induction cs) (auto split: sum.splits)

lemma forked_take: "forked p \<Longrightarrow> forked (take n p)"
  unfolding forked_def by (auto) (metis order.strict_trans nth_take)

lemma joined_done:
  assumes inv: "dev_inv prog d" and pre: "prog = pre @ post" "joined pre"
    and caller: "\<And>j. j < length pre \<Longrightarrow> on_stream (prog ! j) = Some Caller \<Longrightarrow> j \<in> d_finished d"
    and j: "j < length pre" "on_stream (prog ! j) = Some s"
  shows "j \<in> d_finished d"
proof (cases "s = Caller")
  case False
  then obtain m where m: "j < m" "m < length pre" "prog ! m = WaitStream Caller s"
    using pre j unfolding joined_def by (auto simp: nth_append)
  then have "finish_ok prog d m" using finished_facts(3) [OF inv caller [of m]] by simp
  then show ?thesis using m j(2) by (simp add: finish_ok_def)
qed (use caller j in simp)

lemma later_launch_waits:
  assumes inv: "dev_inv prog d" and pre: "prog = pre @ post" "joined pre" "forked post"
    and i: "i \<in> d_started d" "length pre \<le> i" and j: "j < length pre" "on_stream (prog ! j) \<noteq> None"
  shows "j \<in> d_finished d"
proof -
  obtain s k where k: "prog ! i = Launch s k" using started_facts(2) [OF inv i(1)] by (cases "prog ! i") auto
  note fifo = fifo_prefix [OF started_facts(3) [OF inv i(1)]]
  have "j \<in> d_finished d" if "j < length pre" "on_stream (prog ! j) = Some Caller" for j
  proof (cases "s = Caller")
    case True
    then show ?thesis using fifo [of j Caller] that i(2) k by simp
  next
    case False
    have "i - length pre < length post" using started_facts(1) [OF inv i(1)] pre(1) i(2) by simp
    moreover have "post ! (i - length pre) = Launch s k" using k pre(1) i(2) by (simp add: nth_append)
    ultimately obtain m where m: "m < i - length pre" "post ! m = WaitStream s Caller"
      using pre(3) False unfolding forked_def by blast
    let ?m = "length pre + m"
    have wait: "prog ! ?m = WaitStream s Caller" using m pre(1) by (simp add: nth_append)
    have "?m \<in> d_finished d" using fifo [of ?m s] m(1) wait k by simp
    then have "finish_ok prog d ?m" using finished_facts(3) [OF inv] by blast
    then show ?thesis using that wait by (simp add: finish_ok_def)
  qed
  then show ?thesis using joined_done [OF inv pre(1,2) _ j(1)] j(2) by blast
qed

text \<open>C19: a layer is a barrier: whatever the schedule, when a kernel of a later call of forward or backward
  has begun, every command of the calls before it has finished, on all three streams; so no call sees
  another's kernels, however far the host has run ahead.\<close>

theorem layers_are_barriers:
  assumes "dev_reach (take n (issue (cs @ ds))) d" "i \<in> d_started d" "length (issue cs) \<le> i"
    and "j < length (issue cs)" "on_stream (issue cs ! j) \<noteq> None"
  shows "j \<in> d_finished d"
proof -
  let ?prog = "take n (issue (cs @ ds))"
  have inv: "dev_inv ?prog d" using dev_reach_inv [OF assms(1)] .
  have len: "i < length ?prog" using started_facts(1) [OF inv assms(2)] .
  then have split: "issue (cs @ ds) = issue cs @ issue ds" "length (issue cs) \<le> n"
    using issue_append [of cs ds] assms(3) by auto
  then have prog: "?prog = issue cs @ take (n - length (issue cs)) (issue ds)" by simp
  show ?thesis
    using later_launch_waits [OF inv prog issue_shape(1) forked_take [OF issue_shape(2)] assms(2,3,4)] assms(4,5) split
    by (simp add: nth_append)
qed

text \<open>A concrete training step for the witnesses: forward and backward of one layer with recomputation.\<close>

definition demo_step :: "cmd list" where "demo_step = issue [Fwd 1 True, Bwd 1 True]"

lemma demo_step_eq: "demo_step = issue ([Fwd 1 True] @ [Bwd 1 True])"
  by (simp add: demo_step_def)

lemmas demo_simps = demo_step_def layer_cmds_defs in_order_def complete_def nth_append nth_Cons'

lemma step_reach: "n \<le> length demo_step \<Longrightarrow> dev_reach demo_step (in_order demo_step n)"
  using issued.in_order_reach [of n "length demo_step" "[Fwd 1 True, Bwd 1 True]"] by (simp add: demo_step_def)

lemma demo_length: "length demo_step = 38"
  by (simp add: demo_step_def layer_cmds_defs)

lemma demo_take: "take 38 (issue ([Fwd 1 True] @ [Bwd 1 True])) = demo_step"
  using demo_length by (subst demo_step_eq [symmetric]) simp

theorem layers_are_barriers_witness:
  "20 \<in> d_started (in_order demo_step 21) \<and> 13 \<in> d_finished (in_order demo_step 21) \<and>
   demo_step ! 20 = Launch Compute ZeroScratch \<and> demo_step ! 13 = Launch Compute KernelYK"
proof -
  have at: "demo_step ! 20 = Launch Compute ZeroScratch" "demo_step ! 13 = Launch Compute KernelYK"
    by (simp_all add: demo_simps)
  have "13 \<in> d_finished (in_order demo_step 21)"
  proof (rule layers_are_barriers [of 38 "[Fwd 1 True]" "[Bwd 1 True]" "in_order demo_step 21" 20 13])
    show "dev_reach (take 38 (issue ([Fwd 1 True] @ [Bwd 1 True]))) (in_order demo_step 21)"
      unfolding demo_take using step_reach [of 21] demo_length by simp
    show "20 \<in> d_started (in_order demo_step 21)" using at by (simp add: in_order_def)
  qed (simp_all add: layer_cmds_defs)
  then show ?thesis using at by (simp add: in_order_def)
qed

section \<open>No deadlock\<close>

text \<open>C17: no schedule of any sequence of layers is ever stuck, even on a device where one spinning kernel leaves no
  room for any other: whatever has happened so far, and however much of its program the host has issued,
  either all of it has finished or a step is possible that needs no room and no unfinished producer.\<close>

theorem layers_never_deadlock:
  assumes "dev_reach (take n (issue cs)) d"
  shows "complete (take n (issue cs)) d \<or>
    (\<exists>d'. sure_step (take n (issue cs)) d d' \<and> dev_step (take n (issue cs)) d d')"
  using issued.no_deadlock sure_step_dev_step dev_reach_inv [OF assms] by blast

theorem layers_never_deadlock_witness:
  "\<exists>d'. sure_step (take 9 demo_step) (in_order (take 9 demo_step) 4) d' \<and>
     dev_step (take 9 demo_step) (in_order (take 9 demo_step) 4) d'"
proof -
  have "dev_reach (take 9 demo_step) (in_order (take 9 demo_step) 4)"
    using issued.in_order_reach [of 4 9 "[Fwd 1 True, Bwd 1 True]"] demo_length by (simp add: demo_step_def)
  then show ?thesis
    using layers_never_deadlock [of 9 "[Fwd 1 True, Bwd 1 True]" "in_order (take 9 demo_step) 4"] demo_length
    by (fold demo_step_def) (auto simp: complete_def in_order_def)
qed

text \<open>C23: a kernel that spins has begun only after the kernel it spins on is on the device: kernel A after dispatch, combine
  after kernel Y, kernel Y bwd after dispatch_grads, combine_grads after kernel A bwd, in every schedule.\<close>

theorem spinner_starts_last:
  assumes "dev_reach (take n (issue cs)) d" "i \<in> d_started d" "take n (issue cs) ! i = Launch s k" "spins_on k = Some k'"
    and "j < i" "launches k' (take n (issue cs) ! j)"
  shows "j \<in> d_started d"
  using issued.spinner_after_producer [OF dev_reach_inv [OF assms(1)] assms(2-6)] .

theorem spinner_starts_last_witness:
  "demo_step ! 15 = Launch Communicate (CombineK True) \<and> demo_step ! 13 = Launch Compute KernelYK \<and>
   13 \<in> d_started (in_order demo_step 16)"
proof -
  have at: "demo_step ! 15 = Launch Communicate (CombineK True)" "demo_step ! 13 = Launch Compute KernelYK"
    by (simp_all add: demo_simps)
  have take: "take 38 (issue [Fwd 1 True, Bwd 1 True]) = demo_step" using demo_take by simp
  have "13 \<in> d_started (in_order demo_step 16)"
    using spinner_starts_last [of 38 "[Fwd 1 True, Bwd 1 True]" "in_order demo_step 16" 15 Communicate "CombineK True" KernelYK 13]
      step_reach [of 16] demo_length at by (simp add: take) (simp add: in_order_def)
  then show ?thesis using at by simp
qed

section \<open>The gates as they are stored\<close>

text \<open>
  A launch gate is a window of one launch: within a layer a gate is queued on a side stream that has waited for the
  caller's, after at most one launch of its kernel in this layer, and that kernel is not launched again in it.
  With the layer as a barrier on both sides, the flag is never more than one launch away from the word a wait holds.
\<close>

fun windowed :: "(gate \<Rightarrow> nat) \<Rightarrow> (stream \<Rightarrow> bool) \<Rightarrow> cmd list \<Rightarrow> bool" where
  "windowed L W [] \<longleftrightarrow> True"
| "windowed L W (c # cs) \<longleftrightarrow>
     (case c of Gate s g \<Rightarrow> s \<noteq> Caller \<and> W s \<and> L g \<le> 1 \<and> list_all (\<lambda>c. \<not> launches_gate g c) cs | _ \<Rightarrow> True) \<and>
     windowed (\<lambda>g. L g + (if launches_gate g c then 1 else 0)) (\<lambda>s. W s \<or> c = WaitStream s Caller) cs"

lemma windowed_at:
  assumes "windowed L W p" "i < length p" "p ! i = Gate s g"
  shows "s \<noteq> Caller \<and> (W s \<or> (\<exists>m<i. p ! m = WaitStream s Caller)) \<and>
    L g + length (filter (launches_gate g) (take i p)) \<le> 1 \<and> list_all (\<lambda>c. \<not> launches_gate g c) (drop (Suc i) p)"
  using assms
proof (induction p arbitrary: L W i)
  case (Cons c p)
  show ?case
  proof (cases i)
    case 0
    then show ?thesis using Cons.prems by simp
  next
    case (Suc k)
    have "s \<noteq> Caller \<and> ((W s \<or> c = WaitStream s Caller) \<or> (\<exists>m<k. p ! m = WaitStream s Caller)) \<and>
        (L g + (if launches_gate g c then 1 else 0)) + length (filter (launches_gate g) (take k p)) \<le> 1 \<and>
        list_all (\<lambda>c. \<not> launches_gate g c) (drop (Suc k) p)"
    proof (rule Cons.IH [of "\<lambda>g. L g + (if launches_gate g c then 1 else 0)" "\<lambda>s. W s \<or> c = WaitStream s Caller" k])
      show "windowed (\<lambda>g. L g + (if launches_gate g c then 1 else 0)) (\<lambda>s. W s \<or> c = WaitStream s Caller) p"
        using Cons.prems(1) by simp
    qed (use Cons.prems Suc in simp_all)
    moreover have "(\<exists>m<i. (c # p) ! m = WaitStream s Caller) \<longleftrightarrow> c = WaitStream s Caller \<or> (\<exists>m<k. p ! m = WaitStream s Caller)"
      using Suc less_Suc_eq_0_disj by auto
    ultimately show ?thesis using Suc by auto
  qed
qed simp

lemma windowed_call: "call_cmds c = Inr p \<Longrightarrow> windowed (\<lambda>_. 0) (\<lambda>_. False) p"
proof (cases c)
  case (Fwd lv tiles)
  assume "call_cmds c = Inr p"
  then show ?thesis using Fwd by (cases tiles) (auto simp: layer_cmds_defs split: if_splits)
next
  case (Bwd lv tiles)
  assume "call_cmds c = Inr p"
  then show ?thesis using Bwd by (cases tiles) (auto simp: layer_cmds_defs split: if_splits)
qed auto

lemma issue_split:
  assumes "i < length (issue cs)"
  obtains pre c p post where "issue cs = issue pre @ p @ issue post" "call_cmds c = Inr p"
    "length (issue pre) \<le> i" "i < length (issue pre) + length p"
  using assms
proof (induction cs arbitrary: i thesis)
  case (Cons c cs)
  from Cons.prems(2) obtain p where p: "call_cmds c = Inr p" by (auto split: sum.splits)
  show ?case
  proof (cases "i < length p")
    case True
    then show ?thesis using Cons.prems(1) [of "[]" p cs c] p by simp
  next
    case False
    then have "i - length p < length (issue cs)" using Cons.prems(2) p by simp
    then obtain pre c' q post where "issue cs = issue pre @ q @ issue post" "call_cmds c' = Inr q"
      "length (issue pre) \<le> i - length p" "i - length p < length (issue pre) + length q"
      using Cons.IH [of "i - length p"] by blast
    then show ?thesis using Cons.prems(1) [of "c # pre" q post c'] p False by simp
  qed
qed simp

lemma shape_ungated: "joined p \<Longrightarrow> joined (map ungated p)" "forked p \<Longrightarrow> forked (map ungated p)"
proof -
  show "joined p \<Longrightarrow> joined (map ungated p)" unfolding joined_def
    by simp (metis nth_map ungated.simps(3))
  show "forked p \<Longrightarrow> forked (map ungated p)" unfolding forked_def
    by simp (metis nth_map order.strict_trans ungated.simps(3))
qed

lemma gate_window:
  assumes inv: "dev_inv (map ungated prog) d" and prog: "prog = take n (issue cs)"
    and i: "i < length prog" "prog ! i = Gate s g" "i \<notin> d_finished d" "fifo_ok prog d i"
  defines "T \<equiv> {j. j < i \<and> launches_gate g (prog ! j)}"
  shows "started_count g prog d \<le> card T" "card T \<le> Suc (started_count g prog d)"
    "started_count g prog d = card T \<longleftrightarrow> T \<subseteq> d_started d"
proof -
  have "i < length (issue cs)" "i < n" using i(1) prog by auto
  obtain pre c p post where split: "issue cs = issue pre @ p @ issue post" and c: "call_cmds c = Inr p"
    and at: "length (issue pre) \<le> i" "i < length (issue pre) + length p"
    by (rule issue_split [OF \<open>i < length (issue cs)\<close>])
  let ?A = "issue pre" and ?k = "i - length (issue pre)" and ?S = "{j \<in> d_started d. j < length prog \<and> launches_gate g (prog ! j)}"
  have A: "prog = ?A @ take (n - length ?A) (p @ issue post)" using prog split at \<open>i < n\<close> by simp
  have in_p: "prog ! (length ?A + m) = p ! m" if "m < length p" "length ?A + m < length prog" for m
  proof -
    have "prog ! (length ?A + m) = issue cs ! (length ?A + m)" using that(2) prog by simp
    then show ?thesis using that(1) by (simp add: split nth_append)
  qed
  have win: "s \<noteq> Caller \<and> (\<exists>m<?k. p ! m = WaitStream s Caller) \<and> length (filter (launches_gate g) (take ?k p)) \<le> 1
      \<and> list_all (\<lambda>c. \<not> launches_gate g c) (drop (Suc ?k) p)"
    using windowed_at [OF windowed_call [OF c], of ?k s g] in_p [of ?k] at i(1,2) by auto
  have home: "\<exists>s. on_stream (prog ! j) = Some s" if "launches_gate g (prog ! j)" for j
    using launches_gate_launch [OF that] by (cases "prog ! j") auto
  have early: "j \<in> d_started d" if j: "j < length ?A" "launches_gate g (prog ! j)" for j
  proof -
    obtain m where m: "m < ?k" "p ! m = WaitStream s Caller" using win by blast
    let ?m = "length ?A + m"
    have less: "?m < i" using m(1) at by simp
    have wait: "prog ! ?m = WaitStream s Caller" using in_p [of m] m at less i(1) by simp
    then have "?m \<in> d_finished d" using fifo_prefix [OF i(4) less] i(2) by simp
    then have "finish_ok (map ungated prog) d ?m" using finished_facts(3) [OF inv] by blast
    then have caller: "j \<in> d_finished d" if "j < length ?A" "on_stream (prog ! j) = Some Caller" for j
      using wait that less i(1) by (simp add: finish_ok_def)
    have map: "map ungated prog = map ungated ?A @ map ungated (take (n - length ?A) (p @ issue post))"
      by (subst A) simp
    have len: "length ?A \<le> length prog" using at(1) i(1) by simp
    obtain s' where s': "on_stream (prog ! j) = Some s'" using home [OF j(2)] by blast
    have "j \<in> d_finished d"
      by (rule joined_done [OF inv map shape_ungated(1) [OF issue_shape(1)]]) (use caller j(1) s' len in auto)
    then show ?thesis using finished_facts(4) [OF inv] launches_gate_launch [OF j(2)] j(1) len by simp
  qed
  have late: "j < length ?A + length p" if "j \<in> d_started d" for j
  proof (rule ccontr)
    assume "\<not> j < length ?A + length p"
    then have far: "length (map ungated (?A @ p)) \<le> j" by simp
    have "j < length prog" using started_facts(1) [OF inv that] by simp
    then have "length (?A @ p) \<le> n" using far prog by simp
    then have map: "map ungated prog = map ungated (?A @ p) @ map ungated (take (n - length (?A @ p)) (issue post))"
      using prog split by simp
    have "joined (?A @ p)" by (rule joined_append [OF issue_shape(1) call_shape(1) [OF c]])
    then have "i \<in> d_finished d"
      using later_launch_waits [OF inv map shape_ungated(1) shape_ungated(2) [OF forked_take [OF issue_shape(2)]] that far, of i]
        at i(1,2) by simp
    then show False using i(3) by blast
  qed
  have S: "?S \<subseteq> T"
  proof
    fix j assume j: "j \<in> ?S"
    have "\<not> i < j"
    proof
      assume "i < j"
      then have k: "j - length ?A < length p" "Suc ?k \<le> j - length ?A" using late [of j] j at by auto
      have "\<not> launches_gate g (p ! x)" if "Suc ?k \<le> x" "x < length p" for x
      proof -
        have "drop (Suc ?k) p ! (x - Suc ?k) = p ! x" "x - Suc ?k < length (drop (Suc ?k) p)" using that by simp_all
        then show ?thesis using win by (auto simp: list_all_length)
      qed
      then have "\<not> launches_gate g (p ! (j - length ?A))" using k by blast
      moreover have "prog ! j = p ! (j - length ?A)"
        using in_p [of "j - length ?A"] \<open>i < j\<close> at(1) j k(1) by simp
      ultimately show False using j by simp
    qed
    moreover have "j \<noteq> i" using j i(2) by auto
    ultimately show "j \<in> T" using j by (simp add: T_def)
  qed
  let ?E = "{j. j < length ?A \<and> launches_gate g (prog ! j)}" and ?P = "{m. m < ?k \<and> launches_gate g (p ! m)}"
  have fin: "finite T" "finite ?S" by (auto simp: T_def)
  have E: "?E \<subseteq> ?S" using early i(1) at by auto
  have "T \<subseteq> ?E \<union> (\<lambda>m. length ?A + m) ` ?P"
  proof
    fix j assume j: "j \<in> T"
    show "j \<in> ?E \<union> (\<lambda>m. length ?A + m) ` ?P"
    proof (cases "j < length ?A")
      case False
      then have "j - length ?A \<in> ?P" using j in_p [of "j - length ?A"] at i(1) by (auto simp: T_def)
      then show ?thesis using False by (intro UnI2 image_eqI [of _ _ "j - length ?A"]) auto
    qed (use j in \<open>simp add: T_def\<close>)
  qed
  then have "card T \<le> card (?E \<union> (\<lambda>m. length ?A + m) ` ?P)" by (intro card_mono) auto
  also have "\<dots> \<le> card ?E + card ?P" by (intro order_trans [OF card_Un_le] add_left_mono card_image_le) simp
  also have "card ?P = length (filter (launches_gate g) (take ?k p))"
    unfolding length_filter_conv_card by (intro arg_cong [where f = card]) (use at in auto)
  also have "card ?E + \<dots> \<le> Suc (card ?S)" using card_mono [OF fin(2) E] win by linarith
  finally show "card T \<le> Suc (started_count g prog d)" by (simp add: started_count_def)
  show "started_count g prog d \<le> card T" unfolding started_count_def by (rule card_mono [OF fin(1) S])
  have "T \<subseteq> d_started d \<longleftrightarrow> ?S = T" using S i(1) by (auto simp: T_def)
  then show "started_count g prog d = card T \<longleftrightarrow> T \<subseteq> d_started d"
    unfolding started_count_def using card_subset_eq [OF fin(1) S] by auto
qed

text \<open>C31: the gates as they are stored, for any number of launches. Flags and issued counts are 32-bit words that wrap
  (the C++ counter is a signed int whose overflow is taken to wrap), a wait carries the word read when it was
  queued and is compared cyclically. In every state the device of the words reaches, however many layers the host has
  issued, a wait whose turn has come on its stream passes exactly when every earlier launch of its kernel has
  started, with one exception: when the issued count is a multiple of 2^32 the code takes it for "nothing
  launched" and queues no wait at all.\<close>

theorem gate_words_refine:
  assumes "word_reach (take n (issue cs)) (d, w)" "i < length (take n (issue cs))" "take n (issue cs) ! i = Gate s g"
    and "fifo_ok (take n (issue cs)) d i" "i \<notin> d_finished d"
  shows "wait_passes w (queue_wait g (host_gates (take n (issue cs)) i)) \<longleftrightarrow>
    {j. j < i \<and> launches_gate g (take n (issue cs) ! j)} \<subseteq> d_started d \<or>
    2 ^ 32 dvd count_before (\<lambda>c. c = Bump g) (take n (issue cs)) i"
proof -
  let ?prog = "take n (issue cs)"
  have reach: "dev_reach (map ungated ?prog) d" and agree: "words_agree ?prog d w" using word_reach_ungated [OF assms(1)] by simp_all
  note win = gate_window [OF dev_reach_inv [OF reach] refl assms(2,3,5,4)]
  have "exact (\<lambda>_. 0) ?prog" using settled_orderly_take [OF settled_issue] by (simp add: orderly_def)
  then have t: "count_before (\<lambda>c. c = Bump g) ?prog i = card {j. j < i \<and> launches_gate g (?prog ! j)}"
    using exact_counts [of ?prog i s g] assms(2,3) count_before_card [of i ?prog] by simp
  show ?thesis
    using wait_passes_window [OF agree host_gates_count [of ?prog i g] refl] win unfolding t by simp
qed

text \<open>Kernel A's wait is queued behind the first layer's dispatch with the word 1: it holds while dispatch has not begun, and
  passes once it has.\<close>

theorem gate_words_refine_witness:
  "take 10 demo_step ! 9 = Gate Compute DispatchMain \<and>
   (\<exists>d w. word_reach (take 10 demo_step) (d, w) \<and> d_started d = {2, 3, 4} \<and>
     \<not> wait_passes w (queue_wait DispatchMain (host_gates (take 10 demo_step) 9))) \<and>
   (\<exists>w. word_reach (take 10 demo_step) (in_order (take 10 demo_step) 9, w) \<and>
     wait_passes w (queue_wait DispatchMain (host_gates (take 10 demo_step) 9)))"
proof -
  let ?p = "take 10 demo_step"
  have p: "?p = [WaitStream Communicate Caller, WaitStream Compute Caller, Launch Communicate MetadataK, Launch Communicate FillTilesK,
      Launch Communicate ZeroSlab, Record MetadataDone Communicate, Bump DispatchMain, Launch Communicate DispatchK,
      WaitEvent Compute MetadataDone, Gate Compute DispatchMain]"
    by (simp add: demo_step_def layer_cmds_defs)
  have prog: "take 10 (issue [Fwd 1 True, Bwd 1 True]) = ?p" by (simp add: demo_step_def)
  have len: "length ?p = 10" and short: "length ?p < 2 ^ 31" and nine: "?p ! 9 = Gate Compute DispatchMain" by (simp_all add: p)
  have nth: "?p ! 7 = Launch Communicate DispatchK" "?p ! 8 = WaitEvent Compute MetadataDone" by (simp_all add: p)
  have upto: "j < 9 \<longleftrightarrow> j \<in> {0, 1, 2, 3, 4, 5, 6, 7, 8}" for j :: nat by auto
  have launches: "{j. j < 9 \<and> launches_gate DispatchMain (?p ! j)} = {7}"
    unfolding upto by (auto simp: p)
  have count: "count_before (\<lambda>c. c = Bump DispatchMain) ?p 9 = 1" by (simp add: count_before_def p)
  have reach: "dev_reach ?p (in_order ?p k)" if "k \<le> 10" for k
    using issued.in_order_reach [of k 10 "[Fwd 1 True, Bwd 1 True]", unfolded prog] that len by linarith
  define d where "d = (in_order ?p 7)\<lparr>d_finished := insert 8 (d_finished (in_order ?p 7))\<rparr>"
  have fifo: "fifo_ok ?p (in_order ?p 7) 8" "fifo_ok ?p d 9" "fifo_ok ?p (in_order ?p 9) 9"
    unfolding d_def p by (auto simp: fifo_ok_def in_order_def less_Suc_eq numeral_nat)
  have "latest (\<lambda>j. \<exists>s. ?p ! j = Record MetadataDone s) 8 = Some 5" unfolding p by (simp add: numeral_nat)
  then have "finish_ok ?p (in_order ?p 7) 8" using nth by (simp add: finish_ok_def after_def in_order_def)
  then have "dev_reach ?p d"
    unfolding d_def using dev_reach.step [OF reach [of 7] dev_step.pass [of 8]] fifo(1) len nth by (simp add: in_order_def)
  then obtain w where w: "word_reach ?p (d, w)" using word_reach_complete [OF _ short] by blast
  have started: "d_started d = {2, 3, 4}" unfolding d_def in_order_def p by (auto simp: less_Suc_eq numeral_nat)
  have "\<not> wait_passes w (queue_wait DispatchMain (host_gates ?p 9))"
    using gate_words_refine [of 10 "[Fwd 1 True, Bwd 1 True]" d w 9 Compute DispatchMain, unfolded prog] w fifo(2) len nine launches count started
    by (simp add: d_def in_order_def)
  moreover obtain w' where w': "word_reach ?p (in_order ?p 9, w')" using word_reach_complete [OF reach [of 9] short] by auto
  moreover have "wait_passes w' (queue_wait DispatchMain (host_gates ?p 9))"
    using gate_words_refine [of 10 "[Fwd 1 True, Bwd 1 True]" "in_order ?p 9" w' 9 Compute DispatchMain, unfolded prog] w' fifo(3) len nine launches nth
    by (simp add: in_order_def)
  ultimately show ?thesis using nine w started by blast
qed

end
