(* ===== verification/Layer_Tensors.thy ===== *)
theory Layer_Tensors
  imports Stream_Layer
begin

text \<open>
  Which tensors the kernels of a layer read and write, what forward saves for backward at each checkpoint
  level, and the two properties the stream commands exist for: no kernel reads a tensor that nothing has
  produced, and two kernels that touch one tensor overlap only where one spins, per tile or per token, on
  what the other publishes. Tensors the layer only reads (\<^verbatim>\<open>x\<close>, the weights, \<^verbatim>\<open>dL_dy\<close>) are left out.
\<close>

section \<open>Tensors\<close>

datatype buf =
    PrePoll        \<comment> \<open>\<open>expert_frequency\<close>, \<open>expert_pool_block_offset\<close>, \<open>base_pool\<close>, \<open>rank_prefix_matrix\<close>\<close>
  | TileMeta       \<comment> \<open>\<open>tile_id_to_expert\<close>, \<open>pool_arrival_target\<close>\<close>
  | PoolT | PoolMeta   \<comment> \<open>\<open>pool_topk_weight\<close>, \<open>pool_recv_token\<close>, \<open>pool_k_slot\<close>\<close>
  | SendMeta       \<comment> \<open>\<open>channel_prefix_matrix\<close>, \<open>recv_channel_prefix_matrix\<close>, \<open>send_head\<close>\<close>
  | ArrivalCount | KLocalRemaining | YDone
  | SlotMeta       \<comment> \<open>\<open>recv_token_to_slots\<close>, \<open>k_local_total\<close>\<close>
  | OT | PostactA | PreactA | OutT | XRecv
  | GradX | ADone | GradWeight | CuSeqlens | KRemBwd | PoolGrad | BwdArrival
  | GradSwiglu | PostactBwd | OutGrads | GradW1 | GradW2

fun fwd_reads :: "gpu_op \<Rightarrow> buf list" where
  "fwd_reads FillTilesK = [PrePoll]"
| "fwd_reads DispatchK = [PrePoll, TileMeta]"
| "fwd_reads (KernelA _) = [PoolT, PrePoll, ArrivalCount, TileMeta]"
| "fwd_reads KernelYK = [PostactA, PoolMeta, PrePoll, ArrivalCount, TileMeta, KLocalRemaining]"
| "fwd_reads (CombineK rows) = [PoolMeta, SlotMeta, PrePoll, SendMeta] @ (if rows then [OT, YDone] else [])"
| "fwd_reads CompressPool = [PoolT, PoolMeta]"
| "fwd_reads _ = []"

fun fwd_writes :: "gpu_op \<Rightarrow> buf list" where
  "fwd_writes MetadataK = [PrePoll]"
| "fwd_writes FillTilesK = [TileMeta]"
| "fwd_writes ZeroSlab = [PoolMeta, SendMeta, ArrivalCount, KLocalRemaining, YDone, SlotMeta, OT]"
| "fwd_writes DispatchK = [PoolT, PoolMeta, SendMeta, ArrivalCount, KLocalRemaining, SlotMeta]"
| "fwd_writes (KernelA store) = PostactA # (if store then [PreactA] else [])"
| "fwd_writes KernelYK = [OT, KLocalRemaining, YDone]"
| "fwd_writes (CombineK _) = [OutT]"
| "fwd_writes CompressPool = [XRecv]"
| "fwd_writes _ = []"

fun bwd_reads :: "gpu_op \<Rightarrow> buf list" where
  "bwd_reads PrepareBwd = [PrePoll, SlotMeta]"
| "bwd_reads DispatchGradsK = [SlotMeta, PrePoll, TileMeta]"
| "bwd_reads ReexpandPool = [XRecv, PoolMeta]"
| "bwd_reads RecomputePreact = [PoolT, CuSeqlens]"
| "bwd_reads KernelYBwd = [PoolGrad, PoolMeta, PreactA, PrePoll, BwdArrival, TileMeta]"
| "bwd_reads KernelABwdK = [GradSwiglu, PoolMeta, PrePoll, BwdArrival, TileMeta, KRemBwd]"
| "bwd_reads (CombineGradsK rows) = [SlotMeta, PrePoll, SendMeta] @ (if rows then [GradX, GradWeight, ADone] else [])"
| "bwd_reads DW2 = [PoolGrad, PostactBwd, CuSeqlens]"
| "bwd_reads DW1 = [GradSwiglu, PoolT, CuSeqlens]"
| "bwd_reads _ = []"

fun bwd_writes :: "gpu_op \<Rightarrow> buf list" where
  "bwd_writes ZeroScratch = [GradX, ADone, GradWeight]"
| "bwd_writes PrepareBwd = [CuSeqlens, KRemBwd]"
| "bwd_writes ZeroArrival = [BwdArrival]"
| "bwd_writes DispatchGradsK = [PoolGrad, BwdArrival]"
| "bwd_writes ReexpandPool = [PoolT]"
| "bwd_writes RecomputePreact = [PreactA]"
| "bwd_writes KernelYBwd = [GradSwiglu, PostactBwd, GradWeight]"
| "bwd_writes KernelABwdK = [GradX, KRemBwd, ADone]"
| "bwd_writes (CombineGradsK _) = [OutGrads]"
| "bwd_writes DW2 = [GradW2]"
| "bwd_writes DW1 = [GradW1]"
| "bwd_writes ZeroDW = [GradW1, GradW2]"
| "bwd_writes _ = []"

text \<open>A kernel belongs to forward or to backward, so one of the two lists is empty.\<close>

definition reads :: "gpu_op \<Rightarrow> buf list" where "reads k = fwd_reads k @ bwd_reads k"
definition writes :: "gpu_op \<Rightarrow> buf list" where "writes k = fwd_writes k @ bwd_writes k"

definition per_row :: "buf list" where
  \<comment> \<open>tensors with one row per received token, slot or tile: empty when nothing was routed here\<close>
  "per_row = [TileMeta, PoolT, PoolMeta, ArrivalCount, KLocalRemaining, YDone, SlotMeta, OT, PostactA, PreactA, XRecv,
     GradX, ADone, GradWeight, KRemBwd, PoolGrad, BwdArrival, GradSwiglu, PostactBwd]"

definition live :: "bool \<Rightarrow> buf \<Rightarrow> bool" where
  "live tiles b \<longleftrightarrow> tiles \<or> b \<notin> set per_row"

definition conflict :: "bool \<Rightarrow> gpu_op \<Rightarrow> gpu_op \<Rightarrow> bool" where
  "conflict tiles k k' \<longleftrightarrow> list_ex (\<lambda>b. live tiles b \<and> (b \<in> set (reads k') \<or> b \<in> set (writes k'))) (writes k) \<or>
     list_ex (\<lambda>b. live tiles b \<and> b \<in> set (writes k')) (reads k)"

section \<open>Ordered, or handed over tile by tile\<close>

definition op_at :: "cmd list \<Rightarrow> nat \<Rightarrow> gpu_op option" where
  "op_at p i = (if i < length p then (case p ! i of Launch s k \<Rightarrow> Some k | _ \<Rightarrow> None) else None)"

definition handed_over :: "cmd list \<Rightarrow> gpu_op \<Rightarrow> gpu_op \<Rightarrow> nat list \<Rightarrow> bool" where
  \<comment> \<open>the later kernel spins on the earlier one, or begins after one that did has finished\<close>
  "handed_over p k k' js \<longleftrightarrow> spins_on k' = Some k \<or>
     list_ex (\<lambda>m. case op_at p m of Some c \<Rightarrow> spins_on c = Some k | None \<Rightarrow> False) js"

definition pair_guarded :: "bool \<Rightarrow> cmd list \<Rightarrow> nat list \<Rightarrow> nat \<Rightarrow> nat \<Rightarrow> bool" where
  "pair_guarded tiles p js i j = (case (op_at p i, op_at p j) of
     (Some k, Some k') \<Rightarrow> conflict tiles k k' \<longrightarrow> i \<in> set js \<or> handed_over p k k' js
   | _ \<Rightarrow> True)"

definition guarded :: "bool \<Rightarrow> cmd list \<Rightarrow> bool" where
  "guarded tiles p \<longleftrightarrow>
     list_all (\<lambda>(j, js). list_all (\<lambda>i. pair_guarded tiles p js i j) [0..<j]) (ordered_before 0 nothing_known p)"

lemma ordered_before_complete: "i < length p \<Longrightarrow> p ! i = Launch s k \<Longrightarrow> \<exists>js. (n + i, js) \<in> set (ordered_before n kn p)"
proof (induction p arbitrary: i n kn)
  case (Cons c cs)
  then show ?case
  proof (cases i)
    case (Suc i')
    then obtain js where "(Suc n + i', js) \<in> set (ordered_before (Suc n) (learn n c kn) cs)"
      using Cons.IH [of i' "Suc n"] Cons.prems by auto
    then show ?thesis using Suc by auto
  qed auto
qed simp

text \<open>The analysis of a layer does not depend on where the layer stands.\<close>

definition shift_known :: "nat \<Rightarrow> known \<Rightarrow> known" where
  "shift_known n kn = \<lparr>k_stream = (\<lambda>s. map ((+) n) (k_stream kn s)), k_event = (\<lambda>e. map ((+) n) (k_event kn e)),
     k_gate = (\<lambda>g. map ((+) n) (k_gate kn g))\<rparr>"

lemma shift_nothing: "shift_known n nothing_known = nothing_known"
  by (simp add: shift_known_def nothing_known_def)

lemma shift_learn: "learn (n + i) c (shift_known n kn) = shift_known n (learn i c kn)"
  by (cases c) (auto simp: shift_known_def add_known_def Let_def fun_eq_iff split: option.splits)

lemma shift_ordered_before:
  "ordered_before (n + i) (shift_known n kn) cs = map (\<lambda>(j, js). (n + j, map ((+) n) js)) (ordered_before i kn cs)"
proof (induction cs arbitrary: i kn)
  case (Cons c cs)
  have "ordered_before (Suc (n + i)) (learn (n + i) c (shift_known n kn)) cs =
      map (\<lambda>(j, js). (n + j, map ((+) n) js)) (ordered_before (Suc i) (learn i c kn) cs)"
    using Cons.IH [of "Suc i"] by (simp add: shift_learn)
  then show ?case by (cases c) (simp_all add: shift_known_def)
qed simp

fun call_tiles :: "call \<Rightarrow> bool" where
  "call_tiles (Fwd lv tiles) = tiles"
| "call_tiles (Bwd lv tiles) = tiles"
| "call_tiles CallerWork = True"

definition plain_level :: "int \<Rightarrow> int" where
  "plain_level lv = (if lv = 2 then 2 else if lv \<ge> 1 then 1 else 0)"

lemma backward_level: "backward lv tiles = backward (plain_level lv) tiles"
  by (simp add: backward_def recompute_bwd_def plain_level_def)

text \<open>A layer has few shapes, so what is decidable of each is checked by evaluation.\<close>

definition every_forward :: "(int \<Rightarrow> bool \<Rightarrow> cmd list \<Rightarrow> bool) \<Rightarrow> bool" where
  "every_forward P \<longleftrightarrow> list_all (\<lambda>(lv, tiles). case forward lv tiles of Inl e \<Rightarrow> True | Inr p \<Rightarrow> P lv tiles p)
     (List.product [0, 1, 2] [True, False])"

definition every_backward :: "(int \<Rightarrow> bool \<Rightarrow> cmd list \<Rightarrow> bool) \<Rightarrow> bool" where
  "every_backward P \<longleftrightarrow> list_all (\<lambda>(lv, tiles). P lv tiles (backward lv tiles)) (List.product [0, 1, 2] [True, False])"

lemma every_forwardD: "every_forward P \<Longrightarrow> forward lv tiles = Inr p \<Longrightarrow> P lv tiles p"
  by (cases tiles) (auto simp: every_forward_def forward_def split: if_splits)

lemma every_backwardD: "every_backward P \<Longrightarrow> P (plain_level lv) tiles (backward lv tiles)"
  by (subst backward_level) (cases tiles; auto simp: every_backward_def plain_level_def)

lemma guarded_forward: "forward lv tiles = Inr p \<Longrightarrow> guarded tiles p"
proof -
  have "every_forward (\<lambda>lv. guarded)" by code_simp
  from every_forwardD [OF this] show "forward lv tiles = Inr p \<Longrightarrow> guarded tiles p" .
qed

lemma guarded_backward: "guarded tiles (backward lv tiles)"
proof -
  have "every_backward (\<lambda>lv. guarded)" by code_simp
  from every_backwardD [OF this] show ?thesis .
qed

lemma guarded_call: "call_cmds c = Inr p \<Longrightarrow> guarded (call_tiles c) p"
proof (cases c)
  case CallerWork
  moreover have "guarded True [Launch Caller CallerOp]" by code_simp
  ultimately show "call_cmds c = Inr p \<Longrightarrow> guarded (call_tiles c) p" by auto
qed (use guarded_forward guarded_backward in \<open>auto simp: forward_def split: if_splits\<close>)

lemma op_atD: "op_at p i = Some k \<Longrightarrow> i < length p \<and> (\<exists>s. p ! i = Launch s k)"
  by (auto simp: op_at_def split: if_splits cmd.splits)

context orderly_program
begin

lemma guarded_sound:
  assumes inv: "dev_inv prog d" and prog: "prog = pre @ p @ post" and ok: "guarded tiles p"
    and k: "op_at p i = Some k" "op_at p j = Some k'" "i < j" "conflict tiles k k'"
    and begun: "length pre + j \<in> d_started d"
  shows "length pre + i \<in> d_finished d \<or> spins_on k' = Some k \<or>
    (\<exists>m c. op_at p m = Some c \<and> spins_on c = Some k \<and> length pre + m \<in> d_finished d)"
proof -
  obtain s where "j < length p" "p ! j = Launch s k'" using op_atD [OF k(2)] by blast
  then obtain js where js: "(j, js) \<in> set (ordered_before 0 nothing_known p)"
    using ordered_before_complete [of j p s k' 0] by auto
  then have "(length pre + j, map ((+) (length pre)) js) \<in> set (ordered_before (length pre) nothing_known p)"
    using shift_ordered_before [of "length pre" 0 nothing_known p] by (force simp: shift_nothing)
  then have fin: "set (map ((+) (length pre)) js) \<subseteq> d_finished d"
    using ordered_before_sound [OF inv sound_nothing prog _ begun] by blast
  have "pair_guarded tiles p js i j" using ok js k(3) by (force simp: guarded_def list_all_iff)
  then have "i \<in> set js \<or> handed_over p k k' js" using k by (simp add: pair_guarded_def)
  then show ?thesis
    using fin by (auto simp: handed_over_def list_ex_iff split: option.splits)
qed

end

lemma issue_call: "call_cmds c = Inr p \<Longrightarrow> issue (cs @ c # ds) = issue cs \<or> issue (cs @ c # ds) = issue cs @ p @ issue ds"
  by (induction cs) (auto split: sum.splits)

text \<open>C18: kernels that touch one tensor never overlap unguarded: in every schedule of every sequence of layer calls,
  when the later of two conflicting kernels of a call has begun, the earlier one has finished, or
  the later one spins on the tiles or tokens the earlier one publishes, or a kernel that did so has finished.\<close>

theorem conflicts_are_guarded:
  assumes "dev_reach (issue (cs @ c # ds)) d" "call_cmds c = Inr p" "issue (cs @ c # ds) \<noteq> issue cs"
    and "op_at p i = Some k" "op_at p j = Some k'" "i < j" "conflict (call_tiles c) k k'"
    and "length (issue cs) + j \<in> d_started d"
  shows "length (issue cs) + i \<in> d_finished d \<or> spins_on k' = Some k \<or>
    (\<exists>m c. op_at p m = Some c \<and> spins_on c = Some k \<and> length (issue cs) + m \<in> d_finished d)"
proof -
  have prog: "issue (cs @ c # ds) = issue cs @ p @ issue ds" using issue_call [OF assms(2), of cs ds] assms(3) by auto
  show ?thesis
    using issued.guarded_sound [of "length (issue (cs @ c # ds))" "cs @ c # ds" d "issue cs" p "issue ds"]
      dev_reach_inv [OF assms(1)] prog guarded_call [OF assms(2)] assms(4-8) by simp
qed

section \<open>Nothing is read that was not produced\<close>

definition saved :: "int \<Rightarrow> buf list" where
  "saved lv = (if lv = 2 then [XRecv] else if lv = 1 then [PoolT] else [PreactA, PoolT])"

definition handle_tensors :: "int \<Rightarrow> buf list" where
  \<comment> \<open>what the handle still holds after forward has dropped \<open>o\<close>, and \<open>pool\<close> at level 2\<close>
  "handle_tensors lv = [PrePoll, TileMeta, PoolMeta, SendMeta, ArrivalCount, KLocalRemaining, YDone, SlotMeta] @
     (if lv = 2 then [] else [PoolT])"

definition produced_before :: "cmd list \<Rightarrow> nat \<Rightarrow> buf \<Rightarrow> bool" where
  "produced_before p i b \<longleftrightarrow> list_ex (\<lambda>j. case op_at p j of Some k \<Rightarrow> b \<in> set (writes k) | None \<Rightarrow> False) [0..<i]"

definition reads_produced :: "bool \<Rightarrow> buf list \<Rightarrow> cmd list \<Rightarrow> bool" where
  "reads_produced tiles av p \<longleftrightarrow> list_all (\<lambda>i. case op_at p i of None \<Rightarrow> True
     | Some k \<Rightarrow> list_all (\<lambda>b. live tiles b \<longrightarrow> b \<in> set av \<or> produced_before p i b) (reads k)) [0..<length p]"

lemma reads_producedD:
  "reads_produced tiles av p \<Longrightarrow> op_at p i = Some k \<Longrightarrow> b \<in> set (reads k) \<Longrightarrow> live tiles b \<Longrightarrow>
    b \<in> set av \<or> produced_before p i b"
  using op_atD [of p i k] by (force simp: reads_produced_def list_all_iff)

definition kept :: "int \<Rightarrow> buf list" where "kept lv = saved lv @ handle_tensors lv"

lemma forward_reads_produced: "forward lv tiles = Inr p \<Longrightarrow> reads_produced tiles [] p"
proof -
  have "every_forward (\<lambda>lv tiles. reads_produced tiles [])" by code_simp
  from every_forwardD [OF this] show "forward lv tiles = Inr p \<Longrightarrow> reads_produced tiles [] p" .
qed

lemma backward_reads_produced: "reads_produced tiles (kept (plain_level lv)) (backward lv tiles)"
proof -
  have "every_backward (\<lambda>lv tiles. reads_produced tiles (kept lv))" by code_simp
  from every_backwardD [OF this] show ?thesis .
qed

lemma kept_produced:
  assumes "forward lv tiles = Inr f" "b \<in> set (kept lv)" "live tiles b"
  shows "produced_before f (length f) b"
proof -
  have "every_forward (\<lambda>lv tiles f. list_all (\<lambda>b. live tiles b \<longrightarrow> produced_before f (length f) b) (kept lv))" by code_simp
  from every_forwardD [OF this assms(1)] show ?thesis using assms(2,3) by (auto simp: list_all_iff)
qed

text \<open>C25: backward finds everything it reads: at each checkpoint level, whether or not tokens were routed to the rank, every
  tensor a backward kernel reads was written by an earlier kernel of backward, or forward wrote it and kept
  it: saved for backward, or on the handle and not released.\<close>

theorem backward_finds_its_inputs:
  assumes "forward lv tiles = Inr f" "op_at (backward lv tiles) i = Some k" "b \<in> set (reads k)" "live tiles b"
  shows "produced_before (backward lv tiles) i b \<or> b \<in> set (kept lv) \<and> produced_before f (length f) b"
proof -
  have "plain_level lv = lv" using assms(1) by (auto simp: forward_def plain_level_def split: if_splits)
  then have "reads_produced tiles (kept lv) (backward lv tiles)" using backward_reads_produced [of tiles lv] by simp
  then show ?thesis
    using reads_producedD [of tiles "kept lv" "backward lv tiles" i k b] kept_produced [OF assms(1) _ assms(4)] assms(2-4) by auto
qed

text \<open>At level 2 the last weight gradient reads \<open>pool\<close>, which forward dropped and backward expands again.\<close>

theorem backward_finds_its_inputs_witness:
  "PoolT \<notin> set (kept 2) \<and> op_at (backward 2 True) 18 = Some DW1 \<and> produced_before (backward 2 True) 18 PoolT"
proof -
  obtain f where f: "forward 2 True = Inr f" by (simp add: forward_def)
  have at: "op_at (backward 2 True) 18 = Some DW1" by (simp add: op_at_def layer_cmds_defs)
  have "PoolT \<notin> set (kept 2)" by (simp add: kept_def saved_def handle_tensors_def)
  then show ?thesis using backward_finds_its_inputs [OF f at, of PoolT] at by (simp add: live_def reads_def)
qed

lemma spins_on_not_scratch: "spins_on c \<noteq> Some ZeroScratch"
  by (cases c) auto

theorem conflicts_are_guarded_witness:
  "op_at (backward 1 True) 2 = Some ZeroScratch \<and> op_at (backward 1 True) 15 = Some (CombineGradsK True) \<and>
   length (issue [Fwd 1 True]) + 2 \<in> d_finished (in_order demo_step 34)"
proof -
  have at: "op_at (backward 1 True) 2 = Some ZeroScratch" "op_at (backward 1 True) 15 = Some (CombineGradsK True)"
    by (simp_all add: op_at_def layer_cmds_defs)
  have prog: "issue ([Fwd 1 True] @ Bwd 1 True # []) = demo_step" by (simp add: demo_step_def)
  have len: "length (issue [Fwd 1 True]) = 18" by (simp add: layer_cmds_defs)
  have ne: "issue ([Fwd 1 True] @ Bwd 1 True # []) \<noteq> issue [Fwd 1 True]"
  proof
    assume "issue ([Fwd 1 True] @ Bwd 1 True # []) = issue [Fwd 1 True]"
    then have "length demo_step = 18" using len prog by simp
    then show False by (simp add: demo_length)
  qed
  have begun: "length (issue [Fwd 1 True]) + 15 \<in> d_started (in_order demo_step 34)"
  proof -
    have "demo_step ! 33 = Launch Communicate (CombineGradsK True)" by (simp add: demo_simps)
    then show ?thesis unfolding len by (simp add: in_order_def)
  qed
  have "conflict True ZeroScratch (CombineGradsK True)" by (simp add: conflict_def live_def reads_def writes_def)
  then show ?thesis
    using conflicts_are_guarded [of "[Fwd 1 True]" "Bwd 1 True" "[]" "in_order demo_step 34" "backward 1 True" 2 ZeroScratch 15
        "CombineGradsK True"] step_reach [of 34] demo_length at ne begun spins_on_not_scratch unfolding prog by auto
qed

end
