(* ===== verification/Layer_Launch.thy ===== *)
theory Layer_Launch
  imports Kernel_Launch_Bwd Recv_Pool Stream_Layer
begin

text \<open>
  The composition: \<^verbatim>\<open>stream_moe_func\<close> resolves the configuration and the seed, and forward and backward
  allocate the tensors of a layer and call the four launch wrappers (\<^theory_text>\<open>Kernel_Launch\<close>, \<^theory_text>\<open>Kernel_Launch_Bwd\<close>) with them.
  A call that raises leaves behind what it had issued on the streams: \<open>until_failure\<close> runs the calls that may
  raise in their order, each with the commands issued before it. What quack raises while it builds a GEMM is
  an argument (\<open>gemm_new\<close>); the stage budget of kernel Y's backward is \<^theory_text>\<open>Smem_Stages\<close>.
\<close>

section \<open>The tensors of a layer\<close>





section \<open>The launches of forward\<close>



section \<open>The launches of backward\<close>



section \<open>The calls\<close>





















section \<open>Every assert of the wrappers holds\<close>
















section \<open>Examples\<close>








end
