(* ===== verification/Dispatch_Layout.thy ===== *)
theory Dispatch_Layout
  imports Pool_Layout
begin

text \<open>
  Where dispatch puts the tokens. The routing of every rank (\<^verbatim>\<open>stream_ep_tests/routing.py\<close>), the rank-major
  concatenation \<open>Global\<close> and what one rank receives (\<^verbatim>\<open>stream_ep_tests/reference.py\<close>), the slot bases
  \<open>expected_metadata\<close> (\<^verbatim>\<open>stream_ep_tests/dist/test_metadata.py\<close>), the intranode senders and receivers that allocate
  slots from them (\<^verbatim>\<open>csrc/kernels/intranode.cu\<close>), and the contract \<open>check_layout\<close> of
  \<^verbatim>\<open>stream_ep_tests/dist/test_dispatch.py\<close> (here \<open>check_dispatch_layout\<close>), which the stores of the receivers meet in every order.
\<close>

section \<open>Routing\<close>

record 'f routing =
  rt_topk_idx :: "int list list"        \<comment> \<open>\<open>[T, K]\<close>, \<open>-1\<close> = dropped slot\<close>
  rt_topk_weights :: "'f list list"
  rt_experts :: nat
  rt_ranks :: nat

definition is_token_in_rank :: "'f routing \<Rightarrow> bool list list" where
  "is_token_in_rank r = map (\<lambda>row.
     let owner = map (\<lambda>i. if 0 \<le> i then i div int (rt_experts r div rt_ranks r) else - 1) row
     in map (\<lambda>d. int d \<in> set owner) [0..<rt_ranks r]) (rt_topk_idx r)"

section \<open>Every rank's tokens, rank-major\<close>

definition all_gather_rows :: "'a \<Rightarrow> 'a list list \<Rightarrow> 'a list \<times> nat list" where
  \<comment> \<open>each rank's chunk is padded to the longest with zero rows, gathered, and cut back to its count\<close>
  "all_gather_rows zero ts =
     (let counts = map length ts;
          padded = map (\<lambda>t. t @ replicate (Max (set counts) - length t) zero) ts;
          offsets = map (\<lambda>r. sum_list (take r counts)) [0..<length ts + 1]
      in (concat (map (\<lambda>(c, n). take n c) (zip padded counts)), offsets))"

record ('f, 'r) global =
  g_x :: "'r list"
  g_topk_idx :: "int list list"
  g_topk_weights :: "'f list list"
  g_offsets :: "nat list"
  g_experts :: nat
  g_world :: nat

definition gather :: "'r \<Rightarrow> int list \<Rightarrow> 'f list \<Rightarrow> ('r list \<times> 'f routing) list \<Rightarrow> ('f, 'r) global" where
  \<comment> \<open>the three zero rows and what each rank of the group passes\<close>
  "gather zx zi zw ranks =
     (let (x_all, offsets) = all_gather_rows zx (map fst ranks);
          idx_all = fst (all_gather_rows zi (map (rt_topk_idx \<circ> snd) ranks));
          w_all = fst (all_gather_rows zw (map (rt_topk_weights \<circ> snd) ranks))
      in \<lparr>g_x = x_all, g_topk_idx = idx_all, g_topk_weights = w_all, g_offsets = offsets,
          g_experts = rt_experts (snd (hd ranks)), g_world = length ranks\<rparr>)"

definition num_local_experts :: "('f, 'r) global \<Rightarrow> nat" where
  "num_local_experts G = g_experts G div g_world G"

definition expert_lo :: "nat \<Rightarrow> ('f, 'r) global \<Rightarrow> nat" where
  "expert_lo me G = me * num_local_experts G"

definition local_rows :: "nat \<Rightarrow> ('f, 'r) global \<Rightarrow> 'a list \<Rightarrow> 'a list" where
  "local_rows me G t = take (g_offsets G ! (me + 1) - g_offsets G ! me) (drop (g_offsets G ! me) t)"

definition localise :: "nat \<Rightarrow> nat \<Rightarrow> int \<Rightarrow> int" where
  "localise lo E i = (let e = i - int lo in if 0 \<le> i \<and> 0 \<le> e \<and> e < int E then e else - 1)"

definition local_topk :: "nat \<Rightarrow> ('f, 'r) global \<Rightarrow> int list list" where
  "local_topk me G = map (map (localise (expert_lo me G) (num_local_experts G))) (g_topk_idx G)"

definition has_local :: "int list \<Rightarrow> bool" where "has_local row = list_ex (\<lambda>e. 0 \<le> e) row"

definition recv_tokens :: "nat \<Rightarrow> ('f, 'r) global \<Rightarrow> nat list" where
  "recv_tokens me G = filter (\<lambda>g. has_local (local_topk me G ! g)) [0..<length (g_topk_idx G)]"

section \<open>The expected metadata\<close>

definition NUM_NVL_PEERS :: nat where "NUM_NVL_PEERS = 8"

definition diff :: "nat list \<Rightarrow> nat list" where
  "diff xs = map (\<lambda>(a, b). b - a) (zip xs (tl xs))"

definition token_src :: "('f, 'r) global \<Rightarrow> nat list" where
  "token_src G = repeat_interleave [0..<g_world G] (diff (g_offsets G))"

definition token_pos :: "('f, 'r) global \<Rightarrow> nat list" where
  "token_pos G = map (\<lambda>(g, s). g - g_offsets G ! s) (zip [0..<length (g_x G)] (token_src G))"

definition token_channel :: "nat \<Rightarrow> ('f, 'r) global \<Rightarrow> nat list" where
  "token_channel C G = map (\<lambda>(t, s). min (t div ((diff (g_offsets G) ! s + C - 1) div C)) (C - 1))
     (zip (token_pos G) (token_src G))"

type_synonym substream = "nat \<times> nat"   \<comment> \<open>(channel, source rank)\<close>

definition local_entries :: "nat \<Rightarrow> nat \<Rightarrow> ('f, 'r) global \<Rightarrow> (substream \<times> int) list" where
  \<comment> \<open>the index triples (channel, source, expert) of the local (token, k), in row-major order\<close>
  "local_entries C me G = concat (map (\<lambda>(cs, row). map (Pair cs) (filter (\<lambda>e. 0 \<le> e) row))
     (zip (zip (token_channel C G) (token_src G)) (local_topk me G)))"

definition seen_per_substream :: "nat \<Rightarrow> nat \<Rightarrow> ('f, 'r) global \<Rightarrow> substream \<Rightarrow> nat \<Rightarrow> nat" where
  \<comment> \<open>\<open>index_put_\<close> of ones, accumulating\<close>
  "seen_per_substream C me G cs e = count_list (local_entries C me G) (cs, int e)"

definition expert_freq :: "nat \<Rightarrow> nat \<Rightarrow> ('f, 'r) global \<Rightarrow> nat list" where
  "expert_freq C me G = map (\<lambda>e. \<Sum>(c, s)\<leftarrow>List.product [0..<C] [0..<g_world G]. seen_per_substream C me G (c, s) e)
     [0..<num_local_experts G]"

definition remote :: "bool \<Rightarrow> nat \<Rightarrow> nat \<Rightarrow> bool" where
  "remote internode me s \<longleftrightarrow> internode \<and> s div NUM_NVL_PEERS \<noteq> me div NUM_NVL_PEERS"

definition substream_order :: "nat \<Rightarrow> nat \<Rightarrow> bool \<Rightarrow> ('f, 'r) global \<Rightarrow> substream list" where
  "substream_order C me internode G = (let W = g_world G in
     sort_key (\<lambda>(c, s). (if remote internode me s then 1 else 0) * C * W + c * W + s) (List.product [0..<C] [0..<W]))"

definition base_pool :: "nat \<Rightarrow> nat \<Rightarrow> bool \<Rightarrow> ('f, 'r) global \<Rightarrow> substream \<Rightarrow> nat \<Rightarrow> nat" where
  \<comment> \<open>the expert's first slot plus \<open>flat.cumsum(0) - flat\<close> at the place of the substream in the order\<close>
  "base_pool C me internode G cs e =
     block_offset (expert_freq C me G) ! e * TILE_M +
     (\<Sum>cs'\<leftarrow>takeWhile (\<lambda>x. x \<noteq> cs) (substream_order C me internode G). seen_per_substream C me G cs' e)"

definition rank_prefix_column :: "nat \<Rightarrow> ('f, 'r) global \<Rightarrow> nat list" where
  "rank_prefix_column me G = cumsum 0 (map (\<lambda>s. length (filter (\<lambda>(s', row). s' = s \<and> has_local row)
     (zip (token_src G) (local_topk me G)))) [0..<g_world G])"

section \<open>The sender of a substream\<close>

definition channel_task_range :: "nat \<Rightarrow> nat \<Rightarrow> nat \<Rightarrow> nat \<times> nat" where
  "channel_task_range n C c = (let per = ceil_div n C; start = min (per * c) n in (start, min (start + per) n))"

record ('f, 'r) packet =
  pk_x :: 'r
  pk_topk :: "int list"
  pk_weights :: "'f list"

definition packet_of :: "nat \<Rightarrow> nat \<Rightarrow> 'r \<Rightarrow> int list \<Rightarrow> 'f::zero list \<Rightarrow> ('f, 'r) packet" where
  "packet_of E dst x idx w =
     (let lo = int (dst * E); hi = int ((dst + 1) * E);
          idx' = map (\<lambda>v. if lo \<le> v \<and> v < hi then v - lo else - 1) idx
      in \<lparr>pk_x = x, pk_topk = idx', pk_weights = map (\<lambda>(e, u). if 0 \<le> e then u else 0) (zip idx' w)\<rparr>)"

definition sent_tokens :: "nat \<Rightarrow> nat \<Rightarrow> nat \<Rightarrow> 'f routing \<Rightarrow> nat list" where
  "sent_tokens C dst c r = (let (lo, hi) = channel_task_range (length (rt_topk_idx r)) C c
     in filter (\<lambda>t. is_token_in_rank r ! t ! dst) [lo..<hi])"

definition start_count :: "nat \<Rightarrow> nat \<Rightarrow> nat \<Rightarrow> 'f routing \<Rightarrow> nat" where
  \<comment> \<open>the tokens for the destination in earlier channels, published in \<open>channel_start_offset\<close>\<close>
  "start_count C dst c r = (let (lo, hi) = channel_task_range (length (rt_topk_idx r)) C c
     in length (filter (\<lambda>t. is_token_in_rank r ! t ! dst) [0..<lo]))"

definition packets :: "nat \<Rightarrow> nat \<Rightarrow> nat \<Rightarrow> nat \<Rightarrow> 'r list \<times> 'f::zero routing \<Rightarrow> ('f, 'r) packet list" where
  "packets C E dst c src = (case src of (x, r) \<Rightarrow>
     map (\<lambda>t. packet_of E dst (x ! t) (rt_topk_idx r ! t) (rt_topk_weights r ! t)) (sent_tokens C dst c r))"

section \<open>The receiver of a substream\<close>

fun slot_row :: "(nat \<Rightarrow> nat) \<Rightarrow> nat \<Rightarrow> int list \<Rightarrow> (nat \<Rightarrow> nat) \<Rightarrow> int list \<times> (nat \<Rightarrow> nat)" where
  \<comment> \<open>pass A on one packet: slots of its entries, and the running counts\<close>
  "slot_row base E [] seen = ([], seen)"
| "slot_row base E (e # es) seen =
     (if 0 \<le> e \<and> e < int E
      then (let slot = base (nat e) + seen (nat e);
                (slots, seen') = slot_row base E es (seen(nat e := seen (nat e) + 1))
            in (int slot # slots, seen'))
      else (let (slots, seen') = slot_row base E es seen in (- 1 # slots, seen')))"

datatype ('f, 'r) store =
    PoolRow nat 'r
  | PoolWeight nat 'f
  | PoolRecvToken nat nat
  | PoolKSlot nat nat
  | TokenSlots nat "int list"
  | KLocal nat nat          \<comment> \<open>both \<open>k_local_remaining\<close> and \<open>k_local_total\<close>\<close>

definition packet_stores :: "nat \<Rightarrow> int list \<Rightarrow> ('f, 'r) packet \<Rightarrow> ('f, 'r) store list" where
  \<comment> \<open>pass B on one packet\<close>
  "packet_stores recv slots p =
     concat (map (\<lambda>(k, slot). if slot < 0 then [] else
         [PoolRow (nat slot) (pk_x p), PoolWeight (nat slot) (pk_weights p ! k),
          PoolRecvToken (nat slot) recv, PoolKSlot (nat slot) k]) (enumerate 0 slots))
     @ [TokenSlots recv slots]
     @ (let n = length (filter (\<lambda>s. \<not> s < 0) slots) in if n > 0 then [KLocal recv n] else [])"

fun receive :: "(nat \<Rightarrow> nat) \<Rightarrow> nat \<Rightarrow> nat \<Rightarrow> ('f, 'r) packet list \<Rightarrow> (nat \<Rightarrow> nat)
    \<Rightarrow> ('f, 'r) store list \<times> (nat \<Rightarrow> nat)" where
  "receive base E recv [] seen = ([], seen)"
| "receive base E recv (p # ps) seen =
     (let (slots, seen') = slot_row base E (pk_topk p) seen;
          (sts, seen'') = receive base E (recv + 1) ps seen'
      in (packet_stores recv slots p @ sts, seen''))"

definition fire_pool_blocks :: "nat \<Rightarrow> nat \<Rightarrow> nat \<Rightarrow> (nat \<times> nat) list" where
  \<comment> \<open>the release-adds: tile and count\<close>
  "fire_pool_blocks slot_start n tile_m =
     (let slot_end = slot_start + n; first = slot_start div tile_m; last = (slot_end - 1) div tile_m
      in map (\<lambda>b. (b, min slot_end (b * tile_m + tile_m) - max slot_start (b * tile_m))) [first..<last + 1])"

definition fires :: "(nat \<Rightarrow> nat) \<Rightarrow> nat \<Rightarrow> (nat \<Rightarrow> nat) \<Rightarrow> nat \<Rightarrow> (nat \<times> nat) list" where
  \<comment> \<open>pass 2, expert by expert\<close>
  "fires base E seen tile_m =
     concat (map (\<lambda>e. if seen e = 0 then [] else fire_pool_blocks (base e) (seen e) tile_m) [0..<E])"

text \<open>One receiver: the substream's place among the received tokens, its stores and its release-adds.\<close>

definition recv_offset :: "nat \<Rightarrow> nat \<Rightarrow> ('f, 'r) global \<Rightarrow> ('r list \<times> 'f routing) list \<Rightarrow> substream \<Rightarrow> nat" where
  "recv_offset C me G ranks cs = (case cs of (c, s) \<Rightarrow>
     start_count C me c (snd (ranks ! s)) + (if s > 0 then rank_prefix_column me G ! (s - 1) else 0))"

definition run_receiver :: "nat \<Rightarrow> nat \<Rightarrow> bool \<Rightarrow> ('f, 'r) global \<Rightarrow> ('r list \<times> 'f::zero routing) list \<Rightarrow> substream
    \<Rightarrow> ('f, 'r) store list \<times> (nat \<times> nat) list" where
  "run_receiver C me internode G ranks cs =
     (let base = base_pool C me internode G cs; E = num_local_experts G;
          (sts, seen) = receive base E (recv_offset C me G ranks cs) (packets C E me (fst cs) (ranks ! snd cs)) (\<lambda>_. 0)
      in (sts, fires base E seen TILE_M))"

section \<open>The memory dispatch leaves\<close>

record ('f, 'r) pool_mem =
  m_pool :: "nat \<Rightarrow> 'r"
  m_weight :: "nat \<Rightarrow> 'f"
  m_recv :: "nat \<Rightarrow> int"
  m_k :: "nat \<Rightarrow> int"
  m_slots :: "nat \<Rightarrow> int list"
  m_remaining :: "nat \<Rightarrow> nat"
  m_total :: "nat \<Rightarrow> nat"

fun apply_store :: "('f, 'r) pool_mem \<Rightarrow> ('f, 'r) store \<Rightarrow> ('f, 'r) pool_mem" where
  "apply_store m (PoolRow s x) = m\<lparr>m_pool := (m_pool m)(s := x)\<rparr>"
| "apply_store m (PoolWeight s w) = m\<lparr>m_weight := (m_weight m)(s := w)\<rparr>"
| "apply_store m (PoolRecvToken s r) = m\<lparr>m_recv := (m_recv m)(s := int r)\<rparr>"
| "apply_store m (PoolKSlot s k) = m\<lparr>m_k := (m_k m)(s := int k)\<rparr>"
| "apply_store m (TokenSlots r slots) = m\<lparr>m_slots := (m_slots m)(r := slots)\<rparr>"
| "apply_store m (KLocal r n) = m\<lparr>m_remaining := (m_remaining m)(r := n), m_total := (m_total m)(r := n)\<rparr>"

definition fresh_mem :: "(nat \<Rightarrow> 'r) \<Rightarrow> nat \<Rightarrow> ('f::zero, 'r) pool_mem" where
  \<comment> \<open>what \<open>allocate_post_poll_bundle\<close> leaves: the pool holds anything, the slot maps \<open>-1\<close>, the rest zero\<close>
  "fresh_mem junk K = \<lparr>m_pool = junk, m_weight = (\<lambda>_. 0), m_recv = (\<lambda>_. - 1), m_k = (\<lambda>_. - 1),
     m_slots = (\<lambda>_. replicate K 0), m_remaining = (\<lambda>_. 0), m_total = (\<lambda>_. 0)\<rparr>"

definition add_fires :: "(nat \<times> nat) list \<Rightarrow> nat \<Rightarrow> nat" where
  \<comment> \<open>\<open>pool_arrival_count\<close> after the release-adds\<close>
  "add_fires fs t = (\<Sum>(b, n)\<leftarrow>fs. if b = t then n else 0)"

definition fill_tile_metadata :: "nat list \<Rightarrow> nat list \<Rightarrow> nat \<Rightarrow> nat \<times> nat" where
  \<comment> \<open>\<open>tile_id_to_expert\<close> and \<open>pool_arrival_target\<close> of a tile\<close>
  "fill_tile_metadata off freq tile =
     (let e = (case find (\<lambda>e. tile < off ! (e + 1)) [0..<length freq] of None \<Rightarrow> 0 | Some e \<Rightarrow> e);
          t = tile - off ! e
      in (e, if t + 1 = off ! (e + 1) - off ! e then freq ! e - t * TILE_M else TILE_M))"

section \<open>The handle and its contract\<close>

record ('f, 'r) handle =
  h_pool :: "'r list"
  h_weight :: "'f list"
  h_recv :: "int list"
  h_k :: "int list"
  h_slots :: "int list list"
  h_remaining :: "nat list"
  h_total :: "nat list"
  h_T_recv :: nat
  h_freq :: "nat list"
  h_blocks :: "nat list"
  h_tiles :: nat
  h_seen :: "nat list list list"   \<comment> \<open>\<open>seen_per_substream\<close>, indexed by channel, source and expert\<close>
  h_tile_expert :: "nat list"
  h_target :: "nat list"
  h_count :: "nat list"
  h_y_done :: "int list"

definition dispatch_handle :: "nat \<Rightarrow> nat \<Rightarrow> ('f, 'r) global \<Rightarrow> ('f, 'r) pool_mem \<Rightarrow> (nat \<times> nat) list \<Rightarrow> ('f, 'r) handle" where
  "dispatch_handle C me G m fs =
     (let freq = expert_freq C me G; off = block_offset freq; tiles = total_tiles freq;
          slots = [0..<tiles * TILE_M]; T_recv = last (0 # rank_prefix_column me G)
      in \<lparr>h_pool = map (m_pool m) slots, h_weight = map (m_weight m) slots,
          h_recv = map (m_recv m) slots, h_k = map (m_k m) slots,
          h_slots = map (m_slots m) [0..<T_recv], h_remaining = map (m_remaining m) [0..<T_recv],
          h_total = map (m_total m) [0..<T_recv], h_T_recv = T_recv, h_freq = freq, h_blocks = off, h_tiles = tiles,
          h_seen = map (\<lambda>c. map (\<lambda>s. map (seen_per_substream C me G (c, s)) [0..<num_local_experts G]) [0..<g_world G]) [0..<C],
          h_tile_expert = map (fst \<circ> fill_tile_metadata off freq) [0..<tiles],
          h_target = map (snd \<circ> fill_tile_metadata off freq) [0..<tiles],
          h_count = map (add_fires fs) [0..<tiles], h_y_done = replicate T_recv 0\<rparr>)"

definition bincount :: "nat list \<Rightarrow> nat \<Rightarrow> nat list" where
  \<comment> \<open>with a minimum length that bounds the values\<close>
  "bincount xs n = map (count_list xs) [0..<n]"

definition check_dispatch_layout :: "nat \<Rightarrow> ('f, 'r) global \<Rightarrow> ('f, 'r) handle \<Rightarrow> bool" where
  \<comment> \<open>of the last assertion the stamps; the output \<open>o\<close>, which dispatch only allocates zeroed, is not in the handle here\<close>
  "check_dispatch_layout me G h =
     (let recv_ids = recv_tokens me G; topk = map ((!) (local_topk me G)) recv_ids; E = num_local_experts G;
          freq = bincount (map nat (filter (\<lambda>e. 0 \<le> e) (concat topk))) E;
          blocks = block_offset freq;
          slot_exp = repeat_interleave [0..<E] (map (\<lambda>n. n * TILE_M) (diff blocks));
          real = filter (\<lambda>s. 0 \<le> h_recv h ! s) [0..<length (h_recv h)];
          r = (\<lambda>s. nat (h_recv h ! s)); k = (\<lambda>s. nat (h_k h ! s))
      in h_T_recv h = length recv_ids \<and> h_freq h = freq \<and> h_blocks h = blocks \<and> h_tiles h = last blocks
       \<and> length (h_pool h) = h_tiles h * TILE_M
       \<and> list_all (\<lambda>s. r s < length topk \<and> k s < length (topk ! r s) \<and> topk ! r s ! k s = int (slot_exp ! s)) real
       \<and> list_all (\<lambda>s. h_pool h ! s = g_x G ! (recv_ids ! r s)) real
       \<and> list_all (\<lambda>s. h_weight h ! s = g_topk_weights G ! (recv_ids ! r s) ! k s) real
       \<and> h_slots h = foldl (\<lambda>ex s. ex[r s := (ex ! r s)[k s := int s]]) (map (map (\<lambda>_. - 1)) topk) real
       \<and> h_total h = map (\<lambda>row. length (filter (\<lambda>e. 0 \<le> e) row)) topk
       \<and> h_remaining h = h_total h
       \<and> map (\<lambda>e. \<Sum>seen\<leftarrow>concat (h_seen h). seen ! e) [0..<E] = freq
       \<and> h_tile_expert h = repeat_interleave [0..<E] (diff blocks)
       \<and> h_target h = bincount (map (\<lambda>s. s div TILE_M) real) (h_tiles h)
       \<and> take (h_tiles h) (h_count h) = h_target h
       \<and> list_all ((=) 0) (h_y_done h))"

definition one_slot_each :: "nat \<Rightarrow> ('f, 'r) global \<Rightarrow> ('f, 'r) handle \<Rightarrow> bool" where
  \<comment> \<open>every local (token, k) has exactly one slot\<close>
  "one_slot_each me G h =
     (let topk = map ((!) (local_topk me G)) (recv_tokens me G) in
      list_all (\<lambda>s. 0 \<le> h_recv h ! s \<longrightarrow> 0 \<le> h_k h ! s) [0..<length (h_recv h)] \<and>
      list_all (\<lambda>r. list_all (\<lambda>k. length (filter (\<lambda>s. h_recv h ! s = int r \<and> h_k h ! s = int k) [0..<length (h_recv h)])
          = (if 0 \<le> topk ! r ! k then 1 else 0)) [0..<length (topk ! r)]) [0..<length topk])"

end
