(* ===== verification/Dispatch_Slots.thy ===== *)
theory Dispatch_Slots
  imports Dispatch_Layout
begin

text \<open>
  Why the slots of \<^theory_text>\<open>Dispatch_Layout\<close> fit together: within a substream an expert's entries take consecutive
  slots, the substreams' runs follow each other through the expert's block, and the packets of a substream are
  consecutive among the received tokens.
\<close>

section \<open>Lists of intervals and matrices\<close>

lemma concat_intervals:
  assumes "distinct xs"
  shows "concat (map (\<lambda>x. [a + (\<Sum>y\<leftarrow>takeWhile (\<lambda>z. z \<noteq> x) xs. n y) ..< a + (\<Sum>y\<leftarrow>takeWhile (\<lambda>z. z \<noteq> x) xs. n y) + n x]) xs)
    = [a ..< a + (\<Sum>y\<leftarrow>xs. n y)]"
  using assms
proof (induction xs arbitrary: a)
  case (Cons x xs)
  have "[a ..< a + (\<Sum>y\<leftarrow>x # xs. n y)] = [a ..< a + n x] @ [a + n x ..< a + n x + (\<Sum>y\<leftarrow>xs. n y)]"
    by (simp only: list.map sum_list.Cons add.assoc [symmetric] upt_add_eq_append [OF le_add1])
  also have "[a + n x ..< a + n x + (\<Sum>y\<leftarrow>xs. n y)] = concat (map (\<lambda>w. [a + n x + (\<Sum>y\<leftarrow>takeWhile (\<lambda>z. z \<noteq> w) xs. n y)
      ..< a + n x + (\<Sum>y\<leftarrow>takeWhile (\<lambda>z. z \<noteq> w) xs. n y) + n w]) xs)"
    using Cons by simp
  also have "\<dots> = concat (map (\<lambda>w. [a + (\<Sum>y\<leftarrow>takeWhile (\<lambda>z. z \<noteq> w) (x # xs). n y)
      ..< a + (\<Sum>y\<leftarrow>takeWhile (\<lambda>z. z \<noteq> w) (x # xs). n y) + n w]) xs)"
    using Cons.prems by (intro arg_cong [of _ _ concat] map_cong) (auto simp: add.assoc)
  finally show ?case by simp
qed simp

lemma concat_matrix:
  assumes "\<And>row. row \<in> set xss \<Longrightarrow> length row = K"
  shows "concat xss = map (\<lambda>(i, k). xss ! i ! k) (List.product [0..<length xss] [0..<K])"
  using assms
proof (induction xss rule: rev_induct)
  case (snoc row xss)
  have "map (\<lambda>(i, k). (xss @ [row]) ! i ! k) (List.product [0..<length xss] [0..<K])
      = map (\<lambda>(i, k). xss ! i ! k) (List.product [0..<length xss] [0..<K])"
    by (rule map_cong) (auto simp: nth_append)
  moreover have "map (\<lambda>(i, k). (xss @ [row]) ! i ! k) (List.product [length xss] [0..<K]) = row"
    using snoc.prems [of row] map_nth [of row] by (simp add: comp_def)
  moreover have "List.product (as @ bs) cs = List.product as cs @ List.product bs cs" for as bs :: "nat list" and cs :: "nat list"
    by (induction as) auto
  ultimately show ?case using snoc by simp
qed simp

lemma nth_concat_prefix:
  assumes "j < length xss" "i < length (xss ! j)"
  shows "concat xss ! ((\<Sum>xs\<leftarrow>take j xss. length xs) + i) = xss ! j ! i"
    and "(\<Sum>xs\<leftarrow>take j xss. length xs) + i < length (concat xss)"
proof -
  have split: "xss = take j xss @ xss ! j # drop (Suc j) xss" using assms(1) by (rule id_take_nth_drop)
  have "concat xss = concat (take j xss) @ xss ! j @ concat (drop (Suc j) xss)"
    by (subst split) simp
  moreover have "(\<Sum>xs\<leftarrow>take j xss. length xs) = length (concat (take j xss))" by (simp add: length_concat)
  ultimately show "concat xss ! ((\<Sum>xs\<leftarrow>take j xss. length xs) + i) = xss ! j ! i"
      "(\<Sum>xs\<leftarrow>take j xss. length xs) + i < length (concat xss)"
    using assms(2) by (simp_all add: nth_append)
qed

lemma concat_index_unique:
  assumes "j < length xss" "i < length (xss ! j)" "j' < length xss" "i' < length (xss ! j')"
    and "(\<Sum>xs\<leftarrow>take j xss. length xs) + i = (\<Sum>xs\<leftarrow>take j' xss. length xs) + i'"
  shows "j = j' \<and> i = i'"
proof -
  have "\<not> j < j'" if "i < length (xss ! j)" "j < length xss"
      "(\<Sum>xs\<leftarrow>take j xss. length xs) + i = (\<Sum>xs\<leftarrow>take j' xss. length xs) + i'" for j j' i i'
  proof
    assume "j < j'"
    then have "take j' xss = take j xss @ xss ! j # take (j' - Suc j) (drop (Suc j) xss)"
      using that(2) by (metis Suc_leI add_diff_inverse_nat append.assoc append_Cons append_Nil less_imp_le_nat
        linorder_not_less take_Suc_conv_app_nth take_add)
    then have "(\<Sum>xs\<leftarrow>take j xss. length xs) + length (xss ! j) \<le> (\<Sum>xs\<leftarrow>take j' xss. length xs)" by simp
    then show False using that by linarith
  qed
  then have "\<not> j < j'" "\<not> j' < j" using assms by metis+
  then show ?thesis using assms(5) by simp
qed

lemma concat_index_exists:
  "r < length (concat xss) \<Longrightarrow> \<exists>j i. j < length xss \<and> i < length (xss ! j) \<and> r = (\<Sum>xs\<leftarrow>take j xss. length xs) + i"
proof (induction xss arbitrary: r)
  case (Cons xs xss)
  show ?case
  proof (cases "r < length xs")
    case True
    then show ?thesis by (intro exI [of _ 0] exI [of _ r]) simp
  next
    case False
    then have "r - length xs < length (concat xss)" using Cons.prems by simp
    from Cons.IH [OF this] obtain j i where "j < length xss" "i < length (xss ! j)"
        "r - length xs = (\<Sum>xs\<leftarrow>take j xss. length xs) + i" by blast
    then show ?thesis using False by (intro exI [of _ "Suc j"] exI [of _ i]) simp
  qed
qed simp

lemma count_list_concat: "count_list (concat xss) x = (\<Sum>xs\<leftarrow>xss. count_list xs x)"
  by (induction xss) simp_all

lemma count_list_nonneg: "count_list (filter ((\<le>) 0) xs) (int e) = count_list xs (int e)"
  by (induction xs) auto

lemma sum_list_concat': "sum_list (concat xss) = (\<Sum>xs\<leftarrow>xss. sum_list xs :: nat)"
  by (induction xss) simp_all

lemma count_list_pairs: "count_list (map (Pair a) xs) (b, x) = (if a = b then count_list xs x else 0)"
  by (induction xs) auto

lemma sum_list_filter_zero:
  "(\<And>x. x \<in> set xs \<Longrightarrow> \<not> P x \<Longrightarrow> f x = (0 :: nat)) \<Longrightarrow> (\<Sum>x\<leftarrow>filter P xs. f x) = (\<Sum>x\<leftarrow>xs. f x)"
  by (induction xs) auto

section \<open>Index assignments\<close>

lemma foldl_assign:
  assumes "\<And>s. s \<in> set xs \<Longrightarrow> r s < length init \<and> k s < length (init ! r s)"
    and "\<And>s. s \<in> set xs \<Longrightarrow> r s = rr \<Longrightarrow> k s = kk \<Longrightarrow> v s = w"
  shows "foldl (\<lambda>ex s. ex[r s := (ex ! r s)[k s := v s]]) init xs ! rr ! kk
    = (if \<exists>s \<in> set xs. r s = rr \<and> k s = kk then w else init ! rr ! kk)"
  using assms
proof (induction xs arbitrary: init)
  case (Cons s xs)
  let ?init = "init[r s := (init ! r s)[k s := v s]]"
  have "foldl (\<lambda>ex s. ex[r s := (ex ! r s)[k s := v s]]) ?init xs ! rr ! kk
      = (if \<exists>s \<in> set xs. r s = rr \<and> k s = kk then w else ?init ! rr ! kk)"
    using Cons.prems by (intro Cons.IH) (auto simp: nth_list_update)
  then show ?case using Cons.prems(1) [of s] Cons.prems(2) [of s] by (auto simp: nth_list_update)
qed simp

lemma diff_blocks: "diff (block_offset rows) = layout_tiles rows"
proof (rule nth_equalityI)
  fix e assume "e < length (diff (block_offset rows))"
  then have "e < length rows" by (simp add: diff_def)
  then show "diff (block_offset rows) ! e = layout_tiles rows ! e"
    using tiles_of_expert [of e rows] by (simp add: diff_def nth_tl layout_tiles_def)
qed (simp add: diff_def layout_tiles_def)

section \<open>The slots of one substream\<close>

fun slot_rows :: "(nat \<Rightarrow> nat) \<Rightarrow> nat \<Rightarrow> int list list \<Rightarrow> (nat \<Rightarrow> nat) \<Rightarrow> int list list \<times> (nat \<Rightarrow> nat)" where
  "slot_rows base E [] seen = ([], seen)"
| "slot_rows base E (row # rows) seen =
     (let (slots, seen') = slot_row base E row seen; (rest, seen'') = slot_rows base E rows seen' in (slots # rest, seen''))"

lemma slot_row_seen:
  "e < E \<Longrightarrow> snd (slot_row base E row seen) e = seen e + count_list row (int e)"
  by (induction row arbitrary: seen) (auto simp: Let_def case_prod_beta)

lemma slot_row_length [simp]: "length (fst (slot_row base E row seen)) = length row"
  by (induction row arbitrary: seen) (auto simp: Let_def case_prod_beta)

lemma slot_row_sign:
  "k < length row \<Longrightarrow> fst (slot_row base E row seen) ! k < 0 \<longleftrightarrow> \<not> (0 \<le> row ! k \<and> row ! k < int E)"
  by (induction row arbitrary: seen k) (auto simp: Let_def case_prod_beta nth_Cons split: nat.splits)

lemma slot_row_none:
  "k < length row \<Longrightarrow> \<not> (0 \<le> row ! k \<and> row ! k < int E) \<Longrightarrow> fst (slot_row base E row seen) ! k = - 1"
  by (induction row arbitrary: seen k) (auto simp: Let_def case_prod_beta nth_Cons split: nat.splits)

lemma slot_row_slots:
  "e < E \<Longrightarrow> map fst (filter (\<lambda>p. snd p = int e) (zip (fst (slot_row base E row seen)) row))
    = map int [base e + seen e ..< base e + seen e + count_list row (int e)]"
proof (induction row arbitrary: seen)
  case (Cons x row)
  show ?case
  proof (cases "x = int e")
    case True
    have "[base e + seen e ..< base e + seen e + count_list (x # row) (int e)]
        = (base e + seen e) # [base e + (seen e + 1) ..< base e + (seen e + 1) + count_list row (int e)]"
      using True by (subst upt_conv_Cons) auto
    with Cons.IH [of "seen(e := seen e + 1)"] Cons.prems True show ?thesis
      by (simp del: upt_Suc add: Let_def case_prod_beta fun_upd_def)
  next
    case False
    then have ne: "e = nat x \<longrightarrow> \<not> 0 \<le> x" by auto
    from Cons.IH [of "seen(nat x := seen (nat x) + 1)"] Cons.IH [of seen] Cons.prems False ne show ?thesis
      by (cases "0 \<le> x") (simp_all del: upt_Suc add: Let_def case_prod_beta fun_upd_def)
  qed
qed simp

lemma slot_rows_length [simp]: "length (fst (slot_rows base E rows seen)) = length rows"
  by (induction rows arbitrary: seen) (auto simp: Let_def case_prod_beta)

lemma slot_rows_nth_length: "i < length rows \<Longrightarrow> length (fst (slot_rows base E rows seen) ! i) = length (rows ! i)"
  by (induction rows arbitrary: seen i) (auto simp: Let_def case_prod_beta nth_Cons split: nat.splits)

lemma slot_rows_sign:
  "i < length rows \<Longrightarrow> k < length (rows ! i) \<Longrightarrow>
    fst (slot_rows base E rows seen) ! i ! k < 0 \<longleftrightarrow> \<not> (0 \<le> rows ! i ! k \<and> rows ! i ! k < int E)"
  by (induction rows arbitrary: seen i) (auto simp: Let_def case_prod_beta nth_Cons slot_row_sign split: nat.splits)

lemma slot_rows_none:
  "i < length rows \<Longrightarrow> k < length (rows ! i) \<Longrightarrow> \<not> (0 \<le> rows ! i ! k \<and> rows ! i ! k < int E)
    \<Longrightarrow> fst (slot_rows base E rows seen) ! i ! k = - 1"
  by (induction rows arbitrary: seen i) (auto simp: Let_def case_prod_beta nth_Cons slot_row_none split: nat.splits)

lemma slot_rows_seen:
  "e < E \<Longrightarrow> snd (slot_rows base E rows seen) e = seen e + count_list (concat rows) (int e)"
  by (induction rows arbitrary: seen) (auto simp: Let_def case_prod_beta slot_row_seen)

lemma slot_rows_slots:
  "e < E \<Longrightarrow> map fst (filter (\<lambda>p. snd p = int e) (zip (concat (fst (slot_rows base E rows seen))) (concat rows)))
    = map int [base e + seen e ..< base e + seen e + count_list (concat rows) (int e)]"
proof (induction rows arbitrary: seen)
  case (Cons row rows)
  have "[base e + seen e ..< base e + seen e + count_list (concat (row # rows)) (int e)]
      = [base e + seen e ..< base e + seen e + count_list row (int e)] @
        [base e + (seen e + count_list row (int e)) ..< base e + (seen e + count_list row (int e)) + count_list (concat rows) (int e)]"
    by (simp only: concat.simps count_list_append add.assoc [symmetric] upt_add_eq_append [OF le_add1])
  with Cons.IH [of "snd (slot_row base E row seen)"] Cons.prems show ?case
    by (simp add: Let_def case_prod_beta slot_row_slots slot_row_seen)
qed simp

lemma receive_stores:
  "fst (receive base E r ps seen)
    = concat (map (\<lambda>(i, p). packet_stores (r + i) (fst (slot_rows base E (map pk_topk ps) seen) ! i) p) (enumerate 0 ps))"
proof (induction ps arbitrary: r seen)
  case (Cons p ps)
  have "enumerate 0 (p # ps) = (0, p) # map (apfst Suc) (enumerate 0 ps)"
    by (simp add: enumerate_Suc_eq)
  with Cons.IH [of "Suc r" "snd (slot_row base E (pk_topk p) seen)"] show ?case
    by (simp add: Let_def case_prod_beta comp_def del: enumerate_simps)
qed simp

lemma receive_seen:
  "snd (receive base E r ps seen) = snd (slot_rows base E (map pk_topk ps) seen)"
  by (induction ps arbitrary: r seen) (auto simp: Let_def case_prod_beta)

section \<open>Gathering\<close>

definition well_routed :: "nat \<Rightarrow> nat \<Rightarrow> ('r list \<times> 'f routing) list \<Rightarrow> bool" where
  \<comment> \<open>what every caller passes: \<open>K\<close> choices per token among \<open>E\<close> experts on each of the ranks\<close>
  "well_routed K E ranks \<longleftrightarrow> ranks \<noteq> [] \<and> 0 < E \<and>
     (\<forall>(x, r) \<in> set ranks. length x = length (rt_topk_idx r) \<and> length (rt_topk_weights r) = length (rt_topk_idx r)
        \<and> rt_experts r = E * length ranks \<and> rt_ranks r = length ranks
        \<and> (\<forall>row \<in> set (rt_topk_idx r). length row = K \<and> (\<forall>i \<in> set row. i < int (E * length ranks)))
        \<and> (\<forall>row \<in> set (rt_topk_weights r). length row = K))"

lemma take_pad: "take (length t) (t @ replicate n z) = t" by simp

lemma all_gather_rows_eq:
  "all_gather_rows zero ts = (concat ts, map (\<lambda>r. sum_list (take r (map length ts))) [0..<length ts + 1])"
proof -
  have "map (\<lambda>(c, n). take n c) (zip (map (\<lambda>t. t @ replicate (Max (set (map length ts)) - length t) zero) ts) (map length ts)) = ts"
    by (simp add: zip_map_map zip_same_conv_map comp_def)
  then show ?thesis unfolding all_gather_rows_def Let_def by simp
qed

abbreviation tokens_of :: "('r list \<times> 'f routing) list \<Rightarrow> nat \<Rightarrow> nat" where
  "tokens_of ranks s \<equiv> length (rt_topk_idx (snd (ranks ! s)))"

definition off_of :: "('r list \<times> 'f routing) list \<Rightarrow> nat \<Rightarrow> nat" where
  "off_of ranks s = sum_list (take s (map (\<lambda>p. length (rt_topk_idx (snd p))) ranks))"

definition local_of :: "nat \<Rightarrow> nat \<Rightarrow> 'f routing \<Rightarrow> int list list" where
  "local_of me E r = map (map (localise (me * E) E)) (rt_topk_idx r)"

lemma length_local_of [simp]: "length (local_of me E r) = length (rt_topk_idx r)"
  by (simp add: local_of_def)

lemma rank_facts:
  assumes "well_routed K E ranks" "s < length ranks"
  shows "length (fst (ranks ! s)) = tokens_of ranks s"
    and "length (rt_topk_weights (snd (ranks ! s))) = tokens_of ranks s"
    and "rt_experts (snd (ranks ! s)) = E * length ranks" "rt_ranks (snd (ranks ! s)) = length ranks"
    and "\<And>row. row \<in> set (rt_topk_idx (snd (ranks ! s))) \<Longrightarrow> length row = K"
    and "\<And>row. row \<in> set (rt_topk_weights (snd (ranks ! s))) \<Longrightarrow> length row = K"
  using assms nth_mem [OF assms(2)] by (auto simp: well_routed_def case_prod_beta)

lemma gather_facts:
  assumes "well_routed K E ranks" and G_def: "G = gather zx zi zw ranks"
  shows "g_x G = concat (map fst ranks)" "g_topk_idx G = concat (map (rt_topk_idx \<circ> snd) ranks)"
    "g_topk_weights G = concat (map (rt_topk_weights \<circ> snd) ranks)" "g_world G = length ranks"
    "num_local_experts G = E" "expert_lo me G = me * E"
    "g_offsets G = map (off_of ranks) [0..<length ranks + 1]"
    "local_topk me G = concat (map (local_of me E \<circ> snd) ranks)"
proof -
  have ne: "ranks \<noteq> []" "0 < length ranks" using assms(1) by (auto simp: well_routed_def)
  have "map length (map fst ranks) = map (\<lambda>p. length (rt_topk_idx (snd p))) ranks"
    using assms(1) by (auto simp: well_routed_def)
  then show "g_offsets G = map (off_of ranks) [0..<length ranks + 1]"
    by (simp only: G_def gather_def all_gather_rows_eq off_of_def [abs_def] Let_def prod.case fst_conv
        global.simps length_map)
  show idx: "g_topk_idx G = concat (map (rt_topk_idx \<circ> snd) ranks)" and "g_x G = concat (map fst ranks)"
      "g_topk_weights G = concat (map (rt_topk_weights \<circ> snd) ranks)" and w: "g_world G = length ranks"
    by (simp_all add: G_def gather_def all_gather_rows_eq)
  have "rt_experts (snd (ranks ! 0)) = E * length ranks" using rank_facts(3) [OF assms(1) ne(2)] .
  then show e: "num_local_experts G = E"
    using ne by (simp add: G_def gather_def all_gather_rows_eq num_local_experts_def hd_conv_nth)
  then show lo: "expert_lo me G = me * E" by (simp add: expert_lo_def)
  show "local_topk me G = concat (map (local_of me E \<circ> snd) ranks)"
    by (simp add: local_topk_def e lo idx map_concat comp_def local_of_def)
qed

text \<open>The global token of source \<open>s\<close>'s token \<open>t\<close>.\<close>

lemma off_of_sum: "off_of ranks s = (\<Sum>xs\<leftarrow>take s (map (rt_topk_idx \<circ> snd) ranks). length xs)"
  by (simp add: off_of_def take_map comp_def)

lemma off_of_lengths:
  assumes "\<And>p. p \<in> set ranks \<Longrightarrow> length (f p) = length (rt_topk_idx (snd p))"
  shows "(\<Sum>xs\<leftarrow>take s (map f ranks). length xs) = off_of ranks s"
proof -
  have "map length (map f ranks) = map (\<lambda>p. length (rt_topk_idx (snd p))) ranks" using assms by auto
  then show ?thesis unfolding off_of_def take_map [symmetric] by metis
qed

lemma nth_gathered:
  assumes "s < length ranks" "t < length (f (ranks ! s))" "\<And>p. p \<in> set ranks \<Longrightarrow> length (f p) = length (rt_topk_idx (snd p))"
  shows "concat (map f ranks) ! (off_of ranks s + t) = f (ranks ! s) ! t"
    and "off_of ranks s + t < length (concat (map f ranks))"
  using nth_concat_prefix [of s "map f ranks" t] assms(1,2) off_of_lengths [where f = f and ranks = ranks and s = s, OF assms(3)]
  by simp_all

lemma token_index:
  assumes "g < length (concat (map (rt_topk_idx \<circ> snd) ranks))"
  obtains s t where "s < length ranks" "t < tokens_of ranks s" "g = off_of ranks s + t"
  using concat_index_exists [OF assms] that by (auto simp: off_of_sum)

section \<open>Channels\<close>

definition lo_of :: "nat \<Rightarrow> nat \<Rightarrow> nat \<Rightarrow> nat" where "lo_of n C c = min (ceil_div n C * c) n"

lemma task_range: "channel_task_range n C c = (lo_of n C c, lo_of n C (c + 1))"
  by (auto simp: channel_task_range_def lo_of_def Let_def min_def algebra_simps)

lemma lo_of_ends: "0 < C \<Longrightarrow> lo_of n C 0 = 0" "0 < C \<Longrightarrow> lo_of n C C = n"
  using ceil_div_mult_ge [of C n] by (simp_all add: lo_of_def)

lemma lo_of_mono: "c \<le> d \<Longrightarrow> lo_of n C c \<le> lo_of n C d"
  by (auto simp: lo_of_def min_le_iff_disj intro: mult_le_mono2)

lemma concat_consecutive:
  fixes f :: "nat \<Rightarrow> nat"
  assumes "\<And>c. c < m \<Longrightarrow> f c \<le> f (Suc c)"
  shows "concat (map (\<lambda>c. [f c..<f (Suc c)]) [0..<m]) = [f 0..<f m] \<and> f 0 \<le> f m"
  using assms
proof (induction m)
  case (Suc m)
  then have IH: "concat (map (\<lambda>c. [f c..<f (Suc c)]) [0..<m]) = [f 0..<f m]" "f 0 \<le> f m" and step: "f m \<le> f (Suc m)" by simp_all
  have "[f 0..<f (Suc m)] = [f 0..<f m] @ [f m..<f (Suc m)]"
    using upt_add_eq_append [OF IH(2), of "f (Suc m) - f m"] step by simp
  with IH step show ?case by simp
qed simp

lemma channels_cover: "concat (map (\<lambda>c. [lo_of n C c..<lo_of n C (c + 1)]) [0..<m]) = [0..<lo_of n C m]"
  using concat_consecutive [of m "lo_of n C"] lo_of_mono [of _ _ n C] by (simp add: lo_of_def)

lemma channel_of:
  assumes "t < n" "c < C"
  shows "lo_of n C c \<le> t \<and> t < lo_of n C (c + 1) \<longleftrightarrow> min (t div ceil_div n C) (C - 1) = c"
proof -
  have per: "0 < ceil_div n C" using assms ceil_div_pos [of C n] by simp
  have "t < C * ceil_div n C" using ceil_div_mult_ge [of C n] assms by (simp add: mult.commute)
  then have "t div ceil_div n C < C" using per by (simp add: div_less_iff_less_mult)
  then have "min (t div ceil_div n C) (C - 1) = t div ceil_div n C" by simp
  moreover have "lo_of n C c \<le> t \<longleftrightarrow> ceil_div n C * c \<le> t" "t < lo_of n C (c + 1) \<longleftrightarrow> t < ceil_div n C * (c + 1)"
    using assms(1) by (auto simp: lo_of_def)
  moreover have "ceil_div n C * c \<le> t \<and> t < ceil_div n C * (c + 1) \<longleftrightarrow> t div ceil_div n C = c"
    using per by (metis Suc_eq_plus1 div_nat_eqI mult.commute split_div' less_eq_div_iff_mult_less_eq
        div_less_iff_less_mult less_Suc_eq_le order_antisym order_refl)
  ultimately show ?thesis by simp
qed

section \<open>Who is sent what\<close>

lemma localise_nonneg:
  assumes "0 < E"
  shows "0 \<le> localise (me * E) E i \<longleftrightarrow> 0 \<le> i \<and> i div int E = int me"
proof -
  have "0 \<le> localise (me * E) E i \<longleftrightarrow> 0 \<le> i \<and> int me * int E \<le> i \<and> i < int me * int E + int E"
    by (auto simp: localise_def Let_def)
  moreover have "int me * int E \<le> i \<and> i < int me * int E + int E \<longleftrightarrow> i div int E = int me"
  proof
    assume "int me * int E \<le> i \<and> i < int me * int E + int E"
    then show "i div int E = int me" by (intro int_div_pos_eq [of _ _ _ "i - int me * int E"]) (auto simp: mult.commute)
  next
    assume "i div int E = int me"
    then have "i = int me * int E + i mod int E" using div_mult_mod_eq [of i "int E"] by simp
    moreover have "0 \<le> i mod int E" "i mod int E < int E" using assms by simp_all
    ultimately show "int me * int E \<le> i \<and> i < int me * int E + int E" by linarith
  qed
  ultimately show ?thesis by simp
qed

lemma localise_bound: "localise lo E i < int E \<or> E = 0"
  by (auto simp: localise_def Let_def)

lemma in_rank_iff:
  assumes "well_routed K E ranks" "s < length ranks" "me < length ranks" "t < tokens_of ranks s"
  shows "is_token_in_rank (snd (ranks ! s)) ! t ! me \<longleftrightarrow> has_local (local_of me E (snd (ranks ! s)) ! t)"
proof -
  have E: "0 < E" "0 < length ranks" using assms by (auto simp: well_routed_def)
  then have "E * length ranks div length ranks = E" by simp
  then show ?thesis using assms rank_facts(3,4) [OF assms(1,2)]
    by (auto simp: is_token_in_rank_def Let_def has_local_def local_of_def list_ex_iff localise_nonneg [OF E(1)] image_iff Bex_def)
qed

lemma packet_topk:
  "map (\<lambda>v. if int (dst * E) \<le> v \<and> v < int ((dst + 1) * E) then v - int (dst * E) else - 1) idx
    = map (localise (dst * E) E) idx"
proof -
  have "0 \<le> v" if "int dst * int E \<le> v" for v using that by (meson of_nat_0_le_iff order_trans zero_le_mult_iff)
  then show ?thesis by (auto simp: localise_def Let_def algebra_simps)
qed

lemma pk_topk_local: "pk_topk (packet_of E dst x idx w) = map (localise (dst * E) E) idx"
  by (simp only: packet_of_def Let_def packet_topk packet.simps)

abbreviation sent :: "nat \<Rightarrow> nat \<Rightarrow> ('r list \<times> 'f routing) list \<Rightarrow> nat \<Rightarrow> nat \<Rightarrow> nat list" where
  "sent C me ranks s c \<equiv> sent_tokens C me c (snd (ranks ! s))"

abbreviation local_at :: "nat \<Rightarrow> nat \<Rightarrow> ('r list \<times> 'f routing) list \<Rightarrow> nat \<Rightarrow> nat \<Rightarrow> int list" where
  "local_at me E ranks s t \<equiv> local_of me E (snd (ranks ! s)) ! t"

lemma sent_filter:
  assumes "well_routed K E ranks" "s < length ranks" "me < length ranks"
  shows "sent C me ranks s c = filter (\<lambda>t. has_local (local_at me E ranks s t))
    [lo_of (tokens_of ranks s) C c..<lo_of (tokens_of ranks s) C (c + 1)]"
  unfolding sent_tokens_def task_range Let_def prod.case
  by (rule filter_cong) (auto simp: in_rank_iff [OF assms] lo_of_def)

lemma start_count_filter:
  assumes "well_routed K E ranks" "s < length ranks" "me < length ranks"
  shows "start_count C me c (snd (ranks ! s)) = (\<Sum>xs\<leftarrow>map (sent C me ranks s) [0..<c]. length xs)"
proof -
  have "start_count C me c (snd (ranks ! s)) = length (filter (\<lambda>t. has_local (local_at me E ranks s t)) [0..<lo_of (tokens_of ranks s) C c])"
    unfolding start_count_def task_range Let_def prod.case
    by (intro arg_cong [of _ _ length] filter_cong) (auto simp: in_rank_iff [OF assms] lo_of_def)
  also have "\<dots> = length (concat (map (sent C me ranks s) [0..<c]))"
    unfolding channels_cover [symmetric] by (simp add: filter_concat comp_def sent_filter [OF assms])
  finally show ?thesis by (simp add: length_concat)
qed

section \<open>Received tokens, in receive order\<close>

lemma off_Suc: "s < length ranks \<Longrightarrow> off_of ranks (Suc s) = off_of ranks s + tokens_of ranks s"
  by (simp add: off_of_def take_Suc_conv_app_nth)

lemma gathered_length: "length (concat (map (rt_topk_idx \<circ> snd) ranks)) = off_of ranks (length ranks)"
  by (simp add: off_of_def length_concat comp_def)

lemma gathered_map:
  assumes "length xs = off_of ranks (length ranks)"
    and "\<And>s t. s < length ranks \<Longrightarrow> t < tokens_of ranks s \<Longrightarrow> xs ! (off_of ranks s + t) = h s t"
  shows "xs = concat (map (\<lambda>s. map (h s) [0..<tokens_of ranks s]) [0..<length ranks])"
proof (rule nth_equalityI)
  let ?yss = "map (\<lambda>s. map (h s) [0..<tokens_of ranks s]) [0..<length ranks]"
  have sum: "(\<Sum>ys\<leftarrow>take s ?yss. length ys) = off_of ranks s" if "s \<le> length ranks" for s
  proof -
    have "map length (take s ?yss) = take s (map (\<lambda>p. length (rt_topk_idx (snd p))) ranks)"
      using that by (intro nth_equalityI) simp_all
    then show ?thesis by (simp add: off_of_def)
  qed
  show len: "length xs = length (concat ?yss)" using assms(1) sum [of "length ranks"] by (simp add: length_concat)
  fix g assume "g < length xs"
  then obtain s t where st: "s < length ranks" "t < tokens_of ranks s" "g = off_of ranks s + t"
    using assms(1) by (auto simp: gathered_length [symmetric] elim: token_index)
  then show "xs ! g = concat ?yss ! g"
    using assms(2) nth_concat_prefix(1) [of s ?yss t] sum [of s] by simp
qed

text \<open>Source, position and channel of a gathered token.\<close>

lemma offsets_diff:
  assumes "g_offsets G = map (off_of ranks) [0..<length ranks + 1]"
  shows "diff (g_offsets G) = map (\<lambda>p. length (rt_topk_idx (snd p))) ranks"
  by (rule nth_equalityI) (simp_all add: assms diff_def nth_tl off_Suc del: upt_Suc)

text \<open>A dispatch: what the ranks pass, the channels, and the receiving rank.\<close>

locale dispatching =
  fixes K E C me :: nat and internode :: bool and ranks :: "('r list \<times> 'f::zero routing) list" and G :: "('f, 'r) global" and zx zi zw
  assumes wr: "well_routed K E ranks" and G: "G = gather zx zi zw ranks"
    and C: "0 < C" and me: "me < length ranks"
begin

lemmas facts = gather_facts [OF wr G]
lemmas rank = rank_facts [OF wr]

abbreviation "W \<equiv> length ranks"
abbreviation "toks \<equiv> tokens_of ranks"
abbreviation "loc \<equiv> local_at me E ranks"
abbreviation "chan s t \<equiv> min (t div ceil_div (toks s) C) (C - 1)"

lemma E: "0 < E" using wr by (simp add: well_routed_def)

lemma gathered_lengths:
  "length (g_x G) = off_of ranks W" "length (g_topk_idx G) = off_of ranks W"
  "length (local_topk me G) = off_of ranks W" "length (token_src G) = off_of ranks W"
proof -
  show "length (g_topk_idx G) = off_of ranks W" by (simp only: facts gathered_length)
  then show "length (local_topk me G) = off_of ranks W" by (simp add: local_topk_def)
  have "map length (map fst ranks) = map (\<lambda>p. length (rt_topk_idx (snd p))) ranks"
    using wr by (auto simp: well_routed_def)
  then show "length (g_x G) = off_of ranks W" by (simp only: facts length_concat off_of_def take_all_iff length_map order_refl take_all)
  show "length (token_src G) = off_of ranks W"
    unfolding token_src_def facts(4) offsets_diff [OF facts(7)]
    by (subst length_repeat_interleave) (simp_all add: off_of_def)
qed

lemma at:
  assumes "s < W" "t < toks s"
  shows "off_of ranks s + t < off_of ranks W"
    and "local_topk me G ! (off_of ranks s + t) = loc s t"
    and "g_x G ! (off_of ranks s + t) = fst (ranks ! s) ! t"
    and "g_topk_weights G ! (off_of ranks s + t) = rt_topk_weights (snd (ranks ! s)) ! t"
    and "token_src G ! (off_of ranks s + t) = s"
    and "token_channel C G ! (off_of ranks s + t) = chan s t"
proof -
  have len: "length (fst p) = length (rt_topk_idx (snd p))" "length (rt_topk_weights (snd p)) = length (rt_topk_idx (snd p))"
    if "p \<in> set ranks" for p using wr that by (auto simp: well_routed_def)
  show bound: "off_of ranks s + t < off_of ranks W"
    using nth_gathered(2) [of s ranks t "rt_topk_idx \<circ> snd"] assms by (simp only: comp_apply gathered_length simp_thms)
  show "local_topk me G ! (off_of ranks s + t) = loc s t"
    unfolding facts(8) using nth_gathered(1) [of s ranks t "local_of me E \<circ> snd"] assms by simp
  show "g_x G ! (off_of ranks s + t) = fst (ranks ! s) ! t"
    unfolding facts(1) using nth_gathered(1) [of s ranks t fst] assms len by simp
  show "g_topk_weights G ! (off_of ranks s + t) = rt_topk_weights (snd (ranks ! s)) ! t"
    unfolding facts(3) using nth_gathered(1) [of s ranks t "rt_topk_weights \<circ> snd"] assms len by simp
  have ns: "diff (g_offsets G) = map (\<lambda>p. length (rt_topk_idx (snd p))) ranks" by (rule offsets_diff [OF facts(7)])
  show src: "token_src G ! (off_of ranks s + t) = s"
    unfolding token_src_def facts(4) ns
    by (subst nth_repeat_interleave [where e = s]) (use assms off_Suc [OF assms(1)] in \<open>simp_all add: off_of_def\<close>)
  have "token_pos G ! (off_of ranks s + t) = t"
    using bound assms(1) src gathered_lengths by (simp add: token_pos_def facts(7) del: upt_Suc)
  then show "token_channel C G ! (off_of ranks s + t) = chan s t"
    using bound assms(1) src gathered_lengths by (simp add: token_channel_def ns token_pos_def ceil_div_def)
qed

lemma tagged_rows:
  "zip (zip (token_channel C G) (token_src G)) (local_topk me G)
    = concat (map (\<lambda>s. map (\<lambda>t. ((chan s t, s), loc s t)) [0..<toks s]) [0..<W])"
  by (rule gathered_map) (use at gathered_lengths in \<open>simp_all add: token_channel_def token_pos_def\<close>)

lemma source_rows:
  "zip (token_src G) (local_topk me G) = concat (map (\<lambda>s. map (\<lambda>t. (s, loc s t)) [0..<toks s]) [0..<W])"
  by (rule gathered_map) (use at gathered_lengths in simp_all)

definition received :: "nat \<Rightarrow> nat list" where
  "received s = filter (\<lambda>t. has_local (loc s t)) [0..<toks s]"

lemma received_channels: "s < W \<Longrightarrow> received s = concat (map (sent C me ranks s) [0..<C])"
  unfolding received_def
  by (subst lo_of_ends(2) [OF C, symmetric], subst channels_cover [symmetric])
    (simp add: sent_filter [OF wr _ me] filter_concat comp_def)

lemma recv_tokens_concat:
  "recv_tokens me G = concat (map (\<lambda>s. map (\<lambda>t. off_of ranks s + t) (received s)) [0..<W])"
proof -
  have "[0..<off_of ranks W] = concat (map (\<lambda>s. map (\<lambda>t. off_of ranks s + t) [0..<toks s]) [0..<W])"
    by (rule gathered_map) (use at in simp_all)
  then have "recv_tokens me G = filter (\<lambda>g. has_local (local_topk me G ! g))
      (concat (map (\<lambda>s. map (\<lambda>t. off_of ranks s + t) [0..<toks s]) [0..<W]))"
    by (simp add: recv_tokens_def gathered_lengths)
  also have "\<dots> = concat (map (\<lambda>s. map (\<lambda>t. off_of ranks s + t) (received s)) [0..<W])"
    unfolding filter_concat map_map comp_def filter_map received_def
    by (intro arg_cong [of _ _ concat] map_cong refl arg_cong [of _ _ "map _"] filter_cong) (simp_all add: at)
  finally show ?thesis .
qed

lemma rank_prefix_received: "rank_prefix_column me G = cumsum 0 (map (\<lambda>s. length (received s)) [0..<W])"
proof -
  have "length (filter (\<lambda>(s', row). s' = s \<and> has_local row) (zip (token_src G) (local_topk me G))) = length (received s)"
    if "s < W" for s
  proof -
    have "length (filter (\<lambda>(s', row). s' = s \<and> has_local row) (zip (token_src G) (local_topk me G)))
        = (\<Sum>s'\<leftarrow>[0..<W]. if s' = s then length (received s) else 0)"
      unfolding source_rows filter_concat length_concat map_map
      by (intro arg_cong [of _ _ sum_list] map_cong refl) (simp add: comp_def filter_map received_def)
    then show ?thesis using that by (simp add: interv_sum_list_conv_sum_set_nat)
  qed
  then show ?thesis
    unfolding rank_prefix_column_def facts(4) by (intro arg_cong [of _ _ "cumsum 0"] map_cong refl) simp
qed

lemma prefix_column:
  "s \<le> W \<Longrightarrow> (if s > 0 then rank_prefix_column me G ! (s - 1) else 0) = (\<Sum>xs\<leftarrow>map received [0..<s]. length xs)"
proof -
  assume s: "s \<le> W"
  note col = rank_prefix_received
  show ?thesis
  proof (cases s)
    case (Suc s')
    then have "cumsum 0 (map (\<lambda>s. length (received s)) [0..<W]) ! s' = sum_list (take s (map (\<lambda>s. length (received s)) [0..<W]))"
      using nth_cumsum [of s "map (\<lambda>s. length (received s)) [0..<W]" 0] s by simp
    then show ?thesis using Suc s by (simp add: col take_map comp_def del: upt_Suc)
  qed simp
qed

definition offset_at :: "nat \<Rightarrow> nat \<Rightarrow> nat" where
  "offset_at s c = (\<Sum>xs\<leftarrow>map received [0..<s]. length xs) + (\<Sum>xs\<leftarrow>map (sent C me ranks s) [0..<c]. length xs)"

lemma recv_offset_at: "s < W \<Longrightarrow> recv_offset C me G ranks (c, s) = offset_at s c"
  using prefix_column [of s] by (simp add: recv_offset_def offset_at_def start_count_filter [OF wr _ me])

lemma take_upt_map: "s \<le> n \<Longrightarrow> take s (map f [0..<n]) = map f [0..<s]"
  by (simp add: take_map)

lemma recv_index:
  assumes "s < W" "c < C" "i < length (sent C me ranks s c)"
  shows "offset_at s c + i < length (recv_tokens me G)"
    and "recv_tokens me G ! (offset_at s c + i) = off_of ranks s + sent C me ranks s c ! i"
proof -
  let ?j = "(\<Sum>xs\<leftarrow>map (sent C me ranks s) [0..<c]. length xs) + i"
  let ?yss = "map (\<lambda>s. map (\<lambda>t. off_of ranks s + t) (received s)) [0..<W]"
  have in_chan: "received s ! ?j = sent C me ranks s c ! i" "?j < length (received s)"
    using nth_concat_prefix [of c "map (sent C me ranks s) [0..<C]" i] assms
    by (simp_all add: received_channels take_map)
  have "(\<Sum>xs\<leftarrow>take s ?yss. length xs) = (\<Sum>xs\<leftarrow>map received [0..<s]. length xs)"
    using assms(1) by (simp add: take_map comp_def)
  then have "concat ?yss ! (offset_at s c + i) = ?yss ! s ! ?j \<and> offset_at s c + i < length (concat ?yss)"
    using nth_concat_prefix [of s ?yss ?j] assms(1) in_chan(2) by (simp add: offset_at_def add.assoc)
  then show "offset_at s c + i < length (recv_tokens me G)"
      "recv_tokens me G ! (offset_at s c + i) = off_of ranks s + sent C me ranks s c ! i"
    using in_chan assms(1) by (simp_all add: recv_tokens_concat)
qed

lemma recv_index_unique:
  assumes "s < W" "c < C" "i < length (sent C me ranks s c)" "s' < W" "c' < C" "i' < length (sent C me ranks s' c')"
    and "offset_at s c + i = offset_at s' c' + i'"
  shows "s = s' \<and> c = c' \<and> i = i'"
proof -
  let ?j = "\<lambda>s c i. (\<Sum>xs\<leftarrow>map (sent C me ranks s) [0..<c]. length xs) + i"
  have in_chan: "?j s c i < length (received s)" if "s < W" "c < C" "i < length (sent C me ranks s c)" for s c i
    using nth_concat_prefix(2) [of c "map (sent C me ranks s) [0..<C]" i] that by (simp add: received_channels take_map)
  have "s = s' \<and> ?j s c i = ?j s' c' i'"
    using assms in_chan by (intro concat_index_unique [of s "map received [0..<W]" _ s'])
      (simp_all add: offset_at_def take_map add.assoc)
  then have eq: "s = s'" "?j s c i = ?j s' c' i'" by auto
  have "c = c' \<and> i = i'"
    using concat_index_unique [of c "map (sent C me ranks s) [0..<C]" i c' i'] assms eq(2)
    unfolding eq(1) by (simp add: take_map)
  then show ?thesis using eq(1) by simp
qed

lemma recv_index_exists:
  assumes "r < length (recv_tokens me G)"
  obtains s c i where "s < W" "c < C" "i < length (sent C me ranks s c)" "r = offset_at s c + i"
proof -
  obtain s j where s: "s < W" "j < length (received s)" "r = (\<Sum>xs\<leftarrow>map received [0..<s]. length xs) + j"
    using concat_index_exists [of r "map (\<lambda>s. map (\<lambda>t. off_of ranks s + t) (received s)) [0..<W]"] assms
    by (auto simp: recv_tokens_concat take_map comp_def)
  obtain c i where "c < C" "i < length (sent C me ranks s c)" "j = (\<Sum>xs\<leftarrow>map (sent C me ranks s) [0..<c]. length xs) + i"
    using concat_index_exists [of j "map (sent C me ranks s) [0..<C]"] s by (auto simp: received_channels take_map)
  then show thesis using that s by (simp add: offset_at_def add.assoc)
qed

lemma recv_count: "last (0 # rank_prefix_column me G) = length (recv_tokens me G)"
proof -
  have "length (rank_prefix_column me G) = W" by (simp add: rank_prefix_column_def facts(4))
  then have "last (0 # rank_prefix_column me G) = rank_prefix_column me G ! (W - 1)"
    using me by (auto simp: last_conv_nth)
  then show ?thesis using prefix_column [of W] me by (cases "ranks = []") (simp_all add: recv_tokens_concat length_concat comp_def)
qed

section \<open>Slots of all substreams\<close>

lemma seen_is_routed:
  assumes "s < W"
  shows "seen_per_substream C me G (c, s) e = (\<Sum>t\<leftarrow>[0..<toks s]. if chan s t = c then count_list (loc s t) (int e) else 0)"
proof -
  let ?n = "\<lambda>s t. count_list (loc s t) (int e)"
  have "seen_per_substream C me G (c, s) e = (\<Sum>s'\<leftarrow>[0..<W]. \<Sum>t\<leftarrow>[0..<toks s']. if (chan s' t, s') = (c, s) then ?n s' t else 0)"
    by (simp add: seen_per_substream_def local_entries_def tagged_rows map_concat count_list_concat comp_def
        count_list_pairs count_list_nonneg sum_list_concat' cong: if_cong)
  also have "\<dots> = (\<Sum>s'\<leftarrow>[0..<W]. if s' = s then \<Sum>t\<leftarrow>[0..<toks s]. if chan s t = c then ?n s t else 0 else 0)"
    by (intro arg_cong [of _ _ sum_list] map_cong refl) (simp cong: if_cong)
  also have "\<dots> = (\<Sum>t\<leftarrow>[0..<toks s]. if chan s t = c then ?n s t else 0)"
    using assms by (simp add: interv_sum_list_conv_sum_set_nat)
  finally show ?thesis .
qed

lemma seen_is_sent:
  assumes "s < W" "c < C"
  shows "seen_per_substream C me G (c, s) e = count_list (concat (map (loc s) (sent C me ranks s c))) (int e)"
proof -
  let ?n = "\<lambda>s t. count_list (loc s t) (int e)"
  have none: "?n s t = 0" if "\<not> has_local (loc s t)" for t
    using that by (auto simp: has_local_def list_ex_iff count_list_0_iff)
  have "seen_per_substream C me G (c, s) e = (\<Sum>t\<leftarrow>[0..<toks s]. if chan s t = c then ?n s t else 0)"
    by (rule seen_is_routed [OF assms(1)])
  also have "\<dots> = (\<Sum>t\<leftarrow>filter (\<lambda>t. lo_of (toks s) C c \<le> t \<and> t < lo_of (toks s) C (c + 1)) [0..<toks s]. ?n s t)"
    unfolding sum_list_map_filter' by (intro arg_cong [of _ _ sum_list] map_cong refl) (subst channel_of, use assms in simp_all)
  also have "filter (\<lambda>t. lo_of (toks s) C c \<le> t \<and> t < lo_of (toks s) C (c + 1)) [0..<toks s]
      = [lo_of (toks s) C c..<lo_of (toks s) C (c + 1)]"
    by (rule sorted_distinct_set_unique) (auto simp: lo_of_def sorted_wrt_filter)
  also have "(\<Sum>t\<leftarrow>[lo_of (toks s) C c..<lo_of (toks s) C (c + 1)]. ?n s t) = (\<Sum>t\<leftarrow>sent C me ranks s c. ?n s t)"
    unfolding sent_filter [OF wr assms(1) me] by (rule sum_list_filter_zero [symmetric]) (simp add: none)
  finally show ?thesis by (simp add: count_list_concat comp_def)
qed

abbreviation "order \<equiv> substream_order C me internode G"
abbreviation "seen_at cs e \<equiv> seen_per_substream C me G cs e"
abbreviation "base_at \<equiv> base_pool C me internode G"
abbreviation "freq \<equiv> expert_freq C me G"
abbreviation "start e \<equiv> block_offset freq ! e * TILE_M"

lemma set_order [simp]: "set order = {0..<C} \<times> {0..<W}" and distinct_order: "distinct order"
  by (simp_all add: substream_order_def Let_def facts(4) distinct_product)

lemma length_freq [simp]: "length freq = E"
  by (simp add: expert_freq_def facts(5))

lemma freq_at: "e < E \<Longrightarrow> freq ! e = (\<Sum>cs\<leftarrow>order. seen_at cs e)"
  unfolding expert_freq_def facts(4,5)
  by (simp add: sum_list_distinct_conv_sum_set distinct_order distinct_product case_prod_beta)

definition rows_at :: "substream \<Rightarrow> int list list" where
  "rows_at cs = map (loc (snd cs)) (sent C me ranks (snd cs) (fst cs))"

definition slots_at :: "substream \<Rightarrow> int list list" where
  "slots_at cs = fst (slot_rows (base_at cs) E (rows_at cs) (\<lambda>_. 0))"

lemma packet_rows: "map pk_topk (packets C E me c (ranks ! s)) = rows_at (c, s)"
proof -
  have "pk_topk (packet_of E me (fst (ranks ! s) ! t) (rt_topk_idx (snd (ranks ! s)) ! t)
      (rt_topk_weights (snd (ranks ! s)) ! t)) = loc s t" if "t \<in> set (sent C me ranks s c)" for t
    using that by (auto simp: pk_topk_local local_of_def sent_tokens_def task_range lo_of_def)
  then show ?thesis by (simp add: packets_def case_prod_beta rows_at_def)
qed

lemma row_length: "s < W \<Longrightarrow> t < toks s \<Longrightarrow> length (loc s t) = K"
  using rank(5) [of s "rt_topk_idx (snd (ranks ! s)) ! t"] by (simp add: local_of_def)

lemma sent_bound: "t \<in> set (sent C me ranks s c) \<Longrightarrow> t < toks s"
  by (auto simp: sent_tokens_def task_range lo_of_def)

lemma rows_at_length: "cs \<in> set order \<Longrightarrow> row \<in> set (rows_at cs) \<Longrightarrow> length row = K"
  by (auto simp: rows_at_def row_length sent_bound)

lemma entry_bound:
  assumes "cs \<in> set order" "i < length (rows_at cs)" "k < K"
  shows "rows_at cs ! i ! k < int E"
proof -
  define t where "t = sent C me ranks (snd cs) (fst cs) ! i"
  have t: "t < toks (snd cs)" unfolding t_def using assms(2) by (intro sent_bound [where c = "fst cs"] nth_mem) (simp add: rows_at_def)
  then have "length (rt_topk_idx (snd (ranks ! snd cs)) ! t) = K" using row_length [of "snd cs" t] assms(1) by (auto simp: local_of_def)
  then show ?thesis using assms t localise_bound [of "me * E" E] E by (simp add: rows_at_def t_def [symmetric] local_of_def)
qed

lemma slots_at_length [simp]: "length (slots_at cs) = length (rows_at cs)"
  by (simp add: slots_at_def)

lemma slots_at_row: "cs \<in> set order \<Longrightarrow> i < length (rows_at cs) \<Longrightarrow> length (slots_at cs ! i) = K"
  using rows_at_length [of cs "rows_at cs ! i"] by (simp add: slots_at_def slot_rows_nth_length)

definition entries_at :: "nat \<Rightarrow> (substream \<times> nat \<times> nat) list" where
  "entries_at e = concat (map (\<lambda>cs. map (Pair cs) (filter (\<lambda>(i, k). rows_at cs ! i ! k = int e)
     (List.product [0..<length (rows_at cs)] [0..<K]))) order)"

lemma slots_of_substream:
  assumes "cs \<in> set order" "e < E"
  shows "map (\<lambda>(i, k). slots_at cs ! i ! k) (filter (\<lambda>(i, k). rows_at cs ! i ! k = int e) (List.product [0..<length (rows_at cs)] [0..<K]))
    = map int [base_at cs e..<base_at cs e + seen_at cs e]"
proof -
  let ?ps = "List.product [0..<length (rows_at cs)] [0..<K]"
  have rows: "concat (rows_at cs) = map (\<lambda>(i, k). rows_at cs ! i ! k) ?ps"
    using concat_matrix [of "rows_at cs" K] rows_at_length [OF assms(1)] by simp
  have slots: "concat (slots_at cs) = map (\<lambda>(i, k). slots_at cs ! i ! k) ?ps"
    using concat_matrix [of "slots_at cs" K] slots_at_row [OF assms(1)] by (auto simp: in_set_conv_nth)
  have "seen_at cs e = count_list (concat (rows_at cs)) (int e)"
    using assms(1) by (auto simp: seen_is_sent rows_at_def)
  then have "map int [base_at cs e..<base_at cs e + seen_at cs e]
      = map fst (filter (\<lambda>p. snd p = int e) (zip (concat (slots_at cs)) (concat (rows_at cs))))"
    using slot_rows_slots [OF assms(2), of "base_at cs" "rows_at cs" "\<lambda>_. 0"] by (simp add: slots_at_def)
  then show ?thesis by (simp add: rows slots zip_map_map zip_same_conv_map filter_map comp_def case_prod_beta')
qed

lemma slots_of_expert:
  assumes "e < E"
  shows "map (\<lambda>(cs, i, k). slots_at cs ! i ! k) (entries_at e) = map int [start e..<start e + freq ! e]"
proof -
  have "map (\<lambda>(cs, i, k). slots_at cs ! i ! k) (entries_at e)
      = concat (map (\<lambda>cs. map (\<lambda>(i, k). slots_at cs ! i ! k) (filter (\<lambda>(i, k). rows_at cs ! i ! k = int e)
          (List.product [0..<length (rows_at cs)] [0..<K]))) order)"
    by (simp add: entries_at_def map_concat comp_def case_prod_beta')
  also have "\<dots> = concat (map (\<lambda>cs. map int [base_at cs e..<base_at cs e + seen_at cs e]) order)"
    using slots_of_substream [OF _ assms] by (intro arg_cong [of _ _ concat] map_cong refl) simp
  also have "\<dots> = map int (concat (map (\<lambda>cs. [base_at cs e..<base_at cs e + seen_at cs e]) order))"
    by (simp add: map_concat comp_def)
  also have "concat (map (\<lambda>cs. [base_at cs e..<base_at cs e + seen_at cs e]) order) = [start e..<start e + freq ! e]"
    using concat_intervals [OF distinct_order, of "start e" "\<lambda>cs. seen_at cs e"]
    by (simp add: base_pool_def freq_at [OF assms])
  finally show ?thesis .
qed

end

end
