(* ===== verification/Dispatch_Memory.thy ===== *)
theory Dispatch_Memory
  imports Dispatch_Slots "HOL-Library.Multiset"
begin

text \<open>
  The memory a dispatch leaves (\<^theory_text>\<open>Dispatch_Layout\<close>): the slots of all local entries are distinct and fill each
  expert's run, so the receivers' stores never collide and their order does not matter; what each array then
  holds, and what the release-adds have counted.
\<close>

section \<open>One packet's stores\<close>

lemma enumerate_map: "enumerate 0 xs = map (\<lambda>k. (k, xs ! k)) [0..<length xs]"
  by (rule nth_equalityI) (simp_all add: nth_enumerate_eq)

lemma row_store: "PoolRow s x \<in> set (packet_stores r slots p) \<longleftrightarrow> (\<exists>k<length slots. 0 \<le> slots ! k \<and> s = nat (slots ! k) \<and> x = pk_x p)"
  by (auto simp: packet_stores_def Let_def enumerate_map split: if_splits)

lemma weight_store: "PoolWeight s w \<in> set (packet_stores r slots p)
    \<longleftrightarrow> (\<exists>k<length slots. 0 \<le> slots ! k \<and> s = nat (slots ! k) \<and> w = pk_weights p ! k)"
  by (auto simp: packet_stores_def Let_def enumerate_map split: if_splits)

lemma recv_store: "PoolRecvToken s r' \<in> set (packet_stores r slots p)
    \<longleftrightarrow> (\<exists>k<length slots. 0 \<le> slots ! k \<and> s = nat (slots ! k) \<and> r' = r)"
  by (auto simp: packet_stores_def Let_def enumerate_map split: if_splits)

lemma k_store: "PoolKSlot s k' \<in> set (packet_stores r slots p)
    \<longleftrightarrow> (\<exists>k<length slots. 0 \<le> slots ! k \<and> s = nat (slots ! k) \<and> k' = k)"
  by (auto simp: packet_stores_def Let_def enumerate_map split: if_splits)

lemma token_store: "TokenSlots r' sl \<in> set (packet_stores r slots p) \<longleftrightarrow> r' = r \<and> sl = slots"
  by (auto simp: packet_stores_def Let_def enumerate_map split: if_splits)

lemma count_store: "KLocal r' n \<in> set (packet_stores r slots p) \<longleftrightarrow> r' = r \<and> n = length (filter (\<lambda>s. \<not> s < 0) slots) \<and> 0 < n"
  by (auto simp: packet_stores_def Let_def enumerate_map split: if_splits)

text \<open>A cell after stores that agree on what they put there.\<close>

lemma foldl_cell:
  assumes "\<And>st m. st \<in> set sts \<Longrightarrow> get (apply_store m st) = (if hit st then v else get m)"
  shows "get (foldl apply_store m sts) = (if \<exists>st \<in> set sts. hit st then v else get m)"
  using assms by (induction sts arbitrary: m) (simp_all cong: if_cong)

context dispatching
begin

section \<open>Slots are distinct and fill the experts' runs\<close>

definition lands :: "substream \<Rightarrow> nat \<Rightarrow> nat \<Rightarrow> bool" where
  "lands cs i k \<longleftrightarrow> cs \<in> set order \<and> i < length (rows_at cs) \<and> k < K \<and> 0 \<le> rows_at cs ! i ! k"

definition landed_slot :: "substream \<Rightarrow> nat \<Rightarrow> nat \<Rightarrow> nat" where "landed_slot cs i k = nat (slots_at cs ! i ! k)"

definition expert_of :: "substream \<Rightarrow> nat \<Rightarrow> nat \<Rightarrow> nat" where "expert_of cs i k = nat (rows_at cs ! i ! k)"

lemma set_entries_at:
  "(cs, i, k) \<in> set (entries_at e) \<longleftrightarrow> lands cs i k \<and> expert_of cs i k = e"
  by (auto simp: entries_at_def lands_def expert_of_def image_iff simp del: set_order)

lemma expert_bound: "lands cs i k \<Longrightarrow> expert_of cs i k < E"
  using entry_bound [of cs i k] by (simp add: lands_def expert_of_def nat_less_iff)

lemma slots_at_sign:
  assumes "cs \<in> set order" "i < length (rows_at cs)" "k < K"
  shows "slots_at cs ! i ! k = (if lands cs i k then int (landed_slot cs i k) else - 1)"
proof -
  have len: "length (rows_at cs ! i) = K" using rows_at_length assms by simp
  then show ?thesis
    using assms slot_rows_sign [of i "rows_at cs" k "base_at cs" E "\<lambda>_. 0"] slot_rows_none [of i "rows_at cs" k E "base_at cs" "\<lambda>_. 0"]
      entry_bound [OF assms] by (auto simp: lands_def landed_slot_def slots_at_def)
qed

lemma slots_of_expert':
  assumes "e < E"
  shows "map (\<lambda>(cs, i, k). landed_slot cs i k) (entries_at e) = [start e..<start e + freq ! e]"
proof -
  have "map nat (map (\<lambda>(cs, i, k). slots_at cs ! i ! k) (entries_at e)) = [start e..<start e + freq ! e]"
    unfolding slots_of_expert [OF assms] by (simp add: comp_def)
  then show ?thesis by (simp add: landed_slot_def comp_def case_prod_beta')
qed

lemma run_fits:
  assumes "e < E" shows "start e + freq ! e \<le> start (Suc e)"
proof -
  have "freq ! e \<le> (freq ! e + TILE_M - 1) div TILE_M * TILE_M"
    using ceil_div_mult_ge [of TILE_M "freq ! e"] by (simp add: ceil_div_def TILE_M_def)
  then show ?thesis using tiles_of_expert [of e freq] assms by (simp add: add_mult_distrib)
qed

lemma start_mono: "e \<le> e' \<Longrightarrow> e' \<le> E \<Longrightarrow> start e \<le> start e'"
  using layout.off_mono [of e e' freq] by (simp add: mult_le_mono1)

lemma run_below: "e < E \<Longrightarrow> start e + freq ! e \<le> total_tiles freq * TILE_M"
proof -
  assume e: "e < E"
  have "start E = total_tiles freq * TILE_M" using layout.off_last_nth [of freq] by simp
  then show ?thesis using run_fits [OF e] start_mono [of "Suc e" E] e by linarith
qed

lemma slot_range:
  assumes "lands cs i k"
  shows "start (expert_of cs i k) \<le> landed_slot cs i k" "landed_slot cs i k < start (expert_of cs i k) + freq ! expert_of cs i k"
proof -
  let ?e = "expert_of cs i k"
  have "(cs, i, k) \<in> set (entries_at ?e)" using assms by (simp add: set_entries_at)
  then have "(\<lambda>(cs, i, k). landed_slot cs i k) (cs, i, k) \<in> set (map (\<lambda>(cs, i, k). landed_slot cs i k) (entries_at ?e))"
    unfolding set_map by (rule imageI)
  then have "landed_slot cs i k \<in> set (map (\<lambda>(cs, i, k). landed_slot cs i k) (entries_at ?e))" by simp
  then show "start ?e \<le> landed_slot cs i k" and "landed_slot cs i k < start ?e + freq ! ?e"
    unfolding slots_of_expert' [OF expert_bound [OF assms]] by simp_all
qed

lemma slot_onto:
  assumes "e < E" "start e \<le> s" "s < start e + freq ! e"
  obtains cs i k where "lands cs i k" "expert_of cs i k = e" "landed_slot cs i k = s"
proof -
  have "s \<in> set (map (\<lambda>(cs, i, k). landed_slot cs i k) (entries_at e))"
    using assms by (simp add: slots_of_expert')
  then show thesis using that by (auto simp: set_entries_at)
qed

lemma same_slot_same_expert:
  assumes "e < E" "e' < E" "start e \<le> s" "s < start e + freq ! e" "start e' \<le> s" "s < start e' + freq ! e'"
  shows "e = e'"
proof -
  have "\<not> e < e'" if "e < E" "e' < E" "s < start e + freq ! e" "start e' \<le> s" for e e'
  proof
    assume "e < e'"
    then have "start e + freq ! e \<le> start e'" using that(2)
      by (intro order_trans [OF run_fits [OF that(1)] start_mono]) simp_all
    then show False using that by linarith
  qed
  from this [of e e'] this [of e' e] show ?thesis using assms by linarith
qed

lemma slot_inj:
  assumes "lands cs i k" "lands cs' i' k'" "landed_slot cs i k = landed_slot cs' i' k'"
  shows "cs = cs' \<and> i = i' \<and> k = k'"
proof -
  have e: "expert_of cs i k = expert_of cs' i' k'"
    using same_slot_same_expert expert_bound slot_range assms by metis
  have "distinct (map (\<lambda>(cs, i, k). landed_slot cs i k) (entries_at (expert_of cs i k)))"
    using expert_bound [OF assms(1)] by (simp add: slots_of_expert')
  then have "inj_on (\<lambda>(cs, i, k). landed_slot cs i k) (set (entries_at (expert_of cs i k)))" by (simp add: distinct_map)
  from inj_onD [OF this, of "(cs, i, k)" "(cs', i', k')"] show ?thesis using assms e by (simp add: set_entries_at)
qed

section \<open>All stores, in any order\<close>

definition packet_at :: "substream \<Rightarrow> nat \<Rightarrow> ('f, 'r) packet" where
  "packet_at cs i = packets C E me (fst cs) (ranks ! snd cs) ! i"

definition recv_at :: "substream \<Rightarrow> nat \<Rightarrow> nat" where "recv_at cs i = offset_at (snd cs) (fst cs) + i"

lemma packets_length: "length (packets C E me (fst cs) (ranks ! snd cs)) = length (rows_at cs)"
  using arg_cong [OF packet_rows [of "fst cs" "snd cs"], of length] by simp

lemma receiver_stores:
  assumes "cs \<in> set order"
  shows "set (fst (run_receiver C me internode G ranks cs))
    = (\<Union>i<length (rows_at cs). set (packet_stores (recv_at cs i) (slots_at cs ! i) (packet_at cs i)))"
proof -
  have off: "recv_offset C me G ranks cs = offset_at (snd cs) (fst cs)"
    using recv_offset_at [of "snd cs" "fst cs"] assms by auto
  have "fst (run_receiver C me internode G ranks cs)
      = fst (receive (base_at cs) E (recv_offset C me G ranks cs) (packets C E me (fst cs) (ranks ! snd cs)) (\<lambda>_. 0))"
    by (simp add: run_receiver_def Let_def case_prod_beta facts(5))
  then show ?thesis
    using packet_rows [of "fst cs" "snd cs"] packets_length [of cs]
    by (auto simp: receive_stores slots_at_def off recv_at_def packet_at_def enumerate_map)
qed

definition all_stores :: "('f, 'r) store set" where
  "all_stores = (\<Union>cs \<in> set order. set (fst (run_receiver C me internode G ranks cs)))"

lemma all_stores_mem:
  "st \<in> all_stores \<longleftrightarrow> (\<exists>cs i. cs \<in> set order \<and> i < length (rows_at cs)
    \<and> st \<in> set (packet_stores (recv_at cs i) (slots_at cs ! i) (packet_at cs i)))"
  unfolding all_stores_def using receiver_stores by (auto simp del: set_order)

text \<open>A slot store belongs to the entry that landed there.\<close>

lemma slot_store:
  assumes "cs \<in> set order" "i < length (rows_at cs)" "k < length (slots_at cs ! i)" "0 \<le> slots_at cs ! i ! k"
  shows "lands cs i k \<and> nat (slots_at cs ! i ! k) = landed_slot cs i k"
  using slots_at_sign [of cs i k] slots_at_row [OF assms(1,2)] assms by (auto split: if_splits)

lemma lands_store: "lands cs i k \<Longrightarrow> k < length (slots_at cs ! i) \<and> 0 \<le> slots_at cs ! i ! k \<and> nat (slots_at cs ! i ! k) = landed_slot cs i k"
  using slots_at_sign [of cs i k] slots_at_row [of cs i] by (auto simp: lands_def split: if_splits)

lemma same_recv:
  assumes "cs \<in> set order" "cs' \<in> set order" "i < length (rows_at cs)" "i' < length (rows_at cs')" "recv_at cs i = recv_at cs' i'"
  shows "cs = cs' \<and> i = i'"
  using recv_index_unique [of "snd cs" "fst cs" i "snd cs'" "fst cs'" i'] assms
  by (auto simp: rows_at_def recv_at_def prod_eq_iff)

lemma slot_owner:
  assumes "lands cs i k"
  shows "(\<exists>cs' i'. cs' \<in> set order \<and> i' < length (rows_at cs') \<and> (\<exists>k'<length (slots_at cs' ! i').
      0 \<le> slots_at cs' ! i' ! k' \<and> landed_slot cs i k = nat (slots_at cs' ! i' ! k') \<and> P cs' i' k')) \<longleftrightarrow> P cs i k"
proof
  assume "P cs i k"
  then show "\<exists>cs' i'. cs' \<in> set order \<and> i' < length (rows_at cs') \<and> (\<exists>k'<length (slots_at cs' ! i').
      0 \<le> slots_at cs' ! i' ! k' \<and> landed_slot cs i k = nat (slots_at cs' ! i' ! k') \<and> P cs' i' k')"
    using lands_store [OF assms] assms unfolding lands_def by metis
next
  assume "\<exists>cs' i'. cs' \<in> set order \<and> i' < length (rows_at cs') \<and> (\<exists>k'<length (slots_at cs' ! i').
      0 \<le> slots_at cs' ! i' ! k' \<and> landed_slot cs i k = nat (slots_at cs' ! i' ! k') \<and> P cs' i' k')"
  then obtain cs' i' k' where c: "cs' \<in> set order" "i' < length (rows_at cs')" "k' < length (slots_at cs' ! i')"
      "0 \<le> slots_at cs' ! i' ! k'" "landed_slot cs i k = nat (slots_at cs' ! i' ! k')" "P cs' i' k'" by blast
  then show "P cs i k" using slot_store [OF c(1-4)] slot_inj [OF assms, of cs' i' k'] by auto
qed

text \<open>What the memory holds after all stores, in whatever order they took effect.\<close>

definition stored :: "('f, 'r) pool_mem \<Rightarrow> ('f, 'r) pool_mem \<Rightarrow> bool" where
  "stored m0 m \<longleftrightarrow> (\<exists>sts. set sts = all_stores \<and> m = foldl apply_store m0 sts)"

lemma stored_cell:
  assumes "stored m0 m"
    and "\<And>st m. st \<in> all_stores \<Longrightarrow> get (apply_store m st) = (if hit st then v else get m)"
    and "st \<in> all_stores" "hit st"
  shows "get m = v"
proof -
  obtain sts where "set sts = all_stores" "m = foldl apply_store m0 sts" using assms(1) by (auto simp: stored_def)
  then show ?thesis using assms(3,4) foldl_cell [of sts get hit v m0] assms(2) by auto
qed

lemma untouched_cell:
  assumes "stored m0 m" "\<And>st m. st \<in> all_stores \<Longrightarrow> get (apply_store m st) = get m"
  shows "get m = get m0"
proof -
  obtain sts where "set sts = all_stores" "m = foldl apply_store m0 sts" using assms(1) by (auto simp: stored_def)
  then show ?thesis using foldl_cell [of sts get "\<lambda>_. False" "get m0" m0] assms(2) by auto
qed

lemma stored_pool:
  assumes "stored m0 m" "lands cs i k"
  shows "m_pool m (landed_slot cs i k) = pk_x (packet_at cs i)"
proof (rule stored_cell [OF assms(1), where hit = "\<lambda>st. \<exists>x. st = PoolRow (landed_slot cs i k) x"])
  have own: "PoolRow (landed_slot cs i k) x \<in> all_stores \<longleftrightarrow> x = pk_x (packet_at cs i)" for x
    unfolding all_stores_mem row_store by (rule slot_owner [OF assms(2)])
  then show "PoolRow (landed_slot cs i k) (pk_x (packet_at cs i)) \<in> all_stores" by simp
  fix st :: "('f, 'r) store" and m :: "('f, 'r) pool_mem"
  assume "st \<in> all_stores"
  then show "m_pool (apply_store m st) (landed_slot cs i k)
      = (if \<exists>x. st = PoolRow (landed_slot cs i k) x then pk_x (packet_at cs i) else m_pool m (landed_slot cs i k))"
    using own by (cases st) auto
qed simp

lemma stored_weight:
  assumes "stored m0 m" "lands cs i k"
  shows "m_weight m (landed_slot cs i k) = pk_weights (packet_at cs i) ! k"
proof (rule stored_cell [OF assms(1), where hit = "\<lambda>st. \<exists>w. st = PoolWeight (landed_slot cs i k) w"])
  have own: "PoolWeight (landed_slot cs i k) w \<in> all_stores \<longleftrightarrow> w = pk_weights (packet_at cs i) ! k" for w
    unfolding all_stores_mem weight_store by (rule slot_owner [OF assms(2)])
  then show "PoolWeight (landed_slot cs i k) (pk_weights (packet_at cs i) ! k) \<in> all_stores" by simp
  fix st :: "('f, 'r) store" and m :: "('f, 'r) pool_mem"
  assume "st \<in> all_stores"
  then show "m_weight (apply_store m st) (landed_slot cs i k)
      = (if \<exists>w. st = PoolWeight (landed_slot cs i k) w then pk_weights (packet_at cs i) ! k else m_weight m (landed_slot cs i k))"
    using own by (cases st) auto
qed simp

lemma stored_recv:
  assumes "stored m0 m" "lands cs i k"
  shows "m_recv m (landed_slot cs i k) = int (recv_at cs i)"
proof (rule stored_cell [OF assms(1), where hit = "\<lambda>st. \<exists>r. st = PoolRecvToken (landed_slot cs i k) r"])
  have own: "PoolRecvToken (landed_slot cs i k) r \<in> all_stores \<longleftrightarrow> r = recv_at cs i" for r
    unfolding all_stores_mem recv_store by (rule slot_owner [OF assms(2)])
  then show "PoolRecvToken (landed_slot cs i k) (recv_at cs i) \<in> all_stores" by simp
  fix st :: "('f, 'r) store" and m :: "('f, 'r) pool_mem"
  assume "st \<in> all_stores"
  then show "m_recv (apply_store m st) (landed_slot cs i k)
      = (if \<exists>r. st = PoolRecvToken (landed_slot cs i k) r then int (recv_at cs i) else m_recv m (landed_slot cs i k))"
    using own by (cases st) auto
qed simp

lemma stored_k:
  assumes "stored m0 m" "lands cs i k"
  shows "m_k m (landed_slot cs i k) = int k"
proof (rule stored_cell [OF assms(1), where hit = "\<lambda>st. \<exists>r. st = PoolKSlot (landed_slot cs i k) r"])
  have own: "PoolKSlot (landed_slot cs i k) r \<in> all_stores \<longleftrightarrow> r = k" for r
    unfolding all_stores_mem k_store by (rule slot_owner [OF assms(2)])
  then show "PoolKSlot (landed_slot cs i k) k \<in> all_stores" by simp
  fix st :: "('f, 'r) store" and m :: "('f, 'r) pool_mem"
  assume "st \<in> all_stores"
  then show "m_k (apply_store m st) (landed_slot cs i k)
      = (if \<exists>r. st = PoolKSlot (landed_slot cs i k) r then int k else m_k m (landed_slot cs i k))"
    using own by (cases st) auto
qed simp

lemma padding_slot:
  assumes "stored m0 m" "\<And>cs i k. lands cs i k \<Longrightarrow> landed_slot cs i k \<noteq> s"
  shows "m_recv m s = m_recv m0 s" "m_k m s = m_k m0 s" "m_weight m s = m_weight m0 s"
proof -
  have no: "\<not> (\<exists>k'<length (slots_at cs ! i). 0 \<le> slots_at cs ! i ! k' \<and> s = nat (slots_at cs ! i ! k') \<and> P k')"
    if "cs \<in> set order" "i < length (rows_at cs)" for cs i P
    using slot_store [OF that] assms(2) by metis
  have "PoolRecvToken s r \<notin> all_stores" "PoolKSlot s r \<notin> all_stores" "PoolWeight s w \<notin> all_stores" for r w
    unfolding all_stores_mem recv_store k_store weight_store using no by blast+
  then have "m_recv (apply_store m st) s = m_recv m s \<and> m_k (apply_store m st) s = m_k m s \<and> m_weight (apply_store m st) s = m_weight m s"
    if "st \<in> all_stores" for st and m :: "('f, 'r) pool_mem" using that by (cases st) auto
  then show "m_recv m s = m_recv m0 s" "m_k m s = m_k m0 s" "m_weight m s = m_weight m0 s"
    using untouched_cell [OF assms(1), of "\<lambda>m. m_recv m s"] untouched_cell [OF assms(1), of "\<lambda>m. m_k m s"]
      untouched_cell [OF assms(1), of "\<lambda>m. m_weight m s"] by simp_all
qed

lemma recv_owner:
  assumes "cs \<in> set order" "i < length (rows_at cs)"
  shows "(\<exists>cs' i'. cs' \<in> set order \<and> i' < length (rows_at cs') \<and> recv_at cs i = recv_at cs' i' \<and> P cs' i') \<longleftrightarrow> P cs i"
  using same_recv [OF assms(1) _ assms(2)] assms by blast

lemma stored_slots:
  assumes "stored m0 m" "cs \<in> set order" "i < length (rows_at cs)"
  shows "m_slots m (recv_at cs i) = slots_at cs ! i"
proof (rule stored_cell [OF assms(1), where hit = "\<lambda>st. \<exists>sl. st = TokenSlots (recv_at cs i) sl"])
  have own: "TokenSlots (recv_at cs i) sl \<in> all_stores \<longleftrightarrow> sl = slots_at cs ! i" for sl
    unfolding all_stores_mem token_store by (rule recv_owner [OF assms(2,3)])
  then show "TokenSlots (recv_at cs i) (slots_at cs ! i) \<in> all_stores" by simp
  fix st :: "('f, 'r) store" and m :: "('f, 'r) pool_mem"
  assume "st \<in> all_stores"
  then show "m_slots (apply_store m st) (recv_at cs i)
      = (if \<exists>sl. st = TokenSlots (recv_at cs i) sl then slots_at cs ! i else m_slots m (recv_at cs i))"
    using own by (cases st) auto
qed simp

lemma stored_counts:
  assumes "stored m0 m" "cs \<in> set order" "i < length (rows_at cs)"
    and "m_total m0 (recv_at cs i) = 0" "m_remaining m0 (recv_at cs i) = 0"
  defines "n \<equiv> length (filter (\<lambda>s. \<not> s < 0) (slots_at cs ! i))"
  shows "m_total m (recv_at cs i) = n" "m_remaining m (recv_at cs i) = n"
proof -
  have "KLocal (recv_at cs i) q \<in> all_stores \<longleftrightarrow> q = n \<and> 0 < q" for q
    unfolding all_stores_mem count_store n_def by (rule recv_owner [OF assms(2,3)])
  then have own: "KLocal (recv_at cs i) q \<in> all_stores \<longleftrightarrow> q = n \<and> 0 < n" for q by auto
  have step: "m_total (apply_store m st) (recv_at cs i) = (if \<exists>q. st = KLocal (recv_at cs i) q then n else m_total m (recv_at cs i))
      \<and> m_remaining (apply_store m st) (recv_at cs i) = (if \<exists>q. st = KLocal (recv_at cs i) q then n else m_remaining m (recv_at cs i))"
    if "st \<in> all_stores" for st and m :: "('f, 'r) pool_mem" using that own by (cases st) auto
  show "m_total m (recv_at cs i) = n"
  proof (cases "0 < n")
    case True
    then show ?thesis using own step
      by (intro stored_cell [OF assms(1), where hit = "\<lambda>st. \<exists>q. st = KLocal (recv_at cs i) q" and st = "KLocal (recv_at cs i) n"
            and get = "\<lambda>m. m_total m (recv_at cs i)" and v = n]) simp_all
  next
    case False
    then have "m_total m (recv_at cs i) = m_total m0 (recv_at cs i)"
      using own step by (intro untouched_cell [OF assms(1), of "\<lambda>m. m_total m (recv_at cs i)"]) auto
    then show ?thesis using False assms(4) by simp
  qed
  show "m_remaining m (recv_at cs i) = n"
  proof (cases "0 < n")
    case True
    then show ?thesis using own step
      by (intro stored_cell [OF assms(1), where hit = "\<lambda>st. \<exists>q. st = KLocal (recv_at cs i) q" and st = "KLocal (recv_at cs i) n"
            and get = "\<lambda>m. m_remaining m (recv_at cs i)" and v = n]) simp_all
  next
    case False
    then have "m_remaining m (recv_at cs i) = m_remaining m0 (recv_at cs i)"
      using own step by (intro untouched_cell [OF assms(1), of "\<lambda>m. m_remaining m (recv_at cs i)"]) auto
    then show ?thesis using False assms(5) by simp
  qed
qed

section \<open>What the packets carry\<close>

lemma packet_facts:
  assumes "lands cs i k"
  defines "g \<equiv> recv_tokens me G ! recv_at cs i"
  shows "recv_at cs i < length (recv_tokens me G)" "g < length (g_x G)"
    and "local_topk me G ! g = rows_at cs ! i"
    and "pk_x (packet_at cs i) = g_x G ! g"
    and "pk_weights (packet_at cs i) ! k = g_topk_weights G ! g ! k"
proof -
  define s c t where "s = snd cs" and "c = fst cs" and "t = sent C me ranks s c ! i"
  have cs: "s < W" "c < C" "i < length (sent C me ranks s c)" "k < K" "0 \<le> loc s t ! k"
    using assms(1) by (auto simp: lands_def s_def c_def t_def rows_at_def)
  have t: "t < toks s" using cs(3) nth_mem sent_bound unfolding t_def by blast
  have g: "g = off_of ranks s + t" and bound: "recv_at cs i < length (recv_tokens me G)"
    using recv_index [OF cs(1-3)] by (simp_all add: g_def recv_at_def s_def c_def t_def)
  show "recv_at cs i < length (recv_tokens me G)" by (rule bound)
  show "g < length (g_x G)" using at(1) [OF cs(1) t] by (simp add: g gathered_lengths)
  show "local_topk me G ! g = rows_at cs ! i"
    using cs(3) by (simp add: g at [OF cs(1) t]) (simp add: rows_at_def s_def c_def t_def)
  have pkt: "packet_at cs i = packet_of E me (fst (ranks ! s) ! t) (rt_topk_idx (snd (ranks ! s)) ! t) (rt_topk_weights (snd (ranks ! s)) ! t)"
    using cs(3) by (simp add: packet_at_def packets_def case_prod_beta s_def c_def t_def)
  show "pk_x (packet_at cs i) = g_x G ! g" by (simp add: pkt packet_of_def Let_def g at [OF cs(1) t])
  have len: "length (loc s t) = K" "length (rt_topk_weights (snd (ranks ! s)) ! t) = K"
    using row_length [OF cs(1) t] rank(6) [OF cs(1), of "rt_topk_weights (snd (ranks ! s)) ! t"] rank(2) [OF cs(1)] t by simp_all
  have "map (\<lambda>v. if int (me * E) \<le> v \<and> v < int ((me + 1) * E) then v - int (me * E) else - 1) (rt_topk_idx (snd (ranks ! s)) ! t) = loc s t"
    unfolding packet_topk using t by (simp add: local_of_def)
  then have "pk_weights (packet_at cs i) ! k = rt_topk_weights (snd (ranks ! s)) ! t ! k"
    using len cs(4,5) unfolding pkt packet_of_def Let_def by (simp only: packet.simps nth_map nth_zip length_zip min.idem prod.case if_True)
  then show "pk_weights (packet_at cs i) ! k = g_topk_weights G ! g ! k" by (simp add: g at [OF cs(1) t])
qed

end

section \<open>Release-adds and tiles\<close>

definition overlap :: "nat \<Rightarrow> nat \<Rightarrow> nat \<Rightarrow> nat" where
  "overlap x n b = length (filter (\<lambda>s. s div TILE_M = b) [x..<x + n])"

lemma overlap_eq: "overlap x n b = min (x + n) (b * TILE_M + TILE_M) - max x (b * TILE_M)"
proof -
  have "filter (\<lambda>s. s div TILE_M = b) [x..<x + n] = [max x (b * TILE_M)..<min (x + n) (b * TILE_M + TILE_M)]"
    by (rule sorted_distinct_set_unique) (auto simp: sorted_wrt_filter TILE_M_def)
  then show ?thesis by (simp add: overlap_def)
qed

lemma add_fires_append: "add_fires (xs @ ys) t = add_fires xs t + add_fires ys t"
  by (simp add: add_fires_def)

lemma add_fires_concat: "add_fires (concat xss) t = (\<Sum>xs\<leftarrow>xss. add_fires xs t)"
  by (induction xss) (simp_all add: add_fires_append, simp add: add_fires_def)

lemma add_fires_mset: "mset xs = mset ys \<Longrightarrow> add_fires xs t = add_fires ys t"
  unfolding add_fires_def by (metis mset_map sum_mset_sum_list)

lemma sum_list_delta: "distinct xs \<Longrightarrow> (\<Sum>x\<leftarrow>xs. if x = b then v else 0) = (if b \<in> set xs then v else 0 :: nat)"
  by (induction xs) auto

lemma fire_counts:
  assumes "0 < n"
  shows "add_fires (fire_pool_blocks x n TILE_M) b = overlap x n b"
proof -
  have "add_fires (fire_pool_blocks x n TILE_M) b
      = (\<Sum>b'\<leftarrow>[x div TILE_M..<(x + n - 1) div TILE_M + 1]. if b' = b then overlap x n b else 0)"
    by (simp add: add_fires_def fire_pool_blocks_def Let_def comp_def overlap_eq cong: if_cong del: upt_Suc)
  also have "\<dots> = (if x div TILE_M \<le> b \<and> b \<le> (x + n - 1) div TILE_M then overlap x n b else 0)"
    by (simp only: sum_list_delta [OF distinct_upt] set_upt atLeastLessThan_iff Suc_eq_plus1 [symmetric] less_Suc_eq_le)
  also have "\<dots> = overlap x n b"
  proof -
    have "overlap x n b = 0" if "\<not> (x div TILE_M \<le> b \<and> b \<le> (x + n - 1) div TILE_M)"
    proof -
      have "s div TILE_M \<noteq> b" if "x \<le> s" "s < x + n" for s
      proof -
        have "s \<le> x + n - 1" using that by linarith
        then show ?thesis using that \<open>\<not> (x div TILE_M \<le> b \<and> b \<le> (x + n - 1) div TILE_M)\<close> div_le_mono [of x s TILE_M] div_le_mono [of s "x + n - 1" TILE_M] by auto
      qed
      then show ?thesis by (auto simp: overlap_def filter_empty_conv)
    qed
    then show ?thesis by auto
  qed
  finally show ?thesis .
qed

context dispatching
begin

lemma receiver_fires:
  assumes "cs \<in> set order"
  shows "add_fires (snd (run_receiver C me internode G ranks cs)) b = (\<Sum>e\<leftarrow>[0..<E]. overlap (base_at cs e) (seen_at cs e) b)"
proof -
  have seen: "snd (receive (base_at cs) E (recv_offset C me G ranks cs) (packets C E me (fst cs) (ranks ! snd cs)) (\<lambda>_. 0)) e = seen_at cs e"
    if "e < E" for e
    using that assms packet_rows [of "fst cs" "snd cs"] slot_rows_seen [OF that, of "base_at cs" "rows_at cs" "\<lambda>_. 0"]
    by (auto simp: receive_seen seen_is_sent rows_at_def)
  have "add_fires (if n = 0 then [] else fire_pool_blocks x n TILE_M) b = overlap x n b" for x n
    using fire_counts [of n x b] by (auto simp: overlap_def add_fires_def)
  then have "add_fires (snd (run_receiver C me internode G ranks cs)) b = (\<Sum>e\<leftarrow>[0..<E]. overlap (base_at cs e)
      (snd (receive (base_at cs) E (recv_offset C me G ranks cs) (packets C E me (fst cs) (ranks ! snd cs)) (\<lambda>_. 0)) e) b)"
    by (simp add: run_receiver_def Let_def case_prod_beta facts(5) fires_def add_fires_concat comp_def)
  also have "\<dots> = (\<Sum>e\<leftarrow>[0..<E]. overlap (base_at cs e) (seen_at cs e) b)"
    by (intro arg_cong [of _ _ sum_list] map_cong refl) (simp add: seen)
  finally show ?thesis .
qed

lemma expert_overlaps:
  assumes "e < E"
  shows "(\<Sum>cs\<leftarrow>order. overlap (base_at cs e) (seen_at cs e) b) = overlap (start e) (freq ! e) b"
proof -
  have "overlap (start e) (freq ! e) b = length (filter (\<lambda>s. s div TILE_M = b) (concat (map (\<lambda>cs. [base_at cs e..<base_at cs e + seen_at cs e]) order)))"
    using concat_intervals [OF distinct_order, of "start e" "\<lambda>cs. seen_at cs e"]
    by (simp add: base_pool_def freq_at [OF assms] overlap_def)
  then show ?thesis by (simp add: filter_concat length_concat comp_def overlap_def)
qed

definition all_fires :: "(nat \<times> nat) list" where
  "all_fires = concat (map (\<lambda>cs. snd (run_receiver C me internode G ranks cs)) order)"

lemma fired_total: "add_fires all_fires b = (\<Sum>e\<leftarrow>[0..<E]. overlap (start e) (freq ! e) b)"
proof -
  have "add_fires all_fires b = (\<Sum>cs\<leftarrow>order. \<Sum>e\<leftarrow>[0..<E]. overlap (base_at cs e) (seen_at cs e) b)"
    unfolding all_fires_def add_fires_concat map_map comp_def
    by (intro arg_cong [of _ _ sum_list] map_cong refl receiver_fires)
  also have "\<dots> = (\<Sum>e\<leftarrow>[0..<E]. \<Sum>cs\<leftarrow>order. overlap (base_at cs e) (seen_at cs e) b)"
    by (simp add: sum_list_distinct_conv_sum_set distinct_order sum.swap [of _ "set order"] del: set_order)
  also have "\<dots> = (\<Sum>e\<leftarrow>[0..<E]. overlap (start e) (freq ! e) b)"
    by (intro arg_cong [of _ _ sum_list] map_cong refl) (simp add: expert_overlaps)
  finally show ?thesis .
qed

end

end
