(* ===== verification/Dispatch_Contract.thy ===== *)
theory Dispatch_Contract
  imports Dispatch_Memory
begin

text \<open>
  The placement of \<^theory_text>\<open>Dispatch_Layout\<close> meets the contract dispatch is tested against, in every order of the
  stores and of the release-adds; and a tile whose arrival count has reached its target holds all its rows.
\<close>

section \<open>Lists\<close>

lemma foldl_assign_shape:
  "map length (foldl (\<lambda>ex s. ex[r s := (ex ! r s)[k s := v s]]) init xs) = map length init"
proof (induction xs arbitrary: init)
  case (Cons s xs)
  have "map length (init[r s := (init ! r s)[k s := v s]]) = map length init"
    by (cases "r s < length init") (auto intro!: nth_equalityI simp: nth_list_update)
  then show ?case using Cons.IH by simp
qed simp

lemma length_filter_nth: "length xs = length ys \<Longrightarrow> (\<And>k. k < length xs \<Longrightarrow> P (xs ! k) \<longleftrightarrow> Q (ys ! k))
  \<Longrightarrow> length (filter P xs) = length (filter Q ys)"
  by (simp add: length_filter_conv_card) (metis (mono_tags, lifting) Collect_cong)

lemma count_list_map_filter: "count_list (map f xs) b = length (filter (\<lambda>x. f x = b) xs)"
  by (induction xs) auto

context dispatching
begin

section \<open>Tiles\<close>

lemma tile_owner:
  assumes "t < total_tiles freq"
  obtains e where "e < E" "block_offset freq ! e \<le> t" "t < block_offset freq ! Suc e"
  using layout.owner_unique [OF assms] by auto

lemma run_in_block:
  assumes "e < E" "start e \<le> s" "s < start e + freq ! e"
  shows "block_offset freq ! e \<le> s div TILE_M" "s div TILE_M < block_offset freq ! Suc e"
proof -
  show "block_offset freq ! e \<le> s div TILE_M" using div_le_mono [OF assms(2), of TILE_M] by (simp add: TILE_M_def)
  have "s < block_offset freq ! Suc e * TILE_M" using run_fits [OF assms(1)] assms(3) by simp
  then show "s div TILE_M < block_offset freq ! Suc e" by (simp add: less_mult_imp_div_less)
qed

lemma one_owner:
  assumes "e < E" "e' < E" "block_offset freq ! e \<le> t" "t < block_offset freq ! Suc e"
    "block_offset freq ! e' \<le> t" "t < block_offset freq ! Suc e'"
  shows "e = e'"
proof -
  have "t < total_tiles freq"
    using assms layout.off_mono [of "Suc e" E freq] layout.off_last_nth [of freq] by simp
  from layout.owner_unique [OF this] show ?thesis using assms by (metis length_block_offset length_freq Suc_mono)
qed

lemma owner_overlap:
  assumes "e < E" "block_offset freq ! e \<le> t" "t < block_offset freq ! Suc e"
  shows "(\<Sum>e'\<leftarrow>[0..<E]. overlap (start e') (freq ! e') t) = overlap (start e) (freq ! e) t"
proof -
  have "overlap (start e') (freq ! e') t = (if e' = e then overlap (start e) (freq ! e) t else 0)" if "e' < E" for e'
  proof -
    have "overlap (start e') (freq ! e') t = 0" if "e' \<noteq> e"
      using that one_owner [OF \<open>e' < E\<close> assms(1) _ _ assms(2,3)] run_in_block [OF \<open>e' < E\<close>]
      by (auto simp: overlap_def filter_empty_conv)
    then show ?thesis by simp
  qed
  then have "(\<Sum>e'\<leftarrow>[0..<E]. overlap (start e') (freq ! e') t) = (\<Sum>e'\<leftarrow>[0..<E]. if e' = e then overlap (start e) (freq ! e) t else 0)"
    by (intro arg_cong [of _ _ sum_list] map_cong refl) simp
  then show ?thesis using assms(1) by (simp only: sum_list_delta [OF distinct_upt]) simp
qed

lemma find_owner:
  assumes "e < E" "block_offset freq ! e \<le> t" "t < block_offset freq ! Suc e"
  shows "find (\<lambda>e. t < block_offset freq ! (e + 1)) [0..<length freq] = Some e"
proof -
  have "\<not> t < block_offset freq ! (e' + 1)" if "e' < e" for e'
    using layout.off_mono [of "Suc e'" e freq] that assms by simp
  then show ?thesis using assms by (auto simp: find_Some_iff intro!: exI [of _ e])
qed

lemma fill_tile:
  assumes "e < E" "block_offset freq ! e \<le> t" "t < block_offset freq ! Suc e"
  shows "fill_tile_metadata (block_offset freq) freq t = (e, overlap (start e) (freq ! e) t)"
proof -
  define b n where "b = block_offset freq ! e" and "n = freq ! e"
  have nt: "block_offset freq ! Suc e = b + (n + TILE_M - 1) div TILE_M"
    using tiles_of_expert [of e freq] assms(1) by (simp add: b_def n_def)
  have t: "b \<le> t" "t - b < (n + TILE_M - 1) div TILE_M" using assms nt by (auto simp: b_def)
  have ov: "overlap (b * TILE_M) n t = min (b * TILE_M + n) (t * TILE_M + TILE_M) - t * TILE_M"
    using t(1) by (simp add: overlap_eq max_absorb2)
  have tT: "t * TILE_M = b * TILE_M + (t - b) * TILE_M" using t(1) by (simp add: add_mult_distrib [symmetric])
  have "(if t - b + 1 = block_offset freq ! (e + 1) - b then n - (t - b) * TILE_M else TILE_M) = overlap (b * TILE_M) n t"
  proof (cases "t - b + 1 = (n + TILE_M - 1) div TILE_M")
    case True
    have "n \<le> (n + TILE_M - 1) div TILE_M * TILE_M"
      using ceil_div_mult_ge [of TILE_M n] by (simp add: ceil_div_def TILE_M_def)
    then have "n \<le> (t - b) * TILE_M + TILE_M" using True by (metis add.commute add_mult_distrib mult_1)
    then show ?thesis using True by (simp add: nt ov tT)
  next
    case False
    then have "t - b + 2 \<le> (n + TILE_M - 1) div TILE_M" using t(2) by linarith
    then have "(t - b + 2) * TILE_M \<le> n + TILE_M - 1"
      using mult_le_mono1 [of "t - b + 2" _ TILE_M] div_times_less_eq_dividend [of "n + TILE_M - 1" TILE_M]
      by (meson order_trans)
    then have "(t - b) * TILE_M + TILE_M \<le> n" by (simp add: TILE_M_def)
    then show ?thesis using False by (simp add: nt ov tT)
  qed
  then show ?thesis unfolding b_def n_def
    by (simp only: fill_tile_metadata_def Let_def find_owner [OF assms] option.case)
qed

section \<open>The real slots\<close>

definition real_list :: "nat list" where
  "real_list = concat (map (\<lambda>e. [start e..<start e + freq ! e]) [0..<E])"

lemma real_list_iff: "s \<in> set real_list \<longleftrightarrow> (\<exists>cs i k. lands cs i k \<and> landed_slot cs i k = s)"
proof
  assume "s \<in> set real_list"
  then obtain e where "e < E" "start e \<le> s" "s < start e + freq ! e" by (auto simp: real_list_def)
  then show "\<exists>cs i k. lands cs i k \<and> landed_slot cs i k = s" using slot_onto by metis
next
  assume "\<exists>cs i k. lands cs i k \<and> landed_slot cs i k = s"
  then show "s \<in> set real_list" using slot_range expert_bound by (fastforce simp: real_list_def)
qed

lemma real_list_below: "s \<in> set real_list \<Longrightarrow> s < total_tiles freq * TILE_M"
  using run_below by (fastforce simp: real_list_def)

lemma real_list_sorted: "sorted real_list" "distinct real_list"
proof -
  have "sorted (concat (map (\<lambda>e. [start e..<start e + freq ! e]) [0..<n])) \<and> distinct (concat (map (\<lambda>e. [start e..<start e + freq ! e]) [0..<n]))"
    if "n \<le> E" for n
    using that
  proof (induction n)
    case (Suc n)
    have before: "s < start n" if m: "s \<in> set (concat (map (\<lambda>e. [start e..<start e + freq ! e]) [0..<n]))" for s
    proof -
      obtain e where e: "e < n" "s < start e + freq ! e" using m by auto
      have "start e + freq ! e \<le> start n"
        using e(1) Suc.prems by (intro order_trans [OF run_fits start_mono]) simp_all
      then show ?thesis using e by simp
    qed
    then show ?case using Suc by (fastforce simp: sorted_append)
  qed simp
  from this [of E] show "sorted real_list" "distinct real_list" by (simp_all add: real_list_def)
qed

lemma tile_real: "length (filter (\<lambda>s. s div TILE_M = t) real_list) = (\<Sum>e\<leftarrow>[0..<E]. overlap (start e) (freq ! e) t)"
  by (simp add: real_list_def filter_concat length_concat comp_def overlap_def)

lemma slot_expert_real:
  assumes "lands cs i k"
  shows "repeat_interleave [0..<E] (map (\<lambda>n. n * TILE_M) (diff (block_offset freq))) ! landed_slot cs i k = expert_of cs i k"
proof -
  let ?e = "expert_of cs i k"
  have b: "Suc ?e < length (block_offset freq)" using expert_bound [OF assms] by simp
  note t = run_in_block [OF expert_bound [OF assms] slot_range [OF assms]]
  have "slot_expert freq ! (landed_slot cs i k div TILE_M * TILE_M + landed_slot cs i k mod TILE_M) = ?e"
    by (rule slot_expert_nth [OF b t]) (simp add: TILE_M_def)
  then show ?thesis by (simp add: slot_expert_def diff_blocks num_experts_def)
qed

lemma tile_experts:
  assumes "t < total_tiles freq" "e < E" "block_offset freq ! e \<le> t" "t < block_offset freq ! Suc e"
  shows "repeat_interleave [0..<E] (diff (block_offset freq)) ! t = e"
  using assms by (subst nth_repeat_interleave [where e = e])
    (simp_all add: diff_blocks block_offset_nth layout_tiles_def)

section \<open>The counts of the contract\<close>

abbreviation "recv_ids \<equiv> recv_tokens me G"
abbreviation "topk \<equiv> map ((!) (local_topk me G)) recv_ids"

lemma topk_at:
  assumes "cs \<in> set order" "i < length (rows_at cs)"
  shows "recv_at cs i < length topk" "topk ! recv_at cs i = rows_at cs ! i"
proof -
  have st: "snd cs < W" "fst cs < C" "i < length (sent C me ranks (snd cs) (fst cs))"
    using assms by (auto simp: rows_at_def)
  show b: "recv_at cs i < length topk" using recv_index(1) [OF st] by (simp add: recv_at_def)
  have "sent C me ranks (snd cs) (fst cs) ! i < toks (snd cs)" using st(3) nth_mem sent_bound by blast
  then show "topk ! recv_at cs i = rows_at cs ! i"
    using b recv_index(2) [OF st] st by (simp add: recv_at_def at) (simp add: rows_at_def)
qed

lemma topk_index:
  assumes "r < length topk"
  obtains cs i where "cs \<in> set order" "i < length (rows_at cs)" "r = recv_at cs i"
  using recv_index_exists [of r] assms that by (auto simp: rows_at_def recv_at_def) (metis fst_conv snd_conv)

lemma topk_rows: "row \<in> set topk \<Longrightarrow> length row = K"
proof -
  assume "row \<in> set topk"
  then obtain r where r: "r < length topk" "row = topk ! r" by (metis in_set_conv_nth)
  then obtain cs i where "cs \<in> set order" "i < length (rows_at cs)" "r = recv_at cs i" using topk_index by blast
  then show "length row = K" using topk_at rows_at_length r by simp
qed

lemma topk_count: "count_list (concat topk) (int e) = (\<Sum>cs\<leftarrow>order. seen_at cs e)"
proof -
  have "map ((!) (local_topk me G)) recv_ids = concat (map (\<lambda>s. concat (map (\<lambda>c. rows_at (c, s)) [0..<C])) [0..<W])"
    unfolding recv_tokens_concat map_concat map_map comp_def
  proof (intro arg_cong [of _ _ concat] map_cong refl)
    fix s assume s: "s \<in> set [0..<W]"
    have "map (\<lambda>t. local_topk me G ! (off_of ranks s + t)) (received s) = map (loc s) (received s)"
      using s at(2) by (intro map_cong) (auto simp: received_def)
    then show "map (\<lambda>t. local_topk me G ! (off_of ranks s + t)) (received s) = concat (map (\<lambda>c. rows_at (c, s)) [0..<C])"
      unfolding \<open>map _ (received s) = _\<close> using s by (simp add: received_channels rows_at_def map_concat comp_def)
  qed
  then have "count_list (concat topk) (int e) = (\<Sum>s\<leftarrow>[0..<W]. \<Sum>c\<leftarrow>[0..<C]. count_list (concat (rows_at (c, s))) (int e))"
    by (simp add: count_list_concat map_concat comp_def sum_list_concat')
  also have "\<dots> = (\<Sum>s\<leftarrow>[0..<W]. \<Sum>c\<leftarrow>[0..<C]. seen_at (c, s) e)"
    by (intro arg_cong [of _ _ sum_list] map_cong refl) (simp add: seen_is_sent rows_at_def)
  also have "\<dots> = (\<Sum>c\<in>{0..<C}. \<Sum>s\<in>{0..<W}. seen_at (c, s) e)"
    by (simp add: interv_sum_list_conv_sum_set_nat) (rule sum.swap)
  also have "\<dots> = (\<Sum>cs\<leftarrow>order. seen_at cs e)"
    by (simp add: sum_list_distinct_conv_sum_set distinct_order sum.cartesian_product case_prod_beta')
  finally show ?thesis .
qed

lemma bincount_freq: "bincount (map nat (filter (\<lambda>e. 0 \<le> e) (concat topk))) E = freq"
proof (rule nth_equalityI)
  fix e assume "e < length (bincount (map nat (filter (\<lambda>e. 0 \<le> e) (concat topk))) E)"
  then have e: "e < E" by (simp add: bincount_def)
  have "count_list (map nat (filter (\<lambda>e. 0 \<le> e) xs)) e = count_list xs (int e)" for xs
    by (induction xs) auto
  then show "bincount (map nat (filter (\<lambda>e. 0 \<le> e) (concat topk))) E ! e = freq ! e"
    using e by (simp add: bincount_def topk_count freq_at [OF e] del: map_concat)
qed (simp add: bincount_def)

section \<open>The handle\<close>

lemma token_fields:
  "h_slots (dispatch_handle C me G m fs) = map (m_slots m) [0..<length recv_ids]"
  "h_total (dispatch_handle C me G m fs) = map (m_total m) [0..<length recv_ids]"
  "h_remaining (dispatch_handle C me G m fs) = map (m_remaining m) [0..<length recv_ids]"
  "h_T_recv (dispatch_handle C me G m fs) = length recv_ids"
  by (simp_all only: dispatch_handle_def Let_def handle.simps recv_count)

lemma landed: "lands cs i k \<Longrightarrow> landed_slot cs i k \<in> set real_list"
  unfolding real_list_iff by blast

text \<open>The real slots of a handle are those where an entry landed.\<close>

lemma handle_real:
  assumes "stored (fresh_mem junk K) m"
    and h: "h = dispatch_handle C me G m fs"
  shows "filter (\<lambda>s. 0 \<le> h_recv h ! s) [0..<length (h_recv h)] = real_list"
proof (rule sorted_distinct_set_unique)
  have len: "length (h_recv h) = total_tiles freq * TILE_M" by (simp add: h dispatch_handle_def Let_def)
  have at: "h_recv h ! s = m_recv m s" if "s < total_tiles freq * TILE_M" for s
    using that by (simp add: h dispatch_handle_def Let_def)
  have "0 \<le> m_recv m s \<longleftrightarrow> s \<in> set real_list" for s
  proof (cases "s \<in> set real_list")
    case True
    then show ?thesis using stored_recv [OF assms(1)] unfolding real_list_iff by fastforce
  next
    case False
    then have "m_recv m s = - 1"
      using padding_slot(1) [OF assms(1), of s] unfolding real_list_iff by (auto simp: fresh_mem_def)
    then show ?thesis using False by simp
  qed
  then show "set (filter (\<lambda>s. 0 \<le> h_recv h ! s) [0..<length (h_recv h)]) = set real_list"
    using at len real_list_below by auto
qed (simp_all add: real_list_sorted sorted_wrt_filter)

text \<open>Reading the handle at a landed slot.\<close>

lemma handle_at:
  assumes "stored (fresh_mem junk K) m" and h: "h = dispatch_handle C me G m fs" and "lands cs i k"
  shows "h_recv h ! landed_slot cs i k = int (recv_at cs i)" "h_k h ! landed_slot cs i k = int k"
    "h_pool h ! landed_slot cs i k = g_x G ! (recv_ids ! recv_at cs i)"
    "h_weight h ! landed_slot cs i k = g_topk_weights G ! (recv_ids ! recv_at cs i) ! k"
proof -
  have "landed_slot cs i k \<in> set real_list" using assms(3) by (rule landed)
  then have s: "landed_slot cs i k < total_tiles freq * TILE_M" by (rule real_list_below)
  show "h_recv h ! landed_slot cs i k = int (recv_at cs i)" "h_k h ! landed_slot cs i k = int k"
    "h_pool h ! landed_slot cs i k = g_x G ! (recv_ids ! recv_at cs i)"
    "h_weight h ! landed_slot cs i k = g_topk_weights G ! (recv_ids ! recv_at cs i) ! k"
    using s stored_recv [OF assms(1,3)] stored_k [OF assms(1,3)] stored_pool [OF assms(1,3)] stored_weight [OF assms(1,3)]
      packet_facts [OF assms(3)] by (simp_all add: h dispatch_handle_def Let_def)
qed

lemma handle_slots:
  assumes "stored (fresh_mem junk K) m"
    and h: "h = dispatch_handle C me G m fs"
  shows "h_slots h = foldl (\<lambda>ex s. ex[nat (h_recv h ! s) := (ex ! nat (h_recv h ! s))[nat (h_k h ! s) := int s]])
    (map (map (\<lambda>_. - 1)) topk) real_list" (is "_ = ?R")
proof -
  define R where "R = ?R"
  let ?init = "map (map (\<lambda>_. - 1)) topk :: int list list"
  note at = handle_at [OF assms(1) h]
  have shape: "map length R = map length ?init" unfolding R_def by (rule foldl_assign_shape)
  then have len: "length R = length topk" by (metis length_map)
  have lenh: "length (h_slots h) = length topk" by (simp add: h token_fields)
  have "h_slots h = R"
  proof (rule nth_equalityI)
    fix r assume "r < length (h_slots h)"
    then have r: "r < length topk" using lenh by simp
    then obtain cs i where cs: "cs \<in> set order" "i < length (rows_at cs)" "r = recv_at cs i" by (rule topk_index)
    have row: "length (topk ! r) = K" using topk_rows r by (meson nth_mem)
    then have rowR: "length (R ! r) = K" using shape r len row by (metis length_map nth_map)
    have hr: "h_slots h ! r = slots_at cs ! i"
      using stored_slots [OF assms(1) cs(1,2)] r cs(3) by (simp add: h token_fields)
    show "h_slots h ! r = R ! r"
    proof (rule nth_equalityI)
      fix k assume "k < length (h_slots h ! r)"
      then have k: "k < K" using slots_at_row [OF cs(1,2)] hr by simp
      have "R ! r ! k = (if \<exists>s \<in> set real_list. nat (h_recv h ! s) = r \<and> nat (h_k h ! s) = k
          then int (landed_slot cs i k) else ?init ! r ! k)"
        unfolding R_def
      proof (rule foldl_assign)
        fix s assume "s \<in> set real_list"
        then obtain cs' i' k' where l: "lands cs' i' k'" "landed_slot cs' i' k' = s" by (auto simp: real_list_iff)
        then have c: "cs' \<in> set order" "i' < length (rows_at cs')" "k' < K" by (simp_all add: lands_def)
        show "nat (h_recv h ! s) < length ?init \<and> nat (h_k h ! s) < length (?init ! nat (h_recv h ! s))"
          using at [OF l(1)] l(2) c(3) topk_at [OF c(1,2)] rows_at_length [OF c(1), of "rows_at cs' ! i'"] c(2) by simp
        assume "nat (h_recv h ! s) = r" "nat (h_k h ! s) = k"
        then have "recv_at cs' i' = recv_at cs i" "k' = k" using at [OF l(1)] l(2) cs(3) by auto
        then show "int s = int (landed_slot cs i k)" using same_recv [OF c(1) cs(1) c(2) cs(2)] l(2) by simp
      qed
      also have "(\<exists>s \<in> set real_list. nat (h_recv h ! s) = r \<and> nat (h_k h ! s) = k) \<longleftrightarrow> lands cs i k"
      proof
        assume "lands cs i k"
        then show "\<exists>s \<in> set real_list. nat (h_recv h ! s) = r \<and> nat (h_k h ! s) = k"
          using at [of cs i k] cs(3) by (intro bexI [OF _ landed]) simp_all
      next
        assume "\<exists>s \<in> set real_list. nat (h_recv h ! s) = r \<and> nat (h_k h ! s) = k"
        then obtain cs' i' k' where l: "lands cs' i' k'" "recv_at cs' i' = r" "k' = k"
          using at by (fastforce simp: real_list_iff)
        then have "cs' = cs \<and> i' = i" using same_recv [of cs' cs i' i] cs by (simp add: lands_def del: set_order)
        then show "lands cs i k" using l by simp
      qed
      finally show "h_slots h ! r ! k = R ! r ! k"
        using slots_at_sign [OF cs(1,2) k] row r k by (simp add: hr)
    qed (simp add: hr rowR slots_at_row [OF cs(1,2)])
  qed (simp add: lenh len)
  then show ?thesis by (simp only: R_def)
qed

lemma handle_totals:
  assumes "stored (fresh_mem junk K) m"
    and h: "h = dispatch_handle C me G m fs"
  shows "h_total h = map (\<lambda>row. length (filter (\<lambda>e. 0 \<le> e) row)) topk" "h_remaining h = h_total h"
proof -
  have "m_total m r = length (filter (\<lambda>e. 0 \<le> e) (topk ! r)) \<and> m_remaining m r = length (filter (\<lambda>e. 0 \<le> e) (topk ! r))"
    if r: "r < length topk" for r
  proof -
    obtain cs i where cs: "cs \<in> set order" "i < length (rows_at cs)" "r = recv_at cs i" using topk_index r by blast
    have "length (filter (\<lambda>s. \<not> s < 0) (slots_at cs ! i)) = length (filter (\<lambda>e. 0 \<le> e) (rows_at cs ! i))"
    proof (rule length_filter_nth)
      show "length (slots_at cs ! i) = length (rows_at cs ! i)"
        using slots_at_row [OF cs(1,2)] rows_at_length [OF cs(1), of "rows_at cs ! i"] cs(2) by simp
      fix k assume "k < length (slots_at cs ! i)"
      then have k: "k < K" using slots_at_row [OF cs(1,2)] by simp
      show "\<not> slots_at cs ! i ! k < 0 \<longleftrightarrow> 0 \<le> rows_at cs ! i ! k"
        using slots_at_sign [OF cs(1,2) k] cs k by (simp add: lands_def)
    qed
    then show ?thesis using stored_counts [OF assms(1) cs(1,2)] topk_at [OF cs(1,2)] cs(3) by (simp add: fresh_mem_def)
  qed
  then show "h_total h = map (\<lambda>row. length (filter (\<lambda>e. 0 \<le> e) row)) topk" "h_remaining h = h_total h"
    by (auto simp: h token_fields intro!: nth_equalityI)
qed

lemma handle_tiles:
  assumes h: "h = dispatch_handle C me G m fs"
  shows "h_tile_expert h = repeat_interleave [0..<E] (diff (block_offset freq))"
    and "h_target h = bincount (map (\<lambda>s. s div TILE_M) real_list) (h_tiles h)"
    and "mset fs = mset all_fires \<Longrightarrow> take (h_tiles h) (h_count h) = h_target h"
proof -
  have tiles: "h_tiles h = total_tiles freq" by (simp add: h dispatch_handle_def Let_def)
  have fill: "fst (fill_tile_metadata (block_offset freq) freq t) = repeat_interleave [0..<E] (diff (block_offset freq)) ! t
      \<and> snd (fill_tile_metadata (block_offset freq) freq t) = (\<Sum>e\<leftarrow>[0..<E]. overlap (start e) (freq ! e) t)"
    if t: "t < total_tiles freq" for t
  proof -
    obtain e where e: "e < E" "block_offset freq ! e \<le> t" "t < block_offset freq ! Suc e" using t by (rule tile_owner)
    then show ?thesis using fill_tile [OF e] owner_overlap [OF e] tile_experts [OF t e] by simp
  qed
  show "h_tile_expert h = repeat_interleave [0..<E] (diff (block_offset freq))"
  proof (rule nth_equalityI)
    show "length (h_tile_expert h) = length (repeat_interleave [0..<E] (diff (block_offset freq)))"
      by (subst length_repeat_interleave) (simp_all add: diff_blocks layout_tiles_def h dispatch_handle_def Let_def total_tiles_def)
  qed (use fill in \<open>simp add: h dispatch_handle_def Let_def\<close>)
  show "h_target h = bincount (map (\<lambda>s. s div TILE_M) real_list) (h_tiles h)"
    unfolding tiles by (rule nth_equalityI)
      (use fill in \<open>simp_all add: h dispatch_handle_def Let_def bincount_def count_list_map_filter tile_real\<close>)
  show "take (h_tiles h) (h_count h) = h_target h" if "mset fs = mset all_fires"
    by (rule nth_equalityI)
      (use fill in \<open>simp_all add: h dispatch_handle_def Let_def add_fires_mset [OF that] fired_total\<close>)
qed

lemma concat_grid: "concat (map (\<lambda>c. map (\<lambda>s. f (c, s)) ss) cs) = map f (List.product cs ss)"
  by (induction cs) simp_all

lemma contract:
  assumes "stored (fresh_mem junk K) m" "mset fs = mset all_fires"
  shows "check_dispatch_layout me G (dispatch_handle C me G m fs)"
proof -
  define h where h: "h = dispatch_handle C me G m fs"
  note at = handle_at [OF assms(1) h]
  note real = handle_real [OF assms(1) h]
  have frq: "h_freq h = freq" "h_blocks h = block_offset freq" "h_tiles h = total_tiles freq" "h_T_recv h = length recv_ids"
    "length (h_pool h) = total_tiles freq * TILE_M"
    by (simp_all add: h token_fields) (simp_all add: dispatch_handle_def Let_def)
  have grid: "concat (h_seen h) = map (\<lambda>cs. map (seen_at cs) [0..<E]) (List.product [0..<C] [0..<g_world G])"
    using concat_grid [of "\<lambda>cs. map (seen_at cs) [0..<E]" "[0..<g_world G]" "[0..<C]"]
    by (simp add: h dispatch_handle_def Let_def facts(5))
  have seen: "map (\<lambda>e. \<Sum>seen\<leftarrow>concat (h_seen h). seen ! e) [0..<E] = freq" "list_all ((=) 0) (h_y_done h)"
    by (simp add: grid expert_freq_def facts(5) comp_def case_prod_unfold cong: map_cong)
      (simp add: h dispatch_handle_def Let_def list_all_iff)
  have each: "list_all P real_list" if "\<And>cs i k. lands cs i k \<Longrightarrow> P (landed_slot cs i k)" for P
    using that by (auto simp: list_all_iff real_list_iff)
  have "list_all (\<lambda>s. nat (h_recv h ! s) < length topk \<and> nat (h_k h ! s) < length (topk ! nat (h_recv h ! s)) \<and>
      topk ! nat (h_recv h ! s) ! nat (h_k h ! s) = int (repeat_interleave [0..<E] (map (\<lambda>n. n * TILE_M) (diff (block_offset freq))) ! s)) real_list"
  proof (rule each)
    fix cs i k assume l: "lands cs i k"
    then have c: "cs \<in> set order" "i < length (rows_at cs)" "k < K" "0 \<le> rows_at cs ! i ! k" by (simp_all add: lands_def)
    show "nat (h_recv h ! landed_slot cs i k) < length topk \<and> nat (h_k h ! landed_slot cs i k) < length (topk ! nat (h_recv h ! landed_slot cs i k)) \<and>
      topk ! nat (h_recv h ! landed_slot cs i k) ! nat (h_k h ! landed_slot cs i k)
      = int (repeat_interleave [0..<E] (map (\<lambda>n. n * TILE_M) (diff (block_offset freq))) ! landed_slot cs i k)"
      unfolding at [OF l] nat_int topk_at(2) [OF c(1,2)] slot_expert_real [OF l]
      using topk_at(1) [OF c(1,2)] rows_at_length [OF c(1) nth_mem [OF c(2)]] c by (simp add: expert_of_def)
  qed
  moreover have "list_all (\<lambda>s. h_pool h ! s = g_x G ! (recv_ids ! nat (h_recv h ! s))) real_list"
    by (rule each) (simp add: at)
  moreover have "list_all (\<lambda>s. h_weight h ! s = g_topk_weights G ! (recv_ids ! nat (h_recv h ! s)) ! nat (h_k h ! s)) real_list"
    by (rule each) (simp add: at)
  ultimately show ?thesis
    unfolding check_dispatch_layout_def Let_def h [symmetric] facts(5) bincount_freq real
    using frq seen handle_slots [OF assms(1) h] handle_totals [OF assms(1) h]
      handle_tiles(1,2) [OF h] handle_tiles(3) [OF h assms(2)] layout.off_last [of freq]
    by (intro conjI) simp_all
qed

lemma exactly_once:
  assumes "stored (fresh_mem junk K) m"
  shows "one_slot_each me G (dispatch_handle C me G m fs)"
proof -
  define h where h: "h = dispatch_handle C me G m fs"
  note at = handle_at [OF assms(1) h]
  have len: "length (h_recv h) = total_tiles freq * TILE_M" by (simp add: h dispatch_handle_def Let_def)
  have "length (filter (\<lambda>s. h_recv h ! s = int r \<and> h_k h ! s = int k) [0..<length (h_recv h)]) = (if 0 \<le> topk ! r ! k then 1 else 0)"
    if r: "r < length topk" and k: "k < length (topk ! r)" for r k
  proof -
    obtain cs i where cs: "cs \<in> set order" "i < length (rows_at cs)" "r = recv_at cs i" using topk_index r by blast
    have k: "k < K" using k topk_rows r by (metis nth_mem)
    have "s \<in> set real_list" if "s < total_tiles freq * TILE_M" "h_recv h ! s = int r" for s
      using that len by (subst handle_real [OF assms(1) h, symmetric]) simp
    then have own: "s = landed_slot cs i k \<and> lands cs i k"
      if o: "s < total_tiles freq * TILE_M" "h_recv h ! s = int r" "h_k h ! s = int k" for s
    proof -
      obtain cs' i' k' where l: "lands cs' i' k'" "landed_slot cs' i' k' = s"
        using o \<open>\<And>s. s < total_tiles freq * TILE_M \<Longrightarrow> h_recv h ! s = int r \<Longrightarrow> s \<in> set real_list\<close> unfolding real_list_iff by blast
      then have "recv_at cs' i' = recv_at cs i" "k' = k" using at [OF l(1)] o cs(3) by auto
      then show ?thesis using l same_recv [of cs' cs i' i] cs by (simp add: lands_def del: set_order)
    qed
    show ?thesis
    proof (cases "lands cs i k")
      case True
      then have "landed_slot cs i k < total_tiles freq * TILE_M" using real_list_below real_list_iff by blast
      then have "filter (\<lambda>s. h_recv h ! s = int r \<and> h_k h ! s = int k) [0..<length (h_recv h)] = [landed_slot cs i k]"
        proof (intro sorted_distinct_set_unique)
        show "set (filter (\<lambda>s. h_recv h ! s = int r \<and> h_k h ! s = int k) [0..<length (h_recv h)]) = set [landed_slot cs i k]"
          (is "set ?xs = _")
        proof
          show "set ?xs \<subseteq> set [landed_slot cs i k]" using own len by auto
          show "set [landed_slot cs i k] \<subseteq> set ?xs"
            using at(1,2) [OF True] cs(3) len \<open>landed_slot cs i k < _\<close> by simp
        qed
      qed (simp_all add: sorted_wrt_filter)
      then show ?thesis using True topk_at [OF cs(1,2)] cs(3) by (simp add: lands_def)
    next
      case False
      then have "filter (\<lambda>s. h_recv h ! s = int r \<and> h_k h ! s = int k) [0..<length (h_recv h)] = []"
        using own len by (auto simp: filter_empty_conv)
      then show ?thesis using False topk_at [OF cs(1,2)] cs k by (simp add: lands_def)
    qed
  qed
  moreover have "0 \<le> h_k h ! s" if "s < length (h_recv h)" "0 \<le> h_recv h ! s" for s
  proof -
    have "s \<in> set real_list" using that by (subst handle_real [OF assms(1) h, symmetric]) simp
    then obtain cs i k where "lands cs i k" "landed_slot cs i k = s" unfolding real_list_iff by blast
    then show ?thesis using at(2) by fastforce
  qed
  ultimately show ?thesis by (simp add: one_slot_each_def Let_def h list_all_iff)
qed

section \<open>Tiles while receivers are still running\<close>

definition share :: "substream \<Rightarrow> nat \<Rightarrow> nat" where
  "share cs t = (\<Sum>e\<leftarrow>[0..<E]. overlap (base_at cs e) (seen_at cs e) t)"

lemma partial_count:
  assumes "mset fs = mset (concat (map (\<lambda>cs. snd (run_receiver C me internode G ranks cs)) (filter P order)))"
  shows "add_fires fs t = (\<Sum>cs\<leftarrow>filter P order. share cs t)"
proof -
  have "add_fires fs t = (\<Sum>cs\<leftarrow>filter P order. add_fires (snd (run_receiver C me internode G ranks cs)) t)"
    by (simp add: add_fires_mset [OF assms] add_fires_concat comp_def)
  also have "\<dots> = (\<Sum>cs\<leftarrow>filter P order. share cs t)"
    unfolding share_def by (intro arg_cong [of _ _ sum_list] map_cong refl) (use receiver_fires in auto)
  finally show ?thesis .
qed

lemma row_in_share:
  assumes "cs \<in> set order" "PoolRow s x \<in> set (fst (run_receiver C me internode G ranks cs))"
  shows "0 < share cs (s div TILE_M)"
proof -
  obtain i k where k: "i < length (rows_at cs)" "k < length (slots_at cs ! i)" "0 \<le> slots_at cs ! i ! k" "s = nat (slots_at cs ! i ! k)"
    using assms(2) unfolding receiver_stores [OF assms(1)] by (auto simp: row_store)
  then have l: "lands cs i k" "landed_slot cs i k = s" using slot_store [OF assms(1) k(1-3)] by simp_all
  let ?e = "expert_of cs i k"
  have e: "?e < E" using expert_bound [OF l(1)] .
  let ?ps = "filter (\<lambda>(i, k). rows_at cs ! i ! k = int ?e) (List.product [0..<length (rows_at cs)] [0..<K])"
  have "(i, k) \<in> set ?ps" using l(1) by (simp add: lands_def expert_of_def)
  then have "(\<lambda>(i, k). slots_at cs ! i ! k) (i, k) \<in> set (map (\<lambda>(i, k). slots_at cs ! i ! k) ?ps)"
    unfolding set_map by (rule imageI)
  then have "slots_at cs ! i ! k \<in> set (map int [base_at cs ?e..<base_at cs ?e + seen_at cs ?e])"
    unfolding slots_of_substream [OF assms(1) e] by simp
  then have "s \<in> set [base_at cs ?e..<base_at cs ?e + seen_at cs ?e]" using k(4) by auto
  then have "s \<in> set (filter (\<lambda>s'. s' div TILE_M = s div TILE_M) [base_at cs ?e..<base_at cs ?e + seen_at cs ?e])" by simp
  then have "0 < overlap (base_at cs ?e) (seen_at cs ?e) (s div TILE_M)" unfolding overlap_def by (rule length_pos_if_in_set)
  also have "\<dots> \<le> share cs (s div TILE_M)" unfolding share_def using e by (intro member_le_sum_list) simp_all
  finally show ?thesis .
qed

lemma target_shares:
  assumes "t < total_tiles freq"
  shows "snd (fill_tile_metadata (block_offset freq) freq t) = (\<Sum>cs\<leftarrow>order. share cs t)"
proof -
  obtain e where e: "e < E" "block_offset freq ! e \<le> t" "t < block_offset freq ! Suc e" using assms by (rule tile_owner)
  have "(\<Sum>cs\<leftarrow>order. share cs t) = add_fires all_fires t"
    using partial_count [of all_fires "\<lambda>_. True" t] by (simp add: all_fires_def)
  then show ?thesis using fill_tile [OF e] owner_overlap [OF e] by (simp add: fired_total)
qed

lemma fired_tile:
  assumes "mset fs = mset (concat (map (\<lambda>cs. snd (run_receiver C me internode G ranks cs)) (filter P order)))"
    and "t < total_tiles freq"
  defines "target \<equiv> snd (fill_tile_metadata (block_offset freq) freq t)"
  shows "add_fires fs t \<le> target"
    and "add_fires fs t = target \<Longrightarrow> cs \<in> set order \<Longrightarrow> PoolRow s x \<in> set (fst (run_receiver C me internode G ranks cs))
      \<Longrightarrow> s div TILE_M = t \<Longrightarrow> P cs"
proof -
  have split: "(\<Sum>cs\<leftarrow>xs. f cs) = (\<Sum>cs\<leftarrow>filter P xs. f cs) + (\<Sum>cs\<leftarrow>filter (\<lambda>cs. \<not> P cs) xs. f cs)" for xs and f :: "substream \<Rightarrow> nat"
    by (induction xs) auto
  have target: "target = add_fires fs t + (\<Sum>cs\<leftarrow>filter (\<lambda>cs. \<not> P cs) order. share cs t)"
    using split [of "\<lambda>cs. share cs t" order] by (simp add: target_def target_shares [OF assms(2)] partial_count [OF assms(1)])
  then show "add_fires fs t \<le> target" by simp
  assume "add_fires fs t = target" and cs: "cs \<in> set order" and st: "PoolRow s x \<in> set (fst (run_receiver C me internode G ranks cs))"
    and t: "s div TILE_M = t"
  then have "(\<Sum>cs\<leftarrow>filter (\<lambda>cs. \<not> P cs) order. share cs t) = 0" using target by simp
  then have "\<not> P cs \<Longrightarrow> share cs t = 0" using cs by (cases cs) (auto simp: sum_list_eq_0_iff simp del: set_order)
  then show "P cs" using row_in_share [OF cs st] t by auto
qed

end

section \<open>The benchmark's routing is such a dispatch\<close>

definition make_uniform_topk_idx :: "nat \<Rightarrow> nat \<Rightarrow> nat \<Rightarrow> nat \<Rightarrow> int list list" where
  "make_uniform_topk_idx n_tokens topk experts rank =
     (let base = map (\<lambda>i. (i + rank * n_tokens) * topk) [0..<n_tokens]; offsets = [0..<topk]
      in map (\<lambda>b. map (\<lambda>j. int ((b + j) mod experts)) offsets) base)"

definition uniform_ranks :: "nat \<Rightarrow> nat \<Rightarrow> nat \<Rightarrow> nat \<Rightarrow> (nat \<Rightarrow> nat \<Rightarrow> 'r) \<Rightarrow> (nat \<Rightarrow> nat \<Rightarrow> nat \<Rightarrow> 'f) \<Rightarrow> ('r list \<times> 'f routing) list" where
  \<comment> \<open>what the ranks of \<open>profile_pipeline.main\<close> pass: \<open>E\<close> experts on each of \<open>W\<close> ranks, rows and weights drawn at random\<close>
  "uniform_ranks n K E W x w = map (\<lambda>rank. (map (x rank) [0..<n],
     \<lparr>rt_topk_idx = make_uniform_topk_idx n K (E * W) rank, rt_topk_weights = map (\<lambda>t. map (w rank t) [0..<K]) [0..<n],
      rt_experts = E * W, rt_ranks = W\<rparr>)) [0..<W]"

lemma uniform_well_routed:
  assumes "0 < E" "0 < W"
  shows "well_routed K E (uniform_ranks n K E W x w)"
  using assms by (auto simp: well_routed_def uniform_ranks_def make_uniform_topk_idx_def Let_def simp del: of_nat_mult)

interpretation uniform: dispatching K "Suc E" "Suc C" "me mod Suc W" internode "uniform_ranks n K (Suc E) (Suc W) x w"
    "gather zx zi zw (uniform_ranks n K (Suc E) (Suc W) x w)" zx zi zw
  for K E C me internode n W x zx zi zw and w :: "nat \<Rightarrow> nat \<Rightarrow> nat \<Rightarrow> 'f::zero"
proof
  show "me mod Suc W < length (uniform_ranks n K (Suc E) (Suc W) x w)"
    by (simp add: uniform_ranks_def)
qed (simp_all add: uniform_well_routed)

section \<open>The properties of the placement\<close>

lemma placed_handle:
  fixes ranks :: "('r list \<times> 'f::zero routing) list"
  assumes "well_routed K E ranks" "G = gather zx zi zw ranks" "0 < C" "me < length ranks"
    and "set sts = (\<Union>cs \<in> set (substream_order C me internode G). set (fst (run_receiver C me internode G ranks cs)))"
    and "mset fs = mset (concat (map (\<lambda>cs. snd (run_receiver C me internode G ranks cs)) (substream_order C me internode G)))"
    and h: "h = dispatch_handle C me G (foldl apply_store (fresh_mem junk K) sts) fs"
  shows "check_dispatch_layout me G h" "one_slot_each me G h"
proof -
  have d: "dispatching K E C me ranks G zx zi zw" using assms(1-4) by unfold_locales
  have "dispatching.stored C me internode ranks G (fresh_mem junk K) (foldl apply_store (fresh_mem junk K) sts)"
    unfolding dispatching.stored_def [OF d] dispatching.all_stores_def [OF d] using assms(5) by blast
  moreover have "mset fs = mset (dispatching.all_fires C me internode ranks G)"
    unfolding dispatching.all_fires_def [OF d] by (rule assms(6))
  ultimately show "check_dispatch_layout me G h" "one_slot_each me G h"
    unfolding h using dispatching.contract [OF d] dispatching.exactly_once [OF d] by blast+
qed

text \<open>C8: the contract of dispatch: whatever the routing, and in whatever order the receivers' stores and
  release-adds take effect, the handle passes \<open>check_dispatch_layout\<close>, and every local (token, k) has exactly one slot.\<close>

theorem placement_meets_contract:
  fixes ranks :: "('r list \<times> 'f::zero routing) list"
  assumes "well_routed K E ranks" "G = gather zx zi zw ranks" "0 < C" "me < length ranks"
    and "set sts = (\<Union>cs \<in> set (substream_order C me internode G). set (fst (run_receiver C me internode G ranks cs)))"
    and "mset fs = mset (concat (map (\<lambda>cs. snd (run_receiver C me internode G ranks cs)) (substream_order C me internode G)))"
    and h: "h = dispatch_handle C me G (foldl apply_store (fresh_mem junk K) sts) fs"
  shows "check_dispatch_layout me G h \<and> one_slot_each me G h"
  using placed_handle [OF assms] by simp

text \<open>Two ranks with two experts each; rank 0 receives in two channels, its receivers in reverse.\<close>

definition demo_r0 :: "int routing" where
  "demo_r0 = \<lparr>rt_topk_idx = [[0, 3], [1, - 1], [2, 3]], rt_topk_weights = [[10, 11], [12, 13], [14, 15]], rt_experts = 4, rt_ranks = 2\<rparr>"

definition demo_r1 :: "int routing" where
  "demo_r1 = \<lparr>rt_topk_idx = [[1, 0], [2, 3]], rt_topk_weights = [[20, 21], [22, 23]], rt_experts = 4, rt_ranks = 2\<rparr>"

definition demo_ranks :: "(int list \<times> int routing) list" where
  "demo_ranks = [([100, 101, 102], demo_r0), ([200, 201], demo_r1)]"

definition demo_G :: "(int, int) global" where "demo_G = gather 0 [0, 0] [0, 0] demo_ranks"

definition demo_runs where
  "demo_runs = map (run_receiver 2 0 False demo_G demo_ranks) (substream_order 2 0 False demo_G)"

definition demo_handle :: "(int, int) handle" where
  "demo_handle = dispatch_handle 2 0 demo_G (foldl apply_store (fresh_mem (\<lambda>_. 77) 2) (concat (map fst (rev demo_runs)))) (concat (map snd (rev demo_runs)))"

lemma demo_routed: "well_routed 2 2 demo_ranks"
  by (simp add: well_routed_def demo_ranks_def demo_r0_def demo_r1_def)

theorem placement_meets_contract_witness:
  "check_dispatch_layout 0 demo_G demo_handle \<and> one_slot_each 0 demo_G demo_handle"
proof (rule placement_meets_contract [OF demo_routed demo_G_def _ _ _ _ demo_handle_def])
  show "set (concat (map fst (rev demo_runs)))
      = (\<Union>cs \<in> set (substream_order 2 0 False demo_G). set (fst (run_receiver 2 0 False demo_G demo_ranks cs)))"
    by (simp add: demo_runs_def)
  have "mset (concat (rev xss)) = mset (concat xss)" for xss :: "(nat \<times> nat) list list"
    by (induction xss) simp_all
  from this [of "map snd demo_runs"]
  show "mset (concat (map snd (rev demo_runs)))
      = mset (concat (map (\<lambda>cs. snd (run_receiver 2 0 False demo_G demo_ranks cs)) (substream_order 2 0 False demo_G)))"
    by (simp add: demo_runs_def rev_map comp_def)
qed (simp_all add: demo_ranks_def)

text \<open>C10: while receivers are still running: a tile's arrival count never exceeds its target, and once it has reached it
  every row of the tile has been stored by a receiver whose release-adds came after its stores.\<close>

theorem fired_tile_is_complete:
  fixes ranks :: "('r list \<times> 'f::zero routing) list"
  assumes "well_routed K E ranks" "G = gather zx zi zw ranks" "0 < C" "me < length ranks"
    and "mset fs = mset (concat (map (\<lambda>cs. snd (run_receiver C me internode G ranks cs)) (filter fired (substream_order C me internode G))))"
    and "t < total_tiles (expert_freq C me G)"
    and "target = snd (fill_tile_metadata (block_offset (expert_freq C me G)) (expert_freq C me G) t)"
  shows "add_fires fs t \<le> target \<and> (add_fires fs t = target \<longrightarrow>
    (\<forall>cs \<in> set (substream_order C me internode G). \<forall>s x.
      PoolRow s x \<in> set (fst (run_receiver C me internode G ranks cs)) \<and> s div TILE_M = t \<longrightarrow> fired cs))"
proof -
  have d: "dispatching K E C me ranks G zx zi zw" using assms(1-4) by unfold_locales
  show ?thesis unfolding assms(7) using dispatching.fired_tile [OF d assms(5,6)] by blast
qed

text \<open>Source 1's second channel has sent nothing to rank 0, so tile 0 can be complete before its receiver ends.\<close>

definition demo_fired :: "substream \<Rightarrow> bool" where "demo_fired cs \<longleftrightarrow> cs \<noteq> (1, 1)"

definition demo_fires :: "(nat \<times> nat) list" where
  "demo_fires = concat (map (\<lambda>cs. snd (run_receiver 2 0 False demo_G demo_ranks cs)) (filter demo_fired (substream_order 2 0 False demo_G)))"

theorem fired_tile_is_complete_witness:
  "add_fires demo_fires 0 = snd (fill_tile_metadata (block_offset (expert_freq 2 0 demo_G)) (expert_freq 2 0 demo_G) 0)
    \<and> (\<nexists>x. PoolRow 0 x \<in> set (fst (run_receiver 2 0 False demo_G demo_ranks (1, 1))))"
proof -
  have full: "add_fires demo_fires 0 = snd (fill_tile_metadata (block_offset (expert_freq 2 0 demo_G)) (expert_freq 2 0 demo_G) 0)"
    by code_simp
  have tile: "0 < total_tiles (expert_freq 2 0 demo_G)" by code_simp
  have "(1, 1) \<in> set (substream_order 2 0 False demo_G)" by code_simp
  then show ?thesis
    using full fired_tile_is_complete [OF demo_routed demo_G_def, of 2 0 demo_fires False demo_fired 0, OF _ _ _ tile refl]
    by (fastforce simp: demo_ranks_def demo_fires_def demo_fired_def)
qed

end
