(* ===== verification/MoE_Reference.thy ===== *)
theory MoE_Reference
  imports Dispatch_Slots
begin

text \<open>
  The layer in exact arithmetic: \<open>moe\<close> of \<^verbatim>\<open>stream_ep_tests/reference.py\<close>, what the whole layer is tested
  against, and what its parts are tested against (\<open>per_expert\<close> of \<^verbatim>\<open>kernels/_common.py\<close>, the expected values of
  \<^verbatim>\<open>test_kernel_a.py\<close> and \<^verbatim>\<open>test_kernel_y.py\<close>, \<open>Global.to_sources\<close> for combine). A row is read column by
  column; \<open>F.silu\<close>, the rounding to bf16 and \<open>keep_scale_ref\<close> are arguments.
\<close>

type_synonym 'f row = "nat \<Rightarrow> 'f"
type_synonym 'f matrix = "nat \<Rightarrow> nat \<Rightarrow> 'f"

section \<open>The reference layer\<close>

record 'f layer =
  ly_H :: nat
  ly_I :: nat
  ly_silu :: "'f \<Rightarrow> 'f"
  ly_bf16 :: "'f \<Rightarrow> 'f"

record 'f dropout =
  dr_keep :: "int \<Rightarrow> nat \<Rightarrow> 'f"        \<comment> \<open>\<open>keep_scale_ref(seed, slot, column, p)\<close>\<close>
  dr_slots :: "int list list"

definition linear :: "nat \<Rightarrow> 'f row \<Rightarrow> 'f matrix \<Rightarrow> 'f::comm_semiring_1 row" where
  \<comment> \<open>\<open>x @ w.T\<close> on rows of \<open>n\<close> columns\<close>
  "linear n x w = (\<lambda>j. \<Sum>i\<leftarrow>[0..<n]. x i * w j i)"

definition swiglu :: "('f \<Rightarrow> 'f) \<Rightarrow> 'f row \<Rightarrow> 'f::comm_semiring_1 row" where
  "swiglu silu h = (\<lambda>i. silu (h (2 * i)) * h (2 * i + 1))"

definition index_add :: "(nat \<Rightarrow> 'f row) \<Rightarrow> (nat \<times> 'f row) list \<Rightarrow> nat \<Rightarrow> 'f::comm_semiring_1 row" where
  "index_add out vs = foldl (\<lambda>o' (g, v). o'(g := \<lambda>h. o' g h + v h)) out vs"

definition recv_index :: "nat \<Rightarrow> ('f, 'r) global \<Rightarrow> int list" where
  "recv_index me G = (let ids = recv_tokens me G in
     foldl (\<lambda>t (g, q). t[g := int q]) (replicate (length (g_x G)) (- 1)) (zip ids [0..<length ids]))"

definition expert_tokens :: "nat \<Rightarrow> ('f, 'r) global \<Rightarrow> nat \<Rightarrow> (nat \<times> nat) list" where
  \<comment> \<open>\<open>(local_topk == e).nonzero()\<close>\<close>
  "expert_tokens me G e = concat (map (\<lambda>g. map (Pair g) (filter (\<lambda>k. local_topk me G ! g ! k = int e)
     [0..<length (local_topk me G ! g)])) [0..<length (local_topk me G)])"

definition moe_partial ::
  "'f layer \<Rightarrow> nat \<Rightarrow> ('f, 'f row) global \<Rightarrow> (nat \<Rightarrow> 'f matrix) \<Rightarrow> (nat \<Rightarrow> 'f matrix) \<Rightarrow> 'f dropout option
    \<Rightarrow> nat \<Rightarrow> 'f::comm_semiring_1 row" where
  \<comment> \<open>what one rank's experts add to every token\<close>
  "moe_partial L me G w1 w2 dropouts =
     (let idx = recv_index me G;
          init = (\<lambda>g h. (g_x G ! g) h * 0 + g_topk_weights G ! g ! 0 * 0)
      in foldl (\<lambda>out e. let tk = expert_tokens me G e in if tk = [] then out else
            index_add out (map (\<lambda>(g, k).
              let a = swiglu (ly_silu L) (\<lambda>j. ly_bf16 L (linear (ly_H L) (g_x G ! g) (w1 e) j));
                  a = (case dropouts of None \<Rightarrow> a
                       | Some d \<Rightarrow> (let slot = dr_slots d ! nat (idx ! g) ! k in (\<lambda>i. a i * dr_keep d slot i)))
              in (g, \<lambda>h. g_topk_weights G ! g ! k * linear (ly_I L) a (w2 e) h)) tk))
          init [0..<num_local_experts G])"

definition moe ::
  "'f layer \<Rightarrow> nat \<Rightarrow> ('f, 'f row) global \<Rightarrow> (nat \<Rightarrow> nat \<Rightarrow> 'f matrix) \<Rightarrow> (nat \<Rightarrow> nat \<Rightarrow> 'f matrix) \<Rightarrow> (nat \<Rightarrow> 'f dropout option)
    \<Rightarrow> 'f::comm_semiring_1 row list" where
  \<comment> \<open>weights and dropout of each rank; \<open>all_reduce\<close> sums the ranks' partial outputs\<close>
  "moe L me G w1 w2 dropouts = local_rows me G
     (map (\<lambda>g h. \<Sum>r\<leftarrow>[0..<g_world G]. moe_partial L r G (w1 r) (w2 r) (dropouts r) g h) [0..<length (g_x G)])"

section \<open>The kernels' references, per pool slot\<close>

definition per_expert :: "nat \<Rightarrow> bool list \<Rightarrow> nat list \<Rightarrow> (nat \<Rightarrow> 'f row) \<Rightarrow> (nat \<Rightarrow> 'f matrix) \<Rightarrow> ('f row \<Rightarrow> 'f matrix \<Rightarrow> 'f row)
    \<Rightarrow> (nat \<Rightarrow> 'f::zero row) option" where
  "per_expert E real expert rows weights fn = foldl (\<lambda>out e.
     let idx = filter (\<lambda>s. real ! s \<and> expert ! s = e) [0..<length real] in
     if idx = [] then out
     else Some (\<lambda>s. if s \<in> set idx then fn (rows s) (weights e)
                    else (case out of None \<Rightarrow> (\<lambda>_. 0) | Some y \<Rightarrow> y s))) None [0..<E]"

definition rows_or_zero :: "(nat \<Rightarrow> 'f row) option \<Rightarrow> nat \<Rightarrow> 'f::zero row" where
  "rows_or_zero y = (case y of None \<Rightarrow> (\<lambda>_ _. 0) | Some f \<Rightarrow> f)"

definition handle_mask :: "('f, 'r) handle \<Rightarrow> bool list" where "handle_mask h = map (\<lambda>r. 0 \<le> r) (h_recv h)"

definition kernel_a_rows :: "'f layer \<Rightarrow> ('f, 'f row) handle \<Rightarrow> (nat \<Rightarrow> 'f matrix) \<Rightarrow> (int \<Rightarrow> nat \<Rightarrow> 'f) option \<Rightarrow> nat \<Rightarrow> 'f::comm_semiring_1 row" where
  \<comment> \<open>kernel A: the activation of each slot; with dropout the mask of the slot\<close>
  "kernel_a_rows L h w1 keep =
     (let preact = rows_or_zero (per_expert (length (h_freq h)) (handle_mask h) (slot_expert (h_freq h)) ((!) (h_pool h)) w1 (linear (ly_H L)))
      in (\<lambda>s. let a = swiglu (ly_silu L) (\<lambda>j. ly_bf16 L (preact s j))
              in case keep of None \<Rightarrow> a | Some f \<Rightarrow> (\<lambda>i. a i * f (int s) i)))"

definition kernel_y_rows :: "'f layer \<Rightarrow> ('f, 'f row) handle \<Rightarrow> (nat \<Rightarrow> 'f matrix) \<Rightarrow> (nat \<Rightarrow> 'f row) \<Rightarrow> nat \<Rightarrow> 'f::comm_semiring_1 row" where
  \<comment> \<open>kernel Y: \<open>o\<close>, each slot's weighted row added to its token\<close>
  "kernel_y_rows L h w2 postact =
     (let y = rows_or_zero (per_expert (length (h_freq h)) (handle_mask h) (slot_expert (h_freq h)) postact w2 (linear (ly_I L)));
          real = filter ((!) (handle_mask h)) [0..<length (h_recv h)]
      in index_add (\<lambda>_ _. 0) (map (\<lambda>s. (nat (h_recv h ! s), \<lambda>c. h_weight h ! s * y s c)) real))"

definition spread :: "nat \<Rightarrow> ('f, 'r) global \<Rightarrow> (nat \<Rightarrow> 'f row) \<Rightarrow> nat \<Rightarrow> 'f::zero row" where
  \<comment> \<open>\<open>full[recv_tokens] = per_recv\<close>\<close>
  "spread me G per_recv = (let ids = recv_tokens me G in
     foldl (\<lambda>full (g, q). full(g := per_recv q)) (\<lambda>_ _. 0) (zip ids [0..<length ids]))"

definition to_sources :: "nat \<Rightarrow> ('f, 'r) global \<Rightarrow> (nat \<Rightarrow> nat \<Rightarrow> 'f row) \<Rightarrow> 'f::comm_semiring_1 row list" where
  \<comment> \<open>combine: the rows each rank holds, summed over the ranks, of my tokens\<close>
  "to_sources me G per_recv = local_rows me G
     (map (\<lambda>g h. \<Sum>r\<leftarrow>[0..<g_world G]. spread r G (per_recv r) g h) [0..<length (g_x G)])"

definition layer_rows ::
  "'f layer \<Rightarrow> nat \<Rightarrow> ('f, 'f row) global \<Rightarrow> (nat \<Rightarrow> ('f, 'f row) handle) \<Rightarrow> (nat \<Rightarrow> nat \<Rightarrow> 'f matrix) \<Rightarrow> (nat \<Rightarrow> nat \<Rightarrow> 'f matrix)
    \<Rightarrow> (nat \<Rightarrow> (int \<Rightarrow> nat \<Rightarrow> 'f) option) \<Rightarrow> 'f::comm_semiring_1 row list" where
  \<comment> \<open>dispatch's handles, kernel A, kernel Y, combine\<close>
  "layer_rows L me G hs w1 w2 keeps = to_sources me G
     (\<lambda>r. kernel_y_rows L (hs r) (w2 r) (kernel_a_rows L (hs r) (w1 r) (keeps r)))"

definition dropout_of :: "('f, 'r) handle \<Rightarrow> (int \<Rightarrow> nat \<Rightarrow> 'f) option \<Rightarrow> 'f dropout option" where
  \<comment> \<open>\<open>Dropout\<close> of a rank: its keep scales and the slots of its dispatch\<close>
  "dropout_of h keep = map_option (\<lambda>f. \<lparr>dr_keep = f, dr_slots = h_slots h\<rparr>) keep"

section \<open>Sums\<close>

lemma index_add_sum:
  fixes out :: "nat \<Rightarrow> 'f::comm_semiring_1 row"
  shows "index_add out vs g h = out g h + (\<Sum>(g', v)\<leftarrow>vs. if g' = g then v h else 0)"
proof -
  have "foldl (\<lambda>o' (g, v). o'(g := \<lambda>h. o' g h + v h)) out vs g h = out g h + (\<Sum>(g', v)\<leftarrow>vs. if g' = g then v h else 0)"
  proof (induction vs arbitrary: out)
    case (Cons p vs)
    then show ?case by (cases p) (auto simp: add.assoc)
  qed simp
  then show ?thesis by (simp add: index_add_def)
qed

lemma foldl_index_add:
  fixes init :: "nat \<Rightarrow> 'f::comm_semiring_1 row"
  shows "foldl (\<lambda>out e. if tk e = [] then out else index_add out (map (f e) (tk e))) init es g h
    = init g h + (\<Sum>e\<leftarrow>es. \<Sum>(g', v)\<leftarrow>map (f e) (tk e). if g' = g then v h else 0)"
proof (induction es arbitrary: init)
  case (Cons e es)
  then show ?case by (simp add: index_add_sum add.assoc)
qed simp

lemma per_expert_at:
  "rows_or_zero (per_expert E real expert rows weights fn) s
    = (if s < length real \<and> real ! s \<and> expert ! s < E then fn (rows s) (weights (expert ! s)) else (\<lambda>_. 0))"
proof (induction E)
  case 0
  show ?case by (simp add: per_expert_def rows_or_zero_def)
next
  case (Suc n)
  let ?idx = "filter (\<lambda>s. real ! s \<and> expert ! s = n) [0..<length real]"
  have "per_expert (Suc n) real expert rows weights fn
      = (let y = per_expert n real expert rows weights fn in if ?idx = [] then y
         else Some (\<lambda>s. if s \<in> set ?idx then fn (rows s) (weights n) else (case y of None \<Rightarrow> (\<lambda>_. 0) | Some y \<Rightarrow> y s)))"
    by (simp add: per_expert_def Let_def)
  then show ?case using Suc by (auto simp: Let_def rows_or_zero_def filter_empty_conv less_Suc_eq split: option.splits)
qed

lemma pair_sum:
  fixes f :: "nat \<Rightarrow> nat \<Rightarrow> 'f::comm_semiring_1 row"
  shows "(\<Sum>(g', v)\<leftarrow>map (\<lambda>(g, k). (g, f g k)) (concat (map (\<lambda>g. map (Pair g) (ks g)) gs)). if g' = g then v c else 0)
    = (\<Sum>g'\<leftarrow>gs. if g' = g then \<Sum>k\<leftarrow>ks g. f g k c else 0)"
proof (induction gs)
  case (Cons a gs)
  have "(\<Sum>(g', v)\<leftarrow>map (\<lambda>(g, k). (g, f g k)) (map (Pair a) xs). if g' = g then v c else 0)
      = (if a = g then \<Sum>k\<leftarrow>xs. f g k c else 0)" for xs
    by (induction xs) auto
  then show ?case using Cons by simp
qed simp

lemma by_expert:
  fixes f :: "nat \<Rightarrow> nat \<Rightarrow> 'f::comm_semiring_1"
  assumes "\<And>k. k < n \<Longrightarrow> ch k < int E"
  shows "(\<Sum>e\<leftarrow>[0..<E]. \<Sum>k\<leftarrow>filter (\<lambda>k. ch k = int e) [0..<n]. f k e) = (\<Sum>k | k < n \<and> 0 \<le> ch k. f k (nat (ch k)))"
proof -
  have "(\<Sum>e\<leftarrow>[0..<E]. \<Sum>k\<leftarrow>filter (\<lambda>k. ch k = int e) [0..<n]. f k e)
      = (\<Sum>e\<in>{..<E}. \<Sum>k | k \<in> {k. k < n \<and> 0 \<le> ch k} \<and> nat (ch k) = e. f k (nat (ch k)))"
    unfolding interv_sum_list_conv_sum_set_nat set_upt
    by (intro sum.cong) (auto simp: sum_list_distinct_conv_sum_set intro!: sum.cong)
  also have "\<dots> = (\<Sum>k | k < n \<and> 0 \<le> ch k. f k (nat (ch k)))"
    using assms by (intro sum.group) (auto simp: nat_less_iff)
  finally show ?thesis .
qed

text \<open>Rows and indices put back by \<open>recv_tokens\<close>.\<close>

lemma foldl_put:
  assumes "\<And>q. (g, q) \<in> set ps \<Longrightarrow> q = j"
  shows "foldl (\<lambda>full (g, q). full(g := per q)) init ps g = (if \<exists>q. (g, q) \<in> set ps then per j else init g)"
  using assms
proof (induction ps arbitrary: init)
  case (Cons p ps)
  obtain a b where p: "p = (a, b)" by (cases p)
  have "foldl (\<lambda>full (g, q). full(g := per q)) (init(a := per b)) ps g
      = (if \<exists>q. (g, q) \<in> set ps then per j else (init(a := per b)) g)"
    using Cons.prems by (intro Cons.IH) simp
  moreover have "foldl (\<lambda>full (g, q). full(g := per q)) init (p # ps) g = foldl (\<lambda>full (g, q). full(g := per q)) (init(a := per b)) ps g"
    by (simp only: foldl_Cons p prod.case)
  ultimately show ?case using Cons.prems [of b] by (simp only: p) auto
qed simp

lemma foldl_put_list:
  assumes "\<And>q. (g, q) \<in> set ps \<Longrightarrow> q = j" "g < length init"
  shows "foldl (\<lambda>t (g, q). t[g := per q]) init ps ! g = (if \<exists>q. (g, q) \<in> set ps then per j else init ! g)"
  using assms
proof (induction ps arbitrary: init)
  case (Cons p ps)
  obtain a b where p: "p = (a, b)" by (cases p)
  have "foldl (\<lambda>t (g, q). t[g := per q]) (init[a := per b]) ps ! g
      = (if \<exists>q. (g, q) \<in> set ps then per j else init[a := per b] ! g)"
    using Cons.prems by (intro Cons.IH) simp_all
  then show ?case using Cons.prems(1) [of b] Cons.prems(2) p by auto
qed simp

lemma zip_index: "distinct ids \<Longrightarrow> (g, q) \<in> set (zip ids [0..<length ids]) \<longleftrightarrow> q < length ids \<and> ids ! q = g"
  by (auto simp: set_zip)

lemma recv_tokens_distinct: "distinct (recv_tokens me G)"
  by (simp add: recv_tokens_def)

lemma spread_at: "q < length (recv_tokens me G) \<Longrightarrow> spread me G per (recv_tokens me G ! q) = per q"
  unfolding spread_def Let_def
  by (subst foldl_put [where j = q]) (auto simp: zip_index recv_tokens_distinct nth_eq_iff_index_eq)

lemma spread_none: "g \<notin> set (recv_tokens me G) \<Longrightarrow> spread me G per g = (\<lambda>_. 0)"
  unfolding spread_def Let_def
  by (subst foldl_put [where j = 0]) (auto simp: zip_index recv_tokens_distinct)

lemma recv_index_at:
  assumes "q < length (recv_tokens me G)" "length (g_topk_idx G) = length (g_x G)"
  shows "recv_index me G ! (recv_tokens me G ! q) = int q"
proof -
  have "recv_tokens me G ! q \<in> set (recv_tokens me G)" using assms(1) by simp
  then have "recv_tokens me G ! q < length (g_x G)" using assms(2) by (simp add: recv_tokens_def del: nth_mem)
  then show ?thesis
    unfolding recv_index_def Let_def using assms(1)
    by (subst foldl_put_list [where j = q]) (auto simp: zip_index recv_tokens_distinct nth_eq_iff_index_eq)
qed

section \<open>One rank's share of the reference\<close>

lemma local_topk_bound:
  assumes "g < length (g_topk_idx G)" "k < length (local_topk me G ! g)" "0 < num_local_experts G"
  shows "local_topk me G ! g ! k < int (num_local_experts G)"
proof -
  have "local_topk me G ! g ! k = localise (expert_lo me G) (num_local_experts G) (g_topk_idx G ! g ! k)"
    using assms by (simp add: local_topk_def)
  then show ?thesis
    using localise_bound [of "expert_lo me G" "num_local_experts G" "g_topk_idx G ! g ! k"] assms(3) by simp
qed

definition token_contrib :: "'f layer \<Rightarrow> nat \<Rightarrow> ('f, 'f row) global \<Rightarrow> (nat \<Rightarrow> 'f matrix) \<Rightarrow> (nat \<Rightarrow> 'f matrix) \<Rightarrow> 'f dropout option
    \<Rightarrow> nat \<Rightarrow> nat \<Rightarrow> nat \<Rightarrow> 'f::comm_semiring_1 row" where
  \<comment> \<open>what token \<open>g\<close>'s \<open>k\<close>-th choice adds to its row when it is expert \<open>e\<close>\<close>
  "token_contrib L me G w1 w2 dropouts g k e = (\<lambda>c. g_topk_weights G ! g ! k * linear (ly_I L)
     (let a = swiglu (ly_silu L) (\<lambda>j. ly_bf16 L (linear (ly_H L) (g_x G ! g) (w1 e) j))
      in case dropouts of None \<Rightarrow> a
         | Some d \<Rightarrow> (\<lambda>i. a i * dr_keep d (dr_slots d ! nat (recv_index me G ! g) ! k) i)) (w2 e) c)"

lemma moe_partial_sum:
  assumes "g < length (g_x G)" "length (g_topk_idx G) = length (g_x G)" "0 < num_local_experts G"
  shows "moe_partial L me G w1 w2 dropouts g c
    = (\<Sum>k | k < length (local_topk me G ! g) \<and> 0 \<le> local_topk me G ! g ! k.
        token_contrib L me G w1 w2 dropouts g k (nat (local_topk me G ! g ! k)) c)"
proof -
  let ?E = "num_local_experts G" and ?t = "token_contrib L me G w1 w2 dropouts"
  have "moe_partial L me G w1 w2 dropouts g c
      = (\<Sum>e\<leftarrow>[0..<?E]. \<Sum>(g', v)\<leftarrow>map (\<lambda>(g, k). (g, ?t g k e)) (expert_tokens me G e). if g' = g then v c else 0)"
    unfolding moe_partial_def Let_def foldl_index_add
    by (cases dropouts) (simp_all add: token_contrib_def Let_def)
  also have "\<dots> = (\<Sum>e\<leftarrow>[0..<?E]. \<Sum>k\<leftarrow>filter (\<lambda>k. local_topk me G ! g ! k = int e) [0..<length (local_topk me G ! g)]. ?t g k e c)"
    unfolding expert_tokens_def pair_sum using assms
    by (simp add: interv_sum_list_conv_sum_set_nat local_topk_def)
  also have "\<dots> = (\<Sum>k | k < length (local_topk me G ! g) \<and> 0 \<le> local_topk me G ! g ! k. ?t g k (nat (local_topk me G ! g ! k)) c)"
    using assms local_topk_bound [of g G _ me] by (intro by_expert) simp
  finally show ?thesis .
qed

section \<open>Reading a handle that meets the contract\<close>

locale contract_met =
  fixes r :: nat and G :: "('f::comm_semiring_1, 'f row) global" and h :: "('f, 'f row) handle"
  assumes layout: "check_dispatch_layout r G h" and exact: "one_slot_each r G h"
    and same_rows: "length (g_topk_idx G) = length (g_x G)" and experts: "0 < num_local_experts G"
begin

abbreviation "ids \<equiv> recv_tokens r G"
abbreviation "chosen g k \<equiv> local_topk r G ! g ! k"
abbreviation "width g \<equiv> length (local_topk r G ! g)"
abbreviation "slots \<equiv> [0..<length (h_recv h)]"
abbreviation "tok s \<equiv> nat (h_recv h ! s)"
abbreviation "sel s \<equiv> nat (h_k h ! s)"

lemma layout_facts:
  "length (h_freq h) = num_local_experts G"
  "\<And>s. s < length (h_recv h) \<Longrightarrow> 0 \<le> h_recv h ! s \<Longrightarrow>
     tok s < length ids \<and> sel s < width (ids ! tok s) \<and> chosen (ids ! tok s) (sel s) = int (slot_expert (h_freq h) ! s)
     \<and> h_pool h ! s = g_x G ! (ids ! tok s) \<and> h_weight h ! s = g_topk_weights G ! (ids ! tok s) ! sel s"
  "h_slots h = foldl (\<lambda>ex s. ex[tok s := (ex ! tok s)[sel s := int s]]) (map (map (\<lambda>_. - 1)) (map ((!) (local_topk r G)) ids))
     (filter (\<lambda>s. 0 \<le> h_recv h ! s) slots)"
  using layout by (auto simp: check_dispatch_layout_def Let_def bincount_def list_all_iff diff_blocks slot_expert_def num_experts_def)

lemma chosen_bound:
  "g < length (g_topk_idx G) \<Longrightarrow> k < width g \<Longrightarrow> chosen g k < int (num_local_experts G)"
  using local_topk_bound [OF _ _ experts] .

lemma slot_expert_bound:
  assumes "s < length (h_recv h)" "0 \<le> h_recv h ! s"
  shows "slot_expert (h_freq h) ! s < length (h_freq h)"
proof -
  note f = layout_facts(2) [OF assms]
  have "ids ! tok s \<in> set ids" using f by simp
  then have "ids ! tok s < length (g_topk_idx G)" by (simp add: recv_tokens_def del: nth_mem)
  then show ?thesis using f chosen_bound [of "ids ! tok s" "sel s"] layout_facts(1) by simp
qed

lemma one_each:
  assumes "q < length ids" "k < width (ids ! q)"
  shows "length (filter (\<lambda>s. h_recv h ! s = int q \<and> h_k h ! s = int k) slots) = (if 0 \<le> chosen (ids ! q) k then 1 else 0)"
  using exact assms by (auto simp: one_slot_each_def Let_def list_all_iff)

lemma sel_nonneg: "s < length (h_recv h) \<Longrightarrow> 0 \<le> h_recv h ! s \<Longrightarrow> 0 \<le> h_k h ! s"
  using exact by (auto simp: one_slot_each_def Let_def list_all_iff)

text \<open>The slots of a received token are its local choices.\<close>

lemma slots_of_token:
  assumes "q < length ids"
  shows "bij_betw sel {s. s < length (h_recv h) \<and> h_recv h ! s = int q} {k. k < width (ids ! q) \<and> 0 \<le> chosen (ids ! q) k}"
proof (rule bij_betwI')
  fix s s'
  assume s: "s \<in> {s. s < length (h_recv h) \<and> h_recv h ! s = int q}" and s': "s' \<in> {s. s < length (h_recv h) \<and> h_recv h ! s = int q}"
  note f = layout_facts(2) [of s]
  show "sel s = sel s' \<longleftrightarrow> s = s'"
  proof
    assume eq: "sel s = sel s'"
    have "0 \<le> h_k h ! s" "0 \<le> h_k h ! s'" using s s' by (auto intro: sel_nonneg)
    then have k: "h_k h ! s = int (sel s)" "h_k h ! s' = int (sel s)" using eq by linarith+
    have "length (filter (\<lambda>s'. h_recv h ! s' = int q \<and> h_k h ! s' = int (sel s)) slots) \<le> 1"
      using one_each [OF assms, of "sel s"] f s by simp
    then have "card {s'. s' < length (h_recv h) \<and> h_recv h ! s' = int q \<and> h_k h ! s' = int (sel s)} \<le> 1"
      by (simp add: distinct_length_filter Int_def conj_commute conj_left_commute)
    then show "s = s'" using s s' k card_le_Suc0_iff_eq [of "{s'. s' < length (h_recv h) \<and> h_recv h ! s' = int q \<and> h_k h ! s' = int (sel s)}"]
      by auto
  qed simp
next
  fix s assume "s \<in> {s. s < length (h_recv h) \<and> h_recv h ! s = int q}"
  then show "sel s \<in> {k. k < width (ids ! q) \<and> 0 \<le> chosen (ids ! q) k}" using layout_facts(2) [of s] by simp
next
  fix k assume k: "k \<in> {k. k < width (ids ! q) \<and> 0 \<le> chosen (ids ! q) k}"
  then have "filter (\<lambda>s. h_recv h ! s = int q \<and> h_k h ! s = int k) slots \<noteq> []" using one_each [OF assms, of k] by auto
  then obtain s where "s < length (h_recv h)" "h_recv h ! s = int q" "h_k h ! s = int k"
    unfolding filter_empty_conv by auto
  then show "\<exists>s\<in>{s. s < length (h_recv h) \<and> h_recv h ! s = int q}. k = sel s" by (intro bexI [of _ s]) simp_all
qed

lemma slots_at_token:
  assumes "s < length (h_recv h)" "0 \<le> h_recv h ! s"
  shows "h_slots h ! tok s ! sel s = int s"
  unfolding layout_facts(3)
proof (subst foldl_assign [where w = "int s"])
  fix s' assume s': "s' \<in> set (filter (\<lambda>s. 0 \<le> h_recv h ! s) slots)"
  then show "tok s' < length (map (map (\<lambda>_. - 1 :: int)) (map ((!) (local_topk r G)) ids)) \<and>
      sel s' < length (map (map (\<lambda>_. - 1 :: int)) (map ((!) (local_topk r G)) ids) ! tok s')"
    using layout_facts(2) [of s'] by simp
  assume "tok s' = tok s" "sel s' = sel s"
  then have "h_recv h ! s' = h_recv h ! s" using s' assms by auto
  moreover have "h_recv h ! s = int (tok s)" using assms by simp
  ultimately have "s' = s"
    using s' assms \<open>sel s' = sel s\<close> layout_facts(2) [OF assms] bij_betw_imp_inj_on [OF slots_of_token, of "tok s"]
    by (auto dest: inj_onD)
  then show "int s' = int s" by simp
qed (use assms in auto)

section \<open>What the kernels add\<close>

abbreviation "contrib L w1 w2 keep \<equiv> token_contrib L r G w1 w2 (dropout_of h keep)"

lemmas reference_share = moe_partial_sum [OF _ same_rows experts]

text \<open>What the kernels leave in a received token's row is what the reference adds for it on this rank.\<close>

lemma slot_row_value:
  assumes "s < length (h_recv h)" "0 \<le> h_recv h ! s"
  shows "h_weight h ! s * rows_or_zero (per_expert (length (h_freq h)) (handle_mask h) (slot_expert (h_freq h))
      (kernel_a_rows L h w1 keep) w2 (linear (ly_I L))) s c
    = contrib L w1 w2 keep (ids ! tok s) (sel s) (nat (chosen (ids ! tok s) (sel s))) c"
proof -
  note f = layout_facts(2) [OF assms] and e = slot_expert_bound [OF assms] and sl = slots_at_token [OF assms]
  have "recv_index r G ! (ids ! tok s) = int (tok s)" using recv_index_at [OF _ same_rows] f by simp
  then show ?thesis using f e sl assms
    by (cases keep) (simp_all add: per_expert_at handle_mask_def token_contrib_def dropout_of_def kernel_a_rows_def Let_def)
qed

lemma kernel_y_sum:
  "kernel_y_rows L h w2 postact q c = (\<Sum>s | s < length (h_recv h) \<and> h_recv h ! s = int q. h_weight h ! s *
     rows_or_zero (per_expert (length (h_freq h)) (handle_mask h) (slot_expert (h_freq h)) postact w2 (linear (ly_I L))) s c)"
proof -
  let ?y = "rows_or_zero (per_expert (length (h_freq h)) (handle_mask h) (slot_expert (h_freq h)) postact w2 (linear (ly_I L)))"
  have "kernel_y_rows L h w2 postact q c = (\<Sum>s\<leftarrow>filter ((!) (handle_mask h)) slots. if tok s = q then h_weight h ! s * ?y s c else 0)"
    by (simp add: kernel_y_rows_def Let_def index_add_sum comp_def)
  also have "\<dots> = (\<Sum>s | s < length (h_recv h) \<and> 0 \<le> h_recv h ! s \<and> tok s = q. h_weight h ! s * ?y s c)"
    by (simp add: sum_list_distinct_conv_sum_set sum.inter_filter [symmetric] handle_mask_def)
      (intro sum.cong; auto simp: handle_mask_def)
  also have "\<dots> = (\<Sum>s | s < length (h_recv h) \<and> h_recv h ! s = int q. h_weight h ! s * ?y s c)"
    by (intro sum.cong) auto
  finally show ?thesis .
qed

lemma kernel_share:
  assumes "q < length ids"
  shows "kernel_y_rows L h w2 (kernel_a_rows L h w1 keep) q c
    = (\<Sum>k | k < width (ids ! q) \<and> 0 \<le> chosen (ids ! q) k. contrib L w1 w2 keep (ids ! q) k (nat (chosen (ids ! q) k)) c)"
proof -
  have "kernel_y_rows L h w2 (kernel_a_rows L h w1 keep) q c = (\<Sum>s | s < length (h_recv h) \<and> h_recv h ! s = int q.
      contrib L w1 w2 keep (ids ! q) (sel s) (nat (chosen (ids ! q) (sel s))) c)"
    unfolding kernel_y_sum by (intro sum.cong) (auto simp: slot_row_value)
  also have "\<dots> = (\<Sum>k | k < width (ids ! q) \<and> 0 \<le> chosen (ids ! q) k. contrib L w1 w2 keep (ids ! q) k (nat (chosen (ids ! q) k)) c)"
    by (rule sum.reindex_bij_betw [OF slots_of_token [OF assms]])
  finally show ?thesis .
qed

text \<open>Every received token has a slot.\<close>

lemma token_has_slot:
  assumes "q < length ids"
  shows "\<exists>s < length (h_recv h). h_recv h ! s = int q"
proof -
  have "ids ! q \<in> set ids" using assms by simp
  then have "has_local (local_topk r G ! (ids ! q))" by (simp add: recv_tokens_def del: nth_mem)
  then obtain k where "k < width (ids ! q)" "0 \<le> chosen (ids ! q) k" by (auto simp: has_local_def list_ex_length)
  then have "k \<in> sel ` {s. s < length (h_recv h) \<and> h_recv h ! s = int q}"
    using slots_of_token [OF assms] by (simp add: bij_betw_def)
  then show ?thesis by auto
qed

lemma rank_share:
  assumes "g < length (g_x G)"
  shows "spread r G (kernel_y_rows L h w2 (kernel_a_rows L h w1 keep)) g c = moe_partial L r G w1 w2 (dropout_of h keep) g c"
proof (cases "g \<in> set ids")
  case True
  then obtain q where "q < length ids" "ids ! q = g" by (metis in_set_conv_nth)
  then show ?thesis using kernel_share [of q] reference_share [OF assms] spread_at [of q r G] by simp
next
  case False
  then have "\<not> has_local (local_topk r G ! g)" using assms same_rows by (simp add: recv_tokens_def)
  then have "{k. k < width g \<and> 0 \<le> chosen g k} = {}" by (auto simp: has_local_def list_ex_length)
  then show ?thesis using False reference_share [OF assms] by (simp add: spread_none del: Collect_empty_eq)
qed

end

text \<open>Summed over the ranks.\<close>

lemma layer_is_reference:
  assumes "\<And>r. r < g_world G \<Longrightarrow> contract_met r G (hs r)"
  shows "layer_rows L me G hs w1 w2 keeps = moe L me G w1 w2 (\<lambda>r. dropout_of (hs r) (keeps r))"
proof -
  have "(\<Sum>r\<leftarrow>[0..<g_world G]. spread r G (kernel_y_rows L (hs r) (w2 r) (kernel_a_rows L (hs r) (w1 r) (keeps r))) g c)
      = (\<Sum>r\<leftarrow>[0..<g_world G]. moe_partial L r G (w1 r) (w2 r) (dropout_of (hs r) (keeps r)) g c)" if g: "g < length (g_x G)" for g c
    using contract_met.rank_share [OF assms g] by (intro arg_cong [of _ _ sum_list] map_cong) simp_all
  then show ?thesis unfolding layer_rows_def to_sources_def moe_def
    by (intro arg_cong [of _ _ "local_rows me G"] map_cong ext refl) simp
qed

end
