(* ===== verification/Layer_Reference.thy ===== *)
theory Layer_Reference
  imports Dispatch_Contract MoE_Reference
begin

text \<open>
  The handles of \<^theory_text>\<open>Dispatch_Contract\<close> read by the kernels of \<^theory_text>\<open>MoE_Reference\<close>: dispatch, kernel A, kernel Y and
  combine together return \<open>moe\<close> of \<^verbatim>\<open>stream_ep_tests/reference.py\<close>, with and without expert dropout.
\<close>

lemma placed_contract_met:
  fixes ranks :: "('f row list \<times> 'f::comm_semiring_1 routing) list"
  assumes "well_routed K E ranks" "G = gather zx zi zw ranks" "0 < C" "me < length ranks"
    and "set sts = (\<Union>cs \<in> set (substream_order C me internode G). set (fst (run_receiver C me internode G ranks cs)))"
    and "mset fs = mset (concat (map (\<lambda>cs. snd (run_receiver C me internode G ranks cs)) (substream_order C me internode G)))"
    and "h = dispatch_handle C me G (foldl apply_store (fresh_mem junk K) sts) fs"
  shows "contract_met me G h"
proof
  show "check_dispatch_layout me G h" "one_slot_each me G h" by (rule placed_handle [OF assms])+
  note facts = gather_facts [OF assms(1,2)]
  have "map (\<lambda>p. length (rt_topk_idx (snd p))) ranks = map (\<lambda>p. length (fst p)) ranks"
    using assms(1) by (auto simp: well_routed_def)
  from arg_cong [OF this, of sum_list] show "length (g_topk_idx G) = length (g_x G)"
    by (simp add: facts(1,2) length_concat comp_def)
  show "0 < num_local_experts G" using facts(5) assms(1) by (simp add: well_routed_def)
qed

text \<open>The pipeline the bench runs: every rank's handle, with its receivers run one after the other.\<close>

definition serial_handle :: "nat \<Rightarrow> nat \<Rightarrow> nat \<Rightarrow> bool \<Rightarrow> ('f, 'f row) global \<Rightarrow> ('f row list \<times> 'f::comm_semiring_1 routing) list
    \<Rightarrow> ('f, 'f row) handle" where
  "serial_handle C me K internode G ranks =
     (let runs = map (run_receiver C me internode G ranks) (substream_order C me internode G)
      in dispatch_handle C me G (foldl apply_store (fresh_mem (\<lambda>_ _. 0) K) (concat (map fst runs))) (concat (map snd runs)))"

lemma serial_met:
  assumes "well_routed K E ranks" "G = gather zx zi zw ranks" "0 < C" "me < length ranks"
  shows "contract_met me G (serial_handle C me K internode G ranks)"
  unfolding serial_handle_def Let_def
  by (rule placed_contract_met [OF assms _ _ refl]) (simp_all add: comp_def)

interpretation uniform_layer: contract_met "me mod Suc W" "gather zx zi zw (uniform_ranks n K (Suc E) (Suc W) x w)"
    "serial_handle (Suc C) (me mod Suc W) K internode (gather zx zi zw (uniform_ranks n K (Suc E) (Suc W) x w))
       (uniform_ranks n K (Suc E) (Suc W) x w)"
  for W me n K E C internode x zx zi zw and w :: "nat \<Rightarrow> nat \<Rightarrow> nat \<Rightarrow> 'f::comm_semiring_1"
  by (rule serial_met [OF uniform_well_routed]) (simp_all add: uniform_ranks_def)

section \<open>Rows, token by token\<close>

lemma local_rows_nth:
  assumes "g_offsets G = map (off_of ranks) [0..<length ranks + 1]" "N = off_of ranks (length ranks)"
    and "me < length ranks" "i < tokens_of ranks me"
  shows "local_rows me G (map F [0..<N]) ! i = F (off_of ranks me + i)"
proof -
  have "off_of ranks me + i < off_of ranks (length ranks)"
    using nth_gathered(2) [of me ranks i "rt_topk_idx \<circ> snd"] assms(3,4) by (simp only: comp_apply gathered_length simp_thms)
  then show ?thesis using assms off_Suc [of me ranks] by (simp add: local_rows_def del: upt_Suc)
qed

lemma moe_row:
  assumes "g_offsets G = map (off_of ranks) [0..<length ranks + 1]" "length (g_x G) = off_of ranks (length ranks)"
    and "g_world G = length ranks" "me < length ranks" "i < tokens_of ranks me"
  shows "(moe L me G w1 w2 drops ! i) c = (\<Sum>r<length ranks. moe_partial L r G (w1 r) (w2 r) (drops r) (off_of ranks me + i) c)"
  unfolding moe_def by (subst local_rows_nth [OF assms(1,2,4,5)])
    (simp add: assms(3) interv_sum_list_conv_sum_set_nat atLeast0LessThan)

lemma to_sources_row:
  assumes "g_offsets G = map (off_of ranks) [0..<length ranks + 1]" "length (g_x G) = off_of ranks (length ranks)"
    and "g_world G = length ranks" "me < length ranks" "i < tokens_of ranks me"
  shows "(to_sources me G per ! i) c = (\<Sum>r<length ranks. spread r G (per r) (off_of ranks me + i) c)"
  unfolding to_sources_def by (subst local_rows_nth [OF assms(1,2,4,5)])
    (simp add: assms(3) interv_sum_list_conv_sum_set_nat atLeast0LessThan)

lemma gathered_weights:
  assumes "well_routed K E ranks" "G = gather zx zi zw ranks"
  shows "length (g_topk_weights G) = length (g_x G)" "length (g_topk_idx G) = length (g_x G)" "length (g_x G) = off_of ranks (length ranks)"
    and "g < length (g_x G) \<Longrightarrow> length (local_topk r G ! g) = K"
    and "g < length (g_x G) \<Longrightarrow> length (g_topk_weights G ! g) = length (local_topk r G ! g)"
proof -
  note f = gather_facts [OF assms]
  have lens: "length (fst p) = length (rt_topk_idx (snd p))" "length (rt_topk_weights (snd p)) = length (rt_topk_idx (snd p))"
    if "p \<in> set ranks" for p using assms(1) that by (auto simp: well_routed_def)
  show N: "length (g_x G) = off_of ranks (length ranks)"
    using off_of_lengths [of ranks fst "length ranks"] lens by (simp add: f(1) length_concat)
  then show w: "length (g_topk_weights G) = length (g_x G)"
    using off_of_lengths [of ranks "rt_topk_weights \<circ> snd" "length ranks"] lens by (simp add: f(3) length_concat comp_def)
  show i: "length (g_topk_idx G) = length (g_x G)" unfolding N by (simp only: f(2) gathered_length)
  show k: "length (local_topk r G ! g) = K" if "g < length (g_x G)"
  proof -
    have "g_topk_idx G ! g \<in> set (concat (map (rt_topk_idx \<circ> snd) ranks))" using that i unfolding f(2) [symmetric] by simp
    then have "length (g_topk_idx G ! g) = K" using assms(1) by (auto simp: well_routed_def)
    then show ?thesis using that i by (simp add: local_topk_def)
  qed
  show "length (g_topk_weights G ! g) = length (local_topk r G ! g)" if "g < length (g_x G)"
  proof -
    have "g_topk_weights G ! g \<in> set (concat (map (rt_topk_weights \<circ> snd) ranks))" using that w unfolding f(3) [symmetric] by simp
    then have "length (g_topk_weights G ! g) = K" using assms(1) by (auto simp: well_routed_def)
    then show ?thesis using k [OF that] by simp
  qed
qed

section \<open>The layer\<close>

text \<open>The layer computes its reference: on every rank, for every routing, every order of the receivers' stores and
  release-adds on every rank and every dropout mask, dispatch, kernel A, kernel Y and combine return the rows \<open>moe\<close>
  returns when it is given the slots of the same dispatch.\<close>

theorem layer_computes_moe:
  fixes ranks :: "('f row list \<times> 'f::comm_semiring_1 routing) list"
  assumes "well_routed K E ranks" "G = gather zx zi zw ranks" "0 < C"
    and "\<And>r. r < length ranks \<Longrightarrow> set (sts r)
      = (\<Union>cs \<in> set (substream_order C r internode G). set (fst (run_receiver C r internode G ranks cs)))"
    and "\<And>r. r < length ranks \<Longrightarrow> mset (fs r)
      = mset (concat (map (\<lambda>cs. snd (run_receiver C r internode G ranks cs)) (substream_order C r internode G)))"
    and "\<And>r. r < length ranks \<Longrightarrow> hs r = dispatch_handle C r G (foldl apply_store (fresh_mem (junk r) K) (sts r)) (fs r)"
  shows "layer_rows L me G hs w1 w2 keeps = moe L me G w1 w2 (\<lambda>r. dropout_of (hs r) (keeps r))"
proof (rule layer_is_reference)
  fix r assume "r < g_world G"
  then have "r < length ranks" using gather_facts(4) [OF assms(1,2)] by simp
  then show "contract_met r G (hs r)" using placed_contract_met [OF assms(1-3)] assms(4-6) by blast
qed

text \<open>Two ranks with two experts each, the stores of every rank in reverse, expert dropout on rank 0 only.\<close>

definition demo_layer :: "int layer" where
  "demo_layer = \<lparr>ly_H = 2, ly_I = 1, ly_silu = (\<lambda>v. v + 1), ly_bf16 = (\<lambda>v. v div 2)\<rparr>"

definition demo_layer_ranks :: "(int row list \<times> int routing) list" where
  "demo_layer_ranks = map (\<lambda>(xs, r). (map (\<lambda>v h. v + int h) xs, r)) demo_ranks"

definition demo_layer_G :: "(int, int row) global" where
  "demo_layer_G = gather (\<lambda>_. 0) [0, 0] [0, 0] demo_layer_ranks"

definition demo_layer_handle :: "nat \<Rightarrow> (int, int row) handle" where
  "demo_layer_handle r = (let runs = rev (map (run_receiver 2 r False demo_layer_G demo_layer_ranks) (substream_order 2 r False demo_layer_G))
     in dispatch_handle 2 r demo_layer_G (foldl apply_store (fresh_mem (\<lambda>s h. int s) 2) (concat (map fst runs))) (concat (map snd runs)))"

definition demo_keeps :: "nat \<Rightarrow> (int \<Rightarrow> nat \<Rightarrow> int) option" where
  "demo_keeps r = (if r = 0 then Some (\<lambda>slot i. slot mod 2) else None)"

definition demo_w1 :: "nat \<Rightarrow> nat \<Rightarrow> int matrix" where "demo_w1 r e j i = int (r + 2 * e + j) - int i"

definition demo_w2 :: "nat \<Rightarrow> nat \<Rightarrow> int matrix" where "demo_w2 r e j i = int (r + e) - int j"

lemma mset_concat_rev: "mset (concat (rev xss)) = mset (concat xss)"
  by (induction xss) simp_all

theorem layer_computes_moe_witness:
  "layer_rows demo_layer 1 demo_layer_G demo_layer_handle demo_w1 demo_w2 demo_keeps
    = moe demo_layer 1 demo_layer_G demo_w1 demo_w2 (\<lambda>r. dropout_of (demo_layer_handle r) (demo_keeps r))"
proof (rule layer_computes_moe [where C = 2 and K = 2 and E = 2 and internode = False and junk = "\<lambda>_ s h. int s"
      and ranks = demo_layer_ranks
      and sts = "\<lambda>r. concat (map fst (rev (map (run_receiver 2 r False demo_layer_G demo_layer_ranks) (substream_order 2 r False demo_layer_G))))"
      and fs = "\<lambda>r. concat (map snd (rev (map (run_receiver 2 r False demo_layer_G demo_layer_ranks) (substream_order 2 r False demo_layer_G))))"])
  show "well_routed 2 2 demo_layer_ranks"
    by (simp add: well_routed_def demo_layer_ranks_def demo_ranks_def demo_r0_def demo_r1_def)
next
  fix r
  show "mset (concat (map snd (rev (map (run_receiver 2 r False demo_layer_G demo_layer_ranks) (substream_order 2 r False demo_layer_G)))))
      = mset (concat (map (\<lambda>cs. snd (run_receiver 2 r False demo_layer_G demo_layer_ranks cs)) (substream_order 2 r False demo_layer_G)))"
    unfolding rev_map [symmetric] mset_concat_rev by (simp add: comp_def)
qed (simp_all add: demo_layer_G_def demo_layer_handle_def Let_def)

end
