(* ===== verification/PTX_Memory.thy ===== *)
theory PTX_Memory
  imports SE_Prelude
begin

text \<open>
  The wrappers of \<^verbatim>\<open>stream_ep/stream_moe/ptx_helpers.py\<close> over a weakly ordered memory. Every location keeps
  all its writes in modification order; a thread may read any of them that is not older than what it already knows,
  and what a thread knows travels only with release writes to acquire reads, along chains of read-modify-writes, and
  through barriers. All threads are on one device, where the \<^verbatim>\<open>.gpu\<close> and \<^verbatim>\<open>.sys\<close> scopes of the PTX memory model
  include one another; writes to one location take effect in the order they are issued.
\<close>

section \<open>Views\<close>

type_synonym 'l view = "'l \<Rightarrow> nat"      \<comment> \<open>for each location the oldest write that may still be read\<close>

record ('l, 'v) message =
  msg_val :: 'v
  msg_view :: "'l view"

record ('l, 't, 'v) device_memory =
  writes :: "'l \<Rightarrow> ('l, 'v) message list"
  known :: "'t \<Rightarrow> 'l view"
  pending :: "'t \<Rightarrow> 'l view"     \<comment> \<open>met by relaxed reads, known after the next fence\<close>
  fenced :: "'t \<Rightarrow> 'l view"      \<comment> \<open>known at the last fence, passed on by relaxed writes\<close>

definition at_least :: "'l \<Rightarrow> nat \<Rightarrow> 'l view" where "at_least l n = (\<lambda>_. 0)(l := n)"

definition initial :: "('l \<Rightarrow> 'v) \<Rightarrow> ('l, 't, 'v) device_memory" where
  "initial v = \<lparr>writes = (\<lambda>l. [\<lparr>msg_val = v l, msg_view = (\<lambda>_. 0)\<rparr>]), known = (\<lambda>_ _. 0), pending = (\<lambda>_ _. 0), fenced = (\<lambda>_ _. 0)\<rparr>"

definition final :: "('l, 't, 'v) device_memory \<Rightarrow> 'l \<Rightarrow> 'v" where
  \<comment> \<open>the last write of a location\<close>
  "final m l = msg_val (last (writes m l))"

definition add_write :: "'t \<Rightarrow> 'l \<Rightarrow> 'v \<Rightarrow> 'l view \<Rightarrow> ('l, 't, 'v) device_memory \<Rightarrow> ('l, 't, 'v) device_memory" where
  \<comment> \<open>the newest write of \<open>l\<close>; its thread knows it at once\<close>
  "add_write t l v w m = (let n = length (writes m l) in
     m\<lparr>writes := (writes m)(l := writes m l @ [\<lparr>msg_val = v, msg_view = sup w (at_least l n)\<rparr>]),
       known := (known m)(t := sup (known m t) (at_least l n))\<rparr>)"

section \<open>The wrappers\<close>

definition st_global :: "'t \<Rightarrow> 'l \<Rightarrow> 'v \<Rightarrow> ('l, 't, 'v) device_memory \<Rightarrow> ('l, 't, 'v) device_memory" where
  \<comment> \<open>an ordinary store\<close>
  "st_global t l v m = add_write t l v (fenced m t) m"

definition st_release_gpu_global :: "'t \<Rightarrow> 'l \<Rightarrow> 'v \<Rightarrow> ('l, 't, 'v) device_memory \<Rightarrow> ('l, 't, 'v) device_memory" where
  "st_release_gpu_global t l v m = add_write t l v (sup (known m t) (fenced m t)) m"

definition readable :: "'t \<Rightarrow> 'l \<Rightarrow> nat \<Rightarrow> ('l, 't, 'v) device_memory \<Rightarrow> bool" where
  "readable t l n m \<longleftrightarrow> known m t l \<le> n \<and> n < length (writes m l)"

definition ld_global :: "'t \<Rightarrow> 'l \<Rightarrow> nat \<Rightarrow> ('l, 't, 'v) device_memory \<Rightarrow> ('l, 't, 'v) device_memory" where
  \<comment> \<open>an ordinary load that returns write \<open>n\<close>\<close>
  "ld_global t l n m = m\<lparr>known := (known m)(t := sup (known m t) (at_least l n)),
     pending := (pending m)(t := sup (pending m t) (msg_view (writes m l ! n)))\<rparr>"

definition ld_acquire_gpu_global :: "'t \<Rightarrow> 'l \<Rightarrow> nat \<Rightarrow> ('l, 't, 'v) device_memory \<Rightarrow> ('l, 't, 'v) device_memory" where
  "ld_acquire_gpu_global t l n m =
     m\<lparr>known := (known m)(t := sup (known m t) (sup (at_least l n) (msg_view (writes m l ! n))))\<rparr>"

definition threadfence_gpu :: "'t \<Rightarrow> ('l, 't, 'v) device_memory \<Rightarrow> ('l, 't, 'v) device_memory" where
  "threadfence_gpu t m = (let w = sup (known m t) (pending m t) in
     m\<lparr>known := (known m)(t := w), fenced := (fenced m)(t := w)\<rparr>)"

definition red_add :: "('v \<Rightarrow> 'v \<Rightarrow> 'v) \<Rightarrow> 't \<Rightarrow> 'l \<Rightarrow> 'v \<Rightarrow> ('l, 't, 'v) device_memory \<Rightarrow> ('l, 't, 'v) device_memory" where
  \<comment> \<open>a relaxed reduction: the location's newest value, with its view, under one more addend\<close>
  "red_add add t l v m = (let old = last (writes m l) in
     add_write t l (add (msg_val old) v) (sup (fenced m t) (msg_view old)) m)"

definition red_release_gpu_add_s32 :: "'t \<Rightarrow> 'l \<Rightarrow> 'v::plus \<Rightarrow> ('l, 't, 'v) device_memory \<Rightarrow> ('l, 't, 'v) device_memory" where
  "red_release_gpu_add_s32 t l v m = (let old = last (writes m l) in
     add_write t l (msg_val old + v) (sup (sup (known m t) (fenced m t)) (msg_view old)) m)"

datatype ordering = Relaxed | AcqRel

definition atomic_add :: "ordering \<Rightarrow> 't \<Rightarrow> 'l \<Rightarrow> 'v::plus \<Rightarrow> ('l, 't, 'v) device_memory \<Rightarrow> 'v \<times> ('l, 't, 'v) device_memory" where
  \<comment> \<open>an atomic that returns the old value, with either ordering\<close>
  "atomic_add ord t l v m = (let old = last (writes m l); w = msg_view old;
       m' = (case ord of Relaxed \<Rightarrow> m\<lparr>pending := (pending m)(t := sup (pending m t) w)\<rparr>
                       | AcqRel \<Rightarrow> m\<lparr>known := (known m)(t := sup (known m t) w)\<rparr>)
     in (msg_val old, add_write t l (msg_val old + v)
          (sup (case ord of Relaxed \<Rightarrow> fenced m' t | AcqRel \<Rightarrow> sup (known m' t) (fenced m' t)) w) m'))"

definition barrier :: "'t list \<Rightarrow> ('l, 't, 'v) device_memory \<Rightarrow> ('l, 't, 'v) device_memory" where
  \<comment> \<open>a barrier of some threads of a block: what one knew before, all know after\<close>
  "barrier ts m = (let w = foldr (\<lambda>t. sup (known m t)) ts (\<lambda>_. 0) in
     m\<lparr>known := (\<lambda>t. if t \<in> set ts then sup (known m t) w else known m t)\<rparr>)"

section \<open>Packed bf16 pairs\<close>

definition pack_bf16x2 :: "16 word \<Rightarrow> 16 word \<Rightarrow> 32 word" where
  "pack_bf16x2 lo hi = word_cat hi lo"

definition unpack_bf16x2 :: "32 word \<Rightarrow> 16 word \<times> 16 word" where
  \<comment> \<open>the two lanes a \<^verbatim>\<open>.bf16x2\<close> instruction works on\<close>
  "unpack_bf16x2 p = (ucast p, ucast (drop_bit 16 p))"

definition red_add_bf16x2_v4_pred ::
  "('v \<Rightarrow> 'v \<Rightarrow> 'v) \<Rightarrow> (16 word \<Rightarrow> 'v) \<Rightarrow> 't \<Rightarrow> (nat \<Rightarrow> 'l) \<Rightarrow> 32 word list \<Rightarrow> 32 word
    \<Rightarrow> ('l, 't, 'v) device_memory \<Rightarrow> ('l, 't, 'v) device_memory" where
  \<comment> \<open>bf16 addition on what a cell holds, the thread, the 8 cells at the pointer, the registers \<open>p0\<close> to \<open>p3\<close>,
    the predicate\<close>
  "red_add_bf16x2_v4_pred add bf16 t cell ps pred m =
     (if pred \<noteq> 0 then fold (\<lambda>(i, p) m. red_add add t (cell (2 * i + 1)) (bf16 (snd (unpack_bf16x2 p)))
        (red_add add t (cell (2 * i)) (bf16 (fst (unpack_bf16x2 p))) m)) (enumerate 0 ps) m else m)"

lemma unpack_pack: "unpack_bf16x2 (pack_bf16x2 lo hi) = (lo, hi)"
  unfolding unpack_bf16x2_def pack_bf16x2_def
  by (intro prod_eqI bit_word_eqI) (auto simp: bit_word_cat_iff bit_ucast_iff bit_drop_bit_eq bit_imp_le_length)

section \<open>Runs\<close>

datatype ('l, 't, 'v) mem_event =
    Store 't 'l 'v
  | Publish 't 'l 'v          \<comment> \<open>\<open>st_release_gpu_global\<close>\<close>
  | RedRelease 't 'l 'v
  | Load 't 'l nat            \<comment> \<open>with the write it returns\<close>
  | Acquire 't 'l nat
  | Fence 't
  | Barrier "'t list"

fun exec_event :: "('l, 't, 'v::plus) mem_event \<Rightarrow> ('l, 't, 'v) device_memory \<Rightarrow> ('l, 't, 'v) device_memory option" where
  "exec_event (Store t l v) m = Some (st_global t l v m)"
| "exec_event (Publish t l v) m = Some (st_release_gpu_global t l v m)"
| "exec_event (RedRelease t l v) m = Some (red_release_gpu_add_s32 t l v m)"
| "exec_event (Load t l n) m = (if readable t l n m then Some (ld_global t l n m) else None)"
| "exec_event (Acquire t l n) m = (if readable t l n m then Some (ld_acquire_gpu_global t l n m) else None)"
| "exec_event (Fence t) m = Some (threadfence_gpu t m)"
| "exec_event (Barrier ts) m = Some (barrier ts m)"

fun run_events :: "('l, 't, 'v::plus) mem_event list \<Rightarrow> ('l, 't, 'v) device_memory \<Rightarrow> ('l, 't, 'v) device_memory option" where
  \<comment> \<open>\<open>None\<close> when a load returns a write the memory does not allow it to\<close>
  "run_events [] m = Some m"
| "run_events (e # es) m = (case exec_event e m of None \<Rightarrow> None | Some m' \<Rightarrow> run_events es m')"

lemma run_events_append:
  "run_events (xs @ ys) m = (case run_events xs m of None \<Rightarrow> None | Some m' \<Rightarrow> run_events ys m')"
  by (induction xs arbitrary: m) (auto split: option.split)

lemma run_events_appendE:
  assumes "run_events (xs @ ys) m = Some m''"
  obtains m' where "run_events xs m = Some m'" "run_events ys m' = Some m''"
  using assms by (auto simp: run_events_append split: option.splits)

lemma run_events_ConsE:
  assumes "run_events (e # es) m = Some m''"
  obtains m' where "exec_event e m = Some m'" "run_events es m' = Some m''"
  using assms by (auto split: option.splits)

fun written :: "('l, 't, 'v) mem_event \<Rightarrow> 'l option" where
  "written (Store t l v) = Some l" | "written (Publish t l v) = Some l" | "written (RedRelease t l v) = Some l"
| "written _ = None"

lemmas op_defs = st_global_def st_release_gpu_global_def red_release_gpu_add_s32_def ld_global_def ld_acquire_gpu_global_def
  threadfence_gpu_def barrier_def add_write_def Let_def

section \<open>What every operation keeps\<close>

lemma exec_writes:
  assumes "exec_event e m = Some m'"
  shows "writes m' l = (if written e = Some l then writes m l @ [last (writes m' l)] else writes m l)"
  using assms by (cases e) (auto simp: op_defs split: if_splits)

lemma exec_writes_cases: "exec_event e m = Some m' \<Longrightarrow> \<exists>ws. writes m' l = writes m l @ ws"
  using exec_writes [of e m m' l] by (cases "written e = Some l") auto

lemma exec_known: "exec_event e m = Some m' \<Longrightarrow> known m t l \<le> known m' t l"
  by (cases e) (auto simp: op_defs split: if_splits)

lemma run_known: "run_events es m = Some m' \<Longrightarrow> known m t l \<le> known m' t l"
  by (induction es arbitrary: m) (auto split: option.splits dest: exec_known [of _ _ _ t l] intro: order_trans)

lemma run_writes: "run_events es m = Some m' \<Longrightarrow> \<exists>ws. writes m' l = writes m l @ ws"
proof (induction es arbitrary: m)
  case (Cons e es)
  then obtain m1 where m1: "exec_event e m = Some m1" "run_events es m1 = Some m'" by (auto split: option.splits)
  obtain ws where "writes m' l = writes m1 l @ ws" using Cons.IH [OF m1(2)] by blast
  then show ?case using exec_writes_cases [OF m1(1), of l] by (metis append.assoc)
qed simp

lemma run_keeps_write:
  assumes "run_events es m = Some m'" "n < length (writes m l)"
  shows "writes m' l ! n = writes m l ! n" "n < length (writes m' l)"
  using run_writes [OF assms(1), of l] assms(2) by (auto simp: nth_append)

lemma initial_writes: "writes (initial v) l = [\<lparr>msg_val = v l, msg_view = (\<lambda>_. 0)\<rparr>]"
  by (simp add: initial_def)

lemma run_writes_length: "run_events es m = Some m' \<Longrightarrow>
  length (writes m' l) = length (writes m l) + length (filter (\<lambda>e. written e = Some l) es)"
proof (induction es arbitrary: m)
  case (Cons e es)
  then obtain m1 where m1: "exec_event e m = Some m1" "run_events es m1 = Some m'" by (auto split: option.splits)
  have "length (writes m1 l) = length (writes m l) + (if written e = Some l then 1 else 0)"
    using arg_cong [OF exec_writes [OF m1(1), of l], of length] by (auto split: if_splits)
  then show ?case using Cons.IH [OF m1(2)] by simp
qed simp

text \<open>The values of a location that is only stored to are the values stored.\<close>

lemma run_values:
  assumes "run_events es m = Some m'" "\<And>e. e \<in> set es \<Longrightarrow> written e = Some l \<Longrightarrow> \<exists>t. e = Store t l x"
    and "\<And>n. k \<le> n \<Longrightarrow> n < length (writes m l) \<Longrightarrow> msg_val (writes m l ! n) = x" "k \<le> length (writes m l)"
    and "k \<le> n" "n < length (writes m' l)"
  shows "msg_val (writes m' l ! n) = x"
  using assms
proof (induction es arbitrary: m)
  case (Cons e es)
  from Cons.prems(1) obtain m1 where m1: "exec_event e m = Some m1" "run_events es m1 = Some m'" by (auto split: option.splits)
  have last: "msg_val (last (writes m1 l)) = x" if "written e = Some l"
    using Cons.prems(2) [of e] that m1(1) by (auto simp: op_defs)
  note w = exec_writes [OF m1(1), of l]
  have k1: "k \<le> length (writes m1 l)" using exec_writes_cases [OF m1(1), of l] Cons.prems(4) by auto
  show ?case
  proof (rule Cons.IH [OF m1(2) _ _ k1])
    fix n assume n: "k \<le> n" "n < length (writes m1 l)"
    show "msg_val (writes m1 l ! n) = x"
    proof (cases "n < length (writes m l)")
      case True
      then show ?thesis using exec_writes_cases [OF m1(1), of l] n(1) Cons.prems(3) [of n] by (auto simp: nth_append)
    next
      case False
      then have wr: "written e = Some l" using w n by (auto split: if_splits)
      have "length (writes m1 l) = Suc (length (writes m l))" using arg_cong [OF w, of length] wr by simp
      then have "writes m1 l ! n = last (writes m1 l)"
        using False n by (metis Suc_leI diff_Suc_1 last_conv_nth le_antisym length_0_conv less_Suc_eq_le nat.distinct(1) not_less)
      then show ?thesis using last wr by simp
    qed
  qed (use Cons.prems w in \<open>auto split: if_splits\<close>)
qed simp

text \<open>Nothing is known of a write that has not been issued, so the newest write can always be read.\<close>

definition views_ok :: "('l, 't, 'v) device_memory \<Rightarrow> bool" where
  "views_ok m \<longleftrightarrow> (\<forall>l. writes m l \<noteq> []) \<and> (\<forall>t l. known m t l < length (writes m l)) \<and> (\<forall>t l. pending m t l < length (writes m l))
    \<and> (\<forall>t l. fenced m t l < length (writes m l)) \<and> (\<forall>l n l'. n < length (writes m l) \<longrightarrow> msg_view (writes m l ! n) l' < length (writes m l'))"

lemma views_ok_initial: "views_ok (initial v)"
  by (simp add: views_ok_def initial_def)

lemma views_okD:
  assumes "views_ok m"
  shows "writes m l \<noteq> []" "known m t l < length (writes m l)" "pending m t l < length (writes m l)" "fenced m t l < length (writes m l)"
    "n < length (writes m l) \<Longrightarrow> msg_view (writes m l ! n) l' < length (writes m l')"
    "msg_view (last (writes m l)) l' < length (writes m l')"
  using assms by (auto simp: views_ok_def last_conv_nth)

lemma length_add_write: "length (writes (add_write t l v w m) l') = length (writes m l') + (if l' = l then 1 else 0)"
  by (simp add: add_write_def Let_def)

lemma views_ok_add:
  assumes "views_ok m" "\<And>l'. w l' < length (writes m l')"
  shows "views_ok (add_write t l v w m)"
proof -
  let ?m = "add_write t l v w m"
  have old: "n < length (writes ?m l')" if "n < length (writes m l')" for n l'
    using that by (simp add: length_add_write)
  have new: "sup u (at_least l (length (writes m l))) l' < length (writes ?m l')" if "u l' < length (writes m l')" for u l'
    using that by (auto simp: length_add_write at_least_def sup_nat_def)
  have "known ?m t' l' < length (writes ?m l')" for t' l'
    using new [of "known m t" l'] old views_okD(2) [OF assms(1), of t' l'] views_okD(2) [OF assms(1), of t l']
    by (auto simp: add_write_def Let_def)
  moreover have "msg_view (writes ?m l' ! n) l'' < length (writes ?m l'')" if n: "n < length (writes ?m l')" for l' n l''
  proof (cases "n < length (writes m l')")
    case True
    then have "writes ?m l' ! n = writes m l' ! n" by (cases "l' = l") (simp_all add: add_write_def Let_def nth_append)
    then show ?thesis using old [OF views_okD(5) [OF assms(1) True, of l'']] by simp
  next
    case False
    then have "l' = l" "n = length (writes m l)" using n by (auto simp: length_add_write split: if_splits)
    then show ?thesis using new [of w l''] assms(2) [of l''] by (simp add: add_write_def Let_def)
  qed
  moreover have "pending ?m t' l' < length (writes ?m l')" "fenced ?m t' l' < length (writes ?m l')" for t' l'
    using old views_okD(3,4) [OF assms(1), of t' l'] by (simp_all add: add_write_def Let_def)
  moreover have "writes ?m l' \<noteq> []" for l' using views_okD(1) [OF assms(1), of l'] by (simp add: add_write_def Let_def)
  ultimately show ?thesis unfolding views_ok_def by blast
qed

lemma foldr_known_less:
  assumes "views_ok m"
  shows "foldr (\<lambda>t. sup (known m t)) ts (\<lambda>_. 0) l < length (writes m l)"
  using views_okD(1,2) [OF assms] by (induction ts) (auto simp: sup_nat_def)

lemma exec_views_ok:
  assumes "exec_event e m = Some m'" "views_ok m"
  shows "views_ok m'"
proof (cases e)
  case (Store t l v)
  then show ?thesis using assms views_okD(4) [OF assms(2)] by (auto simp: st_global_def intro!: views_ok_add)
next
  case (Publish t l v)
  then show ?thesis using assms views_okD(2,4) [OF assms(2)]
    by (auto simp: st_release_gpu_global_def sup_nat_def intro!: views_ok_add)
next
  case (RedRelease t l v)
  then show ?thesis using assms views_okD(2,4,6) [OF assms(2)]
    by (auto simp: red_release_gpu_add_s32_def Let_def sup_nat_def intro!: views_ok_add)
next
  case (Load t l n)
  then have n: "n < length (writes m l)" and m': "m' = ld_global t l n m"
    using assms(1) by (auto simp: readable_def split: if_splits)
  show ?thesis unfolding m' views_ok_def
    using n views_okD(1-4) [OF assms(2)] views_okD(5) [OF assms(2) n] views_okD(5) [OF assms(2)]
    by (simp add: ld_global_def sup_nat_def at_least_def)
next
  case (Acquire t l n)
  then have n: "n < length (writes m l)" and m': "m' = ld_acquire_gpu_global t l n m"
    using assms(1) by (auto simp: readable_def split: if_splits)
  show ?thesis unfolding m' views_ok_def
    using n views_okD(1-4) [OF assms(2)] views_okD(5) [OF assms(2) n] views_okD(5) [OF assms(2)]
    by (simp add: ld_acquire_gpu_global_def sup_nat_def at_least_def)
next
  case (Fence t)
  then have m': "m' = threadfence_gpu t m" using assms(1) by simp
  show ?thesis unfolding m' views_ok_def
    using views_okD(1-4) [OF assms(2)] views_okD(5) [OF assms(2)] by (simp add: threadfence_gpu_def Let_def sup_nat_def)
next
  case (Barrier ts)
  then have m': "m' = barrier ts m" using assms(1) by simp
  show ?thesis unfolding m' views_ok_def
    using views_okD(1-4) [OF assms(2)] views_okD(5) [OF assms(2)] foldr_known_less [OF assms(2), of ts]
    by (simp add: barrier_def Let_def sup_nat_def)
qed

lemma run_views_ok: "run_events es m = Some m' \<Longrightarrow> views_ok m \<Longrightarrow> views_ok m'"
  by (induction es arbitrary: m) (auto split: option.splits dest: exec_views_ok)

lemma newest_readable: "views_ok m \<Longrightarrow> Suc n = length (writes m l) \<Longrightarrow> readable t l n m"
  using views_okD(2) [of m t l] by (simp add: readable_def)

lemma writes_never_fail: "list_all (\<lambda>e. case e of Load _ _ _ \<Rightarrow> False | Acquire _ _ _ \<Rightarrow> False | _ \<Rightarrow> True) es \<Longrightarrow> run_events es m \<noteq> None"
  by (induction es arbitrary: m) (auto split: mem_event.splits)

section \<open>Publishing through a counter\<close>

text \<open>A location that only release-adds write: what a write of it makes known grows from write to write.\<close>

definition summed :: "'l \<Rightarrow> ('l, 't, 'v) mem_event list \<Rightarrow> bool" where
  "summed c es \<longleftrightarrow> list_all (\<lambda>e. written e = Some c \<longrightarrow> (\<exists>t v. e = RedRelease t c v)) es"

definition growing :: "'l \<Rightarrow> ('l, 't, 'v) device_memory \<Rightarrow> bool" where
  "growing c m \<longleftrightarrow> writes m c \<noteq> [] \<and> sorted_wrt (\<lambda>x y. msg_view x \<le> msg_view y) (writes m c)"

lemma growing_initial: "growing c (initial v)"
  by (simp add: growing_def initial_def)

lemma growing_le: "growing c m \<Longrightarrow> i \<le> k \<Longrightarrow> k < length (writes m c) \<Longrightarrow> msg_view (writes m c ! i) \<le> msg_view (writes m c ! k)"
  unfolding growing_def by (cases "i = k") (auto simp: sorted_wrt_iff_nth_less)

lemma red_release_last:
  assumes "exec_event (RedRelease t c v) m = Some m'"
  shows "msg_val (last (writes m' c)) = msg_val (last (writes m c)) + v"
    "msg_view (last (writes m' c)) = sup (sup (sup (known m t) (fenced m t)) (msg_view (last (writes m c)))) (at_least c (length (writes m c)))"
  using assms by (auto simp: red_release_gpu_add_s32_def add_write_def Let_def)

lemma exec_growing:
  assumes "exec_event e m = Some m'" "growing c m" "written e = Some c \<Longrightarrow> \<exists>t v. e = RedRelease t c v"
  shows "growing c m'"
proof (cases "written e = Some c")
  case False
  then show ?thesis using exec_writes [OF assms(1), of c] assms(2) by (simp add: growing_def)
next
  case True
  then obtain t v where e: "e = RedRelease t c v" using assms(3) by blast
  have w: "writes m' c = writes m c @ [last (writes m' c)]" using exec_writes [OF assms(1), of c] True by simp
  have up: "msg_view (last (writes m c)) \<le> msg_view (last (writes m' c))"
    using red_release_last(2) [OF assms(1) [unfolded e]] by (simp add: sup.coboundedI1)
  have "msg_view x \<le> msg_view (last (writes m' c))" if "x \<in> set (writes m c)" for x
  proof -
    from that obtain i where i: "i < length (writes m c)" "x = writes m c ! i" by (metis in_set_conv_nth)
    then have "msg_view x \<le> msg_view (last (writes m c))"
      using growing_le [OF assms(2), of i "length (writes m c) - 1"] assms(2) by (auto simp: growing_def last_conv_nth)
    then show ?thesis using up by (rule order_trans)
  qed
  then have "sorted_wrt (\<lambda>x y. msg_view x \<le> msg_view y) (writes m c @ [last (writes m' c)])"
    using assms(2) by (simp add: growing_def sorted_wrt_append)
  then show ?thesis using w unfolding growing_def by (metis Nil_is_append_conv not_Cons_self2)
qed

lemma run_growing: "run_events es m = Some m' \<Longrightarrow> summed c es \<Longrightarrow> growing c m \<Longrightarrow> growing c m'"
proof (induction es arbitrary: m)
  case (Cons e es)
  then obtain m1 where m1: "exec_event e m = Some m1" "run_events es m1 = Some m'" by (auto split: option.splits)
  show ?case using exec_growing [OF m1(1)] Cons.prems by (intro Cons.IH [OF m1(2)]) (auto simp: summed_def)
qed simp

text \<open>The value of a write of a counter is the sum of the adds up to it.\<close>

fun adds :: "'l \<Rightarrow> ('l, 't, 'v) mem_event list \<Rightarrow> 'v list" where
  "adds c [] = []"
| "adds c (RedRelease t l v # es) = (if l = c then v # adds c es else adds c es)"
| "adds c (e # es) = adds c es"

lemma adds_append: "adds c (xs @ ys) = adds c xs @ adds c ys"
  by (induction c xs rule: adds.induct) auto

lemma adds_RedRelease: "adds c (e # es) = (case e of RedRelease t l v \<Rightarrow> if l = c then v # adds c es else adds c es | _ \<Rightarrow> adds c es)"
  by (cases e) auto

lemma counted_length: "summed c es \<Longrightarrow> length (filter (\<lambda>e. written e = Some c) es) = length (adds c es)"
  by (induction c es rule: adds.induct) (auto simp: summed_def)

lemma counter_values:
  assumes "run_events es m = Some m'" "summed c es" "writes m c \<noteq> []" "length (writes m c) \<le> Suc n" "n < length (writes m' c)"
  shows "msg_val (writes m' c ! n) = foldl (+) (msg_val (last (writes m c))) (take (Suc n - length (writes m c)) (adds c es))"
  using assms
proof (induction es arbitrary: m)
  case Nil
  then have "n = length (writes m c) - 1" "m = m'" by simp_all
  then show ?case using Nil by (simp add: last_conv_nth)
next
  case (Cons e es)
  from Cons.prems(1) obtain m1 where m1: "exec_event e m = Some m1" "run_events es m1 = Some m'" by (auto split: option.splits)
  have c: "summed c es" using Cons.prems(2) by (simp add: summed_def)
  show ?case
  proof (cases "written e = Some c")
    case False
    have "adds c (e # es) = adds c es" using False by (cases e) auto
    moreover have "writes m1 c = writes m c" using exec_writes [OF m1(1), of c] False by simp
    ultimately show ?thesis using Cons.IH [OF m1(2) c] Cons.prems(3-5) by simp
  next
    case True
    then obtain t v where e: "e = RedRelease t c v" using Cons.prems(2) by (auto simp: summed_def)
    have w: "writes m1 c = writes m c @ [last (writes m1 c)]" using exec_writes [OF m1(1), of c] True by simp
    note v = red_release_last(1) [OF m1(1) [unfolded e]]
    have len: "length (writes m1 c) = Suc (length (writes m c))" using arg_cong [OF w, of length] by simp
    show ?thesis
    proof (cases "Suc n = length (writes m c)")
      case True
      then have n: "n < length (writes m1 c)" "n = length (writes m c) - 1" using len by simp_all
      have "writes m1 c ! n = (writes m c @ [last (writes m1 c)]) ! n" using w by metis
      also have "\<dots> = last (writes m c)" using True n(2) Cons.prems(3) by (simp add: nth_append last_conv_nth)
      finally show ?thesis using run_keeps_write(1) [OF m1(2) n(1)] True by simp
    next
      case False
      then have "Suc n - length (writes m c) = Suc (Suc n - length (writes m1 c))" using Cons.prems(4) len by simp
      moreover have "length (writes m1 c) \<le> Suc n" "writes m1 c \<noteq> []" using False Cons.prems(4) len by auto
      ultimately show ?thesis using Cons.IH [OF m1(2) c _ _ Cons.prems(5)] v by (simp add: e)
    qed
  qed
qed

text \<open>What the thread of a release-add knew is known to every thread that acquires this or a later value.\<close>

lemma counter_publishes:
  assumes run: "run_events (xs @ RedRelease t c v # ys @ Acquire a c k # zs) m = Some m'"
    and c: "summed c (xs @ RedRelease t c v # ys)" "growing c m"
    and k: "length (writes m c) + length (adds c xs) \<le> k" and later: "Load a p n \<in> set zs"
    and knew: "\<And>m1. run_events xs m = Some m1 \<Longrightarrow> j \<le> known m1 t p"
  shows "j \<le> n"
proof -
  obtain m1 where m1: "run_events xs m = Some m1" and r1: "run_events (RedRelease t c v # ys @ Acquire a c k # zs) m1 = Some m'"
    using run by (rule run_events_appendE)
  obtain m2 where m2: "exec_event (RedRelease t c v) m1 = Some m2" and r2: "run_events (ys @ Acquire a c k # zs) m2 = Some m'"
    using r1 by (rule run_events_ConsE)
  obtain m3 where m3: "run_events ys m2 = Some m3" and r3: "run_events (Acquire a c k # zs) m3 = Some m'"
    using r2 by (rule run_events_appendE)
  obtain m4 where m4: "exec_event (Acquire a c k) m3 = Some m4" and r4: "run_events zs m4 = Some m'"
    using r3 by (rule run_events_ConsE)
  let ?i = "length (writes m1 c)"
  have i: "?i = length (writes m c) + length (adds c xs)"
    using run_writes_length [OF m1, of c] counted_length [of c xs] c(1) by (simp add: summed_def)
  have g1: "growing c m1" using run_growing [OF m1 _ c(2)] c(1) by (simp add: summed_def)
  have w2: "writes m2 c = writes m1 c @ [last (writes m2 c)]" using exec_writes [OF m2, of c] by simp
  have view: "j \<le> msg_view (last (writes m2 c)) p"
    using knew [OF m1] red_release_last(2) [OF m2] by (simp add: sup_nat_def le_max_iff_disj)
  have k3: "?i \<le> k" "k < length (writes m3 c)" using k i m4 by (auto simp: readable_def split: if_splits)
  have g3: "growing c m3" using run_growing [OF m3 _ exec_growing [OF m2 g1]] c(1) by (simp add: summed_def)
  have "writes m3 c ! ?i = last (writes m2 c)"
    using run_keeps_write(1) [OF m3, of ?i c] w2 arg_cong [OF w2, of length] by (metis length_append_singleton lessI nth_append_length)
  then have "j \<le> msg_view (writes m3 c ! k) p"
    using view growing_le [OF g3 k3] by (auto simp: le_fun_def intro: order_trans)
  then have "j \<le> known m4 a p"
    using m4 by (auto simp: ld_acquire_gpu_global_def sup_nat_def le_max_iff_disj split: if_splits)
  moreover obtain zs1 zs2 where zs: "zs = zs1 @ Load a p n # zs2" using later by (metis split_list)
  ultimately show ?thesis using r4 run_known [of zs1 m4 _ a p]
    by (auto simp: zs run_events_append readable_def split: option.splits if_splits intro: order_trans)
qed

end
