(* ===== verification/Dispatch_Visible.thy ===== *)
theory Dispatch_Visible
  imports Dispatch_Contract PTX_Memory "HOL-Library.Sublist"
begin

text \<open>
  What a consumer of a dispatched tile sees on the weakly ordered memory of \<^theory_text>\<open>PTX_Memory\<close>. The threads of a
  receiver (\<^verbatim>\<open>csrc/kernels/intranode.cu\<close>) issue the stores of \<^theory_text>\<open>Dispatch_Layout\<close> in any order, fence, meet at a barrier,
  and thread 0 issues the release-adds; all receivers and consumers interleave. A consumer that acquires an arrival count
  equal to its target (\<^verbatim>\<open>tile_scheduler.py\<close>) then reads what was dispatched.
\<close>

section \<open>Cells\<close>

datatype cell =
    PoolCell nat | WeightCell nat | RecvCell nat | KSlotCell nat
  | SlotsCell nat | RemainingCell nat | TotalCell nat | ArrivalCount nat

datatype ('f, 'r) cell_val = Row 'r | Scalar 'f | Num int | Slots "int list"

instantiation cell_val :: (type, type) plus
begin

fun plus_cell_val :: "('f, 'r) cell_val \<Rightarrow> ('f, 'r) cell_val \<Rightarrow> ('f, 'r) cell_val" where
  "plus_cell_val (Num a) (Num b) = Num (a + b)"
| "plus_cell_val v w = v"

instance ..

end

fun store_cells :: "('f, 'r) store \<Rightarrow> (cell \<times> ('f, 'r) cell_val) list" where
  "store_cells (PoolRow s x) = [(PoolCell s, Row x)]"
| "store_cells (PoolWeight s w) = [(WeightCell s, Scalar w)]"
| "store_cells (PoolRecvToken s r) = [(RecvCell s, Num (int r))]"
| "store_cells (PoolKSlot s k) = [(KSlotCell s, Num (int k))]"
| "store_cells (TokenSlots r slots) = [(SlotsCell r, Slots slots)]"
| "store_cells (KLocal r n) = [(RemainingCell r, Num (int n)), (TotalCell r, Num (int n))]"

fun slot_cell :: "cell \<Rightarrow> nat option" where
  "slot_cell (PoolCell s) = Some s" | "slot_cell (WeightCell s) = Some s" | "slot_cell (RecvCell s) = Some s"
| "slot_cell (KSlotCell s) = Some s" | "slot_cell _ = None"

section \<open>Traces\<close>

datatype agent = Receiver substream nat | Consumer nat

type_synonym ('f, 'r) dispatch_event = "(cell, agent, ('f, 'r) cell_val) mem_event"

fun agents :: "('l, 't, 'v) mem_event \<Rightarrow> 't list" where
  "agents (Store t l v) = [t]" | "agents (Publish t l v) = [t]" | "agents (RedRelease t l v) = [t]"
| "agents (Load t l n) = [t]" | "agents (Acquire t l n) = [t]" | "agents (Fence t) = [t]" | "agents (Barrier ts) = ts"

definition threads_of :: "substream \<Rightarrow> nat \<Rightarrow> agent list" where "threads_of cs T = map (Receiver cs) [0..<T]"

definition by_receiver :: "substream \<Rightarrow> (cell, agent, 'v) mem_event \<Rightarrow> bool" where
  "by_receiver cs e \<longleftrightarrow> (\<exists>w. Receiver cs w \<in> set (agents e))"

definition fire_events :: "substream \<Rightarrow> (nat \<times> nat) list \<Rightarrow> ('f, 'r) dispatch_event list" where
  "fire_events cs fs = map (\<lambda>(b, n). RedRelease (Receiver cs 0) (ArrivalCount b) (Num (int n))) fs"

definition receiver_body :: "nat \<Rightarrow> substream \<Rightarrow> ('f, 'r) store list \<Rightarrow> ('f, 'r) dispatch_event list \<Rightarrow> bool" where
  \<comment> \<open>the stores in any order and on any of the \<open>T\<close> threads, with whatever fences and barriers of theirs between\<close>
  "receiver_body T cs sts body \<longleftrightarrow>
     list_all (\<lambda>e. set (agents e) \<subseteq> set (threads_of cs T) \<and> (case e of Store _ _ _ \<Rightarrow> True | Fence _ \<Rightarrow> True | Barrier _ \<Rightarrow> True | _ \<Rightarrow> False)) body \<and>
     set (concat (map (\<lambda>e. case e of Store _ l v \<Rightarrow> [(l, v)] | _ \<Rightarrow> []) body)) = set (concat (map store_cells sts))"

definition receiver_events :: "nat \<Rightarrow> substream \<Rightarrow> (nat \<times> nat) list \<Rightarrow> ('f, 'r) dispatch_event list \<Rightarrow> ('f, 'r) dispatch_event list" where
  "receiver_events T cs fs body =
     body @ map Fence (threads_of cs T) @ [Barrier (threads_of cs T)] @ fire_events cs fs"

definition dispatch_trace :: "nat \<Rightarrow> nat \<Rightarrow> nat \<Rightarrow> bool \<Rightarrow> ('f, 'r) global \<Rightarrow> ('r list \<times> 'f::zero routing) list
    \<Rightarrow> ('f, 'r) dispatch_event list \<Rightarrow> bool" where
  \<comment> \<open>each receiver has run some part of its events; everybody else only reads\<close>
  "dispatch_trace T C me internode G ranks es \<longleftrightarrow>
     (\<forall>cs \<in> set (substream_order C me internode G). case run_receiver C me internode G ranks cs of (sts, fs) \<Rightarrow>
        \<exists>body. receiver_body T cs sts body \<and> prefix (filter (by_receiver cs) es) (receiver_events T cs fs body)) \<and>
     (\<forall>e \<in> set es. (\<exists>cs \<in> set (substream_order C me internode G). by_receiver cs e)
        \<or> written e = None \<and> (\<forall>a \<in> set (agents e). \<exists>i. a = Consumer i))"

section \<open>Lists of events\<close>

lemma filter_split: "filter P xs = us @ b # vs \<Longrightarrow> \<exists>x1 x2. xs = x1 @ b # x2 \<and> filter P x1 = us \<and> filter P x2 = vs"
proof (induction xs arbitrary: us)
  case (Cons x xs)
  show ?case
  proof (cases "P x \<and> us = []")
    case True
    then show ?thesis using Cons.prems by (intro exI [of _ "[]"] exI [of _ xs]) simp
  next
    case False
    then have "filter P xs = (if P x then tl us else us) @ b # vs" using Cons.prems by (cases us) auto
    from Cons.IH [OF this] obtain x1 x2 where "xs = x1 @ b # x2" "filter P x1 = (if P x then tl us else us)" "filter P x2 = vs"
      by blast
    moreover have "us = x # tl us" if "P x" using that False Cons.prems by (cases us) auto
    ultimately show ?thesis by (intro exI [of _ "x # x1"] exI [of _ x2]) auto
  qed
qed simp

lemma sum_nonzero: "(\<Sum>x\<leftarrow>xs. f x) \<noteq> (0::int) \<Longrightarrow> \<exists>x \<in> set xs. f x \<noteq> 0"
  by (induction xs) auto

lemma int_sum_list: "int (\<Sum>x\<leftarrow>xs. f x) = (\<Sum>x\<leftarrow>xs. int (f x))"
  by (induction xs) simp_all

lemma adds_prefix: "\<exists>pre' rest. pre = pre' @ rest \<and> adds c pre' = take k (adds c pre)"
proof (induction pre arbitrary: k)
  case (Cons e pre)
  show ?case
  proof (cases "\<exists>t v. e = RedRelease t c v")
    case True
    then obtain t v where e: "e = RedRelease t c v" by blast
    show ?thesis
    proof (cases k)
      case 0
      then show ?thesis by (intro exI [of _ "[]"] exI [of _ "e # pre"]) simp
    next
      case (Suc k')
      obtain pre' rest where "pre = pre' @ rest" "adds c pre' = take k' (adds c pre)" using Cons.IH by blast
      then show ?thesis using e Suc by (intro exI [of _ "e # pre'"] exI [of _ rest]) simp
    qed
  next
    case False
    then have "adds c (e # es) = adds c es" for es by (cases e) auto
    moreover obtain pre' rest where "pre = pre' @ rest" "adds c pre' = take k (adds c pre)" using Cons.IH by blast
    ultimately show ?thesis by (intro exI [of _ "e # pre'"] exI [of _ rest]) simp
  qed
qed simp

fun num_of :: "('f, 'r) cell_val \<Rightarrow> int" where "num_of (Num n) = n" | "num_of _ = 0"

lemma foldl_nums: "foldl (+) (Num a) (map Num ns) = Num (a + sum_list ns)"
  by (induction ns arbitrary: a) (simp_all add: add.assoc)

definition add_of :: "nat \<Rightarrow> ('f, 'r) dispatch_event \<Rightarrow> int" where
  \<comment> \<open>what an event adds to the arrival count of a tile\<close>
  "add_of t e = (case e of RedRelease _ l v \<Rightarrow> if l = ArrivalCount t then num_of v else 0 | _ \<Rightarrow> 0)"

lemma adds_sum: "(\<Sum>v\<leftarrow>adds (ArrivalCount t) es. num_of v) = (\<Sum>e\<leftarrow>es. add_of t e)"
  by (induction "ArrivalCount t" es rule: adds.induct) (auto simp: add_of_def)

lemma fire_sum: "(\<Sum>e\<leftarrow>fire_events cs fs. add_of t e) = int (add_fires fs t)"
  by (induction fs) (auto simp: fire_events_def add_fires_def add_of_def)

lemma body_event:
  assumes "receiver_body T cs sts body" "e \<in> set body"
  shows "(\<exists>a l v st. e = Store a l v \<and> a \<in> set (threads_of cs T) \<and> st \<in> set sts \<and> (l, v) \<in> set (store_cells st))
    \<or> written e = None \<and> set (agents e) \<subseteq> set (threads_of cs T)"
proof (cases e)
  case (Store a l v)
  have "(l, v) \<in> set (concat (map (\<lambda>e. case e of Store _ l v \<Rightarrow> [(l, v)] | _ \<Rightarrow> []) body))"
    unfolding set_concat set_map using assms(2) Store
    by (intro UnionI [of "set [(l, v)]"] image_eqI [of _ _ "[(l, v)]"] image_eqI [of _ _ e]) simp_all
  then have "(l, v) \<in> set (concat (map store_cells sts))" using assms(1) by (simp only: receiver_body_def)
  moreover have "a \<in> set (threads_of cs T)" using assms Store unfolding receiver_body_def list_all_iff by fastforce
  ultimately show ?thesis using Store by auto
qed (use assms in \<open>unfold receiver_body_def list_all_iff, fastforce\<close>)+

lemma body_has:
  assumes "receiver_body T cs sts body" "st \<in> set sts" "(l, v) \<in> set (store_cells st)"
  obtains a where "Store a l v \<in> set body" "a \<in> set (threads_of cs T)"
proof -
  have "(l, v) \<in> set (concat (map store_cells sts))" using assms(2,3) by auto
  then have "(l, v) \<in> set (concat (map (\<lambda>e. case e of Store _ l v \<Rightarrow> [(l, v)] | _ \<Rightarrow> []) body))"
    using assms(1) by (simp only: receiver_body_def)
  then obtain e where e: "e \<in> set body" "(l, v) \<in> set (case e of Store _ l v \<Rightarrow> [(l, v)] | _ \<Rightarrow> [])" by auto
  then obtain a where "e = Store a l v" by (cases e) auto
  moreover have "set (agents e) \<subseteq> set (threads_of cs T)"
    using assms(1) e(1) unfolding receiver_body_def list_all_iff by blast
  ultimately show thesis using that e(1) by simp
qed

lemma body_sum: "receiver_body T cs sts body \<Longrightarrow> (\<Sum>e\<leftarrow>body. add_of t e) = 0"
proof -
  assume "receiver_body T cs sts body"
  then have "\<forall>e \<in> set body. add_of t e = 0"
    unfolding receiver_body_def list_all_iff by (auto simp: add_of_def split: mem_event.splits)
  then show ?thesis by (induction body) simp_all
qed

lemma add_of_nonneg: "e \<in> set (receiver_events T cs fs body) \<Longrightarrow> receiver_body T cs sts body \<Longrightarrow> 0 \<le> add_of t e"
  by (auto simp: receiver_events_def receiver_body_def fire_events_def add_of_def list_all_iff split: mem_event.splits)

lemma receiver_sum:
  assumes "receiver_body T cs sts body" "prefix xs (receiver_events T cs fs body)"
  shows "(\<Sum>e\<leftarrow>xs. add_of t e) \<le> int (add_fires fs t)"
proof -
  have "(\<Sum>e\<leftarrow>receiver_events T cs fs body. add_of t e) = int (add_fires fs t)"
    using body_sum [OF assms(1), of t] fire_sum [of t cs fs]
    by (simp add: receiver_events_def add_of_def [of t "Barrier _"] comp_def add_of_def [of t "Fence _"])
  moreover obtain ys where ys: "receiver_events T cs fs body = xs @ ys" using assms(2) by (auto simp: prefix_def)
  moreover have "0 \<le> (\<Sum>e\<leftarrow>ys. add_of t e)" using add_of_nonneg [OF _ assms(1), of _ fs t] ys by (intro sum_list_nonneg) auto
  ultimately show ?thesis by simp
qed

text \<open>A release-add in the run of a receiver comes after its stores and its barrier.\<close>

lemma fires_come_last:
  assumes "prefix (us @ RedRelease a l v # vs) (receiver_events T cs fs body)" "receiver_body T cs sts body"
  shows "\<exists>f. us = body @ map Fence (threads_of cs T) @ [Barrier (threads_of cs T)] @ f" "a = Receiver cs 0"
proof -
  let ?pre = "body @ map Fence (threads_of cs T) @ [Barrier (threads_of cs T)]"
  obtain zs where zs: "receiver_events T cs fs body = us @ RedRelease a l v # vs @ zs" using assms(1) by (auto simp: prefix_def)
  have no: "RedRelease a l v \<notin> set ?pre"
    using assms(2) by (auto simp: receiver_body_def list_all_iff)
  have eq: "?pre @ fire_events cs fs = us @ RedRelease a l v # vs @ zs" using zs by (simp add: receiver_events_def)
  have "length ?pre \<le> length us"
  proof (rule ccontr)
    assume "\<not> length ?pre \<le> length us"
    then have "(?pre @ fire_events cs fs) ! length us = ?pre ! length us" "length us < length ?pre" by (simp_all add: nth_append del: append_assoc)
    then have "RedRelease a l v = ?pre ! length us" using eq by (metis nth_append_length)
    then show False using no nth_mem [OF \<open>length us < length ?pre\<close>] by simp
  qed
  then obtain f where f: "us = ?pre @ f" using eq by (metis append_eq_append_conv_if append_take_drop_id)
  then show "\<exists>f. us = body @ map Fence (threads_of cs T) @ [Barrier (threads_of cs T)] @ f" by auto
  have "fire_events cs fs = f @ RedRelease a l v # vs @ zs" using eq f by simp
  then have "RedRelease a l v \<in> set (fire_events cs fs)" by simp
  then show "a = Receiver cs 0" by (auto simp: fire_events_def)
qed

section \<open>What the firing thread knows\<close>

lemma store_known:
  assumes "exec_event (Store a l v) m = Some m'" "writes m l \<noteq> []"
  shows "1 \<le> known m' a l"
  using assms by (cases "writes m l") (auto simp: op_defs at_least_def sup_nat_def)

lemma foldr_known: "b \<in> set ts \<Longrightarrow> known m b l \<le> foldr (\<lambda>t. sup (known m t)) ts (\<lambda>_. 0) l"
  by (induction ts) (auto simp: sup_nat_def le_max_iff_disj)

lemma barrier_known:
  assumes "exec_event (Barrier ts) m = Some m'" "a \<in> set ts" "b \<in> set ts"
  shows "known m b l \<le> known m' a l"
  using assms foldr_known [OF assms(3), of m l] by (auto simp: barrier_def Let_def sup_nat_def le_max_iff_disj)

lemma stored_before_barrier:
  assumes "run_events (x1 @ Store b l v # x2 @ Barrier ts # x3) m = Some m'" "writes m l \<noteq> []" "a \<in> set ts" "b \<in> set ts"
  shows "1 \<le> known m' a l"
proof -
  obtain m1 where m1: "run_events x1 m = Some m1" and r1: "run_events (Store b l v # x2 @ Barrier ts # x3) m1 = Some m'"
    using assms(1) by (rule run_events_appendE)
  obtain m2 where m2: "exec_event (Store b l v) m1 = Some m2" and r2: "run_events (x2 @ Barrier ts # x3) m2 = Some m'"
    using r1 by (rule run_events_ConsE)
  obtain m3 where m3: "run_events x2 m2 = Some m3" and r3: "run_events (Barrier ts # x3) m3 = Some m'"
    using r2 by (rule run_events_appendE)
  obtain m4 where m4: "exec_event (Barrier ts) m3 = Some m4" and r4: "run_events x3 m4 = Some m'"
    using r3 by (rule run_events_ConsE)
  have "writes m1 l \<noteq> []" using run_writes [OF m1, of l] assms(2) by auto
  note store_known [OF m2 this]
  also note run_known [OF m3, of b l]
  also note barrier_known [OF m4 assms(3,4), of l]
  also note run_known [OF r4, of a l]
  finally show ?thesis .
qed

context dispatching
begin

abbreviation "stores_of cs \<equiv> fst (run_receiver C me internode G ranks cs)"
abbreviation "fires_of cs \<equiv> snd (run_receiver C me internode G ranks cs)"

text \<open>Slot cells are written with one value.\<close>

lemma slot_cell_store:
  assumes "cs \<in> set order" "st \<in> set (stores_of cs)" "(l, v) \<in> set (store_cells st)" "slot_cell l = Some s"
  obtains i k where "lands cs i k" "landed_slot cs i k = s"
    "(l, v) \<in> {(PoolCell s, Row (pk_x (packet_at cs i))), (WeightCell s, Scalar (pk_weights (packet_at cs i) ! k)),
      (RecvCell s, Num (int (recv_at cs i))), (KSlotCell s, Num (int k))}"
proof -
  obtain i where i: "i < length (rows_at cs)" and st: "st \<in> set (packet_stores (recv_at cs i) (slots_at cs ! i) (packet_at cs i))"
    using assms(2) unfolding receiver_stores [OF assms(1)] by blast
  have "\<exists>k<length (slots_at cs ! i). 0 \<le> slots_at cs ! i ! k \<and> s = nat (slots_at cs ! i ! k) \<and>
      (l, v) \<in> {(PoolCell s, Row (pk_x (packet_at cs i))), (WeightCell s, Scalar (pk_weights (packet_at cs i) ! k)),
        (RecvCell s, Num (int (recv_at cs i))), (KSlotCell s, Num (int k))}"
  proof (cases st)
    case (PoolRow s' x)
    then show ?thesis using st assms(3,4) unfolding PoolRow row_store by simp
  next
    case (PoolWeight s' x)
    then show ?thesis using st assms(3,4) unfolding PoolWeight weight_store by auto
  next
    case (PoolRecvToken s' x)
    then show ?thesis using st assms(3,4) unfolding PoolRecvToken recv_store by simp
  next
    case (PoolKSlot s' x)
    then show ?thesis using st assms(3,4) unfolding PoolKSlot k_store by auto
  qed (use assms(3,4) in auto)
  then show thesis using slot_store [OF assms(1) i] that by metis
qed

lemma slot_cell_value:
  assumes "cs \<in> set order" "st \<in> set (stores_of cs)" "(l, v) \<in> set (store_cells st)" "slot_cell l = Some s"
    and "cs' \<in> set order" "st' \<in> set (stores_of cs')" "(l, v') \<in> set (store_cells st')"
  shows "v = v'"
proof -
  obtain i k where k: "lands cs i k" "landed_slot cs i k = s"
    "(l, v) \<in> {(PoolCell s, Row (pk_x (packet_at cs i))), (WeightCell s, Scalar (pk_weights (packet_at cs i) ! k)),
      (RecvCell s, Num (int (recv_at cs i))), (KSlotCell s, Num (int k))}"
    using slot_cell_store [OF assms(1-4)] by blast
  obtain i' k' where k': "lands cs' i' k'" "landed_slot cs' i' k' = s"
    "(l, v') \<in> {(PoolCell s, Row (pk_x (packet_at cs' i'))), (WeightCell s, Scalar (pk_weights (packet_at cs' i') ! k')),
      (RecvCell s, Num (int (recv_at cs' i'))), (KSlotCell s, Num (int k'))}"
    using slot_cell_store [OF assms(5-7,4)] by blast
  have "cs = cs' \<and> i = i' \<and> k = k'" using slot_inj [OF k(1) k'(1)] k(2) k'(2) by simp
  then show ?thesis using k(3) k'(3) by auto
qed

lemma slot_cell_row:
  assumes "cs \<in> set order" "st \<in> set (stores_of cs)" "(l, v) \<in> set (store_cells st)" "slot_cell l = Some s"
  shows "\<exists>x. PoolRow s x \<in> set (stores_of cs)"
proof -
  obtain i k where k: "lands cs i k" "landed_slot cs i k = s" using slot_cell_store [OF assms] by blast
  then have "PoolRow s (pk_x (packet_at cs i)) \<in> set (packet_stores (recv_at cs i) (slots_at cs ! i) (packet_at cs i))"
    using lands_store [OF k(1)] by (auto simp: row_store)
  then show ?thesis using k(1) unfolding receiver_stores [OF assms(1)] by (auto simp: lands_def)
qed

section \<open>A trace of dispatch\<close>

lemma trace_receiver:
  assumes "dispatch_trace T C me internode G ranks es" "cs \<in> set order"
  obtains body where "receiver_body T cs (stores_of cs) body"
    "prefix (filter (by_receiver cs) es) (receiver_events T cs (fires_of cs) body)"
  using assms unfolding dispatch_trace_def by (fastforce simp: case_prod_beta)

lemma own_events:
  assumes "receiver_body T cs sts body" "e \<in> set (receiver_events T cs fs body)" "b \<in> set (agents e)"
  shows "\<exists>w. b = Receiver cs w"
  using assms by (auto simp: receiver_body_def receiver_events_def list_all_iff threads_of_def fire_events_def)

lemma one_receiver:
  assumes "dispatch_trace T C me internode G ranks es" "e \<in> set es" "cs \<in> set order" "by_receiver cs e" "by_receiver cs' e"
  shows "cs' = cs"
proof -
  obtain body where b: "receiver_body T cs (stores_of cs) body"
      "prefix (filter (by_receiver cs) es) (receiver_events T cs (fires_of cs) body)"
    using assms(1,3) by (rule trace_receiver)
  have "e \<in> set (receiver_events T cs (fires_of cs) body)"
    using b(2) assms(2,4) set_mono_prefix by (metis (mono_tags) filter_set mem_Collect_eq subsetD Set.filter_eq)
  then show ?thesis using own_events [OF b(1)] assms(5) by (auto simp: by_receiver_def)
qed

lemma trace_writes:
  assumes "dispatch_trace T C me internode G ranks es" "e \<in> set es" "written e = Some l"
  obtains cs body where "cs \<in> set order" "receiver_body T cs (stores_of cs) body" "by_receiver cs e"
    "e \<in> set (receiver_events T cs (fires_of cs) body)"
proof -
  obtain cs where cs: "cs \<in> set order" "by_receiver cs e"
    using assms unfolding dispatch_trace_def by (metis option.distinct(1))
  obtain body where b: "receiver_body T cs (stores_of cs) body"
      "prefix (filter (by_receiver cs) es) (receiver_events T cs (fires_of cs) body)"
    using assms(1) cs(1) by (rule trace_receiver)
  have "e \<in> set (receiver_events T cs (fires_of cs) body)"
    using b(2) assms(2) cs(2) set_mono_prefix by (metis (mono_tags) filter_set mem_Collect_eq subsetD Set.filter_eq)
  then show thesis using that cs b by blast
qed

lemma trace_counted:
  assumes "dispatch_trace T C me internode G ranks es"
  shows "summed (ArrivalCount t) es"
  unfolding summed_def list_all_iff
proof (intro ballI impI)
  fix e assume e: "e \<in> set es" "written e = Some (ArrivalCount t)"
  obtain cs body where b: "receiver_body T cs (stores_of cs) body" "e \<in> set (receiver_events T cs (fires_of cs) body)"
    using trace_writes [OF assms e] by metis
  have "(ArrivalCount t, v) \<notin> set (store_cells st)" for v and st :: "('f, 'r) store" by (cases st) auto
  then have "e \<notin> set body" using body_event [OF b(1), of e] e(2) by auto
  then show "\<exists>a v. e = RedRelease a (ArrivalCount t) v"
    using b(2) e(2) by (auto simp: receiver_events_def fire_events_def)
qed

lemma trace_stores:
  assumes "dispatch_trace T C me internode G ranks es" "e \<in> set es" "written e = Some l" "slot_cell l = Some s"
  shows "\<exists>a v cs st. e = Store a l v \<and> cs \<in> set order \<and> st \<in> set (stores_of cs) \<and> (l, v) \<in> set (store_cells st)"
proof -
  obtain cs body where b: "cs \<in> set order" "receiver_body T cs (stores_of cs) body" "e \<in> set (receiver_events T cs (fires_of cs) body)"
    using trace_writes [OF assms(1-3)] by metis
  have "e \<in> set body" using b(3) assms(3,4) by (auto simp: receiver_events_def fire_events_def)
  from body_event [OF b(2) this] show ?thesis
  proof (elim disjE exE conjE)
    fix a l' v st assume "e = Store a l' v" "st \<in> set (stores_of cs)" "(l', v) \<in> set (store_cells st)"
    then show ?thesis using assms(3) b(1) by (intro exI [of _ a] exI [of _ v] exI [of _ cs] exI [of _ st]) simp
  qed (use assms(3) in simp)
qed

section \<open>A complete tile\<close>

lemma split_by_receiver:
  assumes "dispatch_trace T C me internode G ranks (pre @ post)"
  shows "(\<Sum>e\<leftarrow>pre. add_of t e) = (\<Sum>cs\<leftarrow>order. \<Sum>e\<leftarrow>filter (by_receiver cs) pre. add_of t e)"
  using assms
proof (induction pre arbitrary: post rule: rev_induct)
  case (snoc e pre)
  have one: "(\<Sum>cs\<leftarrow>order. if by_receiver cs e then add_of t e else 0) = add_of t e"
  proof (cases "\<exists>cs \<in> set order. by_receiver cs e")
    case True
    then obtain cs where cs: "cs \<in> set order" "by_receiver cs e" by blast
    have "e \<in> set ((pre @ [e]) @ post)" by simp
    then have "by_receiver cs' e \<longleftrightarrow> cs' = cs" for cs' using one_receiver [OF snoc.prems _ cs, of cs'] cs(2) by blast
    then show ?thesis using cs(1) distinct_order by (simp add: sum_list_distinct_conv_sum_set del: set_order)
  next
    case False
    then have "written e = None" using snoc.prems unfolding dispatch_trace_def by simp
    then have "add_of t e = 0" by (cases e) (simp_all add: add_of_def)
    then show ?thesis by (simp cong: if_cong)
  qed
  have "(\<Sum>cs\<leftarrow>order. \<Sum>e\<leftarrow>filter (by_receiver cs) (pre @ [e]). add_of t e)
      = (\<Sum>cs\<leftarrow>order. (\<Sum>e\<leftarrow>filter (by_receiver cs) pre. add_of t e) + (if by_receiver cs e then add_of t e else 0))"
    by (intro arg_cong [of _ _ sum_list] map_cong) simp_all
  also have "\<dots> = (\<Sum>e\<leftarrow>pre. add_of t e) + add_of t e"
    using snoc.IH [of "e # post"] snoc.prems one by (simp add: sum_list_addf)
  finally show ?case by simp
qed simp

lemma receiver_adds:
  assumes "dispatch_trace T C me internode G ranks (pre @ post)" "cs \<in> set order"
  shows "(\<Sum>e\<leftarrow>filter (by_receiver cs) pre. add_of t e) \<le> int (share cs t)"
proof -
  obtain body where b: "receiver_body T cs (stores_of cs) body"
      "prefix (filter (by_receiver cs) (pre @ post)) (receiver_events T cs (fires_of cs) body)"
    using assms by (rule trace_receiver)
  have "prefix (filter (by_receiver cs) pre) (receiver_events T cs (fires_of cs) body)"
    using b(2) by (auto simp: prefix_def)
  then show ?thesis using receiver_sum [OF b(1), of _ "fires_of cs" t] receiver_fires [OF assms(2), of t] by (simp add: share_def)
qed

lemma complete_counts:
  assumes "dispatch_trace T C me internode G ranks (pre @ post)"
    and "(\<Sum>e\<leftarrow>pre. add_of t e) = (\<Sum>cs\<leftarrow>order. int (share cs t))" "cs \<in> set order"
  shows "(\<Sum>e\<leftarrow>filter (by_receiver cs) pre. add_of t e) = int (share cs t)"
proof -
  let ?s = "\<lambda>cs. \<Sum>e\<leftarrow>filter (by_receiver cs) pre. add_of t e"
  have "(\<Sum>cs\<in>set order. ?s cs) = (\<Sum>cs\<in>set order. int (share cs t))"
    using assms(2) split_by_receiver [OF assms(1)] distinct_order by (simp add: sum_list_distinct_conv_sum_set del: set_order)
  then show ?thesis using sum_mono_inv [of ?s "set order" "\<lambda>cs. int (share cs t)" cs] receiver_adds [OF assms(1)] assms(3)
    by (simp del: set_order)
qed

lemma adds_mem: "v \<in> set (adds c es) \<Longrightarrow> \<exists>a. RedRelease a c v \<in> set es"
  by (induction c es rule: adds.induct) (auto split: if_splits)

lemma trace_adds:
  assumes "dispatch_trace T C me internode G ranks es"
  shows "adds (ArrivalCount t) es = map Num (map num_of (adds (ArrivalCount t) es))"
proof -
  have "Num (num_of v) = v" if "v \<in> set (adds (ArrivalCount t) es)" for v
  proof -
    obtain a where e: "RedRelease a (ArrivalCount t) v \<in> set es" using adds_mem [OF \<open>v \<in> _\<close>] by blast
    obtain cs body where b: "receiver_body T cs (stores_of cs) body" "RedRelease a (ArrivalCount t) v \<in> set (receiver_events T cs (fires_of cs) body)"
      using trace_writes [OF assms e] by (metis written.simps(3))
    have "RedRelease a (ArrivalCount t) v \<notin> set body" using body_event [OF b(1), of "RedRelease a (ArrivalCount t) v"] by auto
    then show ?thesis using b(2) by (auto simp: receiver_events_def fire_events_def)
  qed
  then show ?thesis by (simp add: map_idI comp_def)
qed

lemma load_bound:
  assumes "run_events es m = Some m'" "Load a l n \<in> set es"
  shows "n < length (writes m' l)"
proof -
  obtain xs ys where "es = xs @ Load a l n # ys" using assms(2) by (metis split_list)
  then obtain m1 where "run_events (Load a l n # ys) m1 = Some m'" using assms(1) by (metis run_events_appendE)
  then have r: "readable a l n m1" "run_events ys (ld_global a l n m1) = Some m'" by (auto split: option.splits if_splits)
  then have "n < length (writes (ld_global a l n m1) l)" by (simp add: readable_def ld_global_def)
  then show ?thesis using run_keeps_write(2) [OF r(2)] by blast
qed

text \<open>The release-add of the receiver that stored a row, before the acquired value was complete.\<close>

lemma fire_before:
  assumes tr: "dispatch_trace T C me internode G ranks (pre @ post)"
    and total: "(\<Sum>e\<leftarrow>pre. add_of t e) = (\<Sum>cs\<leftarrow>order. int (share cs t))"
    and cs: "cs \<in> set order" and st: "st \<in> set (stores_of cs)" "(l, v) \<in> set (store_cells st)" "slot_cell l = Some s" "s div TILE_M = t"
  shows "\<exists>x1 w x2 x3 u ys. pre = x1 @ Store w l v # x2 @ Barrier (threads_of cs T) # x3 @ RedRelease (Receiver cs 0) (ArrivalCount t) u # ys
    \<and> w \<in> set (threads_of cs T)"
proof -
  obtain x where "PoolRow s x \<in> set (stores_of cs)" using slot_cell_row [OF cs st(1-3)] by blast
  then have "0 < share cs t" using row_in_share [OF cs] st(4) by blast
  then have "(\<Sum>e\<leftarrow>filter (by_receiver cs) pre. add_of t e) \<noteq> 0" using complete_counts [OF tr total cs] by simp
  then obtain e where e: "e \<in> set pre" "by_receiver cs e" "add_of t e \<noteq> 0"
    using sum_nonzero [of "add_of t" "filter (by_receiver cs) pre"] by auto
  then obtain b u where red: "e = RedRelease b (ArrivalCount t) u" by (auto simp: add_of_def split: mem_event.splits if_splits)
  obtain xs ys where pre: "pre = xs @ e # ys" using e(1) by (metis split_list)
  obtain body where b: "receiver_body T cs (stores_of cs) body"
      "prefix (filter (by_receiver cs) (pre @ post)) (receiver_events T cs (fires_of cs) body)"
    using tr cs by (rule trace_receiver)
  have "prefix (filter (by_receiver cs) xs @ RedRelease b (ArrivalCount t) u # filter (by_receiver cs) (ys @ post))
      (receiver_events T cs (fires_of cs) body)"
    using b(2) e(2) by (simp add: pre red)
  note last = fires_come_last [OF this b(1)]
  obtain f where f: "filter (by_receiver cs) xs = body @ map Fence (threads_of cs T) @ [Barrier (threads_of cs T)] @ f"
    using last(1) by blast
  obtain w where w: "Store w l v \<in> set body" "w \<in> set (threads_of cs T)" using body_has [OF b(1) st(1,2)] by blast
  then obtain b1 b2 where "body = b1 @ Store w l v # b2" by (metis split_list)
  then have "filter (by_receiver cs) xs = b1 @ Store w l v # (b2 @ map Fence (threads_of cs T)) @ Barrier (threads_of cs T) # f"
    using f by simp
  from filter_split [OF this] obtain x1 x2 where x: "xs = x1 @ Store w l v # x2"
      "filter (by_receiver cs) x2 = (b2 @ map Fence (threads_of cs T)) @ Barrier (threads_of cs T) # f" by blast
  from filter_split [OF x(2)] obtain x3 x4 where "x2 = x3 @ Barrier (threads_of cs T) # x4" by blast
  then have "pre = x1 @ Store w l v # x3 @ Barrier (threads_of cs T) # x4 @ RedRelease (Receiver cs 0) (ArrivalCount t) u # ys"
    using x(1) pre red last(2) by simp
  then show ?thesis using w(2) by blast
qed

lemma tile_read:
  assumes tr: "dispatch_trace T C me internode G ranks (pre @ Acquire a (ArrivalCount t) k # post)"
    and run: "run_events (pre @ Acquire a (ArrivalCount t) k # post) (initial v0) = Some m"
    and zero: "v0 (ArrivalCount t) = Num 0" and t: "t < total_tiles freq"
    and full: "msg_val (writes m (ArrivalCount t) ! k) = Num (int (snd (fill_tile_metadata (block_offset freq) freq t)))"
    and load: "Load a l n \<in> set post"
    and cs: "cs \<in> set order" and st: "st \<in> set (stores_of cs)" "(l, v) \<in> set (store_cells st)" "slot_cell l = Some s" "s div TILE_M = t"
  shows "msg_val (writes m l ! n) = v"
proof -
  let ?c = "ArrivalCount t"
  let ?es = "pre @ Acquire a ?c k # post"
  obtain mp where mp: "run_events pre (initial v0) = Some mp" and rest: "run_events (Acquire a ?c k # post) mp = Some m"
    using run by (rule run_events_appendE)
  have summed: "summed ?c ?es" using trace_counted [OF tr] .
  then have cpre: "summed ?c pre" by (simp add: summed_def)
  have k: "k < length (writes mp ?c)" using rest by (auto simp: readable_def split: if_splits option.splits)
  have val: "msg_val (writes mp ?c ! k) = Num (int (snd (fill_tile_metadata (block_offset freq) freq t)))"
    using full run_keeps_write(1) [OF rest k] by simp
  have an: "adds ?c pre = map Num (map num_of (adds ?c pre))"
  proof -
    have "map Num (map num_of (adds ?c ?es)) = adds ?c ?es" using trace_adds [OF tr] by simp
    then show ?thesis by (simp add: adds_append)
  qed
  have "msg_val (writes mp ?c ! k) = foldl (+) (Num 0) (take k (adds ?c pre))"
    using counter_values [OF mp cpre _ _ k] zero by (simp add: initial_writes)
  also have "\<dots> = Num (sum_list (take k (map num_of (adds ?c pre))))"
    by (subst an) (simp only: take_map foldl_nums add_0)
  finally have "msg_val (writes mp ?c ! k) = Num (sum_list (take k (map num_of (adds ?c pre))))" .
  from trans [OF sym [OF this] val]
  have sum: "sum_list (take k (map num_of (adds ?c pre))) = int (snd (fill_tile_metadata (block_offset freq) freq t))"
    by (rule iffD1 [OF cell_val.inject(3)])
  obtain pre' rest' where pre: "pre = pre' @ rest'" and pre': "adds ?c pre' = take k (adds ?c pre)" using adds_prefix [of pre ?c k] by blast
  have "(\<Sum>e\<leftarrow>pre'. add_of t e) = (\<Sum>cs\<leftarrow>order. int (share cs t))"
    using sum unfolding adds_sum [symmetric] pre' target_shares [OF t] int_sum_list by (simp only: take_map)
  moreover have "dispatch_trace T C me internode G ranks (pre' @ (rest' @ Acquire a ?c k # post))" using tr by (simp add: pre)
  ultimately obtain x1 w x2 x3 u ys where
    x: "pre' = x1 @ Store w l v # x2 @ Barrier (threads_of cs T) # x3 @ RedRelease (Receiver cs 0) ?c u # ys" "w \<in> set (threads_of cs T)"
    using fire_before [OF _ _ cs st] by blast
  let ?xs = "x1 @ Store w l v # x2 @ Barrier (threads_of cs T) # x3"
  have zero_in: "Receiver cs 0 \<in> set (threads_of cs T)" using x(2) by (auto simp: threads_of_def)
  have es: "?es = ?xs @ RedRelease (Receiver cs 0) ?c u # (ys @ rest') @ Acquire a ?c k # post" by (simp add: pre x(1))
  have "length (adds ?c ?xs) < length (adds ?c pre')" by (simp add: x(1) adds_append adds_RedRelease)
  then have klen: "1 + length (adds ?c ?xs) \<le> k" by (simp add: pre')
  have "1 \<le> n"
  proof (rule counter_publishes [where xs = ?xs and ys = "ys @ rest'" and zs = post and p = l and m = "initial v0" and m' = m and j = 1])
    show "run_events (?xs @ RedRelease (Receiver cs 0) ?c u # (ys @ rest') @ Acquire a ?c k # post) (initial v0) = Some m"
      using run unfolding es .
    show "summed ?c (?xs @ RedRelease (Receiver cs 0) ?c u # ys @ rest')" using summed unfolding es by (simp add: summed_def)
    show "length (writes (initial v0) ?c) + length (adds ?c ?xs) \<le> k" using klen by (simp add: initial_writes)
    fix m1 assume "run_events ?xs (initial v0) = Some m1"
    then show "1 \<le> known m1 (Receiver cs 0) l"
      by (rule stored_before_barrier) (simp_all add: initial_writes zero_in x(2))
  qed (simp_all add: growing_initial load)
  moreover have "n < length (writes m l)" by (rule load_bound [OF run, of a]) (use load in simp)
  ultimately show ?thesis
  proof (intro run_values [OF run, of l v 1 n])
    fix e assume "e \<in> set ?es" "written e = Some l"
    from trace_stores [OF tr this st(3)] obtain b v' cs' st' where
      "e = Store b l v'" "cs' \<in> set order" "st' \<in> set (stores_of cs')" "(l, v') \<in> set (store_cells st')" by blast
    then show "\<exists>b. e = Store b l v" using slot_cell_value [OF cs st(1-3)] by blast
  qed (simp_all add: initial_writes)
qed

end

section \<open>The property\<close>

text \<open>C11: on the weakly ordered memory, a consumer that has acquired an arrival count equal to the tile's target reads, for
  every slot of the tile a receiver filled, the row, weight, receive token and k that was dispatched there, however the
  threads of the receivers and the consumers interleave and whichever writes the memory lets them read.\<close>

theorem tile_contents_visible:
  fixes ranks :: "('r list \<times> 'f::zero routing) list"
  assumes "well_routed K E ranks" "G = gather zx zi zw ranks" "0 < C" "me < length ranks"
    and "dispatch_trace T C me internode G ranks (pre @ Acquire a (ArrivalCount t) k # post)"
    and "run_events (pre @ Acquire a (ArrivalCount t) k # post) (initial v0) = Some m"
    and "v0 (ArrivalCount t) = Num 0" "t < total_tiles (expert_freq C me G)"
    and "msg_val (writes m (ArrivalCount t) ! k)
      = Num (int (snd (fill_tile_metadata (block_offset (expert_freq C me G)) (expert_freq C me G) t)))"
    and "Load a l n \<in> set post" "cs \<in> set (substream_order C me internode G)"
    and "st \<in> set (fst (run_receiver C me internode G ranks cs))" "(l, v) \<in> set (store_cells st)"
    and "slot_cell l = Some s" "s div TILE_M = t"
  shows "msg_val (writes m l ! n) = v"
proof -
  have d: "dispatching K E C me ranks G zx zi zw" using assms(1-4) by unfold_locales
  show ?thesis by (rule dispatching.tile_read [OF d assms(5-15)])
qed

text \<open>The receivers one after the other, on one thread each, their stores backwards.\<close>

definition serial_events :: "nat \<Rightarrow> nat \<Rightarrow> bool \<Rightarrow> ('f, 'r) global \<Rightarrow> ('r list \<times> 'f::zero routing) list \<Rightarrow> substream \<Rightarrow> ('f, 'r) dispatch_event list" where
  "serial_events C me internode G ranks cs = (case run_receiver C me internode G ranks cs of (sts, fs) \<Rightarrow>
     receiver_events 1 cs fs (map (\<lambda>(l, v). Store (Receiver cs 0) l v) (rev (concat (map store_cells sts)))))"

definition serial_dispatch :: "nat \<Rightarrow> nat \<Rightarrow> bool \<Rightarrow> ('f, 'r) global \<Rightarrow> ('r list \<times> 'f::zero routing) list \<Rightarrow> ('f, 'r) dispatch_event list" where
  "serial_dispatch C me internode G ranks = concat (map (serial_events C me internode G ranks) (substream_order C me internode G))"

lemma serial_body: "receiver_body 1 cs sts (map (\<lambda>(l, v). Store (Receiver cs 0) l v) (rev (concat (map store_cells sts))))"
proof -
  have "concat (map (\<lambda>e. case e of Store _ l v \<Rightarrow> [(l, v)] | _ \<Rightarrow> []) (map (\<lambda>(l, v). Store (Receiver cs 0) l v) ps)) = ps" for ps
    by (induction ps) auto
  from this [of "rev (concat (map store_cells sts))"] show ?thesis
    unfolding receiver_body_def by (auto simp: list_all_iff threads_of_def simp del: map_map set_concat)
qed

lemma serial_own: "e \<in> set (serial_events C me internode G ranks cs) \<Longrightarrow> by_receiver cs' e \<longleftrightarrow> cs' = cs"
  by (auto simp: serial_events_def receiver_events_def by_receiver_def threads_of_def fire_events_def case_prod_beta)

lemma serial_filter:
  "distinct xs \<Longrightarrow> filter (by_receiver cs) (concat (map (serial_events C me internode G ranks) xs))
    = (if cs \<in> set xs then serial_events C me internode G ranks cs else [])"
proof (induction xs)
  case (Cons x xs)
  have "filter (by_receiver cs) (serial_events C me internode G ranks x) = (if cs = x then serial_events C me internode G ranks x else [])"
    using serial_own [of _ C me internode G ranks x cs] by (auto simp: filter_id_conv filter_empty_conv)
  then show ?case using Cons by auto
qed simp

lemma serial_trace:
  assumes "\<And>e. e \<in> set es \<Longrightarrow> written e = None \<and> (\<forall>a \<in> set (agents e). \<exists>i. a = Consumer i)"
    and "distinct (substream_order C me internode G)"
  shows "dispatch_trace 1 C me internode G ranks (serial_dispatch C me internode G ranks @ es)"
proof -
  have no: "filter (by_receiver cs) es = []" for cs
    using assms(1) by (fastforce simp: filter_empty_conv by_receiver_def)
  have "filter (by_receiver cs) (serial_dispatch C me internode G ranks @ es) = serial_events C me internode G ranks cs"
    if "cs \<in> set (substream_order C me internode G)" for cs
    using that serial_filter [OF assms(2), of cs C me internode G ranks] by (simp add: serial_dispatch_def no)
  moreover have "\<exists>body. receiver_body 1 cs sts body \<and> prefix (serial_events C me internode G ranks cs) (receiver_events 1 cs fs body)"
    if "run_receiver C me internode G ranks cs = (sts, fs)" for cs sts fs
    using serial_body [of cs sts] that unfolding serial_events_def by (simp only: prod.case) (blast intro: prefix_order.order_refl)
  moreover have "(\<exists>cs \<in> set (substream_order C me internode G). by_receiver cs e)
      \<or> written e = None \<and> (\<forall>a \<in> set (agents e). \<exists>i. a = Consumer i)"
    if mem: "e \<in> set (serial_dispatch C me internode G ranks @ es)" for e
  proof (cases "e \<in> set es")
    case False
    then obtain cs where "cs \<in> set (substream_order C me internode G)" "e \<in> set (serial_events C me internode G ranks cs)"
      using mem by (auto simp: serial_dispatch_def)
    then show ?thesis using serial_own [of e C me internode G ranks cs cs] by blast
  qed (use assms(1) in blast)
  ultimately show ?thesis unfolding dispatch_trace_def by (simp split: prod.splits)
qed

definition demo_pre :: "(int, int) dispatch_event list" where "demo_pre = serial_dispatch 2 0 False demo_G demo_ranks"

definition demo_post :: "(int, int) dispatch_event list" where "demo_post = [Load (Consumer 0) (PoolCell 1) 1]"

lemma demo_reads:
  "\<exists>m. run_events (demo_pre @ Acquire (Consumer 0) (ArrivalCount 0) 2 # demo_post) (initial (\<lambda>_. Num 0)) = Some m
    \<and> msg_val (writes m (ArrivalCount 0) ! 2) = Num 2"
proof -
  have "list_all (\<lambda>e. case e of Load _ _ _ \<Rightarrow> False | Acquire _ _ _ \<Rightarrow> False | _ \<Rightarrow> True) demo_pre" by code_simp
  then obtain m1 where m1: "run_events demo_pre (initial (\<lambda>_. Num 0)) = Some m1"
    using writes_never_fail [of demo_pre "initial (\<lambda>_. Num 0)"] by blast
  have c: "length (filter (\<lambda>e. written e = Some (ArrivalCount 0)) demo_pre) = 2"
      "length (filter (\<lambda>e. written e = Some (PoolCell 1)) demo_pre) = 1" "adds (ArrivalCount 0) demo_pre = [Num 1, Num 1]"
      "list_all (\<lambda>e. case e of RedRelease _ _ _ \<Rightarrow> True | _ \<Rightarrow> written e \<noteq> Some (ArrivalCount 0)) demo_pre" by code_simp+
  have cnt: "summed (ArrivalCount 0) demo_pre"
    unfolding summed_def list_all_iff
  proof (intro ballI impI)
    fix e assume "e \<in> set demo_pre" "written e = Some (ArrivalCount 0)"
    then show "\<exists>t v. e = RedRelease t (ArrivalCount 0) v"
      using c(4)[unfolded list_all_iff, rule_format, of e] by - (cases e, auto)
  qed
  have len: "length (writes m1 (ArrivalCount 0)) = 3" "length (writes m1 (PoolCell 1)) = 2"
    unfolding run_writes_length [OF m1] c(1,2) by (simp_all add: initial_writes)
  have ok: "views_ok m1" using run_views_ok [OF m1 views_ok_initial] .
  have r1: "readable (Consumer 0) (ArrivalCount 0) 2 m1" by (rule newest_readable [OF ok]) (simp add: len)
  define m2 where "m2 = ld_acquire_gpu_global (Consumer 0) (ArrivalCount 0) 2 m1"
  have e2: "exec_event (Acquire (Consumer 0) (ArrivalCount 0) 2) m1 = Some m2" using r1 by (simp add: m2_def)
  have w2: "writes m2 = writes m1" by (simp add: m2_def ld_acquire_gpu_global_def)
  have r2: "readable (Consumer 0) (PoolCell 1) 1 m2"
    by (rule newest_readable [OF exec_views_ok [OF e2 ok]]) (use len in \<open>simp add: w2\<close>)
  have "msg_val (writes m1 (ArrivalCount 0) ! 2) = Num 2"
    using counter_values [OF m1 cnt, of 2] len by (simp add: initial_writes c(3) numeral_2_eq_2)
  then show ?thesis using m1 e2 r2 by (auto simp: run_events_append demo_post_def ld_global_def w2)
qed

theorem tile_contents_visible_witness:
  "\<exists>m. run_events (demo_pre @ Acquire (Consumer 0) (ArrivalCount 0) 2 # demo_post) (initial (\<lambda>_. Num 0)) = Some m
    \<and> msg_val (writes m (PoolCell 1) ! 1) = Row 200"
proof -
  obtain m where m: "run_events (demo_pre @ Acquire (Consumer 0) (ArrivalCount 0) 2 # demo_post) (initial (\<lambda>_. Num 0)) = Some m"
      "msg_val (writes m (ArrivalCount 0) ! 2) = Num 2" using demo_reads by blast
  have tr: "dispatch_trace 1 2 0 False demo_G demo_ranks (demo_pre @ Acquire (Consumer 0) (ArrivalCount 0) 2 # demo_post)"
    unfolding demo_pre_def by (rule serial_trace) (auto simp: demo_post_def, code_simp)
  have "msg_val (writes m (PoolCell 1) ! 1) = Row 200"
  proof (rule tile_contents_visible [OF demo_routed demo_G_def _ _ tr m(1), where cs = "(0, 1)" and st = "PoolRow 1 200" and s = 1])
    show "0 < total_tiles (expert_freq 2 0 demo_G)" "(0, 1) \<in> set (substream_order 2 0 False demo_G)" by code_simp+
    have "list_ex (\<lambda>st. case st of PoolRow s x \<Rightarrow> s = 1 \<and> x = 200 | _ \<Rightarrow> False) (fst (run_receiver 2 0 False demo_G demo_ranks (0, 1)))"
      by code_simp
    then obtain st where "st \<in> set (fst (run_receiver 2 0 False demo_G demo_ranks (0, 1)))"
        "case st of PoolRow s x \<Rightarrow> s = 1 \<and> x = 200 | _ \<Rightarrow> False" unfolding list_ex_iff by blast
    then show "PoolRow 1 200 \<in> set (fst (run_receiver 2 0 False demo_G demo_ranks (0, 1)))" by - (cases st, auto)
    have "snd (fill_tile_metadata (block_offset (expert_freq 2 0 demo_G)) (expert_freq 2 0 demo_G) 0) = 2" by code_simp
    then show "msg_val (writes m (ArrivalCount 0) ! 2)
      = Num (int (snd (fill_tile_metadata (block_offset (expert_freq 2 0 demo_G)) (expert_freq 2 0 demo_G) 0)))" using m(2) by simp
  qed (simp_all add: demo_post_def demo_ranks_def TILE_M_def)
  then show ?thesis using m(1) by blast
qed

end
