(* ===== verification/Scatter_Visible.thy ===== *)
theory Scatter_Visible
  imports Scatter_Epilogue PTX_Memory "HOL-Library.Sublist"
begin

text \<open>
  The atomic-scatter epilogue of \<^verbatim>\<open>stream_ep/stream_moe/kernel_y.py\<close> on the weakly ordered memory of
  \<^theory_text>\<open>PTX_Memory\<close>: every lane's vector reduction on its own, the barriers of the epilogue warps, thread 0's gate, the
  countdown of every row, and the combine sender that acquires a token's stamp and reads its row. The ordering of
  \<^verbatim>\<open>cute.arch.atomic_add\<close>, which the code does not state, is a parameter.
\<close>

section \<open>The launch\<close>

datatype y_cell =
    Out nat nat                \<comment> \<open>\<open>mO\<close>, receive token and column\<close>
  | Stripes nat | Remaining nat | Done nat

datatype y_val = Count int | Bf16 "16 word"

instantiation y_val :: plus
begin

fun plus_y_val :: "y_val \<Rightarrow> y_val \<Rightarrow> y_val" where
  "plus_y_val (Count a) (Count b) = Count (a + b)"
| "plus_y_val v w = v"

instance ..

end

record y_config =
  yc_launch :: scatter_launch
  yc_tile_n :: nat
  yc_epi :: "nat \<times> nat"                       \<comment> \<open>\<open>epi_tile\<close>\<close>
  yc_warps :: nat                             \<comment> \<open>\<open>num_epi_warps\<close>\<close>
  yc_rows :: "nat \<Rightarrow> nat \<Rightarrow> 16 word"          \<comment> \<open>slot and column: what the GEMM and the weights leave in the fragment\<close>
  yc_bf16_add :: "16 word \<Rightarrow> 16 word \<Rightarrow> 16 word"
  yc_atomics :: ordering                      \<comment> \<open>what \<open>cute.arch.atomic_add\<close> orders\<close>
  yc_out :: "nat \<Rightarrow> nat \<Rightarrow> 16 word"           \<comment> \<open>the output before the launch\<close>

type_synonym cta = "nat \<times> nat"                \<comment> \<open>tile and stripe\<close>

type_synonym job = "(nat \<times> nat) \<times> nat \<times> nat \<times> nat"      \<comment> \<open>\<open>epi_coord\<close>, warp, \<open>w\<close>, lane\<close>

datatype y_thread = Epi cta nat | Sender nat

type_synonym y_memory = "(y_cell, y_thread, y_val) device_memory"

definition y_threads :: "y_config \<Rightarrow> cta \<Rightarrow> y_thread list" where
  "y_threads C c = map (Epi c) [0..<yc_warps C * 32]"

definition y_jobs :: "y_config \<Rightarrow> job set" where
  "y_jobs C = ({..<sc_tile_m (yc_launch C) div fst (yc_epi C)} \<times> {..<yc_tile_n C div snd (yc_epi C)})
     \<times> {..<yc_warps C} \<times> {..<work_iters_per_warp (fst (yc_epi C)) (snd (yc_epi C)) (yc_warps C)} \<times> {..<32}"

definition job_thread :: "cta \<Rightarrow> job \<Rightarrow> y_thread" where
  "job_thread c x = (case x of (_, warp, _, lane) \<Rightarrow> Epi c (warp * 32 + lane))"

section \<open>One lane\<close>

definition staging_value :: "y_config \<Rightarrow> cta \<Rightarrow> nat \<times> nat \<Rightarrow> nat \<times> nat \<Rightarrow> 16 word" where
  \<comment> \<open>the staging buffer of a subtile after the copy from registers\<close>
  "staging_value C c epi_coord rc = yc_rows C
     (slot_of (yc_launch C) (fst c) (fst epi_coord * fst (yc_epi C) + fst rc))
     (snd c * yc_tile_n C + snd epi_coord * snd (yc_epi C) + snd rc)"

definition job_op :: "y_config \<Rightarrow> cta \<Rightarrow> job \<Rightarrow> red_op" where
  "job_op C c x = (case x of (epi_coord, warp, w, lane) \<Rightarrow>
     scatter_lane (\<lambda>m. sc_recv (yc_launch C) ! slot_of (yc_launch C) (fst c) m) (sc_T_recv (yc_launch C))
       (yc_epi C) (yc_warps C) (snd c * yc_tile_n C) epi_coord warp w lane)"

fun bf16_sum :: "(16 word \<Rightarrow> 16 word \<Rightarrow> 16 word) \<Rightarrow> y_val \<Rightarrow> y_val \<Rightarrow> y_val" where
  "bf16_sum add (Bf16 a) (Bf16 b) = Bf16 (add a b)"
| "bf16_sum add v w = v"

definition lane_red :: "y_config \<Rightarrow> cta \<Rightarrow> job \<Rightarrow> y_memory \<Rightarrow> y_memory" where
  "lane_red C c x =
     (let op = job_op C c x;
          stage_row_i32 = (\<lambda>i. pack_bf16x2 (staging_value C c (fst x) (fst (red_src op), 2 * i)) (staging_value C c (fst x) (fst (red_src op), 2 * i + 1)));
          i32_base = snd (red_src op)
      in red_add_bf16x2_v4_pred (bf16_sum (yc_bf16_add C)) Bf16 (job_thread c x) (\<lambda>i. Out (red_row op) (red_col op + i))
           (map (\<lambda>k. stage_row_i32 (i32_base + k)) [0..<4]) (if red_pred op then 1 else 0))"

definition job_cells :: "y_config \<Rightarrow> cta \<Rightarrow> job \<Rightarrow> (nat \<times> nat \<times> nat) list" where
  \<comment> \<open>what a lane adds: slot, receive token, column\<close>
  "job_cells C c x = (let op = job_op C c x in if red_pred op then
      map (\<lambda>i. (slot_of (yc_launch C) (fst c) (fst (fst x) * fst (yc_epi C) + fst (red_src op)), red_row op, red_col op + i)) [0..<8]
    else [])"

section \<open>The epilogue of all CTAs\<close>

datatype y_phase =
    Adding "job set"                     \<comment> \<open>reductions still to be issued\<close>
  | Added                                \<comment> \<open>past the last barrier of the scatter\<close>
  | Flagged bool                           \<comment> \<open>thread 0 is past its atomic, with its flag\<close>
  | Finishing bool "nat set" "nat set"   \<comment> \<open>past the barrier of \<open>end\<close>; rows to decrement, rows to stamp\<close>

record y_state =
  y_phase :: "cta \<Rightarrow> y_phase"
  y_mem :: y_memory
  y_order :: "nat \<times> nat \<Rightarrow> nat list"     \<comment> \<open>history: token and column, the slots added so far in order\<close>

datatype y_action =
    YRed cta job | YSync cta | YGate cta | YBarrier cta | YCount cta nat | YStamp cta nat
  | YAcquire nat nat nat          \<comment> \<open>sender, token, the write its acquire returns\<close>
  | YLoad nat nat nat nat         \<comment> \<open>sender, token, column, the write its load returns\<close>

definition y_init :: "y_config \<Rightarrow> y_state" where
  "y_init C = \<lparr>y_phase = (\<lambda>_. Adding (y_jobs C)),
     y_mem = initial (\<lambda>l. case l of Out r n \<Rightarrow> Bf16 (yc_out C r n) | Stripes _ \<Rightarrow> Count 0
        | Remaining r \<Rightarrow> Count (int (card (slots_of (yc_launch C) r))) | Done _ \<Rightarrow> Count 0),
     y_order = (\<lambda>_. [])\<rparr>"

definition y_rows :: "y_config \<Rightarrow> nat \<Rightarrow> nat set" where
  \<comment> \<open>the threads of \<open>end\<close> that have a token\<close>
  "y_rows C t = {m. m < sc_tile_m (yc_launch C) \<and> m < yc_warps C * 32 \<and> recv_ok (yc_launch C) (slot_of (yc_launch C) t m)}"

definition y_red :: "y_config \<Rightarrow> cta \<Rightarrow> job \<Rightarrow> job set \<Rightarrow> y_state \<Rightarrow> y_state" where
  "y_red C c x X s = s\<lparr>y_phase := (y_phase s)(c := Adding (X - {x})), y_mem := lane_red C c x (y_mem s),
     y_order := fold (\<lambda>(slot, r, n) ord. ord((r, n) := ord (r, n) @ [slot])) (job_cells C c x) (y_order s)\<rparr>"

definition y_gate :: "y_config \<Rightarrow> cta \<Rightarrow> y_state \<Rightarrow> y_state" where
  "y_gate C c s = (case atomic_add (yc_atomics C) (Epi c 0) (Stripes (fst c)) (Count 1) (y_mem s) of (prev_stripes, m) \<Rightarrow>
     let is_last_stripe = (prev_stripes = Count (int (sc_gate (yc_launch C)) - 1))
     in s\<lparr>y_phase := (y_phase s)(c := Flagged is_last_stripe),
          y_mem := (if is_last_stripe then threadfence_gpu (Epi c 0) m else m)\<rparr>)"

definition y_count :: "y_config \<Rightarrow> cta \<Rightarrow> nat \<Rightarrow> bool \<Rightarrow> nat set \<Rightarrow> nat set \<Rightarrow> y_state \<Rightarrow> y_state" where
  "y_count C c row b A B s =
     (let r = token (yc_launch C) (slot_of (yc_launch C) (fst c) row)
      in case atomic_add (yc_atomics C) (Epi c row) (Remaining r) (Count (- 1)) (y_mem s) of (prev, m) \<Rightarrow>
        s\<lparr>y_phase := (y_phase s)(c := Finishing b (A - {row}) (if prev = Count 1 then insert row B else B)), y_mem := m\<rparr>)"

definition y_stamp :: "y_config \<Rightarrow> cta \<Rightarrow> nat \<Rightarrow> bool \<Rightarrow> nat set \<Rightarrow> nat set \<Rightarrow> y_state \<Rightarrow> y_state" where
  "y_stamp C c row b A B s =
     (let r = token (yc_launch C) (slot_of (yc_launch C) (fst c) row)
      in s\<lparr>y_phase := (y_phase s)(c := Finishing b A (B - {row})),
           y_mem := st_release_gpu_global (Epi c row) (Done r) (Count (sc_seq (yc_launch C))) (y_mem s)\<rparr>)"

definition y_cta :: "y_config \<Rightarrow> cta \<Rightarrow> bool" where
  "y_cta C c \<longleftrightarrow> fst c < sc_tiles (yc_launch C) \<and> snd c < sc_ctas (yc_launch C)"

fun y_act :: "y_config \<Rightarrow> y_action \<Rightarrow> y_state \<Rightarrow> y_state option" where
  "y_act C (YRed c x) s = (case y_phase s c of
     Adding X \<Rightarrow> if y_cta C c \<and> x \<in> X then Some (y_red C c x X s) else None | _ \<Rightarrow> None)"
| "y_act C (YSync c) s = (if y_cta C c \<and> y_phase s c = Adding {}
     then Some (s\<lparr>y_phase := (y_phase s)(c := Added), y_mem := barrier (y_threads C c) (y_mem s)\<rparr>) else None)"
| "y_act C (YGate c) s = (if y_cta C c \<and> y_phase s c = Added then Some (y_gate C c s) else None)"
| "y_act C (YBarrier c) s = (case y_phase s c of
     Flagged b \<Rightarrow> if y_cta C c then Some (s\<lparr>y_phase := (y_phase s)(c := Finishing b (if b then y_rows C (fst c) else {}) {}),
         y_mem := barrier (y_threads C c) (y_mem s)\<rparr>) else None
   | _ \<Rightarrow> None)"
| "y_act C (YCount c row) s = (case y_phase s c of
     Finishing b A B \<Rightarrow> if y_cta C c \<and> row \<in> A then Some (y_count C c row b A B s) else None | _ \<Rightarrow> None)"
| "y_act C (YStamp c row) s = (case y_phase s c of
     Finishing b A B \<Rightarrow> if y_cta C c \<and> row \<in> B then Some (y_stamp C c row b A B s) else None | _ \<Rightarrow> None)"
| "y_act C (YAcquire i r n) s = (if readable (Sender i) (Done r) n (y_mem s)
     then Some (s\<lparr>y_mem := ld_acquire_gpu_global (Sender i) (Done r) n (y_mem s)\<rparr>) else None)"
| "y_act C (YLoad i r n k) s = (if readable (Sender i) (Out r n) k (y_mem s)
     then Some (s\<lparr>y_mem := ld_global (Sender i) (Out r n) k (y_mem s)\<rparr>) else None)"

fun y_run :: "y_config \<Rightarrow> y_action list \<Rightarrow> y_state \<Rightarrow> y_state option" where
  "y_run C [] s = Some s"
| "y_run C (a # as) s = (case y_act C a s of None \<Rightarrow> None | Some s' \<Rightarrow> y_run C as s')"

declare split_paired_All [simp del] split_paired_Ex [simp del]

section \<open>Which lane adds what\<close>

definition job_at :: "y_config \<Rightarrow> nat \<Rightarrow> nat \<Rightarrow> job \<Rightarrow> bool" where
  \<comment> \<open>the lane that adds column \<open>n\<close> of row \<open>m\<close> of its tile\<close>
  "job_at C m n x = (case x of ((em, en), warp, w, lane) \<Rightarrow> (case yc_epi C of (eM, eN) \<Rightarrow>
     em = m div eM \<and> en = n mod yc_tile_n C div eN \<and>
     warp < yc_warps C \<and> w < work_iters_per_warp eM eN (yc_warps C) \<and> lane < 32 \<and>
     op_in_range (lane_work eM eN (yc_warps C) warp w lane) \<and> op_row (lane_work eM eN (yc_warps C) warp w lane) = m mod eM \<and>
     op_chunk (lane_work eM eN (yc_warps C) warp w lane) = n mod yc_tile_n C mod eN div 8))"

locale scatter_grid =
  fixes C :: y_config
  assumes warps: "0 < yc_warps C"
    and epi_M: "0 < fst (yc_epi C)" "fst (yc_epi C) dvd sc_tile_m (yc_launch C)"
    and epi_N: "0 < snd (yc_epi C)" "8 dvd snd (yc_epi C)" "snd (yc_epi C) dvd yc_tile_n C" and tile_n: "0 < yc_tile_n C"
    and row_threads: "sc_tile_m (yc_launch C) \<le> yc_warps C * 32" and gates: "sc_ctas (yc_launch C) \<le> sc_gate (yc_launch C)"
begin

abbreviation "L \<equiv> yc_launch C"
abbreviation "eM \<equiv> fst (yc_epi C)"
abbreviation "eN \<equiv> snd (yc_epi C)"

lemma y_rows: "y_rows C t = rows_of L t"
  using row_threads by (auto simp: y_rows_def rows_of_def)

lemma job_cellE:
  assumes "x \<in> y_jobs C" "(slot, r, n) \<in> set (job_cells C (t, j) x)"
  obtains em en warp w lane i where "x = ((em, en), warp, w, lane)" "i < 8"
    and "em < sc_tile_m L div eM" "en < yc_tile_n C div eN" "warp < yc_warps C"
      "w < work_iters_per_warp eM eN (yc_warps C)" "lane < 32"
    and "op_in_range (lane_work eM eN (yc_warps C) warp w lane)"
    and "slot = slot_of L t (em * eM + op_row (lane_work eM eN (yc_warps C) warp w lane))" "recv_ok L slot" "r = token L slot"
    and "n = j * yc_tile_n C + en * eN + op_chunk (lane_work eM eN (yc_warps C) warp w lane) * 8 + i"
proof -
  obtain em en warp w lane where x: "x = ((em, en), warp, w, lane)" by (cases x) auto
  let ?l = "lane_work eM eN (yc_warps C) warp w lane"
  have p: "red_pred (job_op C (t, j) x)" using assms(2) by (auto simp: job_cells_def Let_def split: if_splits)
  obtain i where "i < 8" "slot = slot_of L t (em * eM + fst (red_src (job_op C (t, j) x)))"
      "r = red_row (job_op C (t, j) x)" "n = red_col (job_op C (t, j) x) + i"
    using assms(2) p by (auto simp: job_cells_def Let_def x)
  then show thesis
    using p assms(1) by (intro that [of em en warp w lane i])
      (auto simp: x y_jobs_def job_op_def scatter_lane_def Let_def recv_ok_def token_def split: if_splits)
qed

lemma lane_bounds:
  assumes "op_in_range (lane_work eM eN (yc_warps C) warp w lane)"
  shows "op_row (lane_work eM eN (yc_warps C) warp w lane) < eM"
    and "op_chunk (lane_work eM eN (yc_warps C) warp w lane) * 8 + 8 \<le> eN"
proof -
  show "op_row (lane_work eM eN (yc_warps C) warp w lane) < eM"
    using assms by (auto simp: lane_work_def Let_def)
  have v: "v4_chunks_per_row eN * 8 = eN" "0 < v4_chunks_per_row eN"
    using epi_N(1,2) by (auto simp: v4_chunks_per_row_def elim!: dvdE)
  have "op_chunk (lane_work eM eN (yc_warps C) warp w lane) < v4_chunks_per_row eN"
    using v(2) by (simp add: lane_work_def Let_def)
  then have "Suc (op_chunk (lane_work eM eN (yc_warps C) warp w lane)) * 8 \<le> v4_chunks_per_row eN * 8"
    by (intro mult_le_mono1) simp
  then show "op_chunk (lane_work eM eN (yc_warps C) warp w lane) * 8 + 8 \<le> eN" using v(1) by simp
qed

lemma grid_index:
  assumes "a < N div b" "b dvd N" "i < b"
  shows "a * b + i < (N::nat)" "(a * b + i) div b = a" "(a * b + i) mod b = i"
proof -
  have "Suc a * b \<le> N div b * b" using assms(1) by (intro mult_le_mono1) simp
  then show "a * b + i < N" using assms(2,3) by simp
qed (use assms(3) in auto)

lemma job_cell_place:
  assumes "x \<in> y_jobs C" "(slot, r, n) \<in> set (job_cells C (t, j) x)" "t < sc_tiles L"
  shows "\<exists>m. m \<in> rows_of L t \<and> slot = slot_of L t m \<and> slot \<in> slots_of L r \<and> n div yc_tile_n C = j
    \<and> job_at C m n x"
  using assms(1,2)
proof (rule job_cellE)
  fix em en warp w lane i
  let ?l = "lane_work eM eN (yc_warps C) warp w lane"
  assume x: "x = ((em, en), warp, w, lane)" "i < 8" "em < sc_tile_m L div eM" "en < yc_tile_n C div eN" "warp < yc_warps C"
      "w < work_iters_per_warp eM eN (yc_warps C)" "lane < 32" "op_in_range ?l"
    and slot: "slot = slot_of L t (em * eM + op_row ?l)" "recv_ok L slot" "r = token L slot"
    and n: "n = j * yc_tile_n C + en * eN + op_chunk ?l * 8 + i"
  note b = lane_bounds [OF x(8)]
  have "op_chunk ?l * 8 + i < eN" using b(2) x(2) by simp
  note col = grid_index [OF x(4) epi_N(3) this] and row = grid_index [OF x(3) epi_M(2) b(1)]
  have n': "n = j * yc_tile_n C + (en * eN + (op_chunk ?l * 8 + i))" by (simp add: n)
  have "n div yc_tile_n C = j" "n mod yc_tile_n C = en * eN + (op_chunk ?l * 8 + i)"
    using col(1) unfolding n' by simp_all
  moreover have m: "em * eM + op_row ?l \<in> rows_of L t" using row(1) slot by (simp add: rows_of_def)
  moreover have "slot \<in> slots_of L r" using slots_of_slot [OF assms(3) m, of r] slot by simp
  ultimately show ?thesis using x slot row(2,3) col(2,3)
    by (intro exI [of _ "em * eM + op_row ?l"]) (simp add: job_at_def prod.case_eq_if)
qed

lemma job_at_unique: "job_at C m n x \<Longrightarrow> job_at C m n x' \<Longrightarrow> x = x'"
proof -
  assume at: "job_at C m n x" "job_at C m n x'"
  define lane_is where "lane_is = (\<lambda>(warp, w, lane). warp < yc_warps C \<and> w < work_iters_per_warp eM eN (yc_warps C) \<and> lane < 32 \<and>
      op_in_range (lane_work eM eN (yc_warps C) warp w lane) \<and> op_row (lane_work eM eN (yc_warps C) warp w lane) = m mod eM \<and>
      op_chunk (lane_work eM eN (yc_warps C) warp w lane) = n mod yc_tile_n C mod eN div 8)"
  have "n mod yc_tile_n C mod eN < eN" using epi_N(1) by simp
  then have "n mod yc_tile_n C mod eN div 8 < v4_chunks_per_row eN" using epi_N(2)
    by (auto simp: v4_chunks_per_row_def elim!: dvdE)
  from lane_covers [OF warps _ this, of "m mod eM" eM] epi_M(1)
  have "\<exists>!p. lane_is p" by (simp add: lane_is_def)
  moreover obtain em en warp w lane em' en' warp' w' lane' where
    x: "x = ((em, en), warp, w, lane)" "x' = ((em', en'), warp', w', lane')" by (cases x, cases x') auto
  moreover have "lane_is (warp, w, lane)" "lane_is (warp', w', lane')"
    using at unfolding x lane_is_def job_at_def by (simp_all add: prod.case_eq_if)
  ultimately have "(warp, w, lane) = (warp', w', lane')" by blast
  then show "x = x'" using at unfolding x job_at_def by (simp add: prod.case_eq_if)
qed

lemma job_unique:
  assumes "y_cta C (t, j)" "y_cta C (t', j')" "x \<in> y_jobs C" "x' \<in> y_jobs C"
    and "(slot, r, n) \<in> set (job_cells C (t, j) x)" "(slot, r', n) \<in> set (job_cells C (t', j') x')"
  shows "t = t'" "j = j'" "x = x'"
proof -
  have tt: "t < sc_tiles L" "t' < sc_tiles L" using assms(1,2) by (simp_all add: y_cta_def)
  obtain m where m: "m \<in> rows_of L t" "slot = slot_of L t m" "n div yc_tile_n C = j" "job_at C m n x"
    using job_cell_place [OF assms(3,5) tt(1)] by blast
  obtain m' where m': "m' \<in> rows_of L t'" "slot = slot_of L t' m'" "n div yc_tile_n C = j'" "job_at C m' n x'"
    using job_cell_place [OF assms(4,6) tt(2)] by blast
  have "m < sc_tile_m L" "m' < sc_tile_m L" using m(1) m'(1) by (simp_all add: rows_of_def)
  from slot_of_inject [OF this, of t t'] have eq: "t = t'" "m = m'" using m(2) m'(2) by simp_all
  show "t = t'" "j = j'" using eq m(3) m'(3) by simp_all
  show "x = x'" using job_at_unique m(4) m'(4) eq by blast
qed

lemma job_exists:
  assumes "t < sc_tiles L" "m \<in> rows_of L t" "n div yc_tile_n C = j"
  shows "\<exists>x \<in> y_jobs C. (slot_of L t m, token L (slot_of L t m), n) \<in> set (job_cells C (t, j) x)"
proof -
  let ?k = "n mod yc_tile_n C"
  have k: "?k < yc_tile_n C" using tile_n by simp
  have lt: "?k mod eN < eN" using epi_N(1) by simp
  then have "?k mod eN div 8 < v4_chunks_per_row eN" using epi_N(2) by (auto simp: v4_chunks_per_row_def elim!: dvdE)
  from lane_covers [OF warps _ this, of "m mod eM" eM] epi_M(1) obtain warp w lane where
    l: "warp < yc_warps C" "w < work_iters_per_warp eM eN (yc_warps C)" "lane < 32"
      "op_in_range (lane_work eM eN (yc_warps C) warp w lane)"
      "op_row (lane_work eM eN (yc_warps C) warp w lane) = m mod eM"
      "op_chunk (lane_work eM eN (yc_warps C) warp w lane) = ?k mod eN div 8"
    by auto
  let ?x = "((m div eM, ?k div eN), warp, w, lane)"
  have m: "m < sc_tile_m L" and ok: "recv_ok L (slot_of L t m)" using assms(2) by (auto simp: rows_of_def)
  have "m div eM < sc_tile_m L div eM" using m epi_M by (auto elim!: dvdE simp: less_mult_imp_div_less mult.commute)
  moreover have "?k div eN < yc_tile_n C div eN" using k epi_N by (metis dvd_mult_div_cancel less_mult_imp_div_less mult.commute)
  ultimately have x: "?x \<in> y_jobs C" using l by (simp add: y_jobs_def)
  have op: "red_pred (job_op C (t, j) ?x)" "red_row (job_op C (t, j) ?x) = token L (slot_of L t m)"
      "fst (red_src (job_op C (t, j) ?x)) = m mod eM" "red_col (job_op C (t, j) ?x) = j * yc_tile_n C + ?k div eN * eN + ?k mod eN div 8 * 8"
    using l ok by (simp_all add: job_op_def scatter_lane_def Let_def recv_ok_def token_def)
  have "?k div eN * eN + ?k mod eN div 8 * 8 + ?k mod eN mod 8 = ?k" by (metis add.assoc div_mult_mod_eq)
  then have n: "n = j * yc_tile_n C + ?k div eN * eN + ?k mod eN div 8 * 8 + ?k mod eN mod 8"
    using div_mult_mod_eq [of n "yc_tile_n C"] assms(3) by simp
  have "(slot_of L t m, token L (slot_of L t m), n) \<in> set (job_cells C (t, j) ?x)"
    unfolding job_cells_def Let_def using op n by (auto intro!: image_eqI [of _ _ "?k mod eN mod 8"])
  then show ?thesis using x by blast
qed

lemma job_column: "x \<in> y_jobs C \<Longrightarrow> (slot, r, n) \<in> set (job_cells C c x) \<Longrightarrow> fst c < sc_tiles L \<Longrightarrow> n div yc_tile_n C = snd c"
  using job_cell_place [of x slot r n "fst c" "snd c"] by auto

lemma job_cells_distinct: "distinct (map snd (job_cells C c x))"
  by (auto simp: job_cells_def Let_def distinct_map comp_def inj_on_def)

end

section \<open>What the memory operations keep\<close>

definition mem_grows :: "('l, 't, 'v) device_memory \<Rightarrow> ('l, 't, 'v) device_memory \<Rightarrow> bool" where
  "mem_grows m m' \<longleftrightarrow> (\<forall>l. prefix (writes m l) (writes m' l)) \<and> (\<forall>t. known m t \<le> known m' t)"

lemma mem_grows_refl [simp]: "mem_grows m m" by (simp add: mem_grows_def)

lemma mem_grows_trans: "mem_grows m1 m2 \<Longrightarrow> mem_grows m2 m3 \<Longrightarrow> mem_grows m1 m3"
  unfolding mem_grows_def by (meson order_trans prefix_order.order_trans)

lemma mem_grows_add_write: "mem_grows m (add_write t l v w m)"
  by (auto simp: mem_grows_def add_write_def Let_def)

lemma mem_grows_ops [simp]:
  "mem_grows m (red_add add t l v m)" "mem_grows m (st_release_gpu_global t l v m)" "mem_grows m (ld_acquire_gpu_global t l n m)"
  "mem_grows m (ld_global t l n m)" "mem_grows m (barrier ts m)" "mem_grows m (threadfence_gpu t m)" "mem_grows m (snd (atomic_add ord t l v m))"
proof -
  show "mem_grows m (red_add add t l v m)" "mem_grows m (st_release_gpu_global t l v m)"
    by (simp_all add: red_add_def st_release_gpu_global_def mem_grows_add_write Let_def)
  show "mem_grows m (ld_acquire_gpu_global t l n m)" "mem_grows m (ld_global t l n m)" "mem_grows m (barrier ts m)" "mem_grows m (threadfence_gpu t m)"
    by (auto simp: mem_grows_def ld_acquire_gpu_global_def ld_global_def barrier_def threadfence_gpu_def Let_def)
  have "mem_grows m (case ord of Relaxed \<Rightarrow> m\<lparr>pending := p\<rparr> | AcqRel \<Rightarrow> m\<lparr>known := (known m)(t := sup (known m t) w)\<rparr>)" for p w
    by (cases ord) (auto simp: mem_grows_def)
  then show "mem_grows m (snd (atomic_add ord t l v m))"
    unfolding atomic_add_def Let_def snd_conv by (rule mem_grows_trans) (rule mem_grows_add_write)
qed

lemma barrier_passes: "t \<in> set ts \<Longrightarrow> t' \<in> set ts \<Longrightarrow> known m t' \<le> known (barrier ts m) t"
proof -
  assume t: "t \<in> set ts" "t' \<in> set ts"
  have "known m t' \<le> foldr (\<lambda>t. sup (known m t)) ts (\<lambda>_. 0)" using t(2)
    by (induction ts) (auto intro: le_supI1 le_supI2)
  then show ?thesis using t(1) by (simp add: barrier_def Let_def le_supI2)
qed

lemma writes_same [simp]:
  "writes (barrier ts m) = writes m" "writes (threadfence_gpu t m) = writes m"
  "writes (ld_global t l n m) = writes m" "writes (ld_acquire_gpu_global t l n m) = writes m"
  by (simp_all add: barrier_def threadfence_gpu_def ld_global_def ld_acquire_gpu_global_def Let_def)

lemma fence_known: "known m t' \<le> known (threadfence_gpu t m) t'"
  by (simp add: threadfence_gpu_def Let_def)

lemma acq_rel_add:
  assumes "atomic_add AcqRel t l v m = (prev, m')"
  shows "prev = msg_val (last (writes m l))" "l' \<noteq> l \<Longrightarrow> writes m' l' = writes m l'"
    and "\<exists>msg. writes m' l = writes m l @ [msg] \<and> msg_val msg = prev + v \<and> known m t \<le> msg_view msg
      \<and> msg_view (last (writes m l)) \<le> msg_view msg"
    and "known m t \<le> known m' t" "msg_view (last (writes m l)) \<le> known m' t"
  using assms by (auto simp: atomic_add_def Let_def add_write_def le_supI1 le_supI2)

section \<open>Lanes as single reductions\<close>

lemma job_op_place:
  "red_col (job_op C c x) = snd c * yc_tile_n C + snd (fst x) * snd (yc_epi C) + 2 * snd (red_src (job_op C c x))"
  by (simp add: job_op_def scatter_lane_def Let_def split: prod.split)

lemma lane_red_cells:
  "lane_red C c x = fold (\<lambda>(slot, r, n). red_add (bf16_sum (yc_bf16_add C)) (job_thread c x) (Out r n) (Bf16 (yc_rows C slot n)))
     (job_cells C c x)"
proof
  fix m
  define op where "op = job_op C c x"
  define stg where "stg = (\<lambda>i. yc_rows C (slot_of (yc_launch C) (fst c) (fst (fst x) * fst (yc_epi C) + fst (red_src op))) (red_col op + i))"
  have st: "staging_value C c (fst x) (fst (red_src op), 2 * (snd (red_src op) + k)) = stg (2 * k)"
      "staging_value C c (fst x) (fst (red_src op), 2 * (snd (red_src op) + k) + 1) = stg (2 * k + 1)" for k
    by (simp_all add: staging_value_def stg_def op_def job_op_place algebra_simps)
  define col where "col = (\<lambda>i. Out (red_row op) (red_col op + i))"
  have up: "[0..<4] = [0, 1, 2, 3::nat]" "[0..<8] = [0, 1, 2, 3, 4, 5, 6, 7::nat]" by (simp_all add: upt_rec)
  have "lane_red C c x m = (if red_pred op then
      fold (\<lambda>i. red_add (bf16_sum (yc_bf16_add C)) (job_thread c x) (col i) (Bf16 (stg i))) [0..<8] m else m)"
    unfolding lane_red_def Let_def op_def [symmetric] st col_def [symmetric]
    by (simp add: red_add_bf16x2_v4_pred_def unpack_pack up enumerate_eq_zip)
  also have "\<dots> = fold (\<lambda>(slot, r, n). red_add (bf16_sum (yc_bf16_add C)) (job_thread c x) (Out r n) (Bf16 (yc_rows C slot n)))
      (job_cells C c x) m"
    by (simp add: job_cells_def Let_def op_def [symmetric] fold_map comp_def stg_def col_def)
  finally show "lane_red C c x m = \<dots>" .
qed

definition out_value :: "y_config \<Rightarrow> nat \<Rightarrow> nat \<Rightarrow> nat list \<Rightarrow> 16 word" where
  "out_value C r n slots = foldl (yc_bf16_add C) (yc_out C r n) (map (\<lambda>slot. yc_rows C slot n) slots)"

definition out_ok :: "y_config \<Rightarrow> y_memory \<Rightarrow> (nat \<times> nat \<Rightarrow> nat list) \<Rightarrow> bool" where
  \<comment> \<open>every write of an output element is the sum over the slots added by then\<close>
  "out_ok C m ord \<longleftrightarrow> (\<forall>r n. length (writes m (Out r n)) = Suc (length (ord (r, n))) \<and>
     (\<forall>k \<le> length (ord (r, n)). msg_val (writes m (Out r n) ! k) = Bf16 (out_value C r n (take k (ord (r, n))))))"

lemma red_add_writes:
  "writes (red_add add t l v m) l' = (if l' = l then writes m l @ [\<lparr>msg_val = add (msg_val (last (writes m l))) v,
     msg_view = sup (sup (fenced m t) (msg_view (last (writes m l)))) (at_least l (length (writes m l)))\<rparr>] else writes m l')"
  by (simp add: red_add_def add_write_def Let_def)

lemma out_ok_add:
  assumes "out_ok C m ord"
  shows "out_ok C (red_add (bf16_sum (yc_bf16_add C)) t (Out r n) (Bf16 (yc_rows C slot n)) m) (ord((r, n) := ord (r, n) @ [slot]))"
proof -
  have len: "length (writes m (Out r n)) = Suc (length (ord (r, n)))" using assms by (simp add: out_ok_def)
  then have "last (writes m (Out r n)) = writes m (Out r n) ! length (ord (r, n))"
    by (metis diff_Suc_1 last_conv_nth list.size(3) nat.distinct(1))
  then have "msg_val (last (writes m (Out r n))) = Bf16 (out_value C r n (ord (r, n)))" using assms by (simp add: out_ok_def)
  then show ?thesis using assms len
    by (auto simp: out_ok_def red_add_writes nth_append out_value_def le_Suc_eq)
qed

definition seen :: "(nat \<times> nat \<Rightarrow> nat list) \<Rightarrow> y_cell view \<Rightarrow> nat \<times> nat \<times> nat \<Rightarrow> bool" where
  \<comment> \<open>the view has the write that added the slot to the element\<close>
  "seen ord w p = (case p of (slot, r, n) \<Rightarrow> \<exists>i < length (ord (r, n)). ord (r, n) ! i = slot \<and> i < w (Out r n))"

lemma seen_mono: "seen ord w p \<Longrightarrow> \<forall>q. prefix (ord q) (ord' q) \<Longrightarrow> w \<le> w' \<Longrightarrow> seen ord' w' p"
proof -
  assume s: "seen ord w p" and pre: "\<forall>q. prefix (ord q) (ord' q)" and w: "w \<le> w'"
  obtain slot r n i where p: "p = (slot, r, n)" "i < length (ord (r, n))" "ord (r, n) ! i = slot" "i < w (Out r n)"
    using s by (cases p) (auto simp: seen_def)
  obtain zs where "ord' (r, n) = ord (r, n) @ zs" using pre by (auto simp: prefix_def)
  then show ?thesis using p le_funD [OF w, of "Out r n"] by (auto simp: seen_def nth_append intro!: exI [of _ i])
qed

lemma red_seen:
  assumes "out_ok C m ord"
  shows "seen (ord((r, n) := ord (r, n) @ [slot])) (known (red_add add t (Out r n) v m) t) (slot, r, n)"
  using assms by (auto simp: seen_def red_add_def add_write_def Let_def out_ok_def at_least_def nth_append sup_nat_def
      intro!: exI [of _ "length (ord (r, n))"])

text \<open>All elements of a lane, one after the other.\<close>

lemma fold_reds:
  assumes "out_ok C m ord"
    and "m' = fold (\<lambda>(slot, r, n). red_add (bf16_sum (yc_bf16_add C)) t (Out r n) (Bf16 (yc_rows C slot n))) ps m"
    and "ord' = fold (\<lambda>(slot, r, n) ord. ord((r, n) := ord (r, n) @ [slot])) ps ord"
  shows "out_ok C m' ord' \<and> mem_grows m m' \<and> (\<forall>q. prefix (ord q) (ord' q)) \<and> (\<forall>p \<in> set ps. seen ord' (known m' t) p)
    \<and> (\<forall>l. (\<forall>r n. l \<noteq> Out r n) \<longrightarrow> writes m' l = writes m l)"
  unfolding assms(2,3) using assms(1)
proof (induction ps arbitrary: m ord)
  case (Cons p ps)
  obtain slot r n where p: "p = (slot, r, n)" by (cases p) auto
  let ?m = "red_add (bf16_sum (yc_bf16_add C)) t (Out r n) (Bf16 (yc_rows C slot n)) m" and ?ord = "ord((r, n) := ord (r, n) @ [slot])"
  let ?m' = "fold (\<lambda>(slot, r, n). red_add (bf16_sum (yc_bf16_add C)) t (Out r n) (Bf16 (yc_rows C slot n))) ps ?m"
    and ?ord' = "fold (\<lambda>(slot, r, n) ord. ord((r, n) := ord (r, n) @ [slot])) ps ?ord"
  have ih: "out_ok C ?m' ?ord'" "mem_grows ?m ?m'" "\<forall>q. prefix (?ord q) (?ord' q)" "\<And>q. q \<in> set ps \<Longrightarrow> seen ?ord' (known ?m' t) q"
      "\<And>l. \<forall>r n. l \<noteq> Out r n \<Longrightarrow> writes ?m' l = writes ?m l"
    using Cons.IH [OF out_ok_add [OF Cons.prems]] by blast+
  have "prefix (ord q) (?ord' q)" for q using spec [OF ih(3), of q] by (auto simp: prefix_def split: if_splits)
  moreover have "seen ?ord' (known ?m' t) p"
  proof -
    have "known ?m t \<le> known ?m' t" using ih(2) by (simp add: mem_grows_def)
    then show ?thesis unfolding p by (rule seen_mono [OF red_seen [OF Cons.prems] ih(3)])
  qed
  moreover have "mem_grows m ?m'" using mem_grows_trans [OF mem_grows_ops(1) ih(2)] .
  moreover have "writes ?m' l = writes m l" if "\<forall>r n. l \<noteq> Out r n" for l
    using ih(5) [OF that] that by (simp add: red_add_writes)
  ultimately show ?case using ih(1,4) unfolding p fold_Cons o_apply prod.case list.set(2) by blast
qed (simp add: mem_grows_def)

section \<open>The sequentially consistent launch it refines\<close>

fun cta_view :: "y_config \<Rightarrow> nat \<Rightarrow> y_phase \<Rightarrow> cta_phase" where
  "cta_view C t (Adding X) = Scattering {..<sc_tile_m (yc_launch C)}"
| "cta_view C t Added = Scattering {}"
| "cta_view C t (Flagged b) = Counting b (if b then rows_of (yc_launch C) t else {}) {}"
| "cta_view C t (Finishing b A B) = Counting b A B"

definition newest :: "y_state \<Rightarrow> y_cell \<Rightarrow> y_val" where "newest s l = msg_val (last (writes (y_mem s) l))"

definition refines :: "y_config \<Rightarrow> y_state \<Rightarrow> scatter_state \<Rightarrow> bool" where
  "refines C s \<sigma> \<longleftrightarrow> (\<forall>c. phase \<sigma> c = cta_view C (fst c) (y_phase s c)) \<and>
     (\<forall>t. newest s (Stripes t) = Count (int (stripes_done \<sigma> t))) \<and>
     (\<forall>r. newest s (Remaining r) = Count (remaining \<sigma> r)) \<and> (\<forall>r. newest s (Done r) = Count (y_done \<sigma> r))"

lemma scatter_all_rows:
  assumes "finite P" "scatter_reach Ln \<sigma>" "t < sc_tiles Ln" "j < sc_ctas Ln" "phase \<sigma> (t, j) = Scattering P"
  shows "\<exists>\<sigma>'. scatter_reach Ln \<sigma>' \<and> phase \<sigma>' = (phase \<sigma>)((t, j) := Scattering {}) \<and> stripes_done \<sigma>' = stripes_done \<sigma>
    \<and> remaining \<sigma>' = remaining \<sigma> \<and> y_done \<sigma>' = y_done \<sigma> \<and> counted \<sigma>' = counted \<sigma>"
  using assms
proof (induction P arbitrary: \<sigma> rule: finite_psubset_induct)
  case (psubset P)
  show ?case
  proof (cases "P = {}")
    case True
    then show ?thesis using psubset.prems by (intro exI [of _ \<sigma>]) (auto simp: fun_upd_idem)
  next
    case False
    then obtain m where m: "m \<in> P" by blast
    let ?s = "scatter_row Ln (t, j) m P \<sigma>"
    have reach: "scatter_reach Ln ?s" 
      by (rule scatter_reach.step [OF psubset.prems(1) scatter_step.scatter [OF psubset.prems(2-4) m]])
    have "P - {m} \<subset> P" using m by blast
    moreover have "phase ?s (t, j) = Scattering (P - {m})" by (simp add: scatter_row_def)
    ultimately obtain \<sigma>' where "scatter_reach Ln \<sigma>'" "phase \<sigma>' = (phase ?s)((t, j) := Scattering {})" "stripes_done \<sigma>' = stripes_done ?s"
        "remaining \<sigma>' = remaining ?s" "y_done \<sigma>' = y_done ?s" "counted \<sigma>' = counted ?s"
      using psubset.IH [OF _ reach psubset.prems(2,3)] by blast
    then show ?thesis by (intro exI [of _ \<sigma>']) (simp add: scatter_row_def)
  qed
qed

section \<open>Invariants\<close>

definition adds_ok :: "y_config \<Rightarrow> y_state \<Rightarrow> bool" where
  "adds_ok C s \<longleftrightarrow> out_ok C (y_mem s) (y_order s) \<and> (\<forall>c X. y_phase s c = Adding X \<longrightarrow> X \<subseteq> y_jobs C) \<and>
     (\<forall>r n. distinct (y_order s (r, n))) \<and>
     (\<forall>r n. \<forall>slot \<in> set (y_order s (r, n)). \<exists>c. y_cta C c \<and> (\<exists>x \<in> y_jobs C. (slot, r, n) \<in> set (job_cells C c x) \<and>
        (\<forall>X. y_phase s c = Adding X \<longrightarrow> x \<notin> X)))"

definition knows :: "y_config \<Rightarrow> (nat \<times> nat \<Rightarrow> nat list) \<Rightarrow> y_cell view \<Rightarrow> cta \<Rightarrow> bool" where
  \<comment> \<open>the view has everything a CTA adds\<close>
  "knows C ord w c \<longleftrightarrow> (\<forall>x \<in> y_jobs C. \<forall>p \<in> set (job_cells C c x). seen ord w p)"

definition knows_tile :: "y_config \<Rightarrow> (nat \<times> nat \<Rightarrow> nat list) \<Rightarrow> y_cell view \<Rightarrow> nat \<Rightarrow> bool" where
  "knows_tile C ord w t \<longleftrightarrow> (\<forall>j < sc_ctas (yc_launch C). knows C ord w (t, j))"

definition knows_token :: "y_config \<Rightarrow> (nat \<times> nat \<Rightarrow> nat list) \<Rightarrow> y_cell view \<Rightarrow> nat \<Rightarrow> bool" where
  "knows_token C ord w r \<longleftrightarrow> (\<forall>t < sc_tiles (yc_launch C). \<forall>m \<in> rows_of (yc_launch C) t.
     token (yc_launch C) (slot_of (yc_launch C) t m) = r \<longrightarrow> knows_tile C ord w t)"

lemma knows_mono:
  assumes "\<forall>q. prefix (ord q) (ord' q)" "w \<le> w'"
  shows "knows C ord w c \<Longrightarrow> knows C ord' w' c" "knows_tile C ord w t \<Longrightarrow> knows_tile C ord' w' t"
    "knows_token C ord w r \<Longrightarrow> knows_token C ord' w' r"
proof -
  show k: "knows C ord' w' c" if "knows C ord w c" for c
    using that seen_mono [OF _ assms] unfolding knows_def by blast
  show "knows_tile C ord w t \<Longrightarrow> knows_tile C ord' w' t" for t using k unfolding knows_tile_def by blast
  then show "knows_token C ord w r \<Longrightarrow> knows_token C ord' w' r" unfolding knows_token_def by blast
qed

fun past_gate :: "y_phase \<Rightarrow> bool" where
  "past_gate (Flagged b) = True" | "past_gate (Finishing b A B) = True" | "past_gate _ = False"

text \<open>Who knows what: lanes their own additions, threads past the scatter those of their CTA, the gate's counter
  those of the CTAs past it, the last CTA those of its tile, the countdowns those of the tiles counted, a thread about
  to stamp and the stamps those of all tiles of the token.\<close>

definition lanes_know :: "y_config \<Rightarrow> y_state \<Rightarrow> bool" where
  "lanes_know C s \<longleftrightarrow> (\<forall>c X x. y_cta C c \<longrightarrow> y_phase s c = Adding X \<longrightarrow> x \<in> y_jobs C \<longrightarrow> x \<notin> X \<longrightarrow>
     (\<forall>p \<in> set (job_cells C c x). seen (y_order s) (known (y_mem s) (job_thread c x)) p))"

definition threads_know :: "y_config \<Rightarrow> y_state \<Rightarrow> bool" where
  "threads_know C s \<longleftrightarrow> (\<forall>c i. y_cta C c \<longrightarrow> (\<nexists>X. y_phase s c = Adding X) \<longrightarrow> i < yc_warps C * 32 \<longrightarrow>
     knows C (y_order s) (known (y_mem s) (Epi c i)) c)"

definition stripes_know :: "y_config \<Rightarrow> y_state \<Rightarrow> bool" where
  "stripes_know C s \<longleftrightarrow> (\<forall>c. y_cta C c \<longrightarrow> past_gate (y_phase s c) \<longrightarrow>
     knows C (y_order s) (msg_view (last (writes (y_mem s) (Stripes (fst c))))) c)"

definition last_knows :: "y_config \<Rightarrow> y_state \<Rightarrow> bool" where
  "last_knows C s \<longleftrightarrow> (\<forall>c. y_cta C c \<longrightarrow> y_phase s c = Flagged True \<longrightarrow>
       knows_tile C (y_order s) (known (y_mem s) (Epi c 0)) (fst c)) \<and>
     (\<forall>c i A B. y_cta C c \<longrightarrow> y_phase s c = Finishing True A B \<longrightarrow> i < yc_warps C * 32 \<longrightarrow>
       knows_tile C (y_order s) (known (y_mem s) (Epi c i)) (fst c))"

definition countdowns_know :: "y_config \<Rightarrow> y_state \<Rightarrow> nat set \<Rightarrow> bool" where
  "countdowns_know C s done \<longleftrightarrow> (\<forall>t < sc_tiles (yc_launch C). \<forall>m \<in> rows_of (yc_launch C) t. slot_of (yc_launch C) t m \<in> done \<longrightarrow>
     knows_tile C (y_order s) (msg_view (last (writes (y_mem s) (Remaining (token (yc_launch C) (slot_of (yc_launch C) t m)))))) t)"

definition stampers_know :: "y_config \<Rightarrow> y_state \<Rightarrow> bool" where
  "stampers_know C s \<longleftrightarrow> (\<forall>c b A B m. y_cta C c \<longrightarrow> y_phase s c = Finishing b A B \<longrightarrow> m \<in> B \<longrightarrow>
     knows_token C (y_order s) (known (y_mem s) (Epi c m)) (token (yc_launch C) (slot_of (yc_launch C) (fst c) m)))"

definition stamps_know :: "y_config \<Rightarrow> y_state \<Rightarrow> bool" where
  "stamps_know C s \<longleftrightarrow> (\<forall>r k. 0 < k \<longrightarrow> k < length (writes (y_mem s) (Done r)) \<longrightarrow>
     knows_token C (y_order s) (msg_view (writes (y_mem s) (Done r) ! k)) r)"

definition extends :: "y_state \<Rightarrow> y_state \<Rightarrow> bool" where
  "extends s s' \<longleftrightarrow> mem_grows (y_mem s) (y_mem s') \<and> (\<forall>q. prefix (y_order s q) (y_order s' q)) \<and>
     (\<forall>t. msg_view (last (writes (y_mem s) (Stripes t))) \<le> msg_view (last (writes (y_mem s') (Stripes t)))) \<and>
     (\<forall>r. msg_view (last (writes (y_mem s) (Remaining r))) \<le> msg_view (last (writes (y_mem s') (Remaining r))))"

lemma extendsD:
  assumes "extends s s'"
  shows "\<forall>q. prefix (y_order s q) (y_order s' q)" "known (y_mem s) t \<le> known (y_mem s') t"
    "msg_view (last (writes (y_mem s) (Stripes tile))) \<le> msg_view (last (writes (y_mem s') (Stripes tile)))"
    "msg_view (last (writes (y_mem s) (Remaining r))) \<le> msg_view (last (writes (y_mem s') (Remaining r)))"
    "k < length (writes (y_mem s) l) \<Longrightarrow> writes (y_mem s') l ! k = writes (y_mem s) l ! k"
proof -
  have "prefix (writes (y_mem s) l) (writes (y_mem s') l)" using assms by (simp add: extends_def mem_grows_def)
  then show "k < length (writes (y_mem s) l) \<Longrightarrow> writes (y_mem s') l ! k = writes (y_mem s) l ! k"
    by (auto simp: prefix_def nth_append)
qed (use assms in \<open>simp_all add: extends_def mem_grows_def\<close>)

text \<open>What is known stays known; only new facts are to be shown after a step.\<close>

lemma lanes_know_extends:
  assumes "lanes_know C s" "extends s s'"
    and "\<And>c X x p. y_cta C c \<Longrightarrow> y_phase s' c = Adding X \<Longrightarrow> x \<in> y_jobs C \<Longrightarrow> x \<notin> X \<Longrightarrow> p \<in> set (job_cells C c x) \<Longrightarrow>
       (\<exists>X'. y_phase s c = Adding X' \<and> x \<notin> X') \<or> seen (y_order s') (known (y_mem s') (job_thread c x)) p"
  shows "lanes_know C s'"
  unfolding lanes_know_def
proof (intro allI impI ballI)
  fix c X x p assume a: "y_cta C c" "y_phase s' c = Adding X" "x \<in> y_jobs C" "x \<notin> X" "p \<in> set (job_cells C c x)"
  from assms(3) [OF this] show "seen (y_order s') (known (y_mem s') (job_thread c x)) p"
  proof
    assume "\<exists>X'. y_phase s c = Adding X' \<and> x \<notin> X'"
    then have "seen (y_order s) (known (y_mem s) (job_thread c x)) p" using assms(1) a unfolding lanes_know_def by blast
    then show ?thesis by (rule seen_mono [OF _ extendsD(1,2) [OF assms(2)]])
  qed
qed

lemma threads_know_extends:
  assumes "threads_know C s" "extends s s'"
    and "\<And>c i. y_cta C c \<Longrightarrow> \<nexists>X. y_phase s' c = Adding X \<Longrightarrow> i < yc_warps C * 32 \<Longrightarrow>
       (\<nexists>X. y_phase s c = Adding X) \<or> knows C (y_order s') (known (y_mem s') (Epi c i)) c"
  shows "threads_know C s'"
  unfolding threads_know_def
proof (intro allI impI ballI)
  fix c i assume a: "y_cta C c" "\<nexists>X. y_phase s' c = Adding X" "i < yc_warps C * 32"
  from assms(3) [OF a] show "knows C (y_order s') (known (y_mem s') (Epi c i)) c"
    using assms(1) a knows_mono(1) [OF extendsD(1,2) [OF assms(2)]] unfolding threads_know_def by blast
qed

lemma stripes_know_extends:
  assumes "stripes_know C s" "extends s s'"
    and "\<And>c. y_cta C c \<Longrightarrow> past_gate (y_phase s' c) \<Longrightarrow>
       past_gate (y_phase s c) \<or> knows C (y_order s') (msg_view (last (writes (y_mem s') (Stripes (fst c))))) c"
  shows "stripes_know C s'"
  unfolding stripes_know_def
proof (intro allI impI ballI)
  fix c assume a: "y_cta C c" "past_gate (y_phase s' c)"
  from assms(3) [OF a] show "knows C (y_order s') (msg_view (last (writes (y_mem s') (Stripes (fst c))))) c"
    using assms(1) a knows_mono(1) [OF extendsD(1,3) [OF assms(2)]] unfolding stripes_know_def by blast
qed

lemma last_knows_extends:
  assumes "last_knows C s" "extends s s'"
    and "\<And>c. y_cta C c \<Longrightarrow> y_phase s' c = Flagged True \<Longrightarrow>
       y_phase s c = Flagged True \<or> knows_tile C (y_order s') (known (y_mem s') (Epi c 0)) (fst c)"
    and "\<And>c i A B. y_cta C c \<Longrightarrow> y_phase s' c = Finishing True A B \<Longrightarrow> i < yc_warps C * 32 \<Longrightarrow>
       (\<exists>A B. y_phase s c = Finishing True A B) \<or> knows_tile C (y_order s') (known (y_mem s') (Epi c i)) (fst c)"
  shows "last_knows C s'"
  unfolding last_knows_def
proof (intro conjI allI impI)
  fix c assume a: "y_cta C c" "y_phase s' c = Flagged True"
  from assms(3) [OF a] show "knows_tile C (y_order s') (known (y_mem s') (Epi c 0)) (fst c)"
    using assms(1) a knows_mono(2) [OF extendsD(1,2) [OF assms(2)]] unfolding last_knows_def by blast
next
  fix c i A B assume a: "y_cta C c" "y_phase s' c = Finishing True A B" "i < yc_warps C * 32"
  from assms(4) [OF a] show "knows_tile C (y_order s') (known (y_mem s') (Epi c i)) (fst c)"
    using assms(1) a knows_mono(2) [OF extendsD(1,2) [OF assms(2)]] unfolding last_knows_def by blast
qed

lemma countdowns_know_extends:
  assumes "countdowns_know C s done" "extends s s'"
    and "\<And>t m. t < sc_tiles (yc_launch C) \<Longrightarrow> m \<in> rows_of (yc_launch C) t \<Longrightarrow> slot_of (yc_launch C) t m \<in> done' \<Longrightarrow>
       slot_of (yc_launch C) t m \<in> done \<or> knows_tile C (y_order s') (msg_view (last (writes (y_mem s') (Remaining (token (yc_launch C) (slot_of (yc_launch C) t m)))))) t"
  shows "countdowns_know C s' done'"
  unfolding countdowns_know_def
proof (intro allI impI ballI)
  fix t m assume a: "t < sc_tiles (yc_launch C)" "m \<in> rows_of (yc_launch C) t" "slot_of (yc_launch C) t m \<in> done'"
  from assms(3) [OF a] show "knows_tile C (y_order s') (msg_view (last (writes (y_mem s') (Remaining (token (yc_launch C) (slot_of (yc_launch C) t m)))))) t"
    using assms(1) a knows_mono(2) [OF extendsD(1,4) [OF assms(2)]] unfolding countdowns_know_def by blast
qed

lemma stampers_know_extends:
  assumes "stampers_know C s" "extends s s'"
    and "\<And>c b A B m. y_cta C c \<Longrightarrow> y_phase s' c = Finishing b A B \<Longrightarrow> m \<in> B \<Longrightarrow>
       (\<exists>b A B. y_phase s c = Finishing b A B \<and> m \<in> B) \<or>
       knows_token C (y_order s') (known (y_mem s') (Epi c m)) (token (yc_launch C) (slot_of (yc_launch C) (fst c) m))"
  shows "stampers_know C s'"
  unfolding stampers_know_def
proof (intro allI impI ballI)
  fix c b A B m assume a: "y_cta C c" "y_phase s' c = Finishing b A B" "m \<in> B"
  from assms(3) [OF a] show "knows_token C (y_order s') (known (y_mem s') (Epi c m)) (token (yc_launch C) (slot_of (yc_launch C) (fst c) m))"
    using assms(1) a knows_mono(3) [OF extendsD(1,2) [OF assms(2)]] unfolding stampers_know_def by blast
qed

lemma stamps_know_extends:
  assumes "stamps_know C s" "extends s s'"
    and "\<And>r k. k < length (writes (y_mem s') (Done r)) \<Longrightarrow> k < length (writes (y_mem s) (Done r)) \<or>
       knows_token C (y_order s') (msg_view (writes (y_mem s') (Done r) ! k)) r"
  shows "stamps_know C s'"
  unfolding stamps_know_def
proof (intro allI impI)
  fix r k assume "0 < k" "k < length (writes (y_mem s') (Done r))"
  with assms(3) [of k r] show "knows_token C (y_order s') (msg_view (writes (y_mem s') (Done r) ! k)) r"
    using assms(1) knows_mono(3) [OF extendsD(1) [OF assms(2)] order_refl] extendsD(5) [OF assms(2), of k "Done r"]
    unfolding stamps_know_def by auto
qed

definition y_inv :: "y_config \<Rightarrow> y_state \<Rightarrow> scatter_state \<Rightarrow> bool" where
  "y_inv C s \<sigma> \<longleftrightarrow> scatter_reach (yc_launch C) \<sigma> \<and> refines C s \<sigma> \<and> adds_ok C s \<and> lanes_know C s \<and> threads_know C s \<and>
     stripes_know C s \<and> last_knows C s \<and> countdowns_know C s (counted \<sigma>) \<and> stampers_know C s \<and> stamps_know C s"

lemma y_invD:
  assumes "y_inv C s \<sigma>"
  shows "scatter_reach (yc_launch C) \<sigma>" "refines C s \<sigma>" "adds_ok C s" "lanes_know C s" "threads_know C s" "stripes_know C s"
    "last_knows C s" "countdowns_know C s (counted \<sigma>)" "stampers_know C s" "stamps_know C s"
  using assms by (simp_all add: y_inv_def)

lemma adds_okD:
  assumes "adds_ok C s"
  shows "out_ok C (y_mem s) (y_order s)" "y_phase s c = Adding X \<Longrightarrow> X \<subseteq> y_jobs C" "distinct (y_order s (r, n))"
    "slot \<in> set (y_order s (r, n)) \<Longrightarrow> \<exists>c. y_cta C c \<and> (\<exists>x \<in> y_jobs C. (slot, r, n) \<in> set (job_cells C c x) \<and>
        (\<forall>X. y_phase s c = Adding X \<longrightarrow> x \<notin> X))"
  using assms unfolding adds_ok_def by blast+

lemma refinesD:
  assumes "refines C s \<sigma>"
  shows "phase \<sigma> c = cta_view C (fst c) (y_phase s c)" "newest s (Stripes t) = Count (int (stripes_done \<sigma> t))"
    "newest s (Remaining r) = Count (remaining \<sigma> r)" "newest s (Done r) = Count (y_done \<sigma> r)"
  using assms unfolding refines_def by blast+

lemma fold_order_set:
  "set (fold (\<lambda>(slot, r, n) ord. ord((r, n) := ord (r, n) @ [slot])) ps ord (r, n)) = set (ord (r, n)) \<union> {slot. (slot, r, n) \<in> set ps}"
  by (induction ps arbitrary: ord) (auto split: if_splits)

lemma fold_order_distinct:
  "distinct (map snd ps) \<Longrightarrow> distinct (ord (r, n)) \<Longrightarrow> \<forall>slot. (slot, r, n) \<in> set ps \<longrightarrow> slot \<notin> set (ord (r, n))
    \<Longrightarrow> distinct (fold (\<lambda>(slot, r, n) ord. ord((r, n) := ord (r, n) @ [slot])) ps ord (r, n))"
proof (induction ps arbitrary: ord)
  case (Cons p ps)
  obtain slot' r' n' where p: "p = (slot', r', n')" by (cases p) auto
  have no: "(slot, r', n') \<notin> set ps" for slot using Cons.prems(1) by (force simp: p)
  let ?ord = "ord((r', n') := ord (r', n') @ [slot'])"
  have "slot' \<notin> set (ord (r, n))" if "(r', n') = (r, n)" using Cons.prems(3) that by (simp add: p)
  then have "distinct (?ord (r, n))" using Cons.prems(2) by (cases "(r', n') = (r, n)") auto
  moreover have "\<forall>slot. (slot, r, n) \<in> set ps \<longrightarrow> slot \<notin> set (?ord (r, n))"
    using Cons.prems(3) no by (cases "(r', n') = (r, n)") auto
  ultimately show ?case using Cons.IH [of ?ord] Cons.prems(1) unfolding p by simp
qed simp

text \<open>The contract of the epilogue: with atomics that acquire and release, the stamps carry the additions.\<close>

locale scattering = scatter_grid +
  assumes acq_rel: "yc_atomics C = AcqRel"
begin

lemma inv_red:
  assumes inv: "y_inv C s \<sigma>" and c: "y_cta C c" "y_phase s c = Adding X" "x \<in> X"
  shows "y_inv C (y_red C c x X s) \<sigma>"
proof -
  let ?s = "y_red C c x X s"
  note I = y_invD [OF inv]
  have ok: "out_ok C (y_mem s) (y_order s)" and xj: "x \<in> y_jobs C" using adds_okD(1,2) [OF I(3)] c by blast+
  have eff: "out_ok C (y_mem ?s) (y_order ?s)" "mem_grows (y_mem s) (y_mem ?s)" "\<forall>q. prefix (y_order s q) (y_order ?s q)"
      "\<And>p. p \<in> set (job_cells C c x) \<Longrightarrow> seen (y_order ?s) (known (y_mem ?s) (job_thread c x)) p"
      "\<And>l. \<forall>r n. l \<noteq> Out r n \<Longrightarrow> writes (y_mem ?s) l = writes (y_mem s) l"
    using fold_reds [OF ok, where ps = "job_cells C c x" and t = "job_thread c x", OF refl refl]
    by (simp_all add: y_red_def lane_red_cells)
  have ph: "y_phase ?s = (y_phase s)(c := Adding (X - {x}))" by (simp add: y_red_def)
  have ext: "extends s ?s" using eff by (simp add: extends_def)
  have cell: "slot \<notin> set (y_order s (r, n))" if "(slot, r, n) \<in> set (job_cells C c x)" for slot r n
  proof
    assume "slot \<in> set (y_order s (r, n))"
    then obtain c' x' where c': "y_cta C c'" "x' \<in> y_jobs C" "(slot, r, n) \<in> set (job_cells C c' x')"
        "\<forall>X. y_phase s c' = Adding X \<longrightarrow> x' \<notin> X" using adds_okD(4) [OF I(3)] by blast
    obtain t j t' j' where "c = (t, j)" "c' = (t', j')" by (cases c, cases c')
    then have "c' = c" "x' = x" using job_unique [of t' j' t j x' x] c' c(1) xj that by auto
    then show False using c'(4) c(2,3) by simp
  qed
  have "adds_ok C ?s" unfolding adds_ok_def
  proof (intro conjI allI impI ballI)
    show "out_ok C (y_mem ?s) (y_order ?s)" by (rule eff(1))
    fix c' X' assume "y_phase ?s c' = Adding X'"
    then show "X' \<subseteq> y_jobs C" 
      using adds_okD(2) [OF I(3), of c X] adds_okD(2) [OF I(3), of c' X'] c unfolding ph by (auto simp del: split_paired_All split: if_splits)
  next
    fix r n
    show "distinct (y_order ?s (r, n))"
      using adds_okD(3) [OF I(3)] cell job_cells_distinct by (simp add: y_red_def fold_order_distinct)
    fix slot assume "slot \<in> set (y_order ?s (r, n))"
    then consider "slot \<in> set (y_order s (r, n))" | "(slot, r, n) \<in> set (job_cells C c x)"
      by (auto simp: y_red_def fold_order_set)
    then show "\<exists>c. y_cta C c \<and> (\<exists>x \<in> y_jobs C. (slot, r, n) \<in> set (job_cells C c x) \<and> (\<forall>X. y_phase ?s c = Adding X \<longrightarrow> x \<notin> X))"
    proof cases
      case 1
      then obtain c' x' where c': "y_cta C c'" "x' \<in> y_jobs C" "(slot, r, n) \<in> set (job_cells C c' x')"
        "\<forall>X. y_phase s c' = Adding X \<longrightarrow> x' \<notin> X" using adds_okD(4) [OF I(3)] by blast
      then have "\<forall>X. y_phase ?s c' = Adding X \<longrightarrow> x' \<notin> X" using c(2) unfolding ph by auto
      then show ?thesis using c' by blast
    next
      case 2
      moreover have "\<forall>X. y_phase ?s c = Adding X \<longrightarrow> x \<notin> X" unfolding ph by simp
      ultimately show ?thesis using c(1) xj by blast
    qed
  qed
  moreover have "refines C ?s \<sigma>" using I(2) c(2) eff(5) by (auto simp: refines_def newest_def ph)
  moreover have "lanes_know C ?s"
  proof (rule lanes_know_extends [OF I(4) ext])
    fix c' X' x' p assume a: "y_phase ?s c' = Adding X'" "x' \<notin> X'" "p \<in> set (job_cells C c' x')"
    show "(\<exists>X'. y_phase s c' = Adding X' \<and> x' \<notin> X') \<or> seen (y_order ?s) (known (y_mem ?s) (job_thread c' x')) p"
      using a c(2) eff(4) unfolding ph by (cases "c' = c"; cases "x' = x") auto
  qed
  moreover have "threads_know C ?s" by (rule threads_know_extends [OF I(5) ext]) (auto simp: ph split: if_splits)
  moreover have "stripes_know C ?s" by (rule stripes_know_extends [OF I(6) ext]) (auto simp: ph split: if_splits)
  moreover have "last_knows C ?s" by (rule last_knows_extends [OF I(7) ext]) (auto simp: ph split: if_splits)
  moreover have "countdowns_know C ?s (counted \<sigma>)" by (rule countdowns_know_extends [OF I(8) ext]) simp
  moreover have "stampers_know C ?s" by (rule stampers_know_extends [OF I(9) ext]) (auto simp: ph split: if_splits)
  moreover have "stamps_know C ?s" by (rule stamps_know_extends [OF I(10) ext]) (simp add: eff(5))
  ultimately show ?thesis using I(1) by (simp add: y_inv_def)
qed

lemma inv_sync:
  assumes inv: "y_inv C s \<sigma>" and c: "y_cta C c" "y_phase s c = Adding {}"
  shows "\<exists>\<sigma>'. y_inv C (s\<lparr>y_phase := (y_phase s)(c := Added), y_mem := barrier (y_threads C c) (y_mem s)\<rparr>) \<sigma>'"
proof -
  let ?s = "s\<lparr>y_phase := (y_phase s)(c := Added), y_mem := barrier (y_threads C c) (y_mem s)\<rparr>"
  note I = y_invD [OF inv]
  have ext: "extends s ?s" by (simp add: extends_def)
  have tj: "fst c < sc_tiles L" "snd c < sc_ctas L" using c(1) by (simp_all add: y_cta_def)
  have "phase \<sigma> (fst c, snd c) = Scattering {..<sc_tile_m L}" using refinesD(1) [OF I(2), of c] c(2) by simp
  from scatter_all_rows [OF _ I(1) tj this] obtain \<sigma>' where \<sigma>': "scatter_reach L \<sigma>'" "phase \<sigma>' = (phase \<sigma>)(c := Scattering {})"
      "stripes_done \<sigma>' = stripes_done \<sigma>" "remaining \<sigma>' = remaining \<sigma>" "y_done \<sigma>' = y_done \<sigma>" "counted \<sigma>' = counted \<sigma>"
    by auto
  have "adds_ok C ?s" using I(3) c(2) unfolding adds_ok_def by (auto simp: out_ok_def) (metis empty_iff)
  moreover have "refines C ?s \<sigma>'" using I(2) by (auto simp: refines_def \<sigma>' newest_def)
  moreover have "lanes_know C ?s" by (rule lanes_know_extends [OF I(4) ext]) (auto split: if_splits)
  moreover have "threads_know C ?s"
  proof (rule threads_know_extends [OF I(5) ext])
    fix c' i assume a: "\<nexists>X. y_phase ?s c' = Adding X" "i < yc_warps C * 32"
    have "knows C (y_order s) (known (barrier (y_threads C c) (y_mem s)) (Epi c i)) c"
      unfolding knows_def
    proof (intro ballI)
      fix x p assume x: "x \<in> y_jobs C" "p \<in> set (job_cells C c x)"
      have "seen (y_order s) (known (y_mem s) (job_thread c x)) p" using I(4) c x unfolding lanes_know_def by blast
      moreover have "known (y_mem s) (job_thread c x) \<le> known (barrier (y_threads C c) (y_mem s)) (Epi c i)"
      proof (rule barrier_passes)
        show "Epi c i \<in> set (y_threads C c)" using a(2) by (simp add: y_threads_def)
        show "job_thread c x \<in> set (y_threads C c)" using x(1)
          by (auto simp: y_jobs_def job_thread_def y_threads_def intro!: image_eqI)
      qed
      ultimately show "seen (y_order s) (known (barrier (y_threads C c) (y_mem s)) (Epi c i)) p"
        using seen_mono [of "y_order s" _ p "y_order s"] by simp
    qed
    then show "(\<nexists>X. y_phase s c' = Adding X) \<or> knows C (y_order ?s) (known (y_mem ?s) (Epi c' i)) c'"
      using a(1) by (cases "c' = c") auto
  qed
  moreover have "stripes_know C ?s" by (rule stripes_know_extends [OF I(6) ext]) (auto split: if_splits)
  moreover have "last_knows C ?s" by (rule last_knows_extends [OF I(7) ext]) (auto split: if_splits)
  moreover have "countdowns_know C ?s (counted \<sigma>')" by (rule countdowns_know_extends [OF I(8) ext]) (simp add: \<sigma>')
  moreover have "stampers_know C ?s" by (rule stampers_know_extends [OF I(9) ext]) (auto split: if_splits)
  moreover have "stamps_know C ?s" by (rule stamps_know_extends [OF I(10) ext]) simp
  ultimately show ?thesis using \<sigma>'(1) unfolding y_inv_def by blast
qed

lemma atomic_y_act:
  assumes "atomic_add (yc_atomics C) t l v (y_mem s) = (prev, m)" "\<And>r n. l \<noteq> Out r n" "\<And>r. l \<noteq> Done r"
    and "m' = m \<or> (\<exists>t. m' = threadfence_gpu t m)" "y_order s' = y_order s" "y_mem s' = m'"
  shows "extends s s'" "prev = newest s l" "newest s' l' = (if l' = l then prev + v else newest s l')"
    and "known (y_mem s) t \<le> msg_view (last (writes m' l))" "msg_view (last (writes (y_mem s) l)) \<le> known m' t"
    and "known (y_mem s) t \<le> known m' t" "out_ok C (y_mem s) ord \<Longrightarrow> out_ok C m' ord" "writes m' (Done r) = writes (y_mem s) (Done r)"
proof -
  note A = acq_rel_add [OF assms(1) [unfolded acq_rel]]
  have w: "writes m' = writes m" and k: "known m t \<le> known m' t" for t
    using assms(4) fence_known by auto
  obtain msg where msg: "writes m l = writes (y_mem s) l @ [msg]" "msg_val msg = prev + v" "known (y_mem s) t \<le> msg_view msg"
      "msg_view (last (writes (y_mem s) l)) \<le> msg_view msg" using A(3) by blast
  have g: "mem_grows (y_mem s) m" using mem_grows_ops(7) [of "y_mem s" "yc_atomics C" t l v] assms(1) by simp
  then have "mem_grows (y_mem s) m'" using assms(4) mem_grows_trans by (metis mem_grows_ops(6))
  moreover have "msg_view (last (writes (y_mem s) l')) \<le> msg_view (last (writes m' l'))" for l'
    using msg(1,4) A(2) [of l'] by (cases "l' = l") (simp_all add: w)
  ultimately show "extends s s'" using assms(5,6) by (simp add: extends_def)
  show "prev = newest s l" using A(1) by (simp add: newest_def)
  show "newest s' l' = (if l' = l then prev + v else newest s l')"
    using msg(1,2) A(2) [of l'] by (simp add: newest_def assms(6) w)
  show "known (y_mem s) t \<le> msg_view (last (writes m' l))" using msg by (simp add: w)
  show "msg_view (last (writes (y_mem s) l)) \<le> known m' t" "known (y_mem s) t \<le> known m' t"
    using A(4,5) k [of t] order_trans by blast+
  have "writes m' (Out r n) = writes (y_mem s) (Out r n)" for r n using A(2) [of "Out r n"] assms(2) [of r n] by (simp add: w)
  then show "out_ok C (y_mem s) ord \<Longrightarrow> out_ok C m' ord" by (simp add: out_ok_def)
  show "writes m' (Done r) = writes (y_mem s) (Done r)" using A(2) [of "Done r"] assms(3) [of r] by (simp add: w)
qed

lemma adds_ok_phase:
  assumes "adds_ok C s" "out_ok C (y_mem s') (y_order s')" "y_order s' = y_order s" "y_phase s' = (y_phase s)(c := ph)" "\<nexists>X. ph = Adding X"
  shows "adds_ok C s'"
  unfolding adds_ok_def
proof (intro conjI allI impI ballI)
  fix c' X assume "y_phase s' c' = Adding X"
  then show "X \<subseteq> y_jobs C" using adds_okD(2) [OF assms(1), of c' X] assms(4,5) by (auto simp del: split_paired_Ex split: if_splits)
next
  fix r n slot assume "slot \<in> set (y_order s' (r, n))"
  then obtain c' x where "y_cta C c'" "x \<in> y_jobs C" "(slot, r, n) \<in> set (job_cells C c' x)" "\<forall>X. y_phase s c' = Adding X \<longrightarrow> x \<notin> X"
    using adds_okD(4) [OF assms(1)] assms(3) by metis
  moreover have "y_phase s' c' = Adding X \<Longrightarrow> y_phase s c' = Adding X" for X using assms(4,5) by (cases "c' = c") auto
  ultimately show "\<exists>c. y_cta C c \<and> (\<exists>x \<in> y_jobs C. (slot, r, n) \<in> set (job_cells C c x) \<and> (\<forall>X. y_phase s' c = Adding X \<longrightarrow> x \<notin> X))"
    by blast
qed (use assms(2,3) adds_okD(3) [OF assms(1)] in auto)

lemma inv_gate:
  assumes inv: "y_inv C s \<sigma>" and c: "y_cta C c" "y_phase s c = Added"
  shows "y_inv C (y_gate C c s) (pass_gate L c \<sigma>)"
proof -
  let ?s = "y_gate C c s" and ?\<sigma> = "pass_gate L c \<sigma>" and ?l = "Stripes (fst c)"
  note I = y_invD [OF inv]
  obtain prev m where at: "atomic_add (yc_atomics C) (Epi c 0) ?l (Count 1) (y_mem s) = (prev, m)" by fastforce
  define b where "b \<longleftrightarrow> prev = Count (int (sc_gate L) - 1)"
  have s: "y_phase ?s = (y_phase s)(c := Flagged b)" "y_mem ?s = (if b then threadfence_gpu (Epi c 0) m else m)" "y_order ?s = y_order s"
    by (simp_all add: y_gate_def at b_def Let_def)
  have mem: "y_mem ?s = m \<or> (\<exists>t. y_mem ?s = threadfence_gpu t m)" using s(2) by auto
  note A = atomic_y_act [OF at _ _ mem s(3) refl, simplified]
  have tj: "fst c < sc_tiles L" "snd c < sc_ctas L" using c(1) by (simp_all add: y_cta_def)
  have \<sigma>c: "phase \<sigma> (fst c, snd c) = Scattering {}" using refinesD(1) [OF I(2), of c] c(2) by simp
  have reach: "scatter_reach L ?\<sigma>" using scatter_reach.step [OF I(1) scatter_step.gate [OF tj \<sigma>c]] by simp
  have prev: "prev = Count (int (stripes_done \<sigma> (fst c)))" using A(2) refinesD(2) [OF I(2), of "fst c"] by simp
  then have last: "b \<longleftrightarrow> int (stripes_done \<sigma> (fst c)) = int (sc_gate L) - 1" by (simp add: b_def)
  have "refines C ?s ?\<sigma>"
    using I(2) prev last A(3) unfolding refines_def s(1)
    by (auto simp: pass_gate_def Let_def rows_of_def)
  moreover have "adds_ok C ?s"
    by (rule adds_ok_phase [OF I(3) _ s(3,1)]) (use A(7) adds_okD(1) [OF I(3)] s(3) in simp_all)
  moreover have "lanes_know C ?s" by (rule lanes_know_extends [OF I(4) A(1)]) (auto simp: s(1) split: if_splits)
  moreover have "threads_know C ?s" using c(2) by (intro threads_know_extends [OF I(5) A(1)]) (auto simp: s(1) split: if_splits)
  moreover have own: "knows C (y_order s) (known (y_mem s) (Epi c 0)) c"
    using I(5) c warps unfolding threads_know_def by simp
  have "stripes_know C ?s"
  proof (rule stripes_know_extends [OF I(6) A(1)])
    fix c' assume "past_gate (y_phase ?s c')"
    then show "past_gate (y_phase s c') \<or> knows C (y_order ?s) (msg_view (last (writes (y_mem ?s) (Stripes (fst c'))))) c'"
      using knows_mono(1) [OF _ A(4) own, of "y_order s"] by (cases "c' = c") (auto simp: s(1,3))
  qed
  moreover have "last_knows C ?s"
  proof (rule last_knows_extends [OF I(7) A(1)])
    fix c' assume a: "y_phase ?s c' = Flagged True"
    show "y_phase s c' = Flagged True \<or> knows_tile C (y_order ?s) (known (y_mem ?s) (Epi c' 0)) (fst c')"
    proof (cases "c' = c")
      case True
      then have b: "b" using a by (simp add: s(1))
      have "is_last ?\<sigma> (fst c, snd c)" using last b by (simp add: is_last_def pass_gate_def Let_def)
      then have "sc_gate L \<le> card (passed L ?\<sigma> (fst c))" using gate_inv_reach [OF reach] unfolding gate_inv_def by metis
      moreover have "passed L ?\<sigma> (fst c) \<subseteq> {..<sc_ctas L}" by (auto simp: passed_def)
      ultimately have all: "passed L ?\<sigma> (fst c) = {..<sc_ctas L}" using gates by (intro card_seteq) auto
      have "knows C (y_order s) (known (y_mem ?s) (Epi c 0)) (fst c, j)" if j: "j < sc_ctas L" for j
      proof (cases "j = snd c")
        case True
        then show ?thesis using knows_mono(1) [OF _ A(6) own, of "y_order s"] by simp
      next
        case False
        then have "(fst c, j) \<noteq> c" by (metis snd_conv)
        have "j \<in> passed L ?\<sigma> (fst c)" using all j by simp
        then obtain b' A' B' where "phase \<sigma> (fst c, j) = Counting b' A' B'"
          using \<open>(fst c, j) \<noteq> c\<close> by (auto simp: passed_def pass_gate_def Let_def)
        then have "past_gate (y_phase s (fst c, j))" using refinesD(1) [OF I(2), of "(fst c, j)"]
          by (cases "y_phase s (fst c, j)") auto
        moreover have "y_cta C (fst c, j)" using tj j by (simp add: y_cta_def)
        ultimately have "knows C (y_order s) (msg_view (last (writes (y_mem s) ?l))) (fst c, j)"
          using I(6) unfolding stripes_know_def by fastforce
        then show ?thesis using knows_mono(1) [OF _ A(5), of "y_order s" "y_order s"] by simp
      qed
      then show ?thesis using True by (simp add: knows_tile_def s(3))
    qed (use a in \<open>simp add: s(1)\<close>)
  qed (auto simp: s(1) split: if_splits)
  moreover have "countdowns_know C ?s (counted ?\<sigma>)"
    by (rule countdowns_know_extends [OF I(8) A(1)]) (simp add: pass_gate_def Let_def)
  moreover have "stampers_know C ?s" by (rule stampers_know_extends [OF I(9) A(1)]) (auto simp: s(1) split: if_splits)
  moreover have "stamps_know C ?s" by (rule stamps_know_extends [OF I(10) A(1)]) (simp add: A(8))
  ultimately show ?thesis using reach by (simp add: y_inv_def)
qed

lemma inv_barrier:
  assumes inv: "y_inv C s \<sigma>" and c: "y_cta C c" "y_phase s c = Flagged b"
  shows "y_inv C (s\<lparr>y_phase := (y_phase s)(c := Finishing b (if b then y_rows C (fst c) else {}) {}),
    y_mem := barrier (y_threads C c) (y_mem s)\<rparr>) \<sigma>" (is "y_inv C ?s \<sigma>")
proof -
  note I = y_invD [OF inv]
  have ext: "extends s ?s" by (simp add: extends_def)
  have "refines C ?s \<sigma>" using I(2) c(2) unfolding refines_def newest_def by (auto simp: y_rows)
  moreover have "adds_ok C ?s" by (rule adds_ok_phase [OF I(3)]) (use adds_okD(1) [OF I(3)] in \<open>auto simp: out_ok_def\<close>)
  moreover have "lanes_know C ?s" by (rule lanes_know_extends [OF I(4) ext]) (auto split: if_splits)
  moreover have "threads_know C ?s" using c(2) by (intro threads_know_extends [OF I(5) ext]) (auto split: if_splits)
  moreover have "stripes_know C ?s" using c(2) by (intro stripes_know_extends [OF I(6) ext]) (auto split: if_splits)
  moreover have "last_knows C ?s"
  proof (rule last_knows_extends [OF I(7) ext])
    fix c' i A B assume a: "y_phase ?s c' = Finishing True A B" "i < yc_warps C * 32"
    show "(\<exists>A B. y_phase s c' = Finishing True A B) \<or> knows_tile C (y_order ?s) (known (y_mem ?s) (Epi c' i)) (fst c')"
    proof (cases "c' = c")
      case True
      then have "knows_tile C (y_order s) (known (y_mem s) (Epi c 0)) (fst c)"
        using I(7) [unfolded last_knows_def, THEN conjunct1, rule_format, of c] a(1) c by simp
      moreover have "known (y_mem s) (Epi c 0) \<le> known (barrier (y_threads C c) (y_mem s)) (Epi c i)"
        by (rule barrier_passes) (use a(2) warps in \<open>simp_all add: y_threads_def\<close>)
      ultimately show ?thesis using True knows_mono(2) [of "y_order s" "y_order s"] by simp
    qed (use a in auto)
  qed (auto split: if_splits)
  moreover have "countdowns_know C ?s (counted \<sigma>)" by (rule countdowns_know_extends [OF I(8) ext]) simp
  moreover have "stampers_know C ?s" by (rule stampers_know_extends [OF I(9) ext]) (auto split: if_splits)
  moreover have "stamps_know C ?s" by (rule stamps_know_extends [OF I(10) ext]) simp
  ultimately show ?thesis using I(1) by (simp add: y_inv_def)
qed

lemma to_count:
  assumes "scatter_reach L \<sigma>" "y_cta C c" "phase \<sigma> c = Counting b A B" "m \<in> A"
  shows "b" "m \<in> rows_of L (fst c)" "slot_of L (fst c) m \<notin> counted \<sigma>"
proof -
  have c: "phase \<sigma> (fst c, snd c) = Counting b A B" "fst c < sc_tiles L" using assms(2,3) by (simp_all add: y_cta_def)
  note ci = count_inv_reach [OF assms(1), unfolded count_inv_def]
  show b: b and m: "m \<in> rows_of L (fst c)" using ci c(1) assms(4) by blast+
  have "\<not> decided L \<sigma> (fst c) m"
  proof
    assume "decided L \<sigma> (fst c) m"
    then obtain j A' B' where j: "phase \<sigma> (fst c, j) = Counting True A' B'" "m \<notin> A'" by (auto simp: decided_def)
    then have "is_last \<sigma> (fst c, j)" "is_last \<sigma> (fst c, snd c)" using c(1) b by (auto simp: is_last_def)
    then have "j = snd c" using gate_inv_reach [OF assms(1)] unfolding gate_inv_def by blast
    then show False using j c(1) assms(4) by simp
  qed
  then show "slot_of L (fst c) m \<notin> counted \<sigma>" using ci c(2) m by blast
qed

lemma inv_count:
  assumes inv: "y_inv C s \<sigma>" and c: "y_cta C c" "y_phase s c = Finishing b A B" "row \<in> A"
  shows "y_inv C (y_count C c row b A B s) (count_row L c row b A B \<sigma>)"
proof -
  let ?s = "y_count C c row b A B s" and ?\<sigma> = "count_row L c row b A B \<sigma>"
  define slot r where "slot = slot_of L (fst c) row" and "r = token L slot"
  note I = y_invD [OF inv]
  obtain prev m where at: "atomic_add (yc_atomics C) (Epi c row) (Remaining r) (Count (- 1)) (y_mem s) = (prev, m)" by fastforce
  define B' where "B' = (if prev = Count 1 then insert row B else B)"
  have s: "y_phase ?s = (y_phase s)(c := Finishing b (A - {row}) B')" "y_mem ?s = m" "y_order ?s = y_order s"
    by (simp_all add: y_count_def slot_def [symmetric] r_def [symmetric] at B'_def Let_def)
  note A = atomic_y_act [OF at _ _ disjI1 [OF refl] s(3,2), simplified]
  have tj: "fst c < sc_tiles L" "snd c < sc_ctas L" using c(1) by (simp_all add: y_cta_def)
  have \<sigma>c: "phase \<sigma> c = Counting b A B" using refinesD(1) [OF I(2), of c] c(2) by simp
  note tc = to_count [OF I(1) c(1) \<sigma>c c(3)]
  have reach: "scatter_reach L ?\<sigma>"
    using scatter_reach.step [OF I(1) scatter_step.count [OF tj _ c(3)]] \<sigma>c by simp
  have prev: "prev = Count (remaining \<sigma> r)" using A(2) refinesD(3) [OF I(2), of r] by simp
  have row: "row < yc_warps C * 32" using tc(2) row_threads by (auto simp: rows_of_def)
  have own: "knows_tile C (y_order s) (known (y_mem s) (Epi c row)) (fst c)"
    using I(7) [unfolded last_knows_def, THEN conjunct2, rule_format, of c A B row] c row tc(1) by simp
  have \<sigma>': "phase ?\<sigma> = (phase \<sigma>)(c := Counting b (A - {row}) B')" "remaining ?\<sigma> = (remaining \<sigma>)(r := remaining \<sigma> r - 1)"
      "stripes_done ?\<sigma> = stripes_done \<sigma>" "y_done ?\<sigma> = y_done \<sigma>" "counted ?\<sigma> = insert slot (counted \<sigma>)"
    using prev by (simp_all add: count_row_def Let_def slot_def r_def B'_def)
  have "refines C ?s ?\<sigma>" unfolding refines_def \<sigma>' s(1)
    using refinesD [OF I(2)] prev by (auto simp: A(3))
  moreover have "adds_ok C ?s"
    by (rule adds_ok_phase [OF I(3) _ s(3,1)]) (use A(7) adds_okD(1) [OF I(3)] s in simp_all)
  moreover have "lanes_know C ?s" by (rule lanes_know_extends [OF I(4) A(1)]) (auto simp: s(1) split: if_splits)
  moreover have "threads_know C ?s" using c(2) by (intro threads_know_extends [OF I(5) A(1)]) (auto simp: s(1) split: if_splits)
  moreover have "stripes_know C ?s" using c(2) by (intro stripes_know_extends [OF I(6) A(1)]) (auto simp: s(1) split: if_splits)
  moreover have "last_knows C ?s" using c(2) by (intro last_knows_extends [OF I(7) A(1)]) (auto simp: s(1) split: if_splits)
  moreover have "countdowns_know C ?s (counted ?\<sigma>)"
  proof (rule countdowns_know_extends [OF I(8) A(1)])
    fix t m' assume a: "t < sc_tiles L" "m' \<in> rows_of L t" "slot_of L t m' \<in> counted ?\<sigma>"
    show "slot_of L t m' \<in> counted \<sigma> \<or>
      knows_tile C (y_order ?s) (msg_view (last (writes (y_mem ?s) (Remaining (token L (slot_of L t m')))))) t"
    proof (cases "slot_of L t m' = slot")
      case True
      have "m' < sc_tile_m L" "row < sc_tile_m L" using a(2) tc(2) by (simp_all add: rows_of_def)
      then have "t = fst c" using slot_of_inject True unfolding slot_def by blast
      then show ?thesis using knows_mono(2) [OF _ A(4) own, of "y_order s"] True by (simp add: r_def s)
    qed (use a(3) \<sigma>'(5) in simp)
  qed
  moreover have "stampers_know C ?s"
  proof (rule stampers_know_extends [OF I(9) A(1)])
    fix c' b' A' B1 m' assume a: "y_phase ?s c' = Finishing b' A' B1" "m' \<in> B1"
    show "(\<exists>b A B. y_phase s c' = Finishing b A B \<and> m' \<in> B) \<or>
      knows_token C (y_order ?s) (known (y_mem ?s) (Epi c' m')) (token L (slot_of L (fst c') m'))"
    proof (cases "c' = c \<and> m' = row \<and> prev = Count 1")
      case True
      have "slot \<in> slots_of L r - counted \<sigma>"
        using tc(3) slots_of_slot [OF tj(1) tc(2)] by (simp add: slot_def r_def)
      moreover have "card (slots_of L r - counted \<sigma>) = 1"
        using True prev count_inv_reach [OF I(1)] by (simp add: count_inv_def)
      ultimately have only: "slots_of L r - counted \<sigma> = {slot}" by (metis card_1_singletonE singletonD)
      have "knows_tile C (y_order s) (known m (Epi c row)) t"
        if "t < sc_tiles L" "m1 \<in> rows_of L t" "token L (slot_of L t m1) = r" for t m1
      proof (cases "slot_of L t m1 \<in> counted \<sigma>")
        case True
        then have "knows_tile C (y_order s) (msg_view (last (writes (y_mem s) (Remaining r)))) t"
          using I(8) that unfolding countdowns_know_def by blast
        then show ?thesis using knows_mono(2) [OF _ A(5), of "y_order s" "y_order s"] by simp
      next
        case False
        then have "slot_of L t m1 = slot" using only slots_of_slot [OF that(1,2), of r] that(3) by blast
        moreover have "m1 < sc_tile_m L" "row < sc_tile_m L" using that(2) tc(2) by (simp_all add: rows_of_def)
        ultimately have "t = fst c" using slot_of_inject unfolding slot_def by blast
        then show ?thesis using knows_mono(2) [OF _ A(6) own, of "y_order s"] by simp
      qed
      then show ?thesis using True by (simp add: knows_token_def s slot_def [symmetric] r_def [symmetric])
    next
      case False
      then show ?thesis using a c(2) by (cases "c' = c") (auto simp: s(1) B'_def split: if_splits)
    qed
  qed
  moreover have "stamps_know C ?s" by (rule stamps_know_extends [OF I(10) A(1)]) (simp add: A(8) s(2))
  ultimately show ?thesis using reach by (simp add: y_inv_def)
qed

lemma inv_stamp:
  assumes inv: "y_inv C s \<sigma>" and c: "y_cta C c" "y_phase s c = Finishing b A B" "row \<in> B"
  shows "y_inv C (y_stamp C c row b A B s) (stamp_row L c row b A B \<sigma>)"
proof -
  let ?s = "y_stamp C c row b A B s" and ?\<sigma> = "stamp_row L c row b A B \<sigma>"
  define r where "r = token L (slot_of L (fst c) row)"
  note I = y_invD [OF inv]
  have s: "y_phase ?s = (y_phase s)(c := Finishing b A (B - {row}))" "y_order ?s = y_order s"
      "y_mem ?s = st_release_gpu_global (Epi c row) (Done r) (Count (sc_seq L)) (y_mem s)"
    by (simp_all add: y_stamp_def r_def [symmetric] Let_def)
  obtain msg where w: "\<And>l. writes (y_mem ?s) l = (if l = Done r then writes (y_mem s) l @ [msg] else writes (y_mem s) l)"
    and msg: "msg_val msg = Count (sc_seq L)" "known (y_mem s) (Epi c row) \<le> msg_view msg"
    unfolding s(3) by (force simp: st_release_gpu_global_def add_write_def Let_def le_supI1)
  have ext: "extends s ?s" using w by (simp add: extends_def s(2)) (simp add: s(3))
  have tj: "fst c < sc_tiles L" "snd c < sc_ctas L" using c(1) by (simp_all add: y_cta_def)
  have \<sigma>c: "phase \<sigma> c = Counting b A B" using refinesD(1) [OF I(2), of c] c(2) by simp
  have reach: "scatter_reach L ?\<sigma>"
    using scatter_reach.step [OF I(1) scatter_step.stamp [OF tj _ c(3)]] \<sigma>c by simp
  have "refines C ?s ?\<sigma>" unfolding refines_def s(1)
    using refinesD [OF I(2)] msg(1) by (auto simp: newest_def w stamp_row_def r_def)
  moreover have "adds_ok C ?s"
    by (rule adds_ok_phase [OF I(3) _ s(2,1)]) (use adds_okD(1) [OF I(3)] in \<open>simp_all add: s(2) out_ok_def w\<close>)
  moreover have "lanes_know C ?s" by (rule lanes_know_extends [OF I(4) ext]) (auto simp: s(1) split: if_splits)
  moreover have "threads_know C ?s" using c(2) by (intro threads_know_extends [OF I(5) ext]) (auto simp: s(1) split: if_splits)
  moreover have "stripes_know C ?s" using c(2) by (intro stripes_know_extends [OF I(6) ext]) (auto simp: s(1) split: if_splits)
  moreover have "last_knows C ?s" using c(2) by (intro last_knows_extends [OF I(7) ext]) (auto simp: s(1) split: if_splits)
  moreover have "countdowns_know C ?s (counted ?\<sigma>)"
    by (rule countdowns_know_extends [OF I(8) ext]) (simp add: stamp_row_def)
  moreover have "stampers_know C ?s" using c(2) by (intro stampers_know_extends [OF I(9) ext]) (auto simp: s(1) split: if_splits)
  moreover have "stamps_know C ?s"
  proof (rule stamps_know_extends [OF I(10) ext])
    fix r' k assume k: "k < length (writes (y_mem ?s) (Done r'))"
    have "knows_token C (y_order s) (known (y_mem s) (Epi c row)) r"
      using I(9) c unfolding stampers_know_def r_def by blast
    then have "knows_token C (y_order s) (msg_view msg) r" using knows_mono(3) [OF _ msg(2), of "y_order s"] by simp
    then show "k < length (writes (y_mem s) (Done r')) \<or> knows_token C (y_order ?s) (msg_view (writes (y_mem ?s) (Done r') ! k)) r'"
      using k by (auto simp: w s(2) nth_append less_Suc_eq split: if_splits)
  qed
  ultimately show ?thesis using reach by (simp add: y_inv_def)
qed

lemma inv_read:
  assumes inv: "y_inv C s \<sigma>" and m: "writes m = writes (y_mem s)" "mem_grows (y_mem s) m"
  shows "y_inv C (s\<lparr>y_mem := m\<rparr>) \<sigma>" "extends s (s\<lparr>y_mem := m\<rparr>)"
proof -
  let ?s = "s\<lparr>y_mem := m\<rparr>"
  note I = y_invD [OF inv]
  show ext: "extends s ?s" using m by (simp add: extends_def)
  have "refines C ?s \<sigma>" using I(2) m(1) by (simp add: refines_def newest_def)
  moreover have "adds_ok C ?s" using I(3) m(1) by (simp add: adds_ok_def out_ok_def)
  moreover have "lanes_know C ?s" by (rule lanes_know_extends [OF I(4) ext]) auto
  moreover have "threads_know C ?s" by (rule threads_know_extends [OF I(5) ext]) auto
  moreover have "stripes_know C ?s" by (rule stripes_know_extends [OF I(6) ext]) auto
  moreover have "last_knows C ?s" by (rule last_knows_extends [OF I(7) ext]) auto
  moreover have "countdowns_know C ?s (counted \<sigma>)" by (rule countdowns_know_extends [OF I(8) ext]) auto
  moreover have "stampers_know C ?s" by (rule stampers_know_extends [OF I(9) ext]) auto
  moreover have "stamps_know C ?s" by (rule stamps_know_extends [OF I(10) ext]) (simp add: m)
  ultimately show "y_inv C ?s \<sigma>" using I(1) by (simp add: y_inv_def)
qed

lemma y_act_extends:
  assumes "y_inv C s \<sigma>" "y_act C a s = Some s'"
  shows "extends s s'"
proof (cases a)
  case (YRed c x)
  then obtain X where s': "s' = y_red C c x X s" using assms(2) by (auto split: y_phase.splits if_splits)
  note fr = fold_reds [OF adds_okD(1) [OF y_invD(3) [OF assms(1)]], where ps = "job_cells C c x" and t = "job_thread c x", OF refl refl]
  show ?thesis using fr by (simp add: s' extends_def y_red_def lane_red_cells)
next
  case (YGate c)
  obtain prev m where at: "atomic_add (yc_atomics C) (Epi c 0) (Stripes (fst c)) (Count 1) (y_mem s) = (prev, m)" by fastforce
  have s': "s' = y_gate C c s" using YGate assms(2) by (auto split: if_splits)
  show ?thesis by (rule atomic_y_act(1) [OF at, where m' = "y_mem s'"]) (auto simp: s' y_gate_def at Let_def)
next
  case (YCount c row)
  obtain prev m where at: "atomic_add (yc_atomics C) (Epi c row) (Remaining (token L (slot_of L (fst c) row))) (Count (- 1)) (y_mem s) = (prev, m)"
    by fastforce
  obtain b A B where s': "s' = y_count C c row b A B s" using YCount assms(2) by (auto split: y_phase.splits if_splits)
  show ?thesis by (rule atomic_y_act(1) [OF at, where m' = "y_mem s'"]) (auto simp: s' y_count_def at Let_def)
next
  case (YStamp c row)
  obtain b A B where s': "s' = y_stamp C c row b A B s" using YStamp assms(2) by (auto split: y_phase.splits if_splits)
  show ?thesis using mem_grows_ops(2)
    by (simp add: s' extends_def y_stamp_def Let_def) (simp add: st_release_gpu_global_def add_write_def Let_def)
qed (use assms(2) in \<open>auto simp: extends_def split: y_phase.splits if_splits\<close>)

lemma y_act_inv:
  assumes "y_inv C s \<sigma>" "y_act C a s = Some s'"
  shows "\<exists>\<sigma>'. y_inv C s' \<sigma>'"
proof (cases a)
  case (YRed c x)
  then obtain X where "y_phase s c = Adding X" "y_cta C c" "x \<in> X" "s' = y_red C c x X s"
    using assms(2) by (auto split: y_phase.splits if_splits)
  then show ?thesis using inv_red [OF assms(1)] by blast
next
  case (YSync c)
  then have "y_cta C c" "y_phase s c = Adding {}" "s' = s\<lparr>y_phase := (y_phase s)(c := Added), y_mem := barrier (y_threads C c) (y_mem s)\<rparr>"
    using assms(2) by (auto split: if_splits)
  then show ?thesis using inv_sync [OF assms(1)] by blast
next
  case (YGate c)
  then have "y_cta C c" "y_phase s c = Added" "s' = y_gate C c s" using assms(2) by (auto split: if_splits)
  then show ?thesis using inv_gate [OF assms(1)] by blast
next
  case (YBarrier c)
  then obtain b where "y_phase s c = Flagged b" "y_cta C c" "s' = s\<lparr>y_phase := (y_phase s)(c := Finishing b (if b then y_rows C (fst c) else {}) {}),
      y_mem := barrier (y_threads C c) (y_mem s)\<rparr>" using assms(2) by (auto split: y_phase.splits if_splits)
  then show ?thesis using inv_barrier [OF assms(1)] by blast
next
  case (YCount c row)
  then obtain b A B where "y_phase s c = Finishing b A B" "y_cta C c" "row \<in> A" "s' = y_count C c row b A B s"
    using assms(2) by (auto split: y_phase.splits if_splits)
  then show ?thesis using inv_count [OF assms(1)] by blast
next
  case (YStamp c row)
  then obtain b A B where "y_phase s c = Finishing b A B" "y_cta C c" "row \<in> B" "s' = y_stamp C c row b A B s"
    using assms(2) by (auto split: y_phase.splits if_splits)
  then show ?thesis using inv_stamp [OF assms(1)] by blast
next
  case (YAcquire i r n)
  then have "s' = s\<lparr>y_mem := ld_acquire_gpu_global (Sender i) (Done r) n (y_mem s)\<rparr>" using assms(2) by (simp split: if_splits)
  then show ?thesis using inv_read(1) [OF assms(1)] by (metis mem_grows_ops(3) writes_same(4))
next
  case (YLoad i r n k)
  then have "s' = s\<lparr>y_mem := ld_global (Sender i) (Out r n) k (y_mem s)\<rparr>" using assms(2) by (simp split: if_splits)
  then show ?thesis using inv_read(1) [OF assms(1)] by (metis mem_grows_ops(4) writes_same(3))
qed

lemma y_run_inv:
  "y_inv C s \<sigma> \<Longrightarrow> y_run C as s = Some s' \<Longrightarrow> extends s s' \<and> (\<exists>\<sigma>'. y_inv C s' \<sigma>')"
proof (induction as arbitrary: s \<sigma>)
  case Nil
  then show ?case by (auto simp: extends_def)
next
  case (Cons a as)
  then obtain s1 where s1: "y_act C a s = Some s1" "y_run C as s1 = Some s'" by (auto split: option.splits)
  obtain \<sigma>1 where "y_inv C s1 \<sigma>1" using y_act_inv [OF Cons.prems(1) s1(1)] by blast
  then have "extends s1 s'" "\<exists>\<sigma>'. y_inv C s' \<sigma>'" using Cons.IH s1(2) by blast+
  moreover have "extends s s1" using y_act_extends [OF Cons.prems(1) s1(1)] .
  ultimately show ?case unfolding extends_def by (meson mem_grows_trans order_trans prefix_order.order_trans)
qed

lemma y_inv_init: "y_inv C (y_init C) (scatter_init L)"
proof -
  have "refines C (y_init C) (scatter_init L)"
    by (simp add: refines_def y_init_def scatter_init_def newest_def initial_writes)
  moreover have "adds_ok C (y_init C)" by (simp add: adds_ok_def y_init_def out_ok_def initial_writes out_value_def)
  moreover have "lanes_know C (y_init C)" "threads_know C (y_init C)" "stripes_know C (y_init C)" "last_knows C (y_init C)"
      "stampers_know C (y_init C)" "stamps_know C (y_init C)" "countdowns_know C (y_init C) (counted (scatter_init L))"
    by (simp_all add: lanes_know_def threads_know_def stripes_know_def last_knows_def
        countdowns_know_def stampers_know_def stamps_know_def y_init_def initial_writes scatter_init_def)
  ultimately show ?thesis unfolding y_inv_def using scatter_reach.init by blast
qed

lemma y_runE:
  assumes "y_run C (as @ bs) s = Some s''"
  obtains s' where "y_run C as s = Some s'" "y_run C bs s' = Some s''"
  using assms by (induction as arbitrary: s) (auto split: option.splits)

text \<open>A view that knows a token has all its slots, whatever the order they were added in.\<close>

lemma complete_read:
  assumes inv: "y_inv C s \<sigma>" and k: "knows_token C (y_order s) w r" "w (Out r n) \<le> k" "k < length (writes (y_mem s) (Out r n))"
    and n: "n < sc_ctas L * yc_tile_n C"
  shows "\<exists>xs. distinct xs \<and> set xs = slots_of L r \<and> msg_val (writes (y_mem s) (Out r n) ! k) = Bf16 (out_value C r n xs)"
proof (intro exI conjI)
  let ?ord = "y_order s (r, n)"
  note ok = adds_okD [OF y_invD(3) [OF inv]]
  have len: "k \<le> length ?ord" using k(3) ok(1) by (simp add: out_ok_def)
  show "distinct (take k ?ord)" using ok(3) by simp
  show "msg_val (writes (y_mem s) (Out r n) ! k) = Bf16 (out_value C r n (take k ?ord))"
    using ok(1) len by (simp add: out_ok_def)
  show "set (take k ?ord) = slots_of L r"
  proof (intro equalityI subsetI)
    fix slot assume "slot \<in> set (take k ?ord)"
    then have "slot \<in> set ?ord" by (rule in_set_takeD)
    then obtain c x where "y_cta C c" "x \<in> y_jobs C" "(slot, r, n) \<in> set (job_cells C c x)" using ok(4) by blast
    then show "slot \<in> slots_of L r" using job_cell_place [of x slot r n "fst c" "snd c"] by (auto simp: y_cta_def)
  next
    fix slot assume slot: "slot \<in> slots_of L r"
    then obtain t m where tm: "t < sc_tiles L" "m \<in> rows_of L t" "slot = slot_of L t m" by (rule slot_cases)
    have r: "token L slot = r" using slot by (simp add: slots_of_def)
    have j: "n div yc_tile_n C < sc_ctas L" using n by (simp add: less_mult_imp_div_less)
    obtain x where x: "x \<in> y_jobs C" "(slot, r, n) \<in> set (job_cells C (t, n div yc_tile_n C) x)"
      using job_exists [OF tm(1,2) refl] tm(3) r by blast
    have "knows C (y_order s) w (t, n div yc_tile_n C)"
      using k(1) tm r j unfolding knows_token_def knows_tile_def by blast
    then have "seen (y_order s) w (slot, r, n)" using x unfolding knows_def by blast
    then obtain i where i: "i < length ?ord" "?ord ! i = slot" "i < w (Out r n)" by (auto simp: seen_def)
    then have "i < k" using k(2) by simp
    then show "slot \<in> set (take k ?ord)" using i(1,2) len by (auto simp: in_set_conv_nth intro!: exI [of _ i])
  qed
qed

lemma acquired_row:
  assumes run: "y_run C (pre @ YAcquire i r a # mid @ [YLoad i r n k]) (y_init C) = Some s"
    and stamp: "msg_val (writes (y_mem s) (Done r) ! a) \<noteq> Count 0" and n: "n < sc_ctas L * yc_tile_n C"
  shows "\<exists>xs. distinct xs \<and> set xs = slots_of L r \<and> msg_val (writes (y_mem s) (Out r n) ! k) = Bf16 (out_value C r n xs)"
proof -
  obtain s0 s1 s2 where r: "y_run C pre (y_init C) = Some s0" "y_act C (YAcquire i r a) s0 = Some s1" "y_run C mid s1 = Some s2"
      "y_act C (YLoad i r n k) s2 = Some s"
    using run by (elim y_runE) (auto split: option.splits if_splits elim!: y_runE)
  obtain \<sigma>0 where i0: "y_inv C s0 \<sigma>0" and e0: "extends (y_init C) s0" using y_run_inv [OF y_inv_init r(1)] by blast
  obtain \<sigma>1 where i1: "y_inv C s1 \<sigma>1" using y_act_inv [OF i0 r(2)] by blast
  obtain \<sigma>2 where i2: "y_inv C s2 \<sigma>2" and e2: "extends s1 s2" using y_run_inv [OF i1 r(3)] by blast
  have e1: "extends s0 s1" using y_act_extends [OF i0 r(2)] .
  have e3: "extends s2 s" using y_act_extends [OF i2 r(4)] .
  have rd: "readable (Sender i) (Done r) a (y_mem s0)" and s1: "s1 = s0\<lparr>y_mem := ld_acquire_gpu_global (Sender i) (Done r) a (y_mem s0)\<rparr>"
    using r(2) by (auto split: if_splits)
  have a: "a < length (writes (y_mem s0) (Done r))" using rd by (simp add: readable_def)
  have "writes (y_mem (y_init C)) (Done r) = [\<lparr>msg_val = Count 0, msg_view = (\<lambda>_. 0)\<rparr>]" by (simp add: y_init_def initial_writes)
  moreover from this have "writes (y_mem s0) (Done r) ! 0 = writes (y_mem (y_init C)) (Done r) ! 0" by (intro extendsD(5) [OF e0]) simp
  moreover have ext: "extends s0 s" using e1 e2 e3 unfolding extends_def by (meson mem_grows_trans order_trans prefix_order.order_trans)
  then have "writes (y_mem s) (Done r) ! a = writes (y_mem s0) (Done r) ! a" by (rule extendsD(5)) (rule a)
  ultimately have "0 < a" using stamp by (cases a) auto
  then have "knows_token C (y_order s0) (msg_view (writes (y_mem s0) (Done r) ! a)) r"
    using y_invD(10) [OF i0] a unfolding stamps_know_def by blast
  moreover have "msg_view (writes (y_mem s0) (Done r) ! a) \<le> known (y_mem s1) (Sender i)"
    by (simp add: s1 ld_acquire_gpu_global_def le_supI2)
  then have "msg_view (writes (y_mem s0) (Done r) ! a) \<le> known (y_mem s2) (Sender i)"
    using extendsD(2) [OF e2] order_trans by blast
  moreover have "\<forall>q. prefix (y_order s0 q) (y_order s2 q)" using extendsD(1) [OF e1] extendsD(1) [OF e2] prefix_order.order_trans by blast
  ultimately have kn: "knows_token C (y_order s2) (known (y_mem s2) (Sender i)) r" by (metis knows_mono(3))
  have rd2: "readable (Sender i) (Out r n) k (y_mem s2)" and s: "s = s2\<lparr>y_mem := ld_global (Sender i) (Out r n) k (y_mem s2)\<rparr>"
    using r(4) by (auto split: if_splits)
  show ?thesis using complete_read [OF i2 kn _ _ n] rd2 by (simp add: readable_def s)
qed

end

section \<open>Launches of kernel Y\<close>

lemma y_launch_grid:
  assumes "yc_launch C = y_launch tiles tile_m H (yc_tile_n C) cl recv T_recv seq" "0 < cl" "cl dvd (H + yc_tile_n C - 1) div yc_tile_n C"
    and "0 < yc_warps C" "0 < fst (yc_epi C)" "fst (yc_epi C) dvd tile_m" "0 < snd (yc_epi C)" "8 dvd snd (yc_epi C)"
    and "snd (yc_epi C) dvd yc_tile_n C" "0 < yc_tile_n C" "tile_m \<le> yc_warps C * 32"
  shows "scatter_grid C" "n < H \<Longrightarrow> n < sc_ctas (yc_launch C) * yc_tile_n C"
proof -
  have ctas: "sc_ctas (yc_launch C) = (H + yc_tile_n C - 1) div yc_tile_n C"
    using y_launch_ctas(2) [OF assms(2,3), of tiles tile_m recv T_recv seq] assms(1) by (simp add: y_launch_def Let_def)
  have "sc_tile_m (yc_launch C) = tile_m" "sc_gate (yc_launch C) = (H + yc_tile_n C - 1) div yc_tile_n C"
    using assms(1) by (simp_all add: y_launch_def Let_def)
  then show "scatter_grid C" using assms ctas by unfold_locales simp_all
  show "n < H \<Longrightarrow> n < sc_ctas (yc_launch C) * yc_tile_n C"
    using ceil_div_mult_ge [OF assms(10), of H] by (simp add: ctas ceil_div_def)
qed

text \<open>The baseline: 128-row tiles of 256 columns, subtiles of 128 by 32, four warps, two CTAs per cluster.\<close>

definition baseline_y ::
  "ordering \<Rightarrow> nat \<Rightarrow> nat \<Rightarrow> int list \<Rightarrow> nat \<Rightarrow> int \<Rightarrow> (nat \<Rightarrow> nat \<Rightarrow> 16 word) \<Rightarrow> (16 word \<Rightarrow> 16 word \<Rightarrow> 16 word)
    \<Rightarrow> (nat \<Rightarrow> nat \<Rightarrow> 16 word) \<Rightarrow> y_config" where
  "baseline_y ord h tiles recv T_recv seq rows add out =
     \<lparr>yc_launch = y_launch tiles 128 (512 * h) 256 2 recv T_recv seq, yc_tile_n = 256, yc_epi = (128, 32), yc_warps = 4,
      yc_rows = rows, yc_bf16_add = add, yc_atomics = ord, yc_out = out\<rparr>"

lemma baseline_grid: "scatter_grid (baseline_y ord h tiles recv T_recv seq rows add out)"
proof (rule y_launch_grid(1) [where tiles = tiles and tile_m = 128 and H = "512 * h" and cl = 2 and recv = recv and T_recv = T_recv and seq = seq])
  have "(512 * h + 256 - 1) div 256 = 2 * h" by simp
  then show "2 dvd (512 * h + yc_tile_n (baseline_y ord h tiles recv T_recv seq rows add out) - 1)
      div yc_tile_n (baseline_y ord h tiles recv T_recv seq rows add out)" by (simp add: baseline_y_def)
qed (simp_all add: baseline_y_def)

interpretation baseline_y: scattering "baseline_y AcqRel h tiles recv T_recv seq rows add out"
  by (intro scattering.intro baseline_grid scattering_axioms.intro) (simp add: baseline_y_def)

text \<open>C12: when the gate's and the countdown's atomics acquire and release, a combine sender that has acquired the stamp of a
  token reads, in every column of the output, the sum over exactly the local slots of the token, each added once in some
  order: no stripe, tile or lane is missing, however the CTAs, warps and senders interleave and whichever writes the memory
  lets them read.\<close>

theorem stamped_row_is_complete:
  assumes "yc_launch C = y_launch tiles tile_m H (yc_tile_n C) cl recv T_recv seq" "0 < cl" "cl dvd (H + yc_tile_n C - 1) div yc_tile_n C"
    and "0 < yc_warps C" "0 < fst (yc_epi C)" "fst (yc_epi C) dvd tile_m" "0 < snd (yc_epi C)" "8 dvd snd (yc_epi C)"
    and "snd (yc_epi C) dvd yc_tile_n C" "0 < yc_tile_n C" "tile_m \<le> yc_warps C * 32" and "yc_atomics C = AcqRel"
    and "y_run C (pre @ YAcquire i r a # mid @ [YLoad i r n k]) (y_init C) = Some s"
    and "msg_val (writes (y_mem s) (Done r) ! a) \<noteq> Count 0" "n < H"
  shows "\<exists>xs. distinct xs \<and> set xs = slots_of (yc_launch C) r \<and>
    msg_val (writes (y_mem s) (Out r n) ! k) = Bf16 (out_value C r n xs)"
proof -
  have "scattering C" using y_launch_grid(1) [OF assms(1-11)] assms(12) by (simp add: scattering_def scattering_axioms_def)
  then show ?thesis using y_launch_grid(2) [OF assms(1-11,15)] by (rule scattering.acquired_row [OF _ assms(13,14)])
qed

section \<open>What relaxed operations do not pass on\<close>

text \<open>Nobody outside \<open>T\<close> knows anything of a location, and no message tells of it but its own.\<close>

definition blind :: "'t set \<Rightarrow> 'l \<Rightarrow> ('l, 't, 'v) device_memory \<Rightarrow> bool" where
  "blind T l m \<longleftrightarrow> (\<forall>t. t \<notin> T \<longrightarrow> known m t l = 0 \<and> pending m t l = 0) \<and> (\<forall>t. fenced m t l = 0) \<and>
     (\<forall>l' msg. l' \<noteq> l \<longrightarrow> msg \<in> set (writes m l') \<longrightarrow> msg_view msg l = 0)"

lemma blindD:
  assumes "blind T l m"
  shows "t \<notin> T \<Longrightarrow> known m t l = 0" "t \<notin> T \<Longrightarrow> pending m t l = 0" "fenced m t l = 0"
    "l' \<noteq> l \<Longrightarrow> msg \<in> set (writes m l') \<Longrightarrow> msg_view msg l = 0"
    "l' \<noteq> l \<Longrightarrow> writes m l' \<noteq> [] \<Longrightarrow> msg_view (last (writes m l')) l = 0"
  using assms unfolding blind_def by (blast intro: last_in_set)+

lemma blind_add_write:
  assumes "blind T l m" "t \<in> T \<or> l' \<noteq> l" "l' \<noteq> l \<longrightarrow> w l = 0"
  shows "blind T l (add_write t l' v w m)"
  using assms by (auto simp: blind_def add_write_def Let_def at_least_def)

lemma blind_red_add:
  "blind T l m \<Longrightarrow> writes m l' \<noteq> [] \<Longrightarrow> t \<in> T \<or> l' \<noteq> l \<Longrightarrow> blind T l (red_add add t l' v m)"
  unfolding red_add_def Let_def by (rule blind_add_write) (simp_all add: blindD)

lemma blind_release: "blind T l m \<Longrightarrow> t \<notin> T \<Longrightarrow> l' \<noteq> l \<Longrightarrow> blind T l (st_release_gpu_global t l' v m)"
  unfolding st_release_gpu_global_def by (rule blind_add_write) (simp_all add: blindD)

lemma blind_relaxed: "blind T l m \<Longrightarrow> writes m l' \<noteq> [] \<Longrightarrow> l' \<noteq> l \<Longrightarrow> blind T l (snd (atomic_add Relaxed t l' v m))"
  unfolding atomic_add_def Let_def by (simp, rule blind_add_write) (auto simp: blind_def)

lemma blind_barrier: "blind T l m \<Longrightarrow> set ts \<subseteq> T \<or> set ts \<inter> T = {} \<Longrightarrow> blind T l (barrier ts m)"
proof -
  assume b: "blind T l m" and ts: "set ts \<subseteq> T \<or> set ts \<inter> T = {}"
  have "foldr (\<lambda>t. sup (known m t)) ts (\<lambda>_. 0) l = 0" if "set ts \<inter> T = {}"
    using that blindD(1) [OF b] by (induction ts) auto
  then show ?thesis using b ts by (auto simp: blind_def barrier_def Let_def)
qed

lemma blind_fence: "blind T l m \<Longrightarrow> t \<notin> T \<Longrightarrow> blind T l (threadfence_gpu t m)"
  by (auto simp: blind_def threadfence_gpu_def Let_def)

lemma blind_acquire:
  "blind T l m \<Longrightarrow> l' \<noteq> l \<Longrightarrow> n < length (writes m l') \<Longrightarrow> blind T l (ld_acquire_gpu_global t l' n m)"
  by (auto simp: blind_def ld_acquire_gpu_global_def at_least_def)

lemma views_ok_red_add: "views_ok m \<Longrightarrow> views_ok (red_add add t l v m)"
  unfolding red_add_def Let_def by (rule views_ok_add) (simp_all add: views_okD sup_nat_def)

lemma views_ok_atomic: "views_ok m \<Longrightarrow> views_ok (snd (atomic_add ord t l v m))"
proof -
  assume ok: "views_ok m"
  let ?w = "msg_view (last (writes m l))"
  let ?m = "case ord of Relaxed \<Rightarrow> m\<lparr>pending := (pending m)(t := sup (pending m t) ?w)\<rparr>
    | AcqRel \<Rightarrow> m\<lparr>known := (known m)(t := sup (known m t) ?w)\<rparr>"
  have "views_ok ?m" using ok views_okD(2,3,6) [OF ok] by (cases ord) (auto simp: views_ok_def sup_nat_def)
  moreover have "writes ?m = writes m" by (cases ord) simp_all
  ultimately show ?thesis unfolding atomic_add_def Let_def snd_conv
    by (intro views_ok_add) (auto simp: views_okD [OF ok] sup_nat_def split: ordering.split)
qed

lemma views_ok_events:
  "views_ok m \<Longrightarrow> views_ok (st_release_gpu_global t l v (m :: ('l, 't, 'v::plus) device_memory))"
  "views_ok m \<Longrightarrow> views_ok (barrier ts m)" "views_ok m \<Longrightarrow> views_ok (threadfence_gpu t m)"
  "views_ok m \<Longrightarrow> n < length (writes m l) \<Longrightarrow> known m t l \<le> n \<Longrightarrow> views_ok (ld_acquire_gpu_global t l n m)"
  using exec_views_ok [of "Publish t l v" m] exec_views_ok [of "Barrier ts" m] exec_views_ok [of "Fence t" m]
    exec_views_ok [of "Acquire t l n" m] by (simp_all add: readable_def)

lemma atomic_writes:
  assumes "atomic_add ord t l v m = (prev, m')"
  shows "prev = msg_val (last (writes m l))" "msg_val (last (writes m' l)) = prev + v"
    "l' \<noteq> l \<Longrightarrow> writes m' l' = writes m l'"
  using assms by (auto simp: atomic_add_def Let_def add_write_def split: ordering.splits)

lemma fold_reds_writes:
  "\<forall>r n. l \<noteq> Out r n \<Longrightarrow> writes (fold (\<lambda>(slot, r, n). red_add add t (Out r n) (v slot n)) ps m) l = writes m l"
  by (induction ps arbitrary: m) (auto simp: red_add_writes)

lemma add_all:
  assumes "finite X" "y_cta C c" "y_phase s c = Adding X" "P (y_mem s)" "\<And>x m. x \<in> X \<Longrightarrow> P m \<Longrightarrow> P (lane_red C c x m)"
  shows "\<exists>as s'. y_run C as s = Some s' \<and> y_phase s' = (y_phase s)(c := Adding {}) \<and> P (y_mem s') \<and>
    (\<forall>l. (\<forall>r n. l \<noteq> Out r n) \<longrightarrow> writes (y_mem s') l = writes (y_mem s) l)"
  using assms
proof (induction X arbitrary: s rule: finite_psubset_induct)
  case (psubset X)
  show ?case
  proof (cases "X = {}")
    case True
    then show ?thesis using psubset.prems by (intro exI [of _ "[]"] exI [of _ s]) (auto simp: fun_upd_idem)
  next
    case False
    then obtain x where x: "x \<in> X" by blast
    let ?s = "y_red C c x X s"
    have w: "writes (lane_red C c x m) l = writes m l" if "\<forall>r n. l \<noteq> Out r n" for m l
      unfolding lane_red_cells using fold_reds_writes [OF that] .
    have "X - {x} \<subset> X" using x by blast
    moreover have "y_phase ?s c = Adding (X - {x})" "P (y_mem ?s)" using psubset.prems x by (simp_all add: y_red_def)
    ultimately obtain as s' where as: "y_run C as ?s = Some s'" "y_phase s' = (y_phase ?s)(c := Adding {})" "P (y_mem s')"
        "\<forall>l. (\<forall>r n. l \<noteq> Out r n) \<longrightarrow> writes (y_mem s') l = writes (y_mem ?s) l"
      using psubset.IH [of "X - {x}" ?s] psubset.prems by blast
    have "y_run C (YRed c x # as) s = Some s'" using as(1) psubset.prems x by simp
    then show ?thesis using as w by (intro exI [of _ "YRed c x # as"] exI [of _ s']) (simp add: y_red_def)
  qed
qed

lemma y_run_grows: "y_run C as s = Some s' \<Longrightarrow> mem_grows (y_mem s) (y_mem s')"
proof (induction as arbitrary: s)
  case (Cons a as)
  then obtain s1 where s1: "y_act C a s = Some s1" "y_run C as s1 = Some s'" by (auto split: option.splits)
  have red: "mem_grows m (fold (\<lambda>(slot, r, n). red_add add t (Out r n) (v slot n)) ps m)" for m :: y_memory and add t v ps
    by (induction ps arbitrary: m) (auto intro: mem_grows_trans [OF mem_grows_ops(1)])
  have atomic: "mem_grows m m'" if "atomic_add ord t l v m = (prev, m')" for m m' :: y_memory and ord t l v prev
    using mem_grows_ops(7) [of m ord t l v] that by simp
  have "mem_grows (y_mem s) (y_mem s1)"
    using s1(1) red by (cases a)
      (auto simp: y_red_def lane_red_cells y_gate_def y_count_def y_stamp_def Let_def
        split: y_phase.splits if_splits prod.splits dest!: atomic intro: mem_grows_trans)
  then show ?case using Cons.IH [OF s1(2)] mem_grows_trans by blast
qed simp

section \<open>A small launch\<close>

text \<open>One row, two stripes of eight columns, one warp.\<close>

definition tiny_y :: "ordering \<Rightarrow> y_config" where
  "tiny_y ord = \<lparr>yc_launch = y_launch 1 1 16 8 1 [0] 1 7, yc_tile_n = 8, yc_epi = (1, 8), yc_warps = 1,
     yc_rows = (\<lambda>slot n. of_nat (n + 1)), yc_bf16_add = (+), yc_atomics = ord, yc_out = (\<lambda>_ _. 0)\<rparr>"

lemma tiny_simps [simp]:
  "sc_tiles (yc_launch (tiny_y ord)) = 1" "sc_tile_m (yc_launch (tiny_y ord)) = 1" "sc_ctas (yc_launch (tiny_y ord)) = 2"
  "sc_gate (yc_launch (tiny_y ord)) = 2" "sc_recv (yc_launch (tiny_y ord)) = [0]" "sc_T_recv (yc_launch (tiny_y ord)) = 1"
  "sc_seq (yc_launch (tiny_y ord)) = 7" "yc_tile_n (tiny_y ord) = 8" "yc_epi (tiny_y ord) = (1, 8)" "yc_warps (tiny_y ord) = 1"
  "yc_atomics (tiny_y ord) = ord" "yc_out (tiny_y ord) r n = 0"
  unfolding tiny_y_def by code_simp+

lemma tiny_grid: "scatter_grid (tiny_y ord)"
  by unfold_locales simp_all

lemma tiny_slots: "slot_of (yc_launch (tiny_y ord)) 0 0 = 0" "token (yc_launch (tiny_y ord)) 0 = 0"
    "slots_of (yc_launch (tiny_y ord)) 0 = {0}" "y_rows (tiny_y ord) 0 = {0}"
  by (auto simp: slot_of_def token_def slots_of_def y_rows_def recv_ok_def)

definition quiet :: "ordering \<Rightarrow> y_memory \<Rightarrow> bool" where
  "quiet ord m \<longleftrightarrow> views_ok m \<and> (ord = Relaxed \<longrightarrow> blind (range (Epi (0, 0))) (Out 0 0) m)"

lemma quiet_lane:
  assumes "quiet ord m" "x \<in> y_jobs (tiny_y ord)" "c = (0, 0) \<or> c = (0, 1)"
  shows "quiet ord (lane_red (tiny_y ord) c x m)"
proof -
  let ?t = "job_thread c x"
  have "?t \<in> range (Epi (0, 0)) \<or> (\<forall>(slot, r, n) \<in> set (job_cells (tiny_y ord) c x). n \<noteq> 0)"
    using assms(3) scatter_grid.job_column [OF tiny_grid assms(2), of _ _ _ c]
    by (cases x) (fastforce simp: job_thread_def)
  then have keep: "quiet ord (fold (\<lambda>(slot, r, n). red_add add ?t (Out r n) (v slot n)) ps m)"
    if "set ps \<subseteq> set (job_cells (tiny_y ord) c x)" for ps add v
    using assms(1) that
  proof (induction ps arbitrary: m)
    case (Cons p ps)
    obtain slot r n where p: "p = (slot, r, n)" by (cases p) auto
    have "?t \<in> range (Epi (0, 0)) \<or> Out r n \<noteq> Out 0 0" using Cons.prems(1,3) by (auto simp: p)
    then have "quiet ord (red_add add ?t (Out r n) (v slot n) m)"
      using Cons.prems(2) by (auto simp: quiet_def intro!: views_ok_red_add blind_red_add dest: views_okD(1) [of m "Out r n"])
    then show ?case using Cons.IH [of "red_add add ?t (Out r n) (v slot n) m"] Cons.prems(1,3) by (simp add: p)
  qed simp
  show ?thesis unfolding lane_red_cells by (rule keep) simp
qed

lemma tiny_threads: "set (y_threads (tiny_y ord) c) = Epi c ` {..<32}"
  by (auto simp: y_threads_def)

lemma quiet_barrier: "quiet ord m \<Longrightarrow> quiet ord (barrier (y_threads (tiny_y ord) c) m)"
  unfolding quiet_def by (cases "c = (0, 0)") (auto simp: tiny_threads intro!: views_ok_events(2) blind_barrier)

lemma quiet_atomic:
  assumes "quiet ord m" "\<And>r n. l \<noteq> Out r n" "atomic_add ord t l v m = (prev, m')"
  shows "quiet ord m'"
proof -
  have m': "m' = snd (atomic_add ord t l v m)" using assms(3) by simp
  show ?thesis using assms(1,2) views_okD(1) [of m l]
    unfolding quiet_def m' by (cases ord) (auto intro!: views_ok_atomic blind_relaxed)
qed

definition tiny_at :: "ordering \<Rightarrow> y_phase \<Rightarrow> y_phase \<Rightarrow> int \<Rightarrow> y_state \<Rightarrow> bool" where
  "tiny_at ord p0 p1 g s \<longleftrightarrow> (\<exists>as. y_run (tiny_y ord) as (y_init (tiny_y ord)) = Some s) \<and> y_phase s (0, 0) = p0 \<and> y_phase s (0, 1) = p1 \<and>
     newest s (Stripes 0) = Count g \<and> newest s (Remaining 0) = Count 1 \<and> length (writes (y_mem s) (Done 0)) = 1 \<and> quiet ord (y_mem s)"

lemma y_run_append: "y_run C as s = Some s' \<Longrightarrow> y_run C bs s' = Some s'' \<Longrightarrow> y_run C (as @ bs) s = Some s''"
  by (induction as arbitrary: s) (auto split: option.splits)

lemma tiny_step:
  assumes "tiny_at ord p0 p1 g s" "y_run (tiny_y ord) bs s = Some s'"
    and "y_phase s' (0, 0) = q0" "y_phase s' (0, 1) = q1" "newest s' (Stripes 0) = Count g'" "newest s' (Remaining 0) = newest s (Remaining 0)"
    and "writes (y_mem s') (Done 0) = writes (y_mem s) (Done 0)" "quiet ord (y_mem s')"
  shows "tiny_at ord q0 q1 g' s'"
  using assms y_run_append unfolding tiny_at_def by metis

lemma tiny_init: "tiny_at ord (Adding (y_jobs (tiny_y ord))) (Adding (y_jobs (tiny_y ord))) 0 (y_init (tiny_y ord))"
proof -
  have "y_run (tiny_y ord) [] (y_init (tiny_y ord)) = Some (y_init (tiny_y ord))" by simp
  moreover have "quiet ord (y_mem (y_init (tiny_y ord)))"
    by (simp add: quiet_def y_init_def views_ok_initial) (simp add: blind_def initial_def)
  moreover have "y_phase (y_init (tiny_y ord)) c = Adding (y_jobs (tiny_y ord))" for c by (simp add: y_init_def)
  moreover have "newest (y_init (tiny_y ord)) (Stripes 0) = Count 0" "newest (y_init (tiny_y ord)) (Remaining 0) = Count 1"
      "length (writes (y_mem (y_init (tiny_y ord))) (Done 0)) = 1"
    by (simp_all add: newest_def y_init_def initial_writes tiny_slots)
  ultimately show ?thesis unfolding tiny_at_def by blast
qed

lemma tiny_cta: "y_cta (tiny_y ord) (0, 0)" "y_cta (tiny_y ord) (0, 1)"
  by (simp_all add: y_cta_def)

text \<open>A CTA adds its columns, meets and passes the gate.\<close>

lemma tiny_add:
  fixes c :: cta
  assumes "tiny_at ord p0 p1 g s" "c = (0, 0) \<and> p0 = Adding (y_jobs (tiny_y ord)) \<and> g \<noteq> 1 \<or> c = (0, 1) \<and> p1 = Adding (y_jobs (tiny_y ord))"
  shows "\<exists>s'. tiny_at ord (if c = (0, 0) then Flagged (g = 1) else p0) (if c = (0, 1) then Flagged (g = 1) else p1) (g + 1) s'"
proof -
  let ?C = "tiny_y ord"
  have c: "c = (0, 0) \<or> c = (0, 1)" "y_cta ?C c" "y_phase s c = Adding (y_jobs ?C)"
    using assms tiny_cta [of ord] by (auto simp: tiny_at_def)
  have "finite (y_jobs ?C)" by (simp add: y_jobs_def)
  from add_all [of "y_jobs ?C" ?C c s "quiet ord", OF this c(2,3)] obtain as s1 where
    s1: "y_run ?C as s = Some s1" "y_phase s1 = (y_phase s)(c := Adding {})" "quiet ord (y_mem s1)"
      "\<And>l. \<forall>r n. l \<noteq> Out r n \<Longrightarrow> writes (y_mem s1) l = writes (y_mem s) l"
    using assms(1) quiet_lane [OF _ _ c(1)] by (auto simp: tiny_at_def)
  let ?s2 = "s1\<lparr>y_phase := (y_phase s1)(c := Added), y_mem := barrier (y_threads ?C c) (y_mem s1)\<rparr>"
  let ?s3 = "y_gate ?C c ?s2"
  obtain prev m where at: "atomic_add ord (Epi c 0) (Stripes 0) (Count 1) (barrier (y_threads ?C c) (y_mem s1)) = (prev, m)" by fastforce
  have f: "fst c = 0" using c(1) by auto
  have prev: "prev = Count g" using atomic_writes(1) [OF at] assms(1) s1(4) by (simp add: tiny_at_def newest_def)
  have s3: "y_phase ?s3 = (y_phase s)(c := Flagged (g = 1))" "y_mem ?s3 = (if g = 1 then threadfence_gpu (Epi c 0) m else m)"
    by (simp_all add: y_gate_def f at prev Let_def s1(2))
  have "quiet ord m" by (rule quiet_atomic [OF quiet_barrier [OF s1(3)] _ at]) simp
  then have "quiet ord (y_mem ?s3)" unfolding s3(2) quiet_def using assms(2) by (auto intro!: views_ok_events(3) blind_fence)
  moreover have "y_run ?C (as @ [YSync c, YGate c]) s = Some ?s3"
    using y_run_append [OF s1(1), of "[YSync c, YGate c]"] c(2) by (simp add: s1(2))
  moreover have "newest ?s3 (Stripes 0) = Count (g + 1)" using atomic_writes(2) [OF at] prev by (simp add: newest_def s3(2))
  moreover have "newest ?s3 (Remaining 0) = newest s (Remaining 0)" "writes (y_mem ?s3) (Done 0) = writes (y_mem s) (Done 0)"
    using atomic_writes(3) [OF at] s1(4) by (simp_all add: newest_def s3(2))
  ultimately have "tiny_at ord (y_phase ?s3 (0, 0)) (y_phase ?s3 (0, 1)) (g + 1) ?s3"
    by (intro tiny_step [OF assms(1)]) auto
  moreover have "y_phase ?s3 (0, 0) = (if c = (0, 0) then Flagged (g = 1) else p0)"
      "y_phase ?s3 (0, 1) = (if c = (0, 1) then Flagged (g = 1) else p1)"
    using assms(1) unfolding s3(1) tiny_at_def fun_upd_apply by (simp_all split: if_split)
  ultimately show ?thesis by (intro exI [of _ ?s3]) (simp only:)
qed

text \<open>Both stripes, the countdown, the stamp and the sender's acquire.\<close>

lemma tiny_acquired:
  "\<exists>as s. y_run (tiny_y ord) (as @ [YAcquire 0 0 1]) (y_init (tiny_y ord)) = Some s \<and> quiet ord (y_mem s)
    \<and> msg_val (writes (y_mem s) (Done 0) ! 1) = Count 7"
proof -
  let ?C = "tiny_y ord"
  obtain s1 where s1: "tiny_at ord (Flagged False) (Adding (y_jobs ?C)) 1 s1"
    using tiny_add [OF tiny_init, of "(0, 0)" ord] by auto
  obtain s2 where s2: "tiny_at ord (Flagged False) (Flagged True) 2 s2" using tiny_add [OF s1, of "(0, 1)"] by auto
  let ?s3 = "s2\<lparr>y_phase := (y_phase s2)((0, 1) := Finishing True {0} {}), y_mem := barrier (y_threads ?C (0, 1)) (y_mem s2)\<rparr>"
  let ?s4 = "y_count ?C (0, 1) 0 True {0} {} ?s3"
  obtain prev m where at: "atomic_add ord (Epi (0, 1) 0) (Remaining 0) (Count (- 1)) (barrier (y_threads ?C (0, 1)) (y_mem s2)) = (prev, m)"
    by fastforce
  have prev: "prev = Count 1" using atomic_writes(1) [OF at] s2 by (simp add: tiny_at_def newest_def)
  have s4: "y_phase ?s4 (0, 1) = Finishing True {} {0}" "y_mem ?s4 = m"
    using at prev by (simp_all add: y_count_def tiny_slots Let_def)
  let ?s5 = "y_stamp ?C (0, 1) 0 True {} {0} ?s4"
  have s5: "y_mem ?s5 = st_release_gpu_global (Epi (0, 1) 0) (Done 0) (Count 7) m"
    using s4(2) by (simp add: y_stamp_def tiny_slots Let_def)
  have qm: "quiet ord m" by (rule quiet_atomic [OF quiet_barrier _ at]) (use s2 in \<open>simp_all add: tiny_at_def\<close>)
  then have q5: "quiet ord (y_mem ?s5)" unfolding s5 quiet_def by (auto intro!: views_ok_events(1) blind_release)
  have "length (writes m (Done 0)) = 1" using atomic_writes(3) [OF at] s2 by (simp add: tiny_at_def)
  then have d5: "length (writes (y_mem ?s5) (Done 0)) = 2" "msg_val (writes (y_mem ?s5) (Done 0) ! 1) = Count 7"
    unfolding s5 by (simp_all add: st_release_gpu_global_def add_write_def Let_def nth_append)
  let ?s6 = "?s5\<lparr>y_mem := ld_acquire_gpu_global (Sender 0) (Done 0) 1 (y_mem ?s5)\<rparr>"
  have rd: "readable (Sender 0) (Done 0) 1 (y_mem ?s5)" by (rule newest_readable) (use q5 d5 in \<open>simp_all add: quiet_def\<close>)
  have "y_run ?C [YBarrier (0, 1), YCount (0, 1) 0, YStamp (0, 1) 0, YAcquire 0 0 1] s2 = Some ?s6"
    using s2 s4(1) rd tiny_cta [of ord] by (simp add: tiny_at_def tiny_slots)
  moreover obtain as where "y_run ?C as (y_init ?C) = Some s2" using s2 by (auto simp: tiny_at_def)
  ultimately have "y_run ?C ((as @ [YBarrier (0, 1), YCount (0, 1) 0, YStamp (0, 1) 0]) @ [YAcquire 0 0 1]) (y_init ?C) = Some ?s6"
    using y_run_append by force
  moreover have "quiet ord (y_mem ?s6)" using q5 rd d5(1)
    by (auto simp: quiet_def readable_def intro!: views_ok_events(4) blind_acquire)
  moreover have "msg_val (writes (y_mem ?s6) (Done 0) ! 1) = Count 7" using d5(2) by simp
  ultimately show ?thesis by blast
qed

theorem stamped_row_is_complete_witness:
  "\<exists>as s k. y_run (tiny_y AcqRel) as (y_init (tiny_y AcqRel)) = Some s \<and> msg_val (writes (y_mem s) (Done 0) ! 1) = Count 7 \<and>
     msg_val (writes (y_mem s) (Out 0 3) ! k) = Bf16 4"
proof -
  let ?C = "tiny_y AcqRel"
  obtain as s where s: "y_run ?C (as @ [YAcquire 0 0 1]) (y_init ?C) = Some s" "quiet AcqRel (y_mem s)"
      "msg_val (writes (y_mem s) (Done 0) ! 1) = Count 7" using tiny_acquired by blast
  obtain k where k: "Suc k = length (writes (y_mem s) (Out 0 3))"
    using views_okD(1) [of "y_mem s" "Out 0 3"] s(2) by (cases "length (writes (y_mem s) (Out 0 3))") (auto simp: quiet_def)
  then have rd: "readable (Sender 0) (Out 0 3) k (y_mem s)" using s(2) by (intro newest_readable) (simp_all add: quiet_def)
  let ?s = "s\<lparr>y_mem := ld_global (Sender 0) (Out 0 3) k (y_mem s)\<rparr>"
  have run: "y_run ?C (as @ YAcquire 0 0 1 # [] @ [YLoad 0 0 3 k]) (y_init ?C) = Some ?s"
    using y_run_append [OF s(1), of "[YLoad 0 0 3 k]"] rd by simp
  have "\<exists>xs. distinct xs \<and> set xs = slots_of (yc_launch ?C) 0 \<and> msg_val (writes (y_mem ?s) (Out 0 3) ! k) = Bf16 (out_value ?C 0 3 xs)"
    by (rule stamped_row_is_complete [OF _ _ _ _ _ _ _ _ _ _ _ _ run, of 1 1 16 1 "[0]" 1 7])
      (use s(3) in \<open>simp_all add: tiny_y_def\<close>)
  then obtain xs where xs: "distinct xs" "set xs = {0}" "msg_val (writes (y_mem ?s) (Out 0 3) ! k) = Bf16 (out_value ?C 0 3 xs)"
    by (auto simp: tiny_slots)
  have "length xs = 1" using distinct_card [OF xs(1)] xs(2) by simp
  then have "xs = [0]" using xs(2) by (cases xs) auto
  then have "msg_val (writes (y_mem ?s) (Out 0 3) ! k) = Bf16 4" using xs(3) by (simp add: out_value_def tiny_y_def)
  then show ?thesis using run s(3) by (intro exI [of _ "as @ YAcquire 0 0 1 # [] @ [YLoad 0 0 3 k]"] exI [of _ ?s] exI [of _ k]) simp
qed

text \<open>C16: the epilogue depends on that order. With relaxed atomics, the default of the PTX instruction, there is an
  execution in which the sender acquires the stamp of a token and then reads the output as it was before the launch: the
  CTA that stamps fences, but nothing publishes what the other stripe's CTA added.\<close>

theorem relaxed_stamp_reads_stale:
  "\<exists>as k s. y_run (tiny_y Relaxed) (as @ [YAcquire 0 0 1, YLoad 0 0 0 k]) (y_init (tiny_y Relaxed)) = Some s \<and>
     msg_val (writes (y_mem s) (Done 0) ! 1) = Count (sc_seq (yc_launch (tiny_y Relaxed))) \<and>
     slots_of (yc_launch (tiny_y Relaxed)) 0 = {0} \<and> out_value (tiny_y Relaxed) 0 0 [0] = 1 \<and>
     msg_val (writes (y_mem s) (Out 0 0) ! k) = Bf16 0"
proof -
  let ?C = "tiny_y Relaxed"
  obtain as s where s: "y_run ?C (as @ [YAcquire 0 0 1]) (y_init ?C) = Some s" "quiet Relaxed (y_mem s)"
      "msg_val (writes (y_mem s) (Done 0) ! 1) = Count 7" using tiny_acquired by blast
  have "known (y_mem s) (Sender 0) (Out 0 0) = 0" using s(2) blindD(1) [of _ "Out 0 0" "y_mem s" "Sender 0"] by (auto simp: quiet_def)
  then have "readable (Sender 0) (Out 0 0) 0 (y_mem s)" using s(2) views_okD(1) [of "y_mem s" "Out 0 0"] by (simp add: readable_def quiet_def)
  then have "y_run ?C (as @ [YAcquire 0 0 1, YLoad 0 0 0 0]) (y_init ?C) = Some (s\<lparr>y_mem := ld_global (Sender 0) (Out 0 0) 0 (y_mem s)\<rparr>)"
    using y_run_append [OF s(1), of "[YLoad 0 0 0 0]"] by simp
  moreover have "prefix (writes (y_mem (y_init ?C)) (Out 0 0)) (writes (y_mem s) (Out 0 0))" using y_run_grows [OF s(1)] by (simp add: mem_grows_def)
  then have "msg_val (writes (y_mem s) (Out 0 0) ! 0) = Bf16 0" by (auto simp: y_init_def initial_writes prefix_def)
  ultimately show ?thesis using s(3)
    by (intro exI [of _ as] exI [of _ 0] exI [of _ "s\<lparr>y_mem := ld_global (Sender 0) (Out 0 0) 0 (y_mem s)\<rparr>"])
      (simp add: tiny_slots, simp add: out_value_def tiny_y_def)
qed

end
