(* ===== verification/Scatter_Progress.thy ===== *)
theory Scatter_Progress
  imports Scatter_Visible
begin

text \<open>
  The epilogue of \<^theory_text>\<open>Scatter_Visible\<close> cannot get stuck: from every reachable state each CTA can be run to its end, and
  when all are there a combine sender finds the stamp of every token and can read its row.
\<close>

inductive sent :: "y_config \<Rightarrow> nat \<Rightarrow> nat \<Rightarrow> 16 word \<Rightarrow> bool" for C where
  \<comment> \<open>a sender has acquired the stamp of a token and then loaded a column of its row\<close>
  "y_run C (pre @ YAcquire i r a # mid @ [YLoad i r n k]) (y_init C) = Some s \<Longrightarrow>
   msg_val (writes (y_mem s) (Done r) ! a) \<noteq> Count 0 \<Longrightarrow> msg_val (writes (y_mem s) (Out r n) ! k) = Bf16 w \<Longrightarrow> sent C r n w"

fun phase_rank :: "y_config \<Rightarrow> y_phase \<Rightarrow> nat" where
  "phase_rank C (Adding X) = card X + 2 * sc_tile_m (yc_launch C) + 4"
| "phase_rank C Added = 2 * sc_tile_m (yc_launch C) + 3"
| "phase_rank C (Flagged b) = 2 * sc_tile_m (yc_launch C) + 2"
| "phase_rank C (Finishing b A B) = 2 * card A + card B"

lemma y_act_views_ok: "y_act C a s = Some s' \<Longrightarrow> views_ok (y_mem s) \<Longrightarrow> views_ok (y_mem s')"
proof -
  assume a: "y_act C a s = Some s'" and ok: "views_ok (y_mem s)"
  have red: "views_ok m \<Longrightarrow> views_ok (fold (\<lambda>(slot, r, n). red_add add t (Out r n) (v slot n)) ps m)" for m :: y_memory and add t v ps
    by (induction ps arbitrary: m) (auto intro: views_ok_red_add)
  have atomic: "views_ok m" if "atomic_add ord t l v (y_mem s) = (prev, m)" for m ord t l v prev
    using views_ok_atomic [OF ok, of ord t l v] that by simp
  show ?thesis
  proof (cases a)
    case (YGate c)
    obtain prev m where at: "atomic_add (yc_atomics C) (Epi c 0) (Stripes (fst c)) (Count 1) (y_mem s) = (prev, m)" by fastforce
    show ?thesis using a YGate atomic [OF at] by (auto simp: y_gate_def at Let_def views_ok_events split: if_splits)
  next
    case (YCount c row)
    obtain prev m where at: "atomic_add (yc_atomics C) (Epi c row) (Remaining (token (yc_launch C) (slot_of (yc_launch C) (fst c) row)))
      (Count (- 1)) (y_mem s) = (prev, m)" by fastforce
    show ?thesis using a YCount atomic [OF at] by (auto simp: y_count_def at Let_def split: y_phase.splits if_splits)
  next
    case (YLoad i r n k)
    then have s': "readable (Sender i) (Out r n) k (y_mem s)" "s' = s\<lparr>y_mem := ld_global (Sender i) (Out r n) k (y_mem s)\<rparr>"
      using a by (simp_all split: if_splits)
    then have "exec_event (Load (Sender i) (Out r n) k) (y_mem s) = Some (y_mem s')" by simp
    then show ?thesis using exec_views_ok ok by blast
  next
    case (YAcquire i r n)
    then show ?thesis using a ok by (auto simp: readable_def intro!: views_ok_events(4) split: if_splits)
  next
    case (YStamp c row)
    then show ?thesis using a ok by (auto simp: y_stamp_def Let_def intro!: views_ok_events(1) split: y_phase.splits if_splits)
  next
    case (YRed c x)
    then show ?thesis using a red [OF ok] by (auto simp: y_red_def lane_red_cells split: y_phase.splits if_splits)
  qed (use a ok in \<open>auto intro!: views_ok_events(2) split: y_phase.splits if_splits\<close>)
qed

context scattering
begin

lemma y_phases_finite:
  assumes "y_inv C s \<sigma>" "y_phase s c = Adding X" shows "finite X"
proof -
  have "X \<subseteq> y_jobs C" using adds_okD(2) [OF y_invD(3) [OF assms(1)]] assms(2) .
  then show ?thesis by (rule finite_subset) (simp add: y_jobs_def)
qed

lemma y_rows_finite:
  assumes "y_inv C s \<sigma>" "y_phase s c = Finishing b A B" shows "finite A" "finite B"
proof -
  have "phase \<sigma> (fst c, snd c) = Counting b A B" using refinesD(1) [OF y_invD(2) [OF assms(1)], of c] assms(2) by simp
  then have "A \<subseteq> rows_of L (fst c)" "B \<subseteq> rows_of L (fst c)"
    using count_inv_reach [OF y_invD(1) [OF assms(1)]] unfolding count_inv_def by blast+
  moreover have "finite (rows_of L (fst c))" by (simp add: rows_of_def)
  ultimately show "finite A" "finite B" by (meson finite_subset)+
qed

lemma cta_step:
  assumes inv: "y_inv C s \<sigma>" and c: "y_cta C c" "\<nexists>b. y_phase s c = Finishing b {} {}"
  shows "\<exists>a s' ph. y_act C a s = Some s' \<and> y_phase s' = (y_phase s)(c := ph) \<and> phase_rank C ph < phase_rank C (y_phase s c)"
proof (cases "y_phase s c")
  case (Adding X)
  show ?thesis
  proof (cases "X = {}")
    case True
    then show ?thesis using Adding c(1) by (intro exI [of _ "YSync c"]) auto
  next
    case False
    then obtain x where x: "x \<in> X" by blast
    then have "card (X - {x}) < card X" using y_phases_finite [OF inv Adding] by (intro card_Diff1_less)
    then show ?thesis using Adding c(1) x by (intro exI [of _ "YRed c x"]) (auto simp: y_red_def)
  qed
next
  case Added
  then show ?thesis using c(1) by (intro exI [of _ "YGate c"]) (auto simp: y_gate_def Let_def split: prod.splits)
next
  case (Flagged b)
  have "card (y_rows C (fst c)) \<le> card {..<sc_tile_m L}" by (rule card_mono) (auto simp: y_rows_def)
  then show ?thesis using Flagged c(1) by (intro exI [of _ "YBarrier c"]) auto
next
  case (Finishing b A B)
  note fin = y_rows_finite [OF inv Finishing]
  show ?thesis
  proof (cases "A = {}")
    case True
    then obtain m where m: "m \<in> B" using c(2) Finishing by auto
    then have "card (B - {m}) < card B" using fin by (intro card_Diff1_less)
    then show ?thesis using Finishing c(1) m by (intro exI [of _ "YStamp c m"]) (auto simp: y_stamp_def Let_def)
  next
    case False
    then obtain m where m: "m \<in> A" by blast
    have "card (A - {m}) < card A" using fin(1) m by (intro card_Diff1_less)
    moreover have "card (insert m B) \<le> Suc (card B)" using fin(2) by (simp add: card_insert_if)
    ultimately have "phase_rank C (Finishing b (A - {m}) (if p then insert m B else B)) < phase_rank C (Finishing b A B)" for p
      unfolding phase_rank.simps by (cases p; simp only: if_True if_False; linarith)
    moreover obtain prev m' where "atomic_add (yc_atomics C) (Epi c m) (Remaining (token L (slot_of L (fst c) m))) (Count (- 1)) (y_mem s) = (prev, m')"
      by fastforce
    then have "y_act C (YCount c m) s = Some (y_count C c m b A B s)"
        "y_phase (y_count C c m b A B s) = (y_phase s)(c := Finishing b (A - {m}) (if prev = Count 1 then insert m B else B))"
      using Finishing c(1) m by (simp_all add: y_count_def Let_def)
    ultimately show ?thesis unfolding Finishing by blast
  qed
qed

lemma cta_finish:
  assumes "y_inv C s \<sigma>" "y_cta C c" "views_ok (y_mem s)"
  shows "\<exists>as s' \<sigma>' ph. y_run C as s = Some s' \<and> y_inv C s' \<sigma>' \<and> views_ok (y_mem s') \<and> y_phase s' = (y_phase s)(c := ph) \<and> (\<exists>b. ph = Finishing b {} {})"
  using assms
proof (induction "phase_rank C (y_phase s c)" arbitrary: s \<sigma> rule: less_induct)
  case less
  show ?case
  proof (cases "\<exists>b. y_phase s c = Finishing b {} {}")
    case True
    then show ?thesis using less.prems
      by (intro exI [of _ "[]"] exI [of _ s] exI [of _ \<sigma>] exI [of _ "y_phase s c"]) (auto simp: fun_upd_idem)
  next
    case False
    then obtain a s1 ph where s1: "y_act C a s = Some s1" "y_phase s1 = (y_phase s)(c := ph)" "phase_rank C ph < phase_rank C (y_phase s c)"
      using cta_step [OF less.prems(1,2)] by blast
    obtain \<sigma>1 where i1: "y_inv C s1 \<sigma>1" using y_act_inv [OF less.prems(1) s1(1)] by blast
    have ok1: "views_ok (y_mem s1)" using y_act_views_ok [OF s1(1) less.prems(3)] .
    have "phase_rank C (y_phase s1 c) < phase_rank C (y_phase s c)" using s1(2,3) by simp
    from less.hyps [OF this i1 less.prems(2) ok1] obtain as s' \<sigma>' ph' where
      "y_run C as s1 = Some s'" "y_inv C s' \<sigma>'" "views_ok (y_mem s')" "y_phase s' = (y_phase s1)(c := ph')" "\<exists>b. ph' = Finishing b {} {}"
      by blast
    moreover from this have "y_run C (a # as) s = Some s'" using s1(1) by simp
    moreover have "(y_phase s1)(c := ph') = (y_phase s)(c := ph')" using s1(2) by simp
    ultimately show ?thesis by metis
  qed
qed

lemma all_finish:
  assumes "finite S" "\<And>c. c \<in> S \<Longrightarrow> y_cta C c"
  shows "\<exists>as s \<sigma>. y_run C as (y_init C) = Some s \<and> y_inv C s \<sigma> \<and> views_ok (y_mem s) \<and> (\<forall>c \<in> S. \<exists>b. y_phase s c = Finishing b {} {})"
  using assms
proof (induction S)
  case empty
  have "views_ok (y_mem (y_init C))" by (simp add: y_init_def views_ok_initial)
  then show ?case using y_inv_init by (intro exI [of _ "[]"]) auto
next
  case (insert c S)
  then obtain as s \<sigma> where s: "y_run C as (y_init C) = Some s" "y_inv C s \<sigma>" "views_ok (y_mem s)" "\<forall>c \<in> S. \<exists>b. y_phase s c = Finishing b {} {}"
    by blast
  have "y_cta C c" using insert.prems by blast
  from cta_finish [OF s(2) this s(3)] obtain bs s' \<sigma>' ph where
    s': "y_run C bs s = Some s'" "y_inv C s' \<sigma>'" "views_ok (y_mem s')" "y_phase s' = (y_phase s)(c := ph)" "\<exists>b. ph = Finishing b {} {}" by blast
  have "y_run C (as @ bs) (y_init C) = Some s'" by (rule y_run_append [OF s(1) s'(1)])
  moreover have "\<forall>c \<in> insert c S. \<exists>b. y_phase s' c = Finishing b {} {}" using s(4) s'(4,5) by auto
  ultimately show ?case using s'(2,3) by blast
qed

lemma sent_exists:
  assumes "0 < sc_gate L" "sc_gate L \<le> sc_ctas L" "sc_seq L \<noteq> 0" "slots_of L r \<noteq> {}" "n < sc_ctas L * yc_tile_n C"
  shows "\<exists>w. sent C r n w"
proof -
  let ?S = "{..<sc_tiles L} \<times> {..<sc_ctas L}"
  obtain as s \<sigma> where s: "y_run C as (y_init C) = Some s" "y_inv C s \<sigma>" "views_ok (y_mem s)" "\<forall>c \<in> ?S. \<exists>b. y_phase s c = Finishing b {} {}"
    using all_finish [of ?S] by (auto simp: y_cta_def)
  have "all_finished L \<sigma>" unfolding all_finished_def
  proof (intro allI impI)
    fix t j assume "t < sc_tiles L" "j < sc_ctas L"
    then obtain b where "y_phase s (t, j) = Finishing b {} {}" using s(4) by auto
    then show "\<exists>b. phase \<sigma> (t, j) = Counting b {} {}" using refinesD(1) [OF y_invD(2) [OF s(2)], of "(t, j)"] by simp
  qed
  then have "y_done \<sigma> r = sc_seq L" using finished_stamped [OF y_invD(1) [OF s(2)] assms(1,2)] assms(4) by blast
  then have new: "newest s (Done r) = Count (sc_seq L)" using refinesD(4) [OF y_invD(2) [OF s(2)], of r] by simp
  obtain a where a: "length (writes (y_mem s) (Done r)) = Suc a"
    using views_okD(1) [OF s(3), of "Done r"] by (cases "writes (y_mem s) (Done r)") auto
  let ?s1 = "s\<lparr>y_mem := ld_acquire_gpu_global (Sender 0) (Done r) a (y_mem s)\<rparr>"
  have act1: "y_act C (YAcquire 0 r a) s = Some ?s1" using newest_readable [OF s(3), of a "Done r"] a by simp
  have ok1: "views_ok (y_mem ?s1)" by (rule y_act_views_ok [OF act1 s(3)])
  obtain k where k: "length (writes (y_mem ?s1) (Out r n)) = Suc k"
    using views_okD(1) [OF ok1, of "Out r n"] by (cases "writes (y_mem ?s1) (Out r n)") auto
  let ?s2 = "?s1\<lparr>y_mem := ld_global (Sender 0) (Out r n) k (y_mem ?s1)\<rparr>"
  have act2: "y_act C (YLoad 0 r n k) ?s1 = Some ?s2" using newest_readable [OF ok1, of k "Out r n"] k by simp
  have run: "y_run C (as @ YAcquire 0 r a # [] @ [YLoad 0 r n k]) (y_init C) = Some ?s2"
    using y_run_append [OF s(1), of "[YAcquire 0 r a, YLoad 0 r n k]"] act1 act2 by simp
  have "writes (y_mem ?s2) (Done r) ! a = last (writes (y_mem s) (Done r))"
    using a by (simp add: last_conv_nth) (metis diff_Suc_1 last_conv_nth length_0_conv nat.distinct(1))
  then have st: "msg_val (writes (y_mem ?s2) (Done r) ! a) \<noteq> Count 0" using new assms(3) by (simp add: newest_def)
  from acquired_row [OF run st assms(5)] obtain w where "msg_val (writes (y_mem ?s2) (Out r n) ! k) = Bf16 w" by blast
  then show ?thesis using sent.intros [OF run st] by blast
qed

lemma sent_value: "sent C r n w \<Longrightarrow> n < sc_ctas L * yc_tile_n C \<Longrightarrow> \<exists>xs. distinct xs \<and> set xs = slots_of L r \<and> w = out_value C r n xs"
proof (induction rule: sent.induct)
  case (1 pre i r a mid n k s w)
  from acquired_row [OF 1(1,2,4)] 1(3) show ?case by auto
qed

end

end
