(* ===== verification/Layer_Device.thy ===== *)
theory Layer_Device
  imports Layer_Reference Scatter_Progress
begin

text \<open>
  The layer on the device: dispatch's handles, kernel Y's epilogue lane by lane on weak memory
  (\<^theory_text>\<open>Scatter_Visible\<close>), and the rows the combine senders load once they have acquired a token's stamp, against
  \<open>moe\<close> of \<^verbatim>\<open>stream_ep_tests/reference.py\<close>.
\<close>

section \<open>Kernel Y on a handle\<close>

record y_tuning =
  yt_tile_n :: nat
  yt_cluster_n :: nat
  yt_epi :: "nat \<times> nat"
  yt_warps :: nat

definition tuning_ok :: "y_tuning \<Rightarrow> bool" where
  \<comment> \<open>the epilogue tile cuts the CTA tile, and the epilogue warps cover its rows; nothing ties the cluster to the width\<close>
  "tuning_ok T \<longleftrightarrow> 0 < yt_cluster_n T \<and>
     0 < yt_warps T \<and> TILE_M \<le> yt_warps T * 32 \<and> 0 < fst (yt_epi T) \<and> fst (yt_epi T) dvd TILE_M \<and>
     0 < snd (yt_epi T) \<and> 8 dvd snd (yt_epi T) \<and> snd (yt_epi T) dvd yt_tile_n T \<and> 0 < yt_tile_n T"

definition kernel_y_on :: "ordering \<Rightarrow> ('f, 'r) handle \<Rightarrow> nat \<Rightarrow> y_tuning \<Rightarrow> int \<Rightarrow> (nat \<Rightarrow> nat \<Rightarrow> 16 word)
    \<Rightarrow> (16 word \<Rightarrow> 16 word \<Rightarrow> 16 word) \<Rightarrow> (nat \<Rightarrow> nat \<Rightarrow> 16 word) \<Rightarrow> y_config" where
  \<comment> \<open>the launch on the pool of a handle; what \<open>atomic_add\<close> orders, the fragments, the addition and
    the output before come from outside\<close>
  "kernel_y_on ord h H T seq rows add out =
     \<lparr>yc_launch = y_launch (h_tiles h) TILE_M H (yt_tile_n T) (yt_cluster_n T) (h_recv h) (h_T_recv h) seq,
      yc_tile_n = yt_tile_n T, yc_epi = yt_epi T, yc_warps = yt_warps T, yc_rows = rows, yc_bf16_add = add,
      yc_atomics = ord, yc_out = out\<rparr>"

lemma kernel_y_on_scattering:
  assumes "tuning_ok T" "yt_cluster_n T dvd (H + yt_tile_n T - 1) div yt_tile_n T"
  shows "scattering (kernel_y_on AcqRel h H T seq rows add out)"
    and "n < H \<Longrightarrow> n < sc_ctas (yc_launch (kernel_y_on AcqRel h H T seq rows add out)) * yt_tile_n T"
proof -
  let ?C = "kernel_y_on AcqRel h H T seq rows add out"
  have "yc_launch ?C = y_launch (h_tiles h) TILE_M H (yc_tile_n ?C) (yt_cluster_n T) (h_recv h) (h_T_recv h) seq"
    by (simp add: kernel_y_on_def)
  note grid = y_launch_grid [OF this]
  show "scattering ?C"
    using grid(1) assms by (simp add: scattering_def scattering_axioms_def tuning_ok_def kernel_y_on_def)
  show "n < H \<Longrightarrow> n < sc_ctas (yc_launch ?C) * yt_tile_n T"
    using grid(2) [of n] assms by (simp add: tuning_ok_def kernel_y_on_def)
qed

lemma kernel_y_on_gate:
  assumes "tuning_ok T" "yt_cluster_n T dvd (H + yt_tile_n T - 1) div yt_tile_n T" "0 < H"
  shows "0 < sc_gate (yc_launch (kernel_y_on AcqRel h H T seq rows add out))"
    "sc_gate (yc_launch (kernel_y_on AcqRel h H T seq rows add out)) \<le> sc_ctas (yc_launch (kernel_y_on AcqRel h H T seq rows add out))"
    "sc_seq (yc_launch (kernel_y_on AcqRel h H T seq rows add out)) = seq"
proof -
  have "0 < (H + yt_tile_n T - 1) div yt_tile_n T" using assms by (simp add: tuning_ok_def div_greater_zero_iff)
  then show "0 < sc_gate (yc_launch (kernel_y_on AcqRel h H T seq rows add out))" by (simp add: kernel_y_on_def y_launch_def Let_def)
  show "sc_gate (yc_launch (kernel_y_on AcqRel h H T seq rows add out)) \<le> sc_ctas (yc_launch (kernel_y_on AcqRel h H T seq rows add out))"
    using y_launch_ctas(1) assms(1,2) by (simp add: kernel_y_on_def tuning_ok_def)
qed (simp add: kernel_y_on_def y_launch_def Let_def)

lemma kernel_y_on_slots:
  assumes "length (h_recv h) = h_tiles h * TILE_M" "q < h_T_recv h"
  shows "slots_of (yc_launch (kernel_y_on AcqRel h H T seq rows add out)) q = {s. s < length (h_recv h) \<and> h_recv h ! s = int q}"
  using assms by (auto simp: slots_of_def kernel_y_on_def y_launch_def Let_def recv_ok_def token_def)

section \<open>What a sender reads is the kernel's reference\<close>

context contract_met
begin

lemma sent_is_reference:
  fixes val :: "16 word \<Rightarrow> 'f"
  assumes "tuning_ok T" "yt_cluster_n T dvd (H + yt_tile_n T - 1) div yt_tile_n T" "length (h_recv h) = h_tiles h * TILE_M" "q < h_T_recv h" "c < H"
    and "val (out q c) = 0" "\<And>a b. val (add a b) = val a + val b"
    and "\<And>s. s < length (h_recv h) \<Longrightarrow> 0 \<le> h_recv h ! s \<Longrightarrow>
      val (rows s c) = h_weight h ! s * linear (ly_I L) (postact s) (w2 (slot_expert (h_freq h) ! s)) c"
    and "sent (kernel_y_on AcqRel h H T seq rows add out) q c w"
  shows "val w = kernel_y_rows L h w2 postact q c"
proof -
  let ?C = "kernel_y_on AcqRel h H T seq rows add out" and ?S = "{s. s < length (h_recv h) \<and> h_recv h ! s = int q}"
  have cols: "c < sc_ctas (yc_launch ?C) * yc_tile_n ?C"
    using kernel_y_on_scattering(2) [OF assms(1,2,5)] by (simp add: kernel_y_on_def)
  obtain xs where xs: "distinct xs" "set xs = ?S" "w = out_value ?C q c xs"
    using scattering.sent_value [OF kernel_y_on_scattering(1) [OF assms(1,2)] assms(9) cols]
    unfolding kernel_y_on_slots [OF assms(3,4)] by blast
  have fold: "val (foldl add v ws) = val v + (\<Sum>w\<leftarrow>ws. val w)" for v ws
    by (induction ws arbitrary: v) (simp_all add: assms(7) add.assoc)
  have "val w = (\<Sum>s\<leftarrow>xs. val (rows s c))"
    unfolding xs(3) out_value_def by (simp add: kernel_y_on_def fold assms(6) comp_def)
  also have "\<dots> = (\<Sum>s \<in> ?S. val (rows s c))" unfolding xs(2) [symmetric] by (rule sum_list_distinct_conv_sum_set [OF xs(1)])
  also have "\<dots> = (\<Sum>s \<in> ?S. h_weight h ! s *
      rows_or_zero (per_expert (length (h_freq h)) (handle_mask h) (slot_expert (h_freq h)) postact w2 (linear (ly_I L))) s c)"
    using slot_expert_bound by (intro sum.cong) (auto simp: assms(8) per_expert_at handle_mask_def)
  finally show ?thesis unfolding kernel_y_sum .
qed

end

section \<open>The layer\<close>

lemma dispatched_rows:
  "length (h_recv (dispatch_handle C r G m fs)) = h_tiles (dispatch_handle C r G m fs) * TILE_M"
  by (simp add: dispatch_handle_def Let_def)

text \<open>C2: the layer as the device runs it computes its reference. For every routing, every order of the receivers' stores and
  release-adds, every dropout mask, every tuning of kernel Y, and on every rank every interleaving of its lanes, CTAs
  and combine senders on weakly ordered memory, under two conditions the code does not establish: the stripe and slot
  counters are acquire-release (\<^verbatim>\<open>cute.arch.atomic_add\<close> is called without an ordering; with the PTX default the
  stale read of \<^theory_text>\<open>relaxed_stamp_reads_stale\<close> is possible), and the cluster's width divides the number of N-stripes
  (nothing checks it, and \<^theory_text>\<open>partial_cluster_stamps_early\<close> shows a default configuration without it): the columns the senders load after acquiring the tokens' stamps, summed
  over the ranks by combine, are the rows \<open>moe\<close> returns, when the fragments hold the weighted second product of kernel A's
  activations and the bf16 additions do not round.\<close>

theorem device_layer_computes_moe:
  fixes ranks :: "('f row list \<times> 'f::comm_semiring_1 routing) list" and val :: "16 word \<Rightarrow> 'f"
  assumes "well_routed K E ranks" "G = gather zx zi zw ranks" "0 < C"
    and "\<And>r. r < length ranks \<Longrightarrow> set (sts r)
      = (\<Union>cs \<in> set (substream_order C r internode G). set (fst (run_receiver C r internode G ranks cs)))"
    and "\<And>r. r < length ranks \<Longrightarrow> mset (fs r)
      = mset (concat (map (\<lambda>cs. snd (run_receiver C r internode G ranks cs)) (substream_order C r internode G)))"
    and "\<And>r. r < length ranks \<Longrightarrow> hs r = dispatch_handle C r G (foldl apply_store (fresh_mem (junk r) K) (sts r)) (fs r)"
    and "tuning_ok T" "ord = AcqRel" "yt_cluster_n T dvd (ly_H L + yt_tile_n T - 1) div yt_tile_n T"
    and "\<And>r q c. val (out r q c) = 0" "\<And>a b. val (add a b) = val a + val b"
    and "\<And>r s c. r < length ranks \<Longrightarrow> s < length (h_recv (hs r)) \<Longrightarrow> 0 \<le> h_recv (hs r) ! s \<Longrightarrow> c < ly_H L \<Longrightarrow>
      val (rows r s c) = h_weight (hs r) ! s * linear (ly_I L) (kernel_a_rows L (hs r) (w1 r) (keeps r) s)
        (w2 r (slot_expert (h_freq (hs r)) ! s)) c"
    and "\<And>r q c. r < length ranks \<Longrightarrow> q < h_T_recv (hs r) \<Longrightarrow> c < ly_H L \<Longrightarrow>
      sent (kernel_y_on ord (hs r) (ly_H L) T seq (rows r) add (out r)) q c (o_row r q c)"
  shows "map (\<lambda>row. map row [0..<ly_H L]) (to_sources me G (\<lambda>r q c. val (o_row r q c)))
    = map (\<lambda>row. map row [0..<ly_H L]) (moe L me G w1 w2 (\<lambda>r. dropout_of (hs r) (keeps r)))"
proof -
  have met: "contract_met r G (hs r)" if "r < length ranks" for r
    using placed_contract_met [OF assms(1-3) that assms(4-6)] that by blast
  have W: "g_world G = length ranks" using gather_facts(4) [OF assms(1,2)] .
  have sent: "sent (kernel_y_on AcqRel (hs r) (ly_H L) T seq (rows r) add (out r)) q c (o_row r q c)"
    if "r < length ranks" "q < h_T_recv (hs r)" "c < ly_H L" for r q c
    using assms(13) [OF that] by (simp add: assms(8))
  have row: "val (o_row r q c) = kernel_y_rows L (hs r) (w2 r) (kernel_a_rows L (hs r) (w1 r) (keeps r)) q c"
    if "r < length ranks" "q < h_T_recv (hs r)" "c < ly_H L" for r q c
  proof (rule contract_met.sent_is_reference [OF met [OF that(1)] assms(7,9) _ that(2,3) assms(10,11) _ sent [OF that]])
    show "length (h_recv (hs r)) = h_tiles (hs r) * TILE_M" using dispatched_rows assms(6) [OF that(1)] by simp
  qed (rule assms(12) [OF that(1) _ _ that(3)])
  have share: "spread r G (\<lambda>q c. val (o_row r q c)) g c
      = spread r G (kernel_y_rows L (hs r) (w2 r) (kernel_a_rows L (hs r) (w1 r) (keeps r))) g c"
    if "r < length ranks" "c < ly_H L" for r g c
  proof (cases "g \<in> set (recv_tokens r G)")
    case True
    then obtain q where q: "q < length (recv_tokens r G)" "recv_tokens r G ! q = g" by (metis in_set_conv_nth)
    have "h_T_recv (hs r) = length (recv_tokens r G)"
      using contract_met.layout [OF met [OF that(1)]] by (simp add: check_dispatch_layout_def Let_def)
    then show ?thesis using row [OF that(1) _ that(2)] q spread_at [OF q(1)] by auto
  qed (simp add: spread_none)
  have total: "(\<Sum>r\<leftarrow>[0..<length ranks]. spread r G (\<lambda>q c. val (o_row r q c)) g c)
      = (\<Sum>r\<leftarrow>[0..<length ranks]. spread r G (kernel_y_rows L (hs r) (w2 r) (kernel_a_rows L (hs r) (w1 r) (keeps r))) g c)"
    if "c < ly_H L" for g c
    using share that by (intro arg_cong [of _ _ sum_list] map_cong) auto
  have "map (\<lambda>row. map row [0..<ly_H L]) (to_sources me G (\<lambda>r q c. val (o_row r q c)))
      = map (\<lambda>row. map row [0..<ly_H L]) (layer_rows L me G hs w1 w2 keeps)"
    unfolding layer_rows_def to_sources_def local_rows_def by (simp add: total W take_map drop_map comp_def cong: map_cong)
  also have "layer_rows L me G hs w1 w2 keeps = moe L me G w1 w2 (\<lambda>r. dropout_of (hs r) (keeps r))"
    by (rule layer_is_reference) (simp add: W met)
  finally show ?thesis .
qed

text \<open>Rows of sixteen columns over 16-bit words, whose addition wraps and does not round: two ranks, two stripes.\<close>

definition word_layer :: "16 word layer" where
  "word_layer = \<lparr>ly_H = 16, ly_I = 1, ly_silu = (\<lambda>v. v + 1), ly_bf16 = (\<lambda>v. v)\<rparr>"

definition word_routing :: "int routing \<Rightarrow> 16 word routing" where
  "word_routing r = \<lparr>rt_topk_idx = rt_topk_idx r, rt_topk_weights = map (map of_int) (rt_topk_weights r),
     rt_experts = rt_experts r, rt_ranks = rt_ranks r\<rparr>"

definition word_ranks :: "(16 word row list \<times> 16 word routing) list" where
  "word_ranks = map (\<lambda>(xs, r). (map (\<lambda>v h. of_int v + of_nat h) xs, word_routing r)) demo_ranks"

definition word_G :: "(16 word, 16 word row) global" where "word_G = gather (\<lambda>_. 0) [0, 0] [0, 0] word_ranks"

definition word_handle :: "nat \<Rightarrow> (16 word, 16 word row) handle" where
  "word_handle r = serial_handle 2 r 2 False word_G word_ranks"

definition word_tuning :: y_tuning where
  "word_tuning = \<lparr>yt_tile_n = 8, yt_cluster_n = 2, yt_epi = (128, 8), yt_warps = 4\<rparr>"

definition word_w1 :: "nat \<Rightarrow> nat \<Rightarrow> 16 word matrix" where "word_w1 r e j i = of_nat (r + 2 * e + j + i)"

definition word_w2 :: "nat \<Rightarrow> nat \<Rightarrow> 16 word matrix" where "word_w2 r e j i = of_nat (3 * r + e + j)"

definition word_rows :: "nat \<Rightarrow> nat \<Rightarrow> nat \<Rightarrow> 16 word" where
  "word_rows r s c = h_weight (word_handle r) ! s * linear (ly_I word_layer) (kernel_a_rows word_layer (word_handle r) (word_w1 r) None s)
     (word_w2 r (slot_expert (h_freq (word_handle r)) ! s)) c"

lemma word_routed: "well_routed 2 2 word_ranks"
  by (simp add: well_routed_def word_ranks_def word_routing_def demo_ranks_def demo_r0_def demo_r1_def)

lemma word_tuning_ok: "tuning_ok word_tuning" "yt_cluster_n word_tuning dvd (16 + yt_tile_n word_tuning - 1) div yt_tile_n word_tuning"
  by (simp_all add: tuning_ok_def word_tuning_def TILE_M_def)

lemma word_sent:
  assumes "r < 2" "q < h_T_recv (word_handle r)" "c < 16"
  shows "\<exists>w. sent (kernel_y_on AcqRel (word_handle r) 16 word_tuning 7 (word_rows r) (+) (\<lambda>_ _. 0)) q c w"
proof -
  have "length word_ranks = 2" by (simp add: word_ranks_def demo_ranks_def)
  then have met: "contract_met r word_G (word_handle r)"
    unfolding word_handle_def using serial_met [OF word_routed word_G_def, of 2 r False] assms(1) by simp
  have len: "length (h_recv (word_handle r)) = h_tiles (word_handle r) * TILE_M"
    by (simp add: word_handle_def serial_handle_def dispatched_rows Let_def)
  have "q < length (recv_tokens r word_G)"
    using assms(2) contract_met.layout [OF met] by (simp add: check_dispatch_layout_def Let_def)
  from contract_met.token_has_slot [OF met this]
  have "slots_of (yc_launch (kernel_y_on AcqRel (word_handle r) 16 word_tuning 7 (word_rows r) (+) (\<lambda>_ _. 0))) q \<noteq> {}"
    unfolding kernel_y_on_slots [OF len assms(2)] by blast
  moreover have "c < sc_ctas (yc_launch (kernel_y_on AcqRel (word_handle r) 16 word_tuning 7 (word_rows r) (+) (\<lambda>_ _. 0)))
      * yc_tile_n (kernel_y_on AcqRel (word_handle r) 16 word_tuning 7 (word_rows r) (+) (\<lambda>_ _. 0))"
    using kernel_y_on_scattering(2) [OF word_tuning_ok assms(3)] by (simp add: kernel_y_on_def)
  ultimately show ?thesis
    by (rule scattering.sent_exists [OF kernel_y_on_scattering(1) [OF word_tuning_ok] kernel_y_on_gate(1,2) [OF word_tuning_ok], rotated 3])
      (simp_all add: kernel_y_on_gate(3) [OF word_tuning_ok])
qed

theorem device_layer_computes_moe_witness:
  "\<exists>o_row. sent (kernel_y_on AcqRel (word_handle 1) 16 word_tuning 7 (word_rows 1) (+) (\<lambda>_ _. 0)) 0 5 (o_row 1 0 5) \<and>
     map (\<lambda>row. map row [0..<16]) (to_sources 1 word_G o_row)
       = map (\<lambda>row. map row [0..<16]) (moe word_layer 1 word_G word_w1 word_w2 (\<lambda>r. None))"
proof -
  have "\<exists>w. r < 2 \<and> q < h_T_recv (word_handle r) \<and> c < 16 \<longrightarrow>
      sent (kernel_y_on AcqRel (word_handle r) 16 word_tuning 7 (word_rows r) (+) (\<lambda>_ _. 0)) q c w" for r q c
    using word_sent by blast
  then obtain o_row where o_row: "\<And>r q c. r < 2 \<Longrightarrow> q < h_T_recv (word_handle r) \<Longrightarrow> c < 16 \<Longrightarrow>
      sent (kernel_y_on AcqRel (word_handle r) 16 word_tuning 7 (word_rows r) (+) (\<lambda>_ _. 0)) q c (o_row r q c)" by metis
  let ?runs = "\<lambda>r. map (run_receiver 2 r False word_G word_ranks) (substream_order 2 r False word_G)"
  have H: "ly_H word_layer = 16" and n: "length word_ranks = 2" by (simp_all add: word_layer_def word_ranks_def demo_ranks_def)
  have "map (\<lambda>row. map row [0..<ly_H word_layer]) (to_sources 1 word_G (\<lambda>r q c. o_row r q c))
      = map (\<lambda>row. map row [0..<ly_H word_layer]) (moe word_layer 1 word_G word_w1 word_w2 (\<lambda>r. dropout_of (word_handle r) None))"
  proof (rule device_layer_computes_moe [where val = "\<lambda>v. v" and rows = word_rows and out = "\<lambda>_ _ _. 0" and add = "(+)"
        and T = word_tuning and ord = AcqRel and seq = 7 and junk = "\<lambda>_ _ _. 0" and internode = False and sts = "\<lambda>r. concat (map fst (?runs r))"
        and fs = "\<lambda>r. concat (map snd (?runs r))" and keeps = "\<lambda>_. None" and hs = word_handle, OF word_routed word_G_def])
    show "word_handle r = dispatch_handle 2 r word_G (foldl apply_store (fresh_mem (\<lambda>_ _. 0) 2) (concat (map fst (?runs r)))) (concat (map snd (?runs r)))" for r
      by (simp add: word_handle_def serial_handle_def Let_def)
    show "sent (kernel_y_on AcqRel (word_handle r) (ly_H word_layer) word_tuning 7 (word_rows r) (+) (\<lambda>_ _. 0)) q c (o_row r q c)"
      if "r < length word_ranks" "q < h_T_recv (word_handle r)" "c < ly_H word_layer" for r q c
      using o_row that by (simp add: H n)
    show "yt_cluster_n word_tuning dvd (ly_H word_layer + yt_tile_n word_tuning - 1) div yt_tile_n word_tuning"
      using word_tuning_ok(2) unfolding H .
  qed (simp_all add: H word_tuning_ok(1) word_rows_def comp_def)
  moreover have "0 < h_T_recv (word_handle 1)"
    unfolding word_handle_def serial_handle_def dispatch_handle_def Let_def by code_simp
  then have "sent (kernel_y_on AcqRel (word_handle 1) 16 word_tuning 7 (word_rows 1) (+) (\<lambda>_ _. 0)) 0 5 (o_row 1 0 5)"
    using o_row by simp
  ultimately show ?thesis unfolding H by (auto simp: dropout_of_def)
qed

end
