(* ===== verification/Dispatch_Grads.thy ===== *)
theory Dispatch_Grads
  imports Dispatch_Contract
begin

text \<open>
  The way back of dispatch: \<open>dispatch_grads_main_kernel\<close> of \<^verbatim>\<open>csrc/kernels/intranode.cu\<close> ships the rows of \<open>dL_dy\<close> along
  the routing of forward. A sender queues the rows of the tokens forward sent; a receiver allocates no slots but
  writes each row to the slots forward recorded in \<open>recv_token_to_slots\<close>, and fires the arrival counts of its runs
  from \<open>base_pool\<close> and \<open>seen_per_substream\<close>, which the handle kept.
\<close>

section \<open>Senders and receivers\<close>

definition grad_rows :: "nat \<Rightarrow> nat \<Rightarrow> nat \<Rightarrow> 'r list \<times> 'f routing \<Rightarrow> 'r list" where
  \<comment> \<open>what the sender of a channel queues, in order\<close>
  "grad_rows C dst c src = (case src of (dy, r) \<Rightarrow> map ((!) dy) (sent_tokens C dst c r))"

fun grad_receive :: "int list list \<Rightarrow> nat \<Rightarrow> 'r list \<Rightarrow> (nat \<times> 'r) list" where
  \<comment> \<open>the stores into \<open>dL_do_pool\<close>: each row to its token's slots\<close>
  "grad_receive slots recv [] = []"
| "grad_receive slots recv (x # xs) =
     concat (map (\<lambda>slot. if slot < 0 then [] else [(nat slot, x)]) (slots ! recv)) @ grad_receive slots (recv + 1) xs"

definition run_grad_receiver ::
  "nat \<Rightarrow> nat \<Rightarrow> bool \<Rightarrow> ('f, 'r) global \<Rightarrow> ('r list \<times> 'f::zero routing) list \<Rightarrow> 'r list list \<Rightarrow> int list list \<Rightarrow> substream
    \<Rightarrow> (nat \<times> 'r) list \<times> (nat \<times> nat) list" where
  "run_grad_receiver C me internode G ranks dys slots cs =
     (grad_receive slots (recv_offset C me G ranks cs) (grad_rows C me (fst cs) (dys ! snd cs, snd (ranks ! snd cs))),
      fires (base_pool C me internode G cs) (num_local_experts G) (seen_per_substream C me G cs) TILE_M)"

definition grad_pool :: "(nat \<Rightarrow> 'r) \<Rightarrow> (nat \<times> 'r) list \<Rightarrow> nat \<Rightarrow> 'r" where
  \<comment> \<open>\<open>dL_do_pool\<close>, allocated with anything in it, after the stores\<close>
  "grad_pool junk sts = foldl (\<lambda>p (slot, x). p(slot := x)) junk sts"

lemma grad_receive_set:
  "set (grad_receive slots recv xs) = (\<Union>i<length xs. {(nat slot, xs ! i) | slot. slot \<in> set (slots ! (recv + i)) \<and> 0 \<le> slot})"
proof (induction xs arbitrary: recv)
  case (Cons x xs)
  have "set (concat (map (\<lambda>slot. if slot < 0 then [] else [(nat slot, x)]) (slots ! recv)))
      = {(nat slot, x) | slot. slot \<in> set (slots ! recv) \<and> 0 \<le> slot}"
    by (auto split: if_splits)
  then show ?case unfolding grad_receive.simps set_append Cons
    by (simp add: lessThan_Suc_eq_insert_0)
qed simp

lemma grad_pool_at:
  assumes "\<And>x. (slot, x) \<in> set sts \<Longrightarrow> x = v"
  shows "grad_pool junk sts slot = (if \<exists>x. (slot, x) \<in> set sts then v else junk slot)"
  using assms unfolding grad_pool_def
proof (induction sts rule: rev_induct)
  case (snoc p ps)
  then show ?case by (cases p) auto
qed simp

section \<open>The gradients of a slot\<close>

context dispatching
begin

abbreviation "grad_run dys h cs \<equiv> run_grad_receiver C me internode G ranks dys (h_slots h) cs"

lemma grad_fires:
  assumes "cs \<in> set order"
  shows "snd (grad_run dys h cs) = snd (run_receiver C me internode G ranks cs)"
proof -
  have "snd (receive (base_at cs) E (recv_offset C me G ranks cs) (packets C E me (fst cs) (ranks ! snd cs)) (\<lambda>_. 0)) e = seen_at cs e"
    if "e < E" for e
    using that assms packet_rows [of "fst cs" "snd cs"] slot_rows_seen [OF that, of "base_at cs" "rows_at cs" "\<lambda>_. 0"]
    by (auto simp: receive_seen seen_is_sent rows_at_def)
  then show ?thesis
    by (auto simp: run_grad_receiver_def run_receiver_def Let_def case_prod_beta facts(5) fires_def intro!: arg_cong [of _ _ concat])
qed

text \<open>A receiver stores, for each entry that landed in its substream, the gradient of the entry's token.\<close>

lemma grad_stores:
  assumes m: "stored (fresh_mem junk K) m" and h: "h = dispatch_handle C me G m fs"
    and dys: "length dys = W" "\<And>s. s < W \<Longrightarrow> length (dys ! s) = toks s" and cs: "cs \<in> set order"
  shows "set (fst (grad_run dys h cs)) = {(landed_slot cs i k, concat dys ! (recv_ids ! recv_at cs i)) | i k. lands cs i k}"
proof -
  obtain c s where cs_eq: "cs = (c, s)" "c < C" "s < W" using cs by - (cases cs, auto)
  let ?sent = "sent C me ranks s c"
  have off: "recv_offset C me G ranks cs + i = recv_at cs i" for i
    using recv_offset_at [OF cs_eq(3), of c] by (simp add: recv_at_def cs_eq)
  have slots: "h_slots h ! recv_at cs i = slots_at cs ! i" if "i < length (rows_at cs)" for i
    using stored_slots [OF m cs that] topk_at(1) [OF cs that] by (simp add: h token_fields)
  have row: "dys ! s ! (?sent ! i) = concat dys ! (recv_ids ! recv_at cs i)" if "i < length ?sent" for i
  proof -
    have t: "?sent ! i < toks s" using that nth_mem sent_bound by blast
    have "(\<Sum>xs\<leftarrow>take s dys. length xs) = off_of ranks s"
    proof -
      have "map length dys = map (\<lambda>p. length (rt_topk_idx (snd p))) ranks"
        using dys by (intro nth_equalityI) simp_all
      then show ?thesis by (simp add: off_of_def take_map [symmetric])
    qed
    moreover have "recv_ids ! recv_at cs i = off_of ranks s + ?sent ! i"
      using recv_index(2) [OF cs_eq(3,2) that] by (simp add: recv_at_def cs_eq)
    ultimately show ?thesis using nth_concat_prefix(1) [of s dys "?sent ! i"] dys cs_eq(3) t by simp
  qed
  have n: "length (rows_at cs) = length ?sent" by (simp add: rows_at_def cs_eq)
  have "set (fst (grad_run dys h cs)) = (\<Union>i<length ?sent. {(nat slot, dys ! s ! (?sent ! i)) | slot.
      slot \<in> set (h_slots h ! recv_at cs i) \<and> 0 \<le> slot})"
    by (simp add: run_grad_receiver_def grad_receive_set off) (simp add: grad_rows_def cs_eq)
  also have "\<dots> = (\<Union>i<length ?sent. {(nat slot, concat dys ! (recv_ids ! recv_at cs i)) | slot. slot \<in> set (slots_at cs ! i) \<and> 0 \<le> slot})"
    using slots row n by (intro SUP_cong) auto
  also have "\<dots> = {(landed_slot cs i k, concat dys ! (recv_ids ! recv_at cs i)) | i k. lands cs i k}" (is "?A = ?B")
  proof (intro set_eqI iffI)
    fix p assume "p \<in> ?A"
    then obtain i k where i: "i < length (rows_at cs)" and k: "k < length (slots_at cs ! i)" "0 \<le> slots_at cs ! i ! k"
        "p = (nat (slots_at cs ! i ! k), concat dys ! (recv_ids ! recv_at cs i))" by (auto simp: n in_set_conv_nth)
    then show "p \<in> ?B" using slot_store [OF cs i k(1,2)] by auto
  next
    fix p assume "p \<in> ?B"
    then obtain i k where l: "lands cs i k" and p: "p = (landed_slot cs i k, concat dys ! (recv_ids ! recv_at cs i))" by blast
    then have "i < length ?sent" using n by (simp add: lands_def)
    then show "p \<in> ?A" using lands_store [OF l] p by (intro UN_I [of i]) (auto intro!: exI [of _ "slots_at cs ! i ! k"])
  qed
  finally show ?thesis .
qed

text \<open>Slots whose receiver has stored hold their gradient; the others hold what was there.\<close>

lemma grad_pool_value:
  assumes m: "stored (fresh_mem junk' K) m" and h: "h = dispatch_handle C me G m fs"
    and dys: "length dys = W" "\<And>s. s < W \<Longrightarrow> length (dys ! s) = toks s"
    and below: "set gsts \<subseteq> (\<Union>cs \<in> set order. set (fst (grad_run dys h cs)))"
    and ran: "set (fst (grad_run dys h cs)) \<subseteq> set gsts" and l: "lands cs i k"
  shows "grad_pool junk gsts (landed_slot cs i k) = concat dys ! (recv_ids ! recv_at cs i)"
proof -
  have st: "set (fst (grad_run dys h cs)) = {(landed_slot cs i k, concat dys ! (recv_ids ! recv_at cs i)) | i k. lands cs i k}"
    if "cs \<in> set order" for cs using grad_stores [OF m h dys(1) _ that] dys(2) by blast
  have cs: "cs \<in> set order" using l by (simp add: lands_def del: set_order)
  have mem: "(landed_slot cs i k, concat dys ! (recv_ids ! recv_at cs i)) \<in> set gsts"
    using ran l unfolding st [OF cs] by blast
  have "x = concat dys ! (recv_ids ! recv_at cs i)" if x: "(landed_slot cs i k, x) \<in> set gsts" for x
  proof -
    obtain cs' where cs': "cs' \<in> set order" "(landed_slot cs i k, x) \<in> set (fst (grad_run dys h cs'))" using below x by blast
    then obtain i' k' where "lands cs' i' k'" "landed_slot cs i k = landed_slot cs' i' k'" "x = concat dys ! (recv_ids ! recv_at cs' i')"
      unfolding st [OF cs'(1)] by blast
    then show ?thesis using slot_inj [OF l] by metis
  qed
  from grad_pool_at [of "landed_slot cs i k" gsts, OF this] show ?thesis using mem by auto
qed

lemma grads_at_fired_tile:
  assumes m: "stored (fresh_mem junk' K) m" and h: "h = dispatch_handle C me G m fs"
    and dys: "length dys = W" "\<And>s. s < W \<Longrightarrow> length (dys ! s) = toks s"
    and below: "set gsts \<subseteq> (\<Union>cs \<in> set order. set (fst (grad_run dys h cs)))"
    and ran: "\<And>cs. cs \<in> set order \<Longrightarrow> fired cs \<Longrightarrow> set (fst (grad_run dys h cs)) \<subseteq> set gsts"
    and gfs: "mset gfs = mset (concat (map (\<lambda>cs. snd (grad_run dys h cs)) (filter fired order)))"
    and s: "s < length (h_recv h)" "0 \<le> h_recv h ! s" "add_fires gfs (s div TILE_M) = h_target h ! (s div TILE_M)"
  shows "grad_pool junk gsts s = concat dys ! (recv_ids ! nat (h_recv h ! s))"
proof -
  have "s \<in> set real_list" using s(1,2) by (subst handle_real [OF m h, symmetric]) simp
  then obtain cs i k where l: "lands cs i k" "landed_slot cs i k = s" unfolding real_list_iff by blast
  then have cs: "cs \<in> set order" and i: "i < length (rows_at cs)" by (simp_all add: lands_def del: set_order)
  have "map (\<lambda>cs. snd (grad_run dys h cs)) (filter fired order)
      = map (\<lambda>cs. snd (run_receiver C me internode G ranks cs)) (filter fired order)"
    by (intro map_cong refl grad_fires) simp
  then have fwd: "mset gfs = mset (concat (map (\<lambda>cs. snd (run_receiver C me internode G ranks cs)) (filter fired order)))"
    using gfs by (simp only:)
  have "s < total_tiles freq * TILE_M" using s(1) by (simp add: h dispatch_handle_def Let_def)
  then have t: "s div TILE_M < total_tiles freq" by (simp add: less_mult_imp_div_less)
  then have tgt: "h_target h ! (s div TILE_M) = snd (fill_tile_metadata (block_offset freq) freq (s div TILE_M))"
    by (simp add: h dispatch_handle_def Let_def)
  have "PoolRow s (pk_x (packet_at cs i)) \<in> set (fst (run_receiver C me internode G ranks cs))"
    unfolding receiver_stores [OF cs] using lands_store [OF l(1)] i l(2) by (intro UN_I [of i]) (auto simp: row_store)
  then have "fired cs" using fired_tile(2) [OF fwd t _ cs] s(3) tgt by simp
  from grad_pool_value [OF m h dys(1) _ below ran [OF cs this] l(1)] show ?thesis
    using dys(2) handle_at(1) [OF m h l(1)] by (simp add: l(2))
qed

end

text \<open>C9: gradients reach their slots: whatever the routing and the order of forward's stores, and while only some receivers of
  \<open>dispatch_grads\<close> have finished, a slot whose tile's arrival count has reached the target forward computed holds the incoming
  gradient of exactly the token forward put there.\<close>

theorem gradients_reach_slots:
  fixes ranks :: "('r list \<times> 'f::zero routing) list"
  assumes "well_routed K E ranks" "G = gather zx zi zw ranks" "0 < C" "me < length ranks"
    and "set sts = (\<Union>cs \<in> set (substream_order C me internode G). set (fst (run_receiver C me internode G ranks cs)))"
    and "h = dispatch_handle C me G (foldl apply_store (fresh_mem junk K) sts) fs"
    and "length dys = length ranks" "\<And>s. s < length ranks \<Longrightarrow> length (dys ! s) = tokens_of ranks s"
    and "set gsts \<subseteq> (\<Union>cs \<in> set (substream_order C me internode G). set (fst (run_grad_receiver C me internode G ranks dys (h_slots h) cs)))"
    and "\<And>cs. cs \<in> set (substream_order C me internode G) \<Longrightarrow> fired cs \<Longrightarrow>
      set (fst (run_grad_receiver C me internode G ranks dys (h_slots h) cs)) \<subseteq> set gsts"
    and "mset gfs = mset (concat (map (\<lambda>cs. snd (run_grad_receiver C me internode G ranks dys (h_slots h) cs))
      (filter fired (substream_order C me internode G))))"
    and "s < length (h_recv h)" "0 \<le> h_recv h ! s" "add_fires gfs (s div TILE_M) = h_target h ! (s div TILE_M)"
  shows "grad_pool junk' gsts s = concat dys ! (recv_tokens me G ! nat (h_recv h ! s))"
proof -
  have d: "dispatching K E C me ranks G zx zi zw" using assms(1-4) by unfold_locales
  have m: "dispatching.stored C me internode ranks G (fresh_mem junk K) (foldl apply_store (fresh_mem junk K) sts)"
    unfolding dispatching.stored_def [OF d] dispatching.all_stores_def [OF d] using assms(5) by blast
  show ?thesis by (rule dispatching.grads_at_fired_tile [OF d m assms(6-14)])
qed

text \<open>Two ranks; all receivers of rank 0 but one have finished, and its first tile is complete.\<close>

definition demo_dys :: "int list list" where
  "demo_dys = map (\<lambda>(s, p). map (\<lambda>t. int (100 * (s + 1) + t)) [0..<length (rt_topk_idx (snd p))]) (enumerate 0 demo_ranks)"

definition demo_grad_run :: "substream \<Rightarrow> (nat \<times> int) list \<times> (nat \<times> nat) list" where
  "demo_grad_run cs = run_grad_receiver 2 0 False demo_G demo_ranks demo_dys (h_slots demo_handle) cs"

definition demo_grad_runs :: "((nat \<times> int) list \<times> (nat \<times> nat) list) list" where
  "demo_grad_runs = map demo_grad_run (filter demo_fired (substream_order 2 0 False demo_G))"

lemma demo_grad_count:
  "add_fires (concat (map snd demo_grad_runs)) (1 div TILE_M) = h_target demo_handle ! (1 div TILE_M)"
  by code_simp

theorem gradients_reach_slots_witness:
  "grad_pool (\<lambda>_. - 9) (concat (map fst demo_grad_runs)) 1 = 200 \<and> \<not> demo_fired (1, 1)"
proof -
  have fwd: "set (concat (map fst (rev demo_runs)))
      = (\<Union>cs \<in> set (substream_order 2 0 False demo_G). set (fst (run_receiver 2 0 False demo_G demo_ranks cs)))"
    by (simp add: demo_runs_def)
  have slot: "1 < length (h_recv demo_handle)" "0 \<le> h_recv demo_handle ! 1"
      "concat demo_dys ! (recv_tokens 0 demo_G ! nat (h_recv demo_handle ! 1)) = 200" by code_simp+
  have "grad_pool (\<lambda>_. - 9) (concat (map fst demo_grad_runs)) 1 = concat demo_dys ! (recv_tokens 0 demo_G ! nat (h_recv demo_handle ! 1))"
  proof (rule gradients_reach_slots [OF demo_routed demo_G_def _ _ fwd demo_handle_def _ _ _ _ _ slot(1,2) demo_grad_count,
        where fired = demo_fired])
    show "length (demo_dys ! s) = tokens_of demo_ranks s" if "s < length demo_ranks" for s
      using that by (auto simp: demo_dys_def demo_ranks_def less_Suc_eq)
    show "set (concat (map fst demo_grad_runs)) \<subseteq> (\<Union>cs \<in> set (substream_order 2 0 False demo_G).
        set (fst (run_grad_receiver 2 0 False demo_G demo_ranks demo_dys (h_slots demo_handle) cs)))"
      by (auto simp: demo_grad_runs_def demo_grad_run_def)
  qed (auto simp: demo_grad_runs_def demo_grad_run_def demo_dys_def demo_ranks_def comp_def)
  then show ?thesis using slot(3) by (simp add: demo_fired_def)
qed

end
