(* ===== verification/Layer_Backward.thy ===== *)
theory Layer_Backward
  imports Complex_Main Dispatch_Grads Layer_Reference Backward_Epilogue Recv_Pool
begin

text \<open>
  Backward as a whole, in exact arithmetic. \<open>StreamMoEFunc.backward\<close> of \<^verbatim>\<open>stream_moe.py\<close> ships \<open>dL_dy\<close> to the slots of forward
  (\<^theory_text>\<open>Dispatch_Grads\<close>), expands the pool or recomputes the pre-activation as the checkpoint level asks, runs
  \<open>kernel_y_bwd\<close> and \<open>kernel_a_bwd\<close>, combines, and computes both weight gradients with grouped GEMMs over each expert's
  run of slots. \<open>dswiglu\<close> is an argument. The lemmas turn each output, paired with a direction, into a sum over the
  slots of a rank.
\<close>

section \<open>The kernels of backward, per slot\<close>

definition linear_t :: "nat \<Rightarrow> 'f row \<Rightarrow> 'f matrix \<Rightarrow> 'f::comm_semiring_1 row" where
  \<comment> \<open>\<open>g @ w\<close> on rows of \<open>n\<close> columns\<close>
  "linear_t n g w = (\<lambda>i. \<Sum>j\<leftarrow>[0..<n]. g j * w j i)"

record 'f y_bwd_rows =
  yb_dswiglu :: "nat \<Rightarrow> 'f row"      \<comment> \<open>\<open>dL_dswiglu_in\<close>\<close>
  yb_postact :: "nat \<Rightarrow> 'f row"      \<comment> \<open>\<open>postact_a_for_dW2\<close>\<close>
  yb_dweight :: "nat \<Rightarrow> 'f"          \<comment> \<open>\<open>dL_dweight\<close>\<close>

definition y_bwd_unit :: "('f \<Rightarrow> 'f \<Rightarrow> 'f \<Rightarrow> 'f triple) \<Rightarrow> 'f option \<Rightarrow> 'f \<Rightarrow> 'f \<Rightarrow> 'f \<Rightarrow> 'f::comm_semiring_1 triple" where
  \<comment> \<open>the epilogue on one hidden unit: gate, up, incoming gradient, and the unit's keep scale under dropout\<close>
  "y_bwd_unit dsw keep x y g = (case keep of
     None \<Rightarrow> dsw x y g
   | Some d \<Rightarrow> (let t = dsw x y (g * d) in (dgate t, dup t, postact t * d)))"

text \<open>This is the register program of the epilogue at one register.\<close>

lemma lane_is_unit:
  "dswiglu_lane dsw dropout xy rD i = y_bwd_unit dsw (lane_mask dropout i) (fst (xy ! i)) (snd (xy ! i)) (rD ! i)"
  by (cases dropout) (simp_all add: dswiglu_lane_def y_bwd_unit_def lane_mask_def Let_def)

definition kernel_y_bwd_rows ::
  "'f layer \<Rightarrow> ('f \<Rightarrow> 'f \<Rightarrow> 'f \<Rightarrow> 'f triple) \<Rightarrow> ('f, 'f row) handle \<Rightarrow> (nat \<Rightarrow> 'f matrix) \<Rightarrow> (int \<Rightarrow> nat \<Rightarrow> 'f) option
    \<Rightarrow> (nat \<Rightarrow> 'f row) \<Rightarrow> (nat \<Rightarrow> 'f row) \<Rightarrow> 'f::comm_semiring_1 y_bwd_rows" where
  "kernel_y_bwd_rows L dsw h w2 keep preact dL_do =
     (let g = (\<lambda>s. linear_t (ly_H L) (dL_do s) (w2 (slot_expert (h_freq h) ! s)));
          t = (\<lambda>s i. if 0 \<le> h_recv h ! s
                 then y_bwd_unit dsw (map_option (\<lambda>f. f (int s) i) keep) (preact s (2 * i)) (preact s (2 * i + 1)) (g s i)
                 else (0, 0, 0));
          w = (!) (h_weight h)
      in \<lparr>yb_dswiglu = (\<lambda>s j. (if even j then dgate (t s (j div 2)) else dup (t s (j div 2))) * w s),
          yb_postact = (\<lambda>s i. postact (t s i) * w s),
          yb_dweight = (\<lambda>s. \<Sum>i\<leftarrow>[0..<ly_I L]. (if 0 \<le> h_recv h ! s then g s i else 0) * postact (t s i))\<rparr>)"

definition kernel_a_bwd_rows ::
  "'f layer \<Rightarrow> ('f, 'f row) handle \<Rightarrow> (nat \<Rightarrow> 'f matrix) \<Rightarrow> (nat \<Rightarrow> 'f row) \<Rightarrow> nat \<Rightarrow> 'f::comm_semiring_1 row" where
  \<comment> \<open>\<open>dL_dx_per_r\<close>: each real slot's data gradient added to its token\<close>
  "kernel_a_bwd_rows L h w1 dswiglu =
     (let real = filter ((!) (handle_mask h)) [0..<length (h_recv h)]
      in index_add (\<lambda>_ _. 0) (map (\<lambda>s. (nat (h_recv h ! s),
           linear_t (2 * ly_I L) (dswiglu s) (w1 (slot_expert (h_freq h) ! s)))) real))"

definition grouped_k :: "('w, 'r) handle \<Rightarrow> (nat \<Rightarrow> 'f row) \<Rightarrow> (nat \<Rightarrow> 'f row) \<Rightarrow> nat \<Rightarrow> 'f::comm_semiring_1 matrix" where
  \<comment> \<open>\<open>gemm\<close> over the slots of each expert: \<open>cu_seqlens_k\<close> is the block offset times \<open>tile_m\<close>, \<open>seqused_k\<close> the
      expert's frequency; nothing is launched, and the gradient zeroed, when there are no tiles\<close>
  "grouped_k h a b e = (\<lambda>m n. if h_tiles h = 0 then 0 else
     \<Sum>s\<leftarrow>[h_blocks h ! e * TILE_M..<h_blocks h ! e * TILE_M + h_freq h ! e]. a s m * b s n)"

section \<open>What backward starts from at each checkpoint level\<close>

definition preact_rows :: "'f layer \<Rightarrow> ('f, 'f row) handle \<Rightarrow> (nat \<Rightarrow> 'f matrix) \<Rightarrow> (nat \<Rightarrow> 'f row) \<Rightarrow> nat \<Rightarrow> 'f::comm_semiring_1 row" where
  \<comment> \<open>what kernel A stores at level 0, and the grouped GEMM recomputes at levels 1 and 2\<close>
  "preact_rows L h w1 pool = (\<lambda>s j. ly_bf16 L (MoE_Reference.linear (ly_H L) (pool s) (w1 (slot_expert (h_freq h) ! s)) j))"

definition bwd_pool :: "int \<Rightarrow> nat \<Rightarrow> nat \<Rightarrow> 'f memory \<times> 'f memory \<Rightarrow> ('f, 'f row) handle \<Rightarrow> nat \<Rightarrow> 'f::zero row" where
  \<comment> \<open>the saved pool; at level 2 it was compacted to the received tokens and is expanded again
    (exact offsets: the copies with 32-bit ones agree on what their wrapper accepts, \<^theory_text>\<open>Recv_Pool\<close>)\<close>
  "bwd_pool lv H block fresh h =
     (if lv = 2 then
        (let rows = length (h_recv h); grid = launch_grid rows H block; idx = (!) (h_recv h);
             x_recv = run_grid (copy_rows False H block idx (\<lambda>a. (h_pool h ! (a div H)) (a mod H))) grid (fst fresh);
             pool = run_grid (copy_rows True H block idx x_recv) grid (snd fresh)
         in (\<lambda>s c. pool (s * H + c)))
      else (!) (h_pool h))"

section \<open>One rank's backward, and the gradients\<close>

record 'f rank_grads =
  rg_dx :: "nat \<Rightarrow> 'f row"           \<comment> \<open>\<open>dL_dx_per_r\<close>\<close>
  rg_dweight :: "nat \<Rightarrow> 'f"
  rg_dW1 :: "nat \<Rightarrow> 'f matrix"
  rg_dW2 :: "nat \<Rightarrow> 'f matrix"

definition rank_backward ::
  "int \<Rightarrow> nat \<Rightarrow> 'f memory \<times> 'f memory \<Rightarrow> 'f layer \<Rightarrow> ('f \<Rightarrow> 'f \<Rightarrow> 'f \<Rightarrow> 'f triple) \<Rightarrow> ('f, 'f row) handle
    \<Rightarrow> (nat \<Rightarrow> 'f matrix) \<Rightarrow> (nat \<Rightarrow> 'f matrix) \<Rightarrow> (int \<Rightarrow> nat \<Rightarrow> 'f) option \<Rightarrow> (nat \<Rightarrow> 'f row) \<Rightarrow> 'f::comm_semiring_1 rank_grads" where
  "rank_backward lv block fresh L dsw h w1 w2 keep dL_do =
     (let pool = bwd_pool lv (ly_H L) block fresh h;
          preact = (if lv \<ge> 1 then preact_rows L h w1 pool else preact_rows L h w1 ((!) (h_pool h)));
          y = kernel_y_bwd_rows L dsw h w2 keep preact dL_do
      in \<lparr>rg_dx = kernel_a_bwd_rows L h w1 (yb_dswiglu y), rg_dweight = yb_dweight y,
          rg_dW1 = grouped_k h (yb_dswiglu y) pool, rg_dW2 = grouped_k h dL_do (yb_postact y)\<rparr>)"

definition combine_grads_x :: "nat \<Rightarrow> ('f, 'f row) global \<Rightarrow> (nat \<Rightarrow> 'f rank_grads) \<Rightarrow> 'f::comm_semiring_1 row list" where
  "combine_grads_x me G gs = to_sources me G (\<lambda>r. rg_dx (gs r))"

definition slot_weights :: "('f, 'r) handle \<Rightarrow> (nat \<Rightarrow> 'f) \<Rightarrow> nat \<Rightarrow> 'f::zero row" where
  \<comment> \<open>\<open>torch.where(slots >= 0, weight_grads[slots.clamp(min=0)], 0.0)\<close>\<close>
  "slot_weights h dweight = (\<lambda>q k. let slot = h_slots h ! q ! k in if 0 \<le> slot then dweight (nat slot) else 0)"

definition combine_grads_w ::
  "nat \<Rightarrow> ('f, 'f row) global \<Rightarrow> (nat \<Rightarrow> ('f, 'f row) handle) \<Rightarrow> (nat \<Rightarrow> 'f rank_grads) \<Rightarrow> 'f::comm_semiring_1 row list" where
  "combine_grads_w me G hs gs = to_sources me G (\<lambda>r. slot_weights (hs r) (rg_dweight (gs r)))"

section \<open>Sums over slots, tokens and choices\<close>

lemma sum_rotate:
  fixes f :: "'a \<Rightarrow> 'b \<Rightarrow> 'c \<Rightarrow> 'd::comm_monoid_add"
  shows "(\<Sum>i\<in>A. \<Sum>j\<in>B. \<Sum>s\<in>S. f i j s) = (\<Sum>s\<in>S. \<Sum>i\<in>A. \<Sum>j\<in>B. f i j s)"
proof -
  have "(\<Sum>j\<in>B. \<Sum>s\<in>S. f i j s) = (\<Sum>s\<in>S. \<Sum>j\<in>B. f i j s)" for i by (rule sum.swap)
  then show ?thesis by (simp only:) (rule sum.swap)
qed

context contract_met
begin

abbreviation "real_slots_at \<equiv> {s. s < length (h_recv h) \<and> 0 \<le> h_recv h ! s}"
abbreviation "slots_of_row q \<equiv> {s. s < length (h_recv h) \<and> h_recv h ! s = int q}"

lemma ids_bij: "bij_betw ((!) ids) {..<length ids} (set ids)"
  by (rule bij_betw_nth [OF recv_tokens_distinct refl refl])

lemma ids_below: "q < length ids \<Longrightarrow> ids ! q < length (g_x G)"
  using nth_mem [of q ids] same_rows by (simp add: recv_tokens_def del: nth_mem)

lemma slots_by_row:
  fixes f :: "nat \<Rightarrow> 'b::comm_monoid_add"
  shows "(\<Sum>s \<in> real_slots_at. f s) = (\<Sum>q<length ids. \<Sum>s \<in> slots_of_row q. f s)"
proof -
  have "(\<Sum>s \<in> real_slots_at. f s) = (\<Sum>q \<in> {..<length ids}. \<Sum>s \<in> {s \<in> real_slots_at. tok s = q}. f s)"
    using layout_facts(2) by (intro sum.group [symmetric]) auto
  also have "\<dots> = (\<Sum>q<length ids. \<Sum>s \<in> slots_of_row q. f s)" by (intro sum.cong refl) auto
  finally show ?thesis .
qed

lemma spread_sum:
  fixes f :: "nat \<Rightarrow> 'f"
  shows "(\<Sum>g<length (g_x G). spread r G per g c * f g) = (\<Sum>q<length ids. per q c * f (ids ! q))"
proof -
  have "(\<Sum>g<length (g_x G). spread r G per g c * f g) = (\<Sum>g \<in> set ids. spread r G per g c * f g)"
    using ids_below by (intro sum.mono_neutral_right) (auto simp: in_set_conv_nth spread_none)
  also have "\<dots> = (\<Sum>q<length ids. spread r G per (ids ! q) c * f (ids ! q))"
    by (rule sum.reindex_bij_betw [OF ids_bij, symmetric])
  also have "\<dots> = (\<Sum>q<length ids. per q c * f (ids ! q))" by (simp add: spread_at)
  finally show ?thesis .
qed

text \<open>Local choices of the tokens are slots.\<close>

lemma choices_are_slots:
  fixes f :: "nat \<Rightarrow> nat \<Rightarrow> 'b::comm_monoid_add"
  shows "(\<Sum>g<length (g_x G). \<Sum>k | k < width g \<and> 0 \<le> chosen g k. f g k) = (\<Sum>s \<in> real_slots_at. f (ids ! tok s) (sel s))"
proof -
  have none: "{k. k < width g \<and> 0 \<le> chosen g k} = {}" if "g < length (g_x G)" "g \<notin> set ids" for g
    using that same_rows by (auto simp: recv_tokens_def has_local_def list_ex_length)
  have "(\<Sum>g<length (g_x G). \<Sum>k | k < width g \<and> 0 \<le> chosen g k. f g k) = (\<Sum>g \<in> set ids. \<Sum>k | k < width g \<and> 0 \<le> chosen g k. f g k)"
    using ids_below by (intro sum.mono_neutral_right) (auto simp: in_set_conv_nth none simp del: Collect_empty_eq)
  also have "\<dots> = (\<Sum>q<length ids. \<Sum>k | k < width (ids ! q) \<and> 0 \<le> chosen (ids ! q) k. f (ids ! q) k)"
    by (rule sum.reindex_bij_betw [OF ids_bij, symmetric])
  also have "\<dots> = (\<Sum>q<length ids. \<Sum>s \<in> slots_of_row q. f (ids ! tok s) (sel s))"
  proof (rule sum.cong [OF refl])
    fix q assume "q \<in> {..<length ids}"
    then have "(\<Sum>s \<in> slots_of_row q. f (ids ! q) (sel s)) = (\<Sum>k | k < width (ids ! q) \<and> 0 \<le> chosen (ids ! q) k. f (ids ! q) k)"
      by (intro sum.reindex_bij_betw slots_of_token) simp
    then show "(\<Sum>k | k < width (ids ! q) \<and> 0 \<le> chosen (ids ! q) k. f (ids ! q) k) = (\<Sum>s \<in> slots_of_row q. f (ids ! tok s) (sel s))"
      by (auto intro: trans [OF sym] sum.cong)
  qed
  finally show ?thesis by (simp add: slots_by_row)
qed

text \<open>A choice that is not local has no slot.\<close>

lemma slots_none:
  assumes "q < length ids" "k < width (ids ! q)" "\<not> 0 \<le> chosen (ids ! q) k"
  shows "h_slots h ! q ! k = - 1"
  unfolding layout_facts(3)
proof (subst foldl_assign [where w = "- 1"])
  fix s assume s: "s \<in> set (filter (\<lambda>s. 0 \<le> h_recv h ! s) slots)"
  then show "tok s < length (map (map (\<lambda>_. - 1 :: int)) (map ((!) (local_topk r G)) ids)) \<and>
      sel s < length (map (map (\<lambda>_. - 1 :: int)) (map ((!) (local_topk r G)) ids) ! tok s)"
    using layout_facts(2) [of s] by simp
  assume "tok s = q" "sel s = k"
  then show "int s = - 1" using layout_facts(2) [of s] s assms(3) by auto
qed (use assms in auto)

lemma slot_weights_sum:
  assumes "q < length ids"
  shows "(\<Sum>k<width (ids ! q). slot_weights h dweight q k * f k) = (\<Sum>s \<in> slots_of_row q. dweight s * f (sel s))"
proof -
  let ?ks = "{k. k < width (ids ! q) \<and> 0 \<le> chosen (ids ! q) k}"
  have "(\<Sum>k<width (ids ! q). slot_weights h dweight q k * f k) = (\<Sum>k \<in> ?ks. slot_weights h dweight q k * f k)"
    using slots_none [OF assms] by (intro sum.mono_neutral_right) (auto simp: slot_weights_def)
  also have "\<dots> = (\<Sum>s \<in> slots_of_row q. slot_weights h dweight q (sel s) * f (sel s))"
    by (rule sum.reindex_bij_betw [OF slots_of_token [OF assms], symmetric])
  also have "\<dots> = (\<Sum>s \<in> slots_of_row q. dweight s * f (sel s))"
  proof (rule sum.cong [OF refl])
    fix s assume "s \<in> slots_of_row q"
    then show "slot_weights h dweight q (sel s) * f (sel s) = dweight s * f (sel s)"
      using slots_at_token [of s] by (simp add: slot_weights_def)
  qed
  finally show ?thesis .
qed

lemma kernel_a_bwd_sum:
  "kernel_a_bwd_rows L h w1 dswiglu q c
    = (\<Sum>s \<in> slots_of_row q. linear_t (2 * ly_I L) (dswiglu s) (w1 (slot_expert (h_freq h) ! s)) c)"
proof -
  let ?y = "\<lambda>s. linear_t (2 * ly_I L) (dswiglu s) (w1 (slot_expert (h_freq h) ! s))"
  have "kernel_a_bwd_rows L h w1 dswiglu q c = (\<Sum>s\<leftarrow>filter ((!) (handle_mask h)) slots. if tok s = q then ?y s c else 0)"
    by (simp add: kernel_a_bwd_rows_def Let_def index_add_sum comp_def)
  also have "\<dots> = (\<Sum>s | s < length (h_recv h) \<and> 0 \<le> h_recv h ! s \<and> tok s = q. ?y s c)"
    by (simp add: sum_list_distinct_conv_sum_set sum.inter_filter [symmetric] handle_mask_def)
      (intro sum.cong; auto simp: handle_mask_def)
  also have "\<dots> = (\<Sum>s \<in> slots_of_row q. ?y s c)" by (intro sum.cong) auto
  finally show ?thesis .
qed

text \<open>The two combined gradients, paired with a direction, are sums over the slots.\<close>

lemma combined_x:
  "(\<Sum>g<length (g_x G). spread r G (kernel_a_bwd_rows L h w1 dswiglu) g c * d g)
    = (\<Sum>s \<in> real_slots_at. linear_t (2 * ly_I L) (dswiglu s) (w1 (slot_expert (h_freq h) ! s)) c * d (ids ! tok s))"
  unfolding spread_sum slots_by_row kernel_a_bwd_sum sum_distrib_right by (intro sum.cong refl) simp

lemma combined_w:
  "(\<Sum>g<length (g_x G). \<Sum>k<width g. spread r G (slot_weights h dweight) g k * d g k)
    = (\<Sum>s \<in> real_slots_at. dweight s * d (ids ! tok s) (sel s))"
proof -
  have "(\<Sum>g<length (g_x G). \<Sum>k<width g. spread r G (slot_weights h dweight) g k * d g k)
      = (\<Sum>g \<in> set ids. \<Sum>k<width g. spread r G (slot_weights h dweight) g k * d g k)"
    using ids_below by (intro sum.mono_neutral_right) (auto simp: in_set_conv_nth spread_none)
  also have "\<dots> = (\<Sum>q<length ids. \<Sum>k<width (ids ! q). spread r G (slot_weights h dweight) (ids ! q) k * d (ids ! q) k)"
    by (rule sum.reindex_bij_betw [OF ids_bij, symmetric])
  also have "\<dots> = (\<Sum>q<length ids. \<Sum>s \<in> slots_of_row q. dweight s * d (ids ! q) (sel s))"
    by (rule sum.cong [OF refl]) (simp add: spread_at slot_weights_sum)
  also have "\<dots> = (\<Sum>s \<in> real_slots_at. dweight s * d (ids ! tok s) (sel s))"
    unfolding slots_by_row by (intro sum.cong refl) simp
  finally show ?thesis .
qed

text \<open>At every level backward reads the rows forward's dispatch left.\<close>

lemma bwd_pool_real:
  assumes "0 < block" "s \<in> real_slots_at" "c < H"
  shows "bwd_pool lv H block fresh h s c = (h_pool h ! s) c"
proof (cases "lv = 2")
  case True
  let ?rows = "length (h_recv h)" and ?flat = "\<lambda>a. (h_pool h ! (a div H)) (a mod H)"
  have flat: "?flat (s * H + c) = (h_pool h ! s) c" for s using assms(3) by simp
  have same: "?flat (s' * H + c) = ?flat (s * H + c)" if "s' < ?rows" "h_recv h ! s' = h_recv h ! s" for s'
    unfolding flat using layout_facts(2) [of s] layout_facts(2) [of s'] assms(2) that by simp
  have "run_grid (copy_rows False H block ((!) (h_recv h)) ?flat) (launch_grid ?rows H block) (fst fresh) (nat (h_recv h ! s) * H + c)
      = ?flat (s * H + c)"
  proof (rule scatter_value [OF refl assms(1,3), where pool = ?flat])
    show "s < ?rows" "0 \<le> h_recv h ! s" using assms(2) by simp_all
  qed (rule same)
  moreover have "bwd_pool lv H block fresh h s c = run_grid (copy_rows True H block ((!) (h_recv h))
      (run_grid (copy_rows False H block ((!) (h_recv h)) ?flat) (launch_grid ?rows H block) (fst fresh)))
      (launch_grid ?rows H block) (snd fresh) (s * H + c)"
    unfolding bwd_pool_def Let_def by (simp only: True if_True simp_thms)
  moreover have "s < ?rows" using assms(2) by simp
  ultimately show ?thesis using assms(2) by (simp only: gather_value [OF refl assms(1,3)] flat mem_Collect_eq if_True)
qed (simp add: bwd_pool_def)

end

section \<open>Each expert's slots are its run\<close>

context dispatching
begin

lemma real_sum_runs:
  fixes f :: "nat \<Rightarrow> 'b::comm_monoid_add"
  shows "(\<Sum>s \<in> set real_list. f s) = (\<Sum>e<E. \<Sum>s \<in> {start e..<start e + freq ! e}. f s)"
proof -
  have "(\<Sum>s \<in> set real_list. f s) = (\<Sum>s\<leftarrow>real_list. f s)"
    by (rule sum_list_distinct_conv_sum_set [OF real_list_sorted(2), symmetric])
  also have "\<dots> = (\<Sum>e\<leftarrow>[0..<E]. \<Sum>s\<leftarrow>[start e..<start e + freq ! e]. f s)"
    unfolding real_list_def by (induction E) simp_all
  finally show ?thesis by (simp add: interv_sum_list_conv_sum_set_nat atLeast0LessThan)
qed

lemma run_expert:
  assumes "e < E" "s \<in> {start e..<start e + freq ! e}"
  shows "slot_expert freq ! s = e"
proof -
  have "start e \<le> s" "s < start e + freq ! e" using assms(2) by simp_all
  from slot_onto [OF assms(1) this] obtain cs i k where "lands cs i k" "expert_of cs i k = e" "landed_slot cs i k = s" .
  then show ?thesis using slot_expert_real [of cs i k] by (simp add: slot_expert_def num_experts_def diff_blocks)
qed

lemma grouped_k_sum:
  fixes a b :: "nat \<Rightarrow> nat \<Rightarrow> 'b::comm_semiring_1"
  assumes m: "stored (fresh_mem junk K) m" and h: "h = dispatch_handle C me G m fs"
  shows "(\<Sum>e<E. \<Sum>i<M. \<Sum>j<N. grouped_k h a b e i j * d e i j)
    = (\<Sum>s | s < length (h_recv h) \<and> 0 \<le> h_recv h ! s. \<Sum>i<M. \<Sum>j<N. a s i * b s j * d (slot_expert (h_freq h) ! s) i j)"
proof -
  have f: "h_blocks h = block_offset freq" "h_freq h = freq" "h_tiles h = total_tiles freq" by (simp_all add: h dispatch_handle_def Let_def)
  have empty: "freq ! e = 0" if "total_tiles freq = 0" "e < E" for e using run_below [OF that(2)] that(1) by simp
  have "grouped_k h a b e i j = (\<Sum>s \<in> {start e..<start e + freq ! e}. a s i * b s j)" if "e < E" for e i j
    using empty [OF _ that] by (auto simp: grouped_k_def f interv_sum_list_conv_sum_set_nat)
  then have "(\<Sum>e<E. \<Sum>i<M. \<Sum>j<N. grouped_k h a b e i j * d e i j)
      = (\<Sum>e<E. \<Sum>i<M. \<Sum>j<N. \<Sum>s \<in> {start e..<start e + freq ! e}. a s i * b s j * d e i j)"
    by (simp add: sum_distrib_right)
  also have "\<dots> = (\<Sum>e<E. \<Sum>s \<in> {start e..<start e + freq ! e}. \<Sum>i<M. \<Sum>j<N. a s i * b s j * d e i j)"
    by (rule sum.cong [OF refl]) (rule sum_rotate)
  also have "\<dots> = (\<Sum>e<E. \<Sum>s \<in> {start e..<start e + freq ! e}. \<Sum>i<M. \<Sum>j<N. a s i * b s j * d (slot_expert freq ! s) i j)"
    using run_expert by (intro sum.cong refl) auto
  also have "\<dots> = (\<Sum>s \<in> set real_list. \<Sum>i<M. \<Sum>j<N. a s i * b s j * d (slot_expert freq ! s) i j)"
    by (rule real_sum_runs [symmetric])
  also have "set real_list = {s. s < length (h_recv h) \<and> 0 \<le> h_recv h ! s}"
    using handle_real [OF m h] by (metis (mono_tags, lifting) Collect_cong atLeastLessThan_iff le0 set_filter set_upt)
  finally show ?thesis by (simp add: f)
qed

end

end
