(* ===== verification/Layer_Gradient.thy ===== *)
theory Layer_Gradient
  imports Layer_Backward
begin

text \<open>
  The result of backward (\<^theory_text>\<open>Layer_Backward\<close>) is the gradient of the reference layer \<open>moe\<close>: the derivative of the loss
  along every direction in which \<open>x\<close>, the top-k weights and both weight tensors can be moved is that direction paired
  with the four outputs. Reals, without rounding; \<open>dswiglu\<close> returns the partial derivatives of the activation and the
  activation itself, as documented.
\<close>

section \<open>Moving the inputs\<close>

lemma sum_even_odd:
  fixes f :: "nat \<Rightarrow> 'a::comm_monoid_add"
  shows "(\<Sum>j<2 * n. f j) = (\<Sum>i<n. f (2 * i) + f (2 * i + 1))"
  by (induction n) (simp_all add: ac_simps)

lemma slot_gradient:
  fixes actf dactf :: "real \<Rightarrow> real" and x dx dy :: "nat \<Rightarrow> real" and W1 D1 W2 D2 :: "nat \<Rightarrow> nat \<Rightarrow> real"
    and m :: "nat \<Rightarrow> real" and w dw :: real and H I :: nat
  assumes actf: "\<And>v. (actf has_real_derivative dactf v) (at v)"
  defines "u \<equiv> \<lambda>t j. \<Sum>h<H. (x h + t * dx h) * (W1 j h + t * D1 j h)"
  defines "a \<equiv> \<lambda>i. actf (u 0 (2 * i)) * u 0 (2 * i + 1) * m i" and "g \<equiv> \<lambda>i. \<Sum>c<H. dy c * W2 c i"
  defines "ds \<equiv> \<lambda>j. w * m (j div 2) * g (j div 2) *
      (if even j then dactf (u 0 j) * u 0 (j + 1) else actf (u 0 (j - 1)))"
  shows "((\<lambda>t. \<Sum>c<H. dy c * ((w + t * dw) * (\<Sum>i<I. actf (u t (2 * i)) * u t (2 * i + 1) * m i * (W2 c i + t * D2 c i))))
    has_real_derivative (\<Sum>i<I. a i * g i) * dw + (\<Sum>j<2 * I. ds j * (\<Sum>h<H. dx h * W1 j h + x h * D1 j h))
      + (\<Sum>c<H. \<Sum>i<I. dy c * (w * a i) * D2 c i)) (at 0)"
proof -
  define u' where "u' = (\<lambda>j. \<Sum>h<H. dx h * W1 j h + x h * D1 j h)"
  define a' where "a' = (\<lambda>i. (dactf (u 0 (2 * i)) * u' (2 * i) * u 0 (2 * i + 1) + actf (u 0 (2 * i)) * u' (2 * i + 1)) * m i)"
  have u: "((\<lambda>t. u t j) has_real_derivative u' j) (at 0)" for j
    unfolding u_def u'_def by (auto intro!: derivative_eq_intros sum.cong simp: algebra_simps)
  have s: "((\<lambda>t. actf (u t j)) has_real_derivative dactf (u 0 j) * u' j) (at 0)" for j
    by (rule DERIV_chain2 [OF actf u])
  define A where "A = (\<lambda>t i. actf (u t (2 * i)) * u t (2 * i + 1) * m i)"
  have A0: "A 0 i = a i" for i by (simp add: A_def a_def)
  have "((\<lambda>t. A t i) has_real_derivative a' i) (at 0)" for i
    unfolding A_def a'_def by (rule derivative_eq_intros s u refl)+ (simp add: algebra_simps)
  then have "((\<lambda>t. A t i * (W2 c i + t * D2 c i)) has_real_derivative a' i * W2 c i + a i * D2 c i) (at 0)" for c i
    by (auto intro!: derivative_eq_intros simp: A0 algebra_simps)
  from DERIV_sum [OF this] have inner: "((\<lambda>t. \<Sum>i<I. A t i * (W2 c i + t * D2 c i))
      has_real_derivative (\<Sum>i<I. a' i * W2 c i + a i * D2 c i)) (at 0)" for c .
  have "((\<lambda>t. dy c * ((w + t * dw) * (\<Sum>i<I. A t i * (W2 c i + t * D2 c i))))
      has_real_derivative dy c * (dw * (\<Sum>i<I. a i * W2 c i) + w * (\<Sum>i<I. a' i * W2 c i + a i * D2 c i))) (at 0)" for c
    by (rule derivative_eq_intros inner refl)+ (simp add: A0 algebra_simps)
  from DERIV_sum [OF this, of _ "{..<H}"]
  have "((\<lambda>t. \<Sum>c<H. dy c * ((w + t * dw) * (\<Sum>i<I. actf (u t (2 * i)) * u t (2 * i + 1) * m i * (W2 c i + t * D2 c i))))
      has_real_derivative (\<Sum>c<H. dy c * (dw * (\<Sum>i<I. a i * W2 c i) + w * (\<Sum>i<I. a' i * W2 c i + a i * D2 c i)))) (at 0)"
    unfolding A_def .
  moreover have "(\<Sum>c<H. dy c * (dw * (\<Sum>i<I. a i * W2 c i) + w * (\<Sum>i<I. a' i * W2 c i + a i * D2 c i)))
      = (\<Sum>i<I. a i * g i) * dw + (\<Sum>i<I. w * a' i * g i) + (\<Sum>c<H. \<Sum>i<I. dy c * (w * a i) * D2 c i)"
  proof -
    have "(\<Sum>i<I. a i * g i) = (\<Sum>c<H. \<Sum>i<I. dy c * a i * W2 c i)"
      unfolding g_def sum_distrib_left by (subst sum.swap) (simp add: ac_simps)
    moreover have "(\<Sum>i<I. w * a' i * g i) = (\<Sum>c<H. \<Sum>i<I. w * dy c * a' i * W2 c i)"
      unfolding g_def sum_distrib_left by (subst sum.swap) (simp add: ac_simps)
    ultimately show ?thesis
      by (simp add: sum_distrib_left sum_distrib_right sum.distrib [symmetric] distrib_left ac_simps)
  qed
  moreover have "(\<Sum>j<2 * I. ds j * u' j) = (\<Sum>i<I. w * a' i * g i)"
    unfolding sum_even_odd by (intro sum.cong refl) (simp add: ds_def a'_def algebra_simps)
  ultimately show ?thesis by (simp add: u'_def)
qed

definition nudge :: "real \<Rightarrow> (nat \<Rightarrow> real row) \<Rightarrow> (nat \<Rightarrow> real row) \<Rightarrow> (real, real row) global \<Rightarrow> (real, real row) global" where
  "nudge t dx dw G = G\<lparr>g_x := map (\<lambda>g h. (g_x G ! g) h + t * dx g h) [0..<length (g_x G)],
     g_topk_weights := map (\<lambda>g. map (\<lambda>k. g_topk_weights G ! g ! k + t * dw g k) [0..<length (g_topk_weights G ! g)])
       [0..<length (g_topk_weights G)]\<rparr>"

lemma nudge_routing [simp]:
  "g_topk_idx (nudge t dx dw G) = g_topk_idx G" "length (g_x (nudge t dx dw G)) = length (g_x G)"
  "num_local_experts (nudge t dx dw G) = num_local_experts G" "local_topk r (nudge t dx dw G) = local_topk r G"
  "recv_tokens r (nudge t dx dw G) = recv_tokens r G" "recv_index r (nudge t dx dw G) = recv_index r G"
  "g_offsets (nudge t dx dw G) = g_offsets G" "g_world (nudge t dx dw G) = g_world G"
proof -
  show l: "local_topk r (nudge t dx dw G) = local_topk r G"
    by (simp add: nudge_def local_topk_def expert_lo_def num_local_experts_def)
  show i: "g_topk_idx (nudge t dx dw G) = g_topk_idx G" and x: "length (g_x (nudge t dx dw G)) = length (g_x G)"
    by (simp_all add: nudge_def)
  show v: "recv_tokens r (nudge t dx dw G) = recv_tokens r G" by (simp add: recv_tokens_def l i)
  show "recv_index r (nudge t dx dw G) = recv_index r G" by (simp add: recv_index_def v x)
qed (simp_all add: nudge_def num_local_experts_def)

lemma nudge_at:
  "g < length (g_x G) \<Longrightarrow> g_x (nudge t dx dw G) ! g = (\<lambda>h. (g_x G ! g) h + t * dx g h)"
  "g < length (g_topk_weights G) \<Longrightarrow> k < length (g_topk_weights G ! g) \<Longrightarrow>
    g_topk_weights (nudge t dx dw G) ! g ! k = g_topk_weights G ! g ! k + t * dw g k"
  by (simp_all add: nudge_def)

section \<open>One rank's share of the derivative\<close>

lemma linear_sum: "MoE_Reference.linear n x w j = (\<Sum>i<n. x i * w j i)"
  by (simp add: MoE_Reference.linear_def interv_sum_list_conv_sum_set_nat atLeast0LessThan)

lemma linear_t_sum: "linear_t n g w i = (\<Sum>j<n. g j * w j i)"
  by (simp add: linear_t_def interv_sum_list_conv_sum_set_nat atLeast0LessThan)

text \<open>What quack's \<open>dswiglu\<close> is documented to return determines it.\<close>

definition dswiglu_of :: "(real \<Rightarrow> real) \<Rightarrow> (real \<Rightarrow> real \<Rightarrow> real \<Rightarrow> real triple) \<Rightarrow> bool" where
  "dswiglu_of actf dsw \<longleftrightarrow> (\<forall>x y g. ((\<lambda>x. actf x * y * g) has_real_derivative dgate (dsw x y g)) (at x) \<and>
     ((\<lambda>y. actf x * y * g) has_real_derivative dup (dsw x y g)) (at y) \<and> postact (dsw x y g) = actf x * y)"

lemma dswiglu_form:
  assumes "dswiglu_of actf dsw"
  defines "dactf \<equiv> \<lambda>v. dgate (dsw v 1 1)"
  shows "(actf has_real_derivative dactf v) (at v)" "dsw x y g = (dactf x * y * g, actf x * g, actf x * y)"
proof -
  have d: "(actf has_real_derivative dactf v) (at v)" for v
    using assms(1) [unfolded dswiglu_of_def, rule_format, of 1 1 v] by (simp add: dactf_def)
  then show "(actf has_real_derivative dactf v) (at v)" .
  note at = assms(1) [unfolded dswiglu_of_def, rule_format, of y g x]
  have "((\<lambda>x. actf x * y * g) has_real_derivative dactf x * y * g) (at x)"
    using DERIV_cmult_right [OF DERIV_cmult_right [OF d]] by simp
  then have "dgate (dsw x y g) = dactf x * y * g" using at by (blast intro: DERIV_unique)
  moreover have "((\<lambda>y. actf x * y * g) has_real_derivative actf x * g) (at y)"
    by (auto intro!: derivative_eq_intros)
  then have "dup (dsw x y g) = actf x * g"
    using assms(1) [unfolded dswiglu_of_def, rule_format, of y g x] by (blast intro: DERIV_unique)
  moreover have "postact (dsw x y g) = actf x * y" using at by blast
  ultimately show "dsw x y g = (dactf x * y * g, actf x * g, actf x * y)" by (metis prod.collapse)
qed

definition keep_at :: "(int \<Rightarrow> nat \<Rightarrow> real) option \<Rightarrow> nat \<Rightarrow> nat \<Rightarrow> real" where
  "keep_at keep s i = (case keep of None \<Rightarrow> 1 | Some f \<Rightarrow> f (int s) i)"

lemma y_bwd_unit_form:
  assumes "dswiglu_of actf dsw"
  shows "y_bwd_unit dsw (map_option (\<lambda>f. f (int s) i) keep) x y g
    = (dgate (dsw x 1 1) * y * (g * keep_at keep s i), actf x * (g * keep_at keep s i), actf x * y * keep_at keep s i)"
  using dswiglu_form(2) [OF assms, of x y] by (cases keep) (simp_all add: y_bwd_unit_def keep_at_def Let_def)

lemma y_bwd_at:
  fixes h :: "(real, real row) handle" and dL preact :: "nat \<Rightarrow> real row" and w2 :: "nat \<Rightarrow> real matrix" and keep
  assumes "dswiglu_of (ly_silu L) dsw" "0 \<le> h_recv h ! s"
  defines "Y \<equiv> kernel_y_bwd_rows L dsw h w2 keep preact dL"
    and "g \<equiv> \<lambda>i. \<Sum>c<ly_H L. dL s c * w2 (slot_expert (h_freq h) ! s) c i" and "w \<equiv> h_weight h ! s"
    and "a \<equiv> \<lambda>i. ly_silu L (preact s (2 * i)) * preact s (2 * i + 1) * keep_at keep s i"
  shows "yb_postact Y s i = w * a i" "yb_dweight Y s = (\<Sum>i<ly_I L. a i * g i)"
    "yb_dswiglu Y s j = w * keep_at keep s (j div 2) * g (j div 2) *
       (if even j then dgate (dsw (preact s j) 1 1) * preact s (j + 1) else ly_silu L (preact s (j - 1)))"
proof -
  show "yb_postact Y s i = w * a i"
    by (simp add: Y_def kernel_y_bwd_rows_def Let_def assms(2) y_bwd_unit_form [OF assms(1)] w_def a_def)
  show "yb_dweight Y s = (\<Sum>i<ly_I L. a i * g i)"
    unfolding Y_def kernel_y_bwd_rows_def Let_def y_bwd_rows.simps interv_sum_list_conv_sum_set_nat atLeast0LessThan linear_t_sum
    by (simp add: assms(2) y_bwd_unit_form [OF assms(1)] g_def a_def mult.commute atLeast0LessThan)
  show "yb_dswiglu Y s j = w * keep_at keep s (j div 2) * g (j div 2) *
       (if even j then dgate (dsw (preact s j) 1 1) * preact s (j + 1) else ly_silu L (preact s (j - 1)))"
    by (auto simp: Y_def kernel_y_bwd_rows_def Let_def assms(2) y_bwd_unit_form [OF assms(1)] g_def w_def linear_t_sum)
qed

text \<open>The reference's share of a rank, moved along a direction, as a sum over the rank's slots.\<close>

definition moved_unit :: "real layer \<Rightarrow> real row \<Rightarrow> real row \<Rightarrow> real matrix \<Rightarrow> real matrix \<Rightarrow> real \<Rightarrow> nat \<Rightarrow> real" where
  "moved_unit L x dx w d t j = (\<Sum>i<ly_H L. (x i + t * dx i) * (w j i + t * d j i))"

lemma moved_contrib:
  fixes h :: "(real, real row) handle"
  assumes met: "contract_met r G h" and bf16: "ly_bf16 L = (\<lambda>v. v)"
    and wts: "length (g_topk_weights G) = length (g_x G)" "\<And>g. g < length (g_x G) \<Longrightarrow> length (g_topk_weights G ! g) = length (local_topk r G ! g)"
    and s: "s < length (h_recv h)" "0 \<le> h_recv h ! s"
  defines "g \<equiv> recv_tokens r G ! nat (h_recv h ! s)" and "k \<equiv> nat (h_k h ! s)" and "e \<equiv> slot_expert (h_freq h) ! s"
  shows "token_contrib L r (nudge t dx dw G) (\<lambda>e j i. w1 e j i + t * d1 e j i) (\<lambda>e j i. w2 e j i + t * d2 e j i) (dropout_of h keep)
      g k (nat (local_topk r G ! g ! k)) c
    = (h_weight h ! s + t * dw g k) * (\<Sum>i<ly_I L. ly_silu L (moved_unit L (h_pool h ! s) (dx g) (w1 e) (d1 e) t (2 * i)) *
        moved_unit L (h_pool h ! s) (dx g) (w1 e) (d1 e) t (2 * i + 1) * keep_at keep s i * (w2 e c i + t * d2 e c i))"
proof -
  note f = contract_met.layout_facts(2) [OF met s, folded g_def k_def e_def]
    and slot = contract_met.slots_at_token [OF met s, folded k_def]
  have len: "length (g_topk_idx G) = length (g_x G)" by (rule contract_met.same_rows [OF met])
  have g: "g < length (g_x G)" using contract_met.ids_below [OF met] f by (simp add: g_def)
  have x: "g_x (nudge t dx dw G) ! g = (\<lambda>i. (h_pool h ! s) i + t * dx g i)" using f by (simp add: nudge_at g)
  have w: "g_topk_weights (nudge t dx dw G) ! g ! k = h_weight h ! s + t * dw g k" using f wts g by (simp add: nudge_at)
  have "recv_index r G ! g = int (nat (h_recv h ! s))" using recv_index_at [OF _ len] f by (simp add: g_def)
  then have "h_slots h ! nat (recv_index r G ! g) ! k = int s" using slot s(2) by simp
  then show ?thesis using f
    by (cases keep) (simp_all add: token_contrib_def dropout_of_def x w bf16 linear_sum swiglu_def moved_unit_def keep_at_def Let_def)
qed

text \<open>What a slot adds to the loss moves as the kernels of backward say.\<close>

lemma slot_derivative:
  fixes h :: "(real, real row) handle" and preact dL :: "nat \<Rightarrow> real row" and w1 w2 d1 d2 :: "nat \<Rightarrow> real matrix" and keep
  assumes dsw: "dswiglu_of (ly_silu L) dsw" and s: "0 \<le> h_recv h ! s"
    and preact: "\<And>j. preact s j = (\<Sum>i<ly_H L. (h_pool h ! s) i * w1 e j i)" and e: "e = slot_expert (h_freq h) ! s"
  defines "Y \<equiv> kernel_y_bwd_rows L dsw h w2 keep preact dL"
  shows "((\<lambda>t. \<Sum>c<ly_H L. dL s c * ((h_weight h ! s + t * dw) *
        (\<Sum>i<ly_I L. ly_silu L (moved_unit L (h_pool h ! s) dx (w1 e) (d1 e) t (2 * i)) *
          moved_unit L (h_pool h ! s) dx (w1 e) (d1 e) t (2 * i + 1) * keep_at keep s i * (w2 e c i + t * d2 e c i))))
    has_real_derivative yb_dweight Y s * dw
      + (\<Sum>j<2 * ly_I L. yb_dswiglu Y s j * (\<Sum>i<ly_H L. dx i * w1 e j i + (h_pool h ! s) i * d1 e j i))
      + (\<Sum>c<ly_H L. \<Sum>i<ly_I L. dL s c * yb_postact Y s i * d2 e c i)) (at 0)"
proof -
  note Y = y_bwd_at [OF dsw s, of w2 keep preact dL, folded Y_def e]
  have u: "(\<Sum>i<ly_H L. ((h_pool h ! s) i + 0 * dx i) * (w1 e j i + 0 * d1 e j i)) = preact s j" for j
    by (simp add: preact)
  show ?thesis
    using slot_gradient [OF dswiglu_form(1) [OF dsw], where x = "h_pool h ! s" and dx = dx and dy = "dL s" and ?W1.0 = "w1 e"
        and ?D1.0 = "d1 e" and ?W2.0 = "w2 e" and ?D2.0 = "d2 e" and m = "keep_at keep s" and w = "h_weight h ! s" and dw = dw
        and H = "ly_H L" and I = "ly_I L"]
    unfolding u moved_unit_def Y .
qed

lemma rank_derivative:
  fixes h :: "(real, real row) handle" and G and dL dy :: "nat \<Rightarrow> real row" and w1 w2 d1 d2 :: "nat \<Rightarrow> real matrix" and keep lv block fresh
  assumes met: "contract_met r G h" and bf16: "ly_bf16 L = (\<lambda>v. v)" and dsw: "dswiglu_of (ly_silu L) dsw" and block: "0 < block"
    and wts: "length (g_topk_weights G) = length (g_x G)" "\<And>g. g < length (g_x G) \<Longrightarrow> length (g_topk_weights G ! g) = length (local_topk r G ! g)"
    and dL: "\<And>s. s < length (h_recv h) \<Longrightarrow> 0 \<le> h_recv h ! s \<Longrightarrow> dL s = dy (recv_tokens r G ! nat (h_recv h ! s))"
    and runs: "\<And>a b (D :: nat \<Rightarrow> nat \<Rightarrow> nat \<Rightarrow> real) M N. (\<Sum>e<num_local_experts G. \<Sum>i<M. \<Sum>j<N. grouped_k h a b e i j * D e i j)
      = (\<Sum>s | s < length (h_recv h) \<and> 0 \<le> h_recv h ! s. \<Sum>i<M. \<Sum>j<N. a s i * b s j * D (slot_expert (h_freq h) ! s) i j)"
  defines "B \<equiv> rank_backward lv block fresh L dsw h w1 w2 keep dL"
  shows "((\<lambda>t. \<Sum>g<length (g_x G). \<Sum>c<ly_H L. dy g c * moe_partial L r (nudge t dx dw G)
        (\<lambda>e j i. w1 e j i + t * d1 e j i) (\<lambda>e j i. w2 e j i + t * d2 e j i) (dropout_of h keep) g c)
    has_real_derivative (\<Sum>g<length (g_x G). \<Sum>c<ly_H L. spread r G (rg_dx B) g c * dx g c)
      + (\<Sum>g<length (g_x G). \<Sum>k<length (local_topk r G ! g). spread r G (slot_weights h (rg_dweight B)) g k * dw g k)
      + (\<Sum>e<num_local_experts G. \<Sum>j<2 * ly_I L. \<Sum>i<ly_H L. rg_dW1 B e j i * d1 e j i)
      + (\<Sum>e<num_local_experts G. \<Sum>c<ly_H L. \<Sum>i<ly_I L. rg_dW2 B e c i * d2 e c i)) (at 0)"
proof -
  let ?S = "{s. s < length (h_recv h) \<and> 0 \<le> h_recv h ! s}"
  define gs ks es where "gs = (\<lambda>s. recv_tokens r G ! nat (h_recv h ! s))" and "ks = (\<lambda>s. nat (h_k h ! s))"
    and "es = (\<lambda>s. slot_expert (h_freq h) ! s)"
  define pool where "pool = bwd_pool lv (ly_H L) block fresh h"
  define preact where "preact = (if lv \<ge> 1 then preact_rows L h w1 pool else preact_rows L h w1 ((!) (h_pool h)))"
  define Y where "Y = kernel_y_bwd_rows L dsw h w2 keep preact dL"
  have B: "rg_dx B = kernel_a_bwd_rows L h w1 (yb_dswiglu Y)" "rg_dweight B = yb_dweight Y"
    "rg_dW1 B = grouped_k h (yb_dswiglu Y) pool" "rg_dW2 B = grouped_k h dL (yb_postact Y)"
    by (simp_all add: B_def rank_backward_def Let_def Y_def preact_def pool_def)
  have row: "pool s i = (h_pool h ! s) i" if "s \<in> ?S" "i < ly_H L" for s i
    using contract_met.bwd_pool_real [OF met block that] by (simp add: pool_def)
  have pre: "preact s j = (\<Sum>i<ly_H L. (h_pool h ! s) i * w1 (es s) j i)" if "s \<in> ?S" for s j
    using row [OF that] by (simp add: preact_def preact_rows_def bf16 linear_sum es_def)
  define \<phi> where "\<phi> = (\<lambda>s t. \<Sum>c<ly_H L. dL s c * ((h_weight h ! s + t * dw (gs s) (ks s)) *
        (\<Sum>i<ly_I L. ly_silu L (moved_unit L (h_pool h ! s) (dx (gs s)) (w1 (es s)) (d1 (es s)) t (2 * i)) *
          moved_unit L (h_pool h ! s) (dx (gs s)) (w1 (es s)) (d1 (es s)) t (2 * i + 1) * keep_at keep s i * (w2 (es s) c i + t * d2 (es s) c i))))"
  have loss: "(\<Sum>g<length (g_x G). \<Sum>c<ly_H L. dy g c * moe_partial L r (nudge t dx dw G)
        (\<lambda>e j i. w1 e j i + t * d1 e j i) (\<lambda>e j i. w2 e j i + t * d2 e j i) (dropout_of h keep) g c) = (\<Sum>s \<in> ?S. \<phi> s t)" for t
  proof -
    let ?tc = "\<lambda>g k. token_contrib L r (nudge t dx dw G) (\<lambda>e j i. w1 e j i + t * d1 e j i) (\<lambda>e j i. w2 e j i + t * d2 e j i)
      (dropout_of h keep) g k (nat (local_topk r G ! g ! k))"
    have "(\<Sum>g<length (g_x G). \<Sum>c<ly_H L. dy g c * moe_partial L r (nudge t dx dw G)
          (\<lambda>e j i. w1 e j i + t * d1 e j i) (\<lambda>e j i. w2 e j i + t * d2 e j i) (dropout_of h keep) g c)
        = (\<Sum>g<length (g_x G). \<Sum>c<ly_H L. \<Sum>k | k < length (local_topk r G ! g) \<and> 0 \<le> local_topk r G ! g ! k. dy g c * ?tc g k c)"
      using contract_met.same_rows [OF met] contract_met.experts [OF met]
      by (simp add: moe_partial_sum sum_distrib_left)
    also have "\<dots> = (\<Sum>g<length (g_x G). \<Sum>k | k < length (local_topk r G ! g) \<and> 0 \<le> local_topk r G ! g ! k. \<Sum>c<ly_H L. dy g c * ?tc g k c)"
      by (rule sum.cong [OF refl]) (rule sum.swap)
    also have "\<dots> = (\<Sum>s \<in> ?S. \<Sum>c<ly_H L. dy (gs s) c * ?tc (gs s) (ks s) c)"
      unfolding gs_def ks_def by (rule contract_met.choices_are_slots [OF met])
    also have "\<dots> = (\<Sum>s \<in> ?S. \<phi> s t)"
      using moved_contrib [OF met bf16 wts] dL
      by (intro sum.cong refl) (simp add: \<phi>_def gs_def ks_def es_def)
    finally show ?thesis .
  qed
  have "((\<lambda>t. \<Sum>s \<in> ?S. \<phi> s t) has_real_derivative (\<Sum>s \<in> ?S. yb_dweight Y s * dw (gs s) (ks s)
      + (\<Sum>j<2 * ly_I L. yb_dswiglu Y s j * (\<Sum>i<ly_H L. dx (gs s) i * w1 (es s) j i + (h_pool h ! s) i * d1 (es s) j i))
      + (\<Sum>c<ly_H L. \<Sum>i<ly_I L. dL s c * yb_postact Y s i * d2 (es s) c i))) (at 0)"
    unfolding \<phi>_def Y_def
    by (rule DERIV_sum) (rule slot_derivative [OF dsw], use pre in \<open>simp_all add: es_def\<close>)
  moreover have "(\<Sum>s \<in> ?S. yb_dweight Y s * dw (gs s) (ks s)
      + (\<Sum>j<2 * ly_I L. yb_dswiglu Y s j * (\<Sum>i<ly_H L. dx (gs s) i * w1 (es s) j i + (h_pool h ! s) i * d1 (es s) j i))
      + (\<Sum>c<ly_H L. \<Sum>i<ly_I L. dL s c * yb_postact Y s i * d2 (es s) c i))
      = (\<Sum>s \<in> ?S. yb_dweight Y s * dw (gs s) (ks s))
      + (\<Sum>s \<in> ?S. \<Sum>i<ly_H L. linear_t (2 * ly_I L) (yb_dswiglu Y s) (w1 (es s)) i * dx (gs s) i)
      + (\<Sum>s \<in> ?S. \<Sum>j<2 * ly_I L. \<Sum>i<ly_H L. yb_dswiglu Y s j * pool s i * d1 (es s) j i)
      + (\<Sum>s \<in> ?S. \<Sum>c<ly_H L. \<Sum>i<ly_I L. dL s c * yb_postact Y s i * d2 (es s) c i)"
  proof -
    have "(\<Sum>j<2 * ly_I L. yb_dswiglu Y s j * (\<Sum>i<ly_H L. dx (gs s) i * w1 (es s) j i + (h_pool h ! s) i * d1 (es s) j i))
      = (\<Sum>i<ly_H L. linear_t (2 * ly_I L) (yb_dswiglu Y s) (w1 (es s)) i * dx (gs s) i)
      + (\<Sum>j<2 * ly_I L. \<Sum>i<ly_H L. yb_dswiglu Y s j * pool s i * d1 (es s) j i)" if "s \<in> ?S" for s
    proof -
      have "(\<Sum>i<ly_H L. linear_t (2 * ly_I L) (yb_dswiglu Y s) (w1 (es s)) i * dx (gs s) i)
          = (\<Sum>j<2 * ly_I L. \<Sum>i<ly_H L. yb_dswiglu Y s j * w1 (es s) j i * dx (gs s) i)"
        unfolding linear_t_sum sum_distrib_right by (rule sum.swap)
      then show ?thesis using row [OF that] by (simp add: sum_distrib_left sum.distrib [symmetric] algebra_simps)
    qed
    then show ?thesis by (simp add: sum.distrib)
  qed
  moreover have "(\<Sum>s \<in> ?S. yb_dweight Y s * dw (gs s) (ks s))
      = (\<Sum>g<length (g_x G). \<Sum>k<length (local_topk r G ! g). spread r G (slot_weights h (rg_dweight B)) g k * dw g k)"
    unfolding B gs_def ks_def by (rule contract_met.combined_w [OF met, symmetric])
  moreover have "(\<Sum>s \<in> ?S. \<Sum>i<ly_H L. linear_t (2 * ly_I L) (yb_dswiglu Y s) (w1 (es s)) i * dx (gs s) i)
      = (\<Sum>g<length (g_x G). \<Sum>c<ly_H L. spread r G (rg_dx B) g c * dx g c)"
  proof -
    have "(\<Sum>g<length (g_x G). \<Sum>c<ly_H L. spread r G (rg_dx B) g c * dx g c) = (\<Sum>c<ly_H L. \<Sum>g<length (g_x G). spread r G (rg_dx B) g c * dx g c)"
      by (rule sum.swap)
    also have "\<dots> = (\<Sum>c<ly_H L. \<Sum>s \<in> ?S. linear_t (2 * ly_I L) (yb_dswiglu Y s) (w1 (es s)) c * dx (gs s) c)"
      unfolding B gs_def es_def by (rule sum.cong [OF refl]) (rule contract_met.combined_x [OF met])
    also have "\<dots> = (\<Sum>s \<in> ?S. \<Sum>i<ly_H L. linear_t (2 * ly_I L) (yb_dswiglu Y s) (w1 (es s)) i * dx (gs s) i)"
      by (rule sum.swap)
    finally show ?thesis by (rule sym)
  qed
  ultimately show ?thesis
    unfolding loss by (simp only: B(3,4) runs es_def [symmetric] es_def [symmetric, THEN fun_cong] add.commute add.left_commute)
qed

end
