(* ===== verification/Gradient_Ranks.thy ===== *)
theory Gradient_Ranks
  imports Layer_Gradient
begin

text \<open>
  Backward on all ranks: the loss of the reference layer, moved along a direction that gives every rank its own change of
  \<open>x\<close>, of the top-k weights and of both weight tensors, is the sum of the ranks' shares (\<^theory_text>\<open>Layer_Gradient\<close>), and each
  rank reads the gradient \<open>dispatch_grads\<close> put at its slots (\<^theory_text>\<open>Dispatch_Grads\<close>). The theorem at the end goes from what
  the ranks pass to what backward returns.
\<close>

section \<open>All ranks\<close>

definition at_token :: "('r list \<times> 'f routing) list \<Rightarrow> (nat \<Rightarrow> nat \<Rightarrow> 'a) \<Rightarrow> nat \<Rightarrow> 'a" where
  \<comment> \<open>a value per rank and token, read at a token of the concatenation\<close>
  "at_token ranks f g = concat (map (\<lambda>s. map (f s) [0..<tokens_of ranks s]) [0..<length ranks]) ! g"

definition nudge_ranks :: "real \<Rightarrow> (nat \<Rightarrow> nat \<Rightarrow> real row) \<Rightarrow> (nat \<Rightarrow> nat \<Rightarrow> real row)
    \<Rightarrow> (real row list \<times> real routing) list \<Rightarrow> (real row list \<times> real routing) list" where
  \<comment> \<open>every rank's \<open>x\<close> and top-k weights moved by \<open>t\<close> along a direction\<close>
  "nudge_ranks t dx dw ranks = map (\<lambda>s. case ranks ! s of (x, r) \<Rightarrow>
     (map (\<lambda>i h. (x ! i) h + t * dx s i h) [0..<length x],
      r\<lparr>rt_topk_weights := map (\<lambda>i. map (\<lambda>k. rt_topk_weights r ! i ! k + t * dw s i k) [0..<length (rt_topk_weights r ! i)])
          [0..<length (rt_topk_weights r)]\<rparr>)) [0..<length ranks]"

definition layer_loss :: "real layer \<Rightarrow> real row list list \<Rightarrow> (real, real row) global \<Rightarrow> (nat \<Rightarrow> nat \<Rightarrow> real matrix)
    \<Rightarrow> (nat \<Rightarrow> nat \<Rightarrow> real matrix) \<Rightarrow> (nat \<Rightarrow> real dropout option) \<Rightarrow> real" where
  \<comment> \<open>the loss whose gradient in the output is \<open>dL_dy\<close>: every rank's output paired with its rows\<close>
  "layer_loss L dys G w1 w2 drops =
     (\<Sum>me<length dys. \<Sum>i<length (dys ! me). \<Sum>c<ly_H L. (dys ! me ! i) c * (moe L me G w1 w2 drops ! i) c)"

lemma token_sum:
  fixes f :: "nat \<Rightarrow> 'b::comm_monoid_add"
  shows "n \<le> length ranks \<Longrightarrow> (\<Sum>s<n. \<Sum>i<tokens_of ranks s. f (off_of ranks s + i)) = (\<Sum>g<off_of ranks n. f g)"
proof (induction n)
  case (Suc n)
  have "(\<Sum>g<off_of ranks n + m. f g) = (\<Sum>g<off_of ranks n. f g) + (\<Sum>i<m. f (off_of ranks n + i))" for m
    by (induction m) (simp_all add: add.assoc)
  then show ?case using Suc off_Suc [of n ranks] by simp
qed (simp add: off_of_def)

lemma at_token_nth:
  assumes "s < length ranks" "i < tokens_of ranks s"
  shows "at_token ranks f (off_of ranks s + i) = f s i"
proof -
  let ?yss = "map (\<lambda>s. map (f s) [0..<tokens_of ranks s]) [0..<length ranks]"
  have "map length (take s ?yss) = take s (map (\<lambda>p. length (rt_topk_idx (snd p))) ranks)"
    using assms(1) by (intro nth_equalityI) simp_all
  then have "(\<Sum>ys\<leftarrow>take s ?yss. length ys) = off_of ranks s" by (simp add: off_of_def)
  then show ?thesis using nth_concat_prefix(1) [of s ?yss i] assms by (simp add: at_token_def)
qed

text \<open>Gathering what moved ranks pass is moving what they gathered.\<close>

lemma nudge_ranks_facts:
  assumes "well_routed K E ranks"
  shows "length (nudge_ranks t dx dw ranks) = length ranks"
    and "s < length ranks \<Longrightarrow> rt_topk_idx (snd (nudge_ranks t dx dw ranks ! s)) = rt_topk_idx (snd (ranks ! s))"
    and "s < length ranks \<Longrightarrow> fst (nudge_ranks t dx dw ranks ! s) = map (\<lambda>i h. (fst (ranks ! s) ! i) h + t * dx s i h) [0..<tokens_of ranks s]"
    and "s < length ranks \<Longrightarrow> rt_topk_weights (snd (nudge_ranks t dx dw ranks ! s))
      = map (\<lambda>i. map (\<lambda>k. rt_topk_weights (snd (ranks ! s)) ! i ! k + t * dw s i k) [0..<K]) [0..<tokens_of ranks s]"
    and "well_routed K E (nudge_ranks t dx dw ranks)"
proof -
  note rank = rank_facts [OF assms]
  show len: "length (nudge_ranks t dx dw ranks) = length ranks" by (simp add: nudge_ranks_def)
  show idx: "rt_topk_idx (snd (nudge_ranks t dx dw ranks ! s)) = rt_topk_idx (snd (ranks ! s))" if "s < length ranks" for s
    using that by (simp add: nudge_ranks_def case_prod_beta)
  show x: "fst (nudge_ranks t dx dw ranks ! s) = map (\<lambda>i h. (fst (ranks ! s) ! i) h + t * dx s i h) [0..<tokens_of ranks s]"
    if "s < length ranks" for s using that rank(1) by (simp add: nudge_ranks_def case_prod_beta)
  show w: "rt_topk_weights (snd (nudge_ranks t dx dw ranks ! s))
      = map (\<lambda>i. map (\<lambda>k. rt_topk_weights (snd (ranks ! s)) ! i ! k + t * dw s i k) [0..<K]) [0..<tokens_of ranks s]"
    if "s < length ranks" for s using that rank(2,6) by (simp add: nudge_ranks_def case_prod_beta)
  have meta: "rt_experts (snd (nudge_ranks t dx dw ranks ! s)) = E * length ranks \<and> rt_ranks (snd (nudge_ranks t dx dw ranks ! s)) = length ranks"
    if "s < length ranks" for s using that rank(3,4) by (simp add: nudge_ranks_def case_prod_beta)
  have row: "length row = K \<and> (\<forall>i \<in> set row. i < int (E * length ranks))" if "s < length ranks" "row \<in> set (rt_topk_idx (snd (ranks ! s)))" for s row
  proof -
    have "\<forall>(x, r) \<in> set ranks. \<forall>row \<in> set (rt_topk_idx r). length row = K \<and> (\<forall>i \<in> set row. i < int (E * length ranks))"
      using assms unfolding well_routed_def by blast
    from bspec [OF this nth_mem [OF that(1)]] show ?thesis using that(2) unfolding case_prod_beta by blast
  qed
  have "case p of (x, r) \<Rightarrow> length x = length (rt_topk_idx r) \<and> length (rt_topk_weights r) = length (rt_topk_idx r)
      \<and> rt_experts r = E * length ranks \<and> rt_ranks r = length ranks
      \<and> (\<forall>row \<in> set (rt_topk_idx r). length row = K \<and> (\<forall>i \<in> set row. i < int (E * length ranks)))
      \<and> (\<forall>row \<in> set (rt_topk_weights r). length row = K)" if p: "p \<in> set (nudge_ranks t dx dw ranks)" for p
  proof -
    obtain s where s: "s < length ranks" "p = nudge_ranks t dx dw ranks ! s" using p len by (metis in_set_conv_nth)
    show ?thesis unfolding s(2) case_prod_beta
      using idx [OF s(1)] x [OF s(1)] w [OF s(1)] meta [OF s(1)] row [OF s(1)] by auto
  qed
  moreover have "ranks \<noteq> []" "0 < E" using assms by (auto simp: well_routed_def)
  ultimately show "well_routed K E (nudge_ranks t dx dw ranks)"
    unfolding well_routed_def len using len by (auto simp del: split_paired_Ball_Sigma) 
qed

lemma nudge_gather:
  assumes "well_routed K E ranks" "G = gather zx zi zw ranks"
  shows "gather zx zi zw (nudge_ranks t dx dw ranks) = nudge t (at_token ranks dx) (at_token ranks dw) G"
proof -
  let ?R = "nudge_ranks t dx dw ranks" and ?W = "length ranks"
  note n = nudge_ranks_facts [OF assms(1), where t = t and dx = dx and dw = dw]
  note f = gather_facts [OF assms] and rank = rank_facts [OF assms(1)]
  have lens: "length (fst p) = length (rt_topk_idx (snd p))" "length (rt_topk_weights (snd p)) = length (rt_topk_idx (snd p))"
    if "p \<in> set ranks" for p using assms(1) that by (auto simp: well_routed_def)
  have N: "length (g_x G) = off_of ranks ?W" "length (g_topk_weights G) = off_of ranks ?W"
    using off_of_lengths [of ranks fst ?W] off_of_lengths [of ranks "rt_topk_weights \<circ> snd" ?W] lens
    by (simp_all add: f(1,3) length_concat comp_def)
  have at: "g_x G ! (off_of ranks s + i) = fst (ranks ! s) ! i" "off_of ranks s + i < off_of ranks ?W"
      "g_topk_weights G ! (off_of ranks s + i) = rt_topk_weights (snd (ranks ! s)) ! i" if "s < ?W" "i < tokens_of ranks s" for s i
    using nth_gathered [of s ranks i fst] nth_gathered(1) [of s ranks i "rt_topk_weights \<circ> snd"] lens that rank(1,2) [OF that(1)]
    by (simp_all add: f(1,3) N(1) [symmetric])
  have "g_x (nudge t (at_token ranks dx) (at_token ranks dw) G)
      = concat (map (\<lambda>s. map (\<lambda>i h. (fst (ranks ! s) ! i) h + t * dx s i h) [0..<tokens_of ranks s]) [0..<?W])"
    by (rule gathered_map) (simp_all add: N nudge_at at at_token_nth)
  also have "\<dots> = concat (map fst ?R)"
    using n(1,3) by (intro arg_cong [of _ _ concat] nth_equalityI) simp_all
  finally have x: "g_x (nudge t (at_token ranks dx) (at_token ranks dw) G) = concat (map fst ?R)" .
  have "g_topk_weights (nudge t (at_token ranks dx) (at_token ranks dw) G)
      = concat (map (\<lambda>s. map (\<lambda>i. map (\<lambda>k. rt_topk_weights (snd (ranks ! s)) ! i ! k + t * dw s i k) [0..<K]) [0..<tokens_of ranks s]) [0..<?W])"
    by (rule gathered_map) (use rank(2,6) in \<open>simp_all add: N nudge_def at at_token_nth\<close>)
  also have "\<dots> = concat (map (rt_topk_weights \<circ> snd) ?R)"
    using n(1,4) by (intro arg_cong [of _ _ concat] nth_equalityI) simp_all
  finally have w: "g_topk_weights (nudge t (at_token ranks dx) (at_token ranks dw) G) = concat (map (rt_topk_weights \<circ> snd) ?R)" .
  have idx: "map (rt_topk_idx \<circ> snd) ?R = map (rt_topk_idx \<circ> snd) ranks"
    using n(1,2) by (intro nth_equalityI) simp_all
  have len: "map length (map fst ?R) = map length (map fst ranks)"
    using n(1,3) rank(1) by (intro nth_equalityI) simp_all
  have "?W \<noteq> 0" "?R \<noteq> []" using assms(1) n(1) by (auto simp: well_routed_def)
  then have hd: "rt_experts (snd (hd ?R)) = rt_experts (snd (hd ranks))"
    using rank_facts(3) [OF n(5), of 0] rank(3) [of 0] n(1) by (simp add: hd_conv_nth)
  show ?thesis
  proof (rule global.equality)
    show "g_offsets (gather zx zi zw ?R) = g_offsets (nudge t (at_token ranks dx) (at_token ranks dw) G)"
      using len n(1) by (simp add: gather_def all_gather_rows_eq assms(2) del: map_map)
  qed (simp_all add: gather_def all_gather_rows_eq x w idx hd n(1), simp_all add: nudge_def assms(2) gather_def all_gather_rows_eq)
qed

lemma all_ranks_derivative:
  fixes ranks :: "(real row list \<times> real routing) list"
  assumes wr: "well_routed K E ranks" and G: "G = gather zx zi zw ranks"
    and dys: "length dys = length ranks" "\<And>s. s < length ranks \<Longrightarrow> length (dys ! s) = tokens_of ranks s"
    and each: "\<And>r. r < length ranks \<Longrightarrow> ((\<lambda>t. \<Sum>g<length (g_x G). \<Sum>c<ly_H L. (concat dys ! g) c * moe_partial L r
        (nudge t (at_token ranks dx) (at_token ranks dw) G) (W1 t r) (W2 t r) (drops r) g c)
      has_real_derivative (\<Sum>g<length (g_x G). \<Sum>c<ly_H L. spread r G (rg_dx (gs r)) g c * at_token ranks dx g c)
      + (\<Sum>g<length (g_x G). \<Sum>k<length (local_topk r G ! g). spread r G (slot_weights (hs r) (rg_dweight (gs r))) g k * at_token ranks dw g k)
      + P r + Q r) (at 0)"
  shows "((\<lambda>t. layer_loss L dys (gather zx zi zw (nudge_ranks t dx dw ranks)) (W1 t) (W2 t) drops) has_real_derivative
      (\<Sum>me<length ranks. \<Sum>i<tokens_of ranks me. \<Sum>c<ly_H L. (combine_grads_x me G gs ! i) c * dx me i c)
      + (\<Sum>me<length ranks. \<Sum>i<tokens_of ranks me. \<Sum>k<K. (combine_grads_w me G hs gs ! i) k * dw me i k)
      + (\<Sum>r<length ranks. P r) + (\<Sum>r<length ranks. Q r)) (at 0)"
proof -
  let ?W = "length ranks" and ?G = "\<lambda>t. nudge t (at_token ranks dx) (at_token ranks dw) G"
  note f = gather_facts [OF wr G] and N = gathered_weights(3) [OF wr G] and width = gathered_weights(4) [OF wr G]
  have offs: "map length dys = map (\<lambda>p. length (rt_topk_idx (snd p))) ranks" using dys by (intro nth_equalityI) simp_all
  have dy: "concat dys ! (off_of ranks s + i) = dys ! s ! i" if "s < ?W" "i < tokens_of ranks s" for s i
    using nth_concat_prefix(1) [of s dys i] that dys by (simp add: off_of_def offs [symmetric] take_map)
  have loss: "layer_loss L dys (gather zx zi zw (nudge_ranks t dx dw ranks)) (W1 t) (W2 t) drops
      = (\<Sum>r<?W. \<Sum>g<length (g_x G). \<Sum>c<ly_H L. (concat dys ! g) c * moe_partial L r (?G t) (W1 t r) (W2 t r) (drops r) g c)" for t
  proof -
    have "layer_loss L dys (gather zx zi zw (nudge_ranks t dx dw ranks)) (W1 t) (W2 t) drops
        = (\<Sum>me<?W. \<Sum>i<tokens_of ranks me. \<Sum>c<ly_H L. (concat dys ! (off_of ranks me + i)) c *
            (\<Sum>r<?W. moe_partial L r (?G t) (W1 t r) (W2 t r) (drops r) (off_of ranks me + i) c))"
      unfolding layer_loss_def nudge_gather [OF wr G] dys(1)
      using moe_row [of "?G t" ranks] f(4,7) N by (intro sum.cong) (simp_all add: dys dy)
    also have "\<dots> = (\<Sum>g<off_of ranks ?W. \<Sum>c<ly_H L. (concat dys ! g) c * (\<Sum>r<?W. moe_partial L r (?G t) (W1 t r) (W2 t r) (drops r) g c))"
      by (rule token_sum) simp
    also have "\<dots> = (\<Sum>r<?W. \<Sum>g<off_of ranks ?W. \<Sum>c<ly_H L. (concat dys ! g) c * moe_partial L r (?G t) (W1 t r) (W2 t r) (drops r) g c)"
      unfolding sum_distrib_left by (rule sum_rotate)
    finally show ?thesis by (simp add: N)
  qed
  have x: "(\<Sum>me<?W. \<Sum>i<tokens_of ranks me. \<Sum>c<ly_H L. (combine_grads_x me G gs ! i) c * dx me i c)
      = (\<Sum>r<?W. \<Sum>g<length (g_x G). \<Sum>c<ly_H L. spread r G (rg_dx (gs r)) g c * at_token ranks dx g c)"
  proof -
    have "(\<Sum>me<?W. \<Sum>i<tokens_of ranks me. \<Sum>c<ly_H L. (combine_grads_x me G gs ! i) c * dx me i c)
        = (\<Sum>me<?W. \<Sum>i<tokens_of ranks me. \<Sum>c<ly_H L. (\<Sum>r<?W. spread r G (rg_dx (gs r)) (off_of ranks me + i) c) * at_token ranks dx (off_of ranks me + i) c)"
      by (intro sum.cong refl) (simp add: combine_grads_x_def to_sources_row [OF f(7) N f(4)] at_token_nth)
    also have "\<dots> = (\<Sum>g<off_of ranks ?W. \<Sum>c<ly_H L. (\<Sum>r<?W. spread r G (rg_dx (gs r)) g c) * at_token ranks dx g c)"
      by (rule token_sum) simp
    finally show ?thesis unfolding sum_distrib_right N by (simp only: sum_rotate [of _ "{..<?W}"])
  qed
  have w: "(\<Sum>me<?W. \<Sum>i<tokens_of ranks me. \<Sum>k<K. (combine_grads_w me G hs gs ! i) k * dw me i k)
      = (\<Sum>r<?W. \<Sum>g<length (g_x G). \<Sum>k<length (local_topk r G ! g). spread r G (slot_weights (hs r) (rg_dweight (gs r))) g k * at_token ranks dw g k)"
  proof -
    have "(\<Sum>me<?W. \<Sum>i<tokens_of ranks me. \<Sum>k<K. (combine_grads_w me G hs gs ! i) k * dw me i k)
        = (\<Sum>me<?W. \<Sum>i<tokens_of ranks me. \<Sum>k<K. (\<Sum>r<?W. spread r G (slot_weights (hs r) (rg_dweight (gs r))) (off_of ranks me + i) k)
            * at_token ranks dw (off_of ranks me + i) k)"
      by (intro sum.cong refl) (simp add: combine_grads_w_def to_sources_row [OF f(7) N f(4)] at_token_nth)
    also have "\<dots> = (\<Sum>g<off_of ranks ?W. \<Sum>k<K. (\<Sum>r<?W. spread r G (slot_weights (hs r) (rg_dweight (gs r))) g k) * at_token ranks dw g k)"
      by (rule token_sum) simp
    also have "\<dots> = (\<Sum>r<?W. \<Sum>g<off_of ranks ?W. \<Sum>k<K. spread r G (slot_weights (hs r) (rg_dweight (gs r))) g k * at_token ranks dw g k)"
      unfolding sum_distrib_right by (rule sum_rotate)
    finally show ?thesis using width by (simp add: N)
  qed
  have "((\<lambda>t. \<Sum>r<?W. \<Sum>g<length (g_x G). \<Sum>c<ly_H L. (concat dys ! g) c * moe_partial L r (?G t) (W1 t r) (W2 t r) (drops r) g c)
      has_real_derivative (\<Sum>r<?W. (\<Sum>g<length (g_x G). \<Sum>c<ly_H L. spread r G (rg_dx (gs r)) g c * at_token ranks dx g c)
      + (\<Sum>g<length (g_x G). \<Sum>k<length (local_topk r G ! g). spread r G (slot_weights (hs r) (rg_dweight (gs r))) g k * at_token ranks dw g k)
      + P r + Q r)) (at 0)" by (rule DERIV_sum) (rule each, simp)
  then show ?thesis unfolding loss x w by (simp only: sum.distrib)
qed

section \<open>From dispatch to the returned gradients\<close>

context dispatching
begin

lemma grads_at_slots:
  assumes m: "stored (fresh_mem junk K) m" and h: "h = dispatch_handle C me G m fs"
    and dys: "length dys = W" "\<And>s. s < W \<Longrightarrow> length (dys ! s) = toks s"
    and gsts: "set gsts = (\<Union>cs \<in> set order. set (fst (grad_run dys h cs)))"
    and s: "s < length (h_recv h)" "0 \<le> h_recv h ! s"
  shows "grad_pool junk' gsts s = concat dys ! (recv_ids ! nat (h_recv h ! s))"
proof -
  have "s \<in> set real_list" using s by (subst handle_real [OF m h, symmetric]) simp
  then obtain cs i k where l: "lands cs i k" "landed_slot cs i k = s" unfolding real_list_iff by blast
  then have cs: "cs \<in> set order" by (simp add: lands_def del: set_order)
  have "set gsts \<subseteq> (\<Union>cs \<in> set order. set (fst (grad_run dys h cs)))" "set (fst (grad_run dys h cs)) \<subseteq> set gsts"
    using cs unfolding gsts by blast+
  from grad_pool_value [OF m h dys(1) _ this l(1)] show ?thesis
    using dys(2) handle_at(1) [OF m h l(1)] by (simp add: l(2))
qed

end

text \<open>C3: backward returns the gradient of the reference: for every routing, every order of the stores of both dispatches,
  every checkpoint level and every dropout mask, the loss whose gradient in the output is \<open>dL_dy\<close>, taken of the reference
  \<open>moe\<close> and moved along any direction, has as its derivative that direction paired with the four results of backward:
  the combined \<open>dL_dx\<close> and \<open>dL_dweight\<close> of every token and the \<open>dW1\<close> and \<open>dW2\<close> of every rank.\<close>

theorem backward_is_gradient:
  fixes ranks :: "(real row list \<times> real routing) list" and d1 d2 w1 w2 :: "nat \<Rightarrow> nat \<Rightarrow> real matrix"
  assumes "well_routed K E ranks" "G = gather zx zi zw ranks" "0 < C"
    and "\<And>r. r < length ranks \<Longrightarrow> set (sts r)
      = (\<Union>cs \<in> set (substream_order C r internode G). set (fst (run_receiver C r internode G ranks cs)))"
    and "\<And>r. r < length ranks \<Longrightarrow> mset (fs r)
      = mset (concat (map (\<lambda>cs. snd (run_receiver C r internode G ranks cs)) (substream_order C r internode G)))"
    and "\<And>r. r < length ranks \<Longrightarrow> hs r = dispatch_handle C r G (foldl apply_store (fresh_mem (junk r) K) (sts r)) (fs r)"
    and "length dys = length ranks" "\<And>s. s < length ranks \<Longrightarrow> length (dys ! s) = tokens_of ranks s"
    and "\<And>r. r < length ranks \<Longrightarrow> set (gsts r)
      = (\<Union>cs \<in> set (substream_order C r internode G). set (fst (run_grad_receiver C r internode G ranks dys (h_slots (hs r)) cs)))"
    and "\<And>r. r < length ranks \<Longrightarrow> gs r = rank_backward lv block (fresh r) L dsw (hs r) (w1 r) (w2 r) (keeps r) (grad_pool (gjunk r) (gsts r))"
    and "dswiglu_of (ly_silu L) dsw" "ly_bf16 L = (\<lambda>v. v)" "0 < block"
  shows "((\<lambda>t. layer_loss L dys (gather zx zi zw (nudge_ranks t dx dw ranks)) (\<lambda>r e j i. w1 r e j i + t * d1 r e j i)
        (\<lambda>r e j i. w2 r e j i + t * d2 r e j i) (\<lambda>r. dropout_of (hs r) (keeps r)))
    has_real_derivative (\<Sum>me<length ranks. \<Sum>i<tokens_of ranks me. \<Sum>c<ly_H L. (combine_grads_x me G gs ! i) c * dx me i c)
      + (\<Sum>me<length ranks. \<Sum>i<tokens_of ranks me. \<Sum>k<K. (combine_grads_w me G hs gs ! i) k * dw me i k)
      + (\<Sum>r<length ranks. \<Sum>e<E. \<Sum>j<2 * ly_I L. \<Sum>i<ly_H L. rg_dW1 (gs r) e j i * d1 r e j i)
      + (\<Sum>r<length ranks. \<Sum>e<E. \<Sum>c<ly_H L. \<Sum>i<ly_I L. rg_dW2 (gs r) e c i * d2 r e c i)) (at 0)"
proof (rule all_ranks_derivative [OF assms(1,2,7,8)])
  fix r assume r: "r < length ranks"
  note E = gather_facts(5) [OF assms(1,2)]
  have d: "dispatching K E C r ranks G zx zi zw" using assms(1-3) r by unfold_locales
  have met: "contract_met r G (hs r)" by (rule placed_contract_met [OF assms(1-3) r assms(4-6) [OF r]])
  have m: "dispatching.stored C r internode ranks G (fresh_mem (junk r) K) (foldl apply_store (fresh_mem (junk r) K) (sts r))"
    unfolding dispatching.stored_def [OF d] dispatching.all_stores_def [OF d] using assms(4) [OF r] by blast
  note dL = dispatching.grads_at_slots [OF d m assms(6) [OF r] assms(7,8) assms(9) [OF r]]
  note runs = dispatching.grouped_k_sum [OF d m assms(6) [OF r]]
  show "((\<lambda>t. \<Sum>g<length (g_x G). \<Sum>c<ly_H L. (concat dys ! g) c * moe_partial L r
        (nudge t (at_token ranks dx) (at_token ranks dw) G) (\<lambda>e j i. w1 r e j i + t * d1 r e j i) (\<lambda>e j i. w2 r e j i + t * d2 r e j i)
        (dropout_of (hs r) (keeps r)) g c)
      has_real_derivative (\<Sum>g<length (g_x G). \<Sum>c<ly_H L. spread r G (rg_dx (gs r)) g c * at_token ranks dx g c)
      + (\<Sum>g<length (g_x G). \<Sum>k<length (local_topk r G ! g). spread r G (slot_weights (hs r) (rg_dweight (gs r))) g k * at_token ranks dw g k)
      + (\<Sum>e<E. \<Sum>j<2 * ly_I L. \<Sum>i<ly_H L. rg_dW1 (gs r) e j i * d1 r e j i)
      + (\<Sum>e<E. \<Sum>c<ly_H L. \<Sum>i<ly_I L. rg_dW2 (gs r) e c i * d2 r e c i)) (at 0)"
    unfolding assms(10) [OF r] E [symmetric]
    by (rule rank_derivative [OF met assms(12,11,13)]) (use gathered_weights [OF assms(1,2)] dL runs in \<open>simp_all add: E\<close>)
qed

text \<open>Two ranks over the reals, \<open>silu\<close> and its \<open>dswiglu\<close>, checkpoint level 2, expert dropout on rank 0, stores in reverse.\<close>

definition demo_real_layer :: "real layer" where
  "demo_real_layer = \<lparr>ly_H = 2, ly_I = 1, ly_silu = silu, ly_bf16 = (\<lambda>v. v)\<rparr>"

definition demo_real_ranks :: "(real row list \<times> real routing) list" where
  "demo_real_ranks = map (\<lambda>(xs, r). (map (\<lambda>v h. real_of_int v / 100 - real h) xs,
     \<lparr>rt_topk_idx = rt_topk_idx r, rt_topk_weights = map (map (\<lambda>w. real_of_int w / 30)) (rt_topk_weights r),
      rt_experts = rt_experts r, rt_ranks = rt_ranks r\<rparr>)) demo_ranks"

definition demo_real_G :: "(real, real row) global" where
  "demo_real_G = gather (\<lambda>_. 0) [0, 0] [0, 0] demo_real_ranks"

definition demo_real_runs where
  "demo_real_runs r = rev (map (run_receiver 2 r False demo_real_G demo_real_ranks) (substream_order 2 r False demo_real_G))"

definition demo_real_handle :: "nat \<Rightarrow> (real, real row) handle" where
  "demo_real_handle r = dispatch_handle 2 r demo_real_G
     (foldl apply_store (fresh_mem (\<lambda>_ _. 9) 2) (concat (map fst (demo_real_runs r)))) (concat (map snd (demo_real_runs r)))"

definition demo_dL_dy :: "real row list list" where
  "demo_dL_dy = map (\<lambda>s. map (\<lambda>i c. real (s + i) - real c) [0..<tokens_of demo_real_ranks s]) [0..<length demo_real_ranks]"

definition demo_dL_do :: "nat \<Rightarrow> nat \<Rightarrow> real row" where
  "demo_dL_do r = grad_pool (\<lambda>_ _. 5) (concat (map (\<lambda>cs. fst (run_grad_receiver 2 r False demo_real_G demo_real_ranks demo_dL_dy
     (h_slots (demo_real_handle r)) cs)) (rev (substream_order 2 r False demo_real_G))))"

definition demo_real_keep :: "nat \<Rightarrow> (int \<Rightarrow> nat \<Rightarrow> real) option" where
  "demo_real_keep r = (if r = 0 then Some (\<lambda>slot i. if even slot then 0 else 2) else None)"

definition demo_real_w :: "nat \<Rightarrow> nat \<Rightarrow> real matrix" where "demo_real_w r e j i = real (r + e + j) / 7 - real i"

definition demo_rank_grads :: "nat \<Rightarrow> real rank_grads" where
  "demo_rank_grads r = rank_backward 2 64 (\<lambda>_. 3, \<lambda>_. 4) demo_real_layer swiglu_grad (demo_real_handle r) (demo_real_w r) (demo_real_w r)
     (demo_real_keep r) (demo_dL_do r)"

lemma dswiglu_of_silu: "dswiglu_of silu swiglu_grad"
  unfolding dswiglu_of_def swiglu_grad_def
proof (intro allI conjI)
  fix x y g :: real
  show "((\<lambda>x. silu x * y * g) has_real_derivative dgate (dsilu x * y * g, silu x * g, silu x * y)) (at x)"
    using DERIV_cmult_right [OF DERIV_cmult_right [OF silu_deriv]] by simp
  show "((\<lambda>y. silu x * y * g) has_real_derivative dup (dsilu x * y * g, silu x * g, silu x * y)) (at y)"
    by (auto intro!: derivative_eq_intros)
qed simp

theorem backward_is_gradient_witness:
  "((\<lambda>t. layer_loss demo_real_layer demo_dL_dy (gather (\<lambda>_. 0) [0, 0] [0, 0] (nudge_ranks t (\<lambda>_ _ _. 1) (\<lambda>_ _ _. 2) demo_real_ranks))
        (\<lambda>r e j i. demo_real_w r e j i + t * 3) (\<lambda>r e j i. demo_real_w r e j i + t * 4)
        (\<lambda>r. dropout_of (demo_real_handle r) (demo_real_keep r)))
    has_real_derivative
      (\<Sum>me<length demo_real_ranks. \<Sum>i<tokens_of demo_real_ranks me. \<Sum>c<2. (combine_grads_x me demo_real_G demo_rank_grads ! i) c * 1)
      + (\<Sum>me<length demo_real_ranks. \<Sum>i<tokens_of demo_real_ranks me. \<Sum>k<2. (combine_grads_w me demo_real_G demo_real_handle demo_rank_grads ! i) k * 2)
      + (\<Sum>r<length demo_real_ranks. \<Sum>e<2. \<Sum>j<2 * 1. \<Sum>i<2. rg_dW1 (demo_rank_grads r) e j i * 3)
      + (\<Sum>r<length demo_real_ranks. \<Sum>e<2. \<Sum>c<2. \<Sum>i<1. rg_dW2 (demo_rank_grads r) e c i * 4)) (at 0)"
proof -
  have len: "length demo_real_ranks = 2" by (simp add: demo_real_ranks_def demo_ranks_def)
  have routed: "well_routed 2 2 demo_real_ranks"
    by (simp add: well_routed_def demo_real_ranks_def demo_ranks_def demo_r0_def demo_r1_def)
  have fires: "mset (concat (map snd (demo_real_runs r)))
      = mset (concat (map (\<lambda>cs. snd (run_receiver 2 r False demo_real_G demo_real_ranks cs)) (substream_order 2 r False demo_real_G)))" for r
    unfolding demo_real_runs_def rev_map [symmetric] mset_concat_rev by (simp add: comp_def)
  have stores: "(\<Union>p \<in> set (demo_real_runs r). set (fst p))
      = (\<Union>cs \<in> set (substream_order 2 r False demo_real_G). set (fst (run_receiver 2 r False demo_real_G demo_real_ranks cs)))" for r
    by (simp add: demo_real_runs_def)
  note grad = backward_is_gradient [OF routed demo_real_G_def, where C = 2 and internode = False and L = demo_real_layer and dys = demo_dL_dy
      and sts = "\<lambda>r. concat (map fst (demo_real_runs r))" and fs = "\<lambda>r. concat (map snd (demo_real_runs r))"
      and junk = "\<lambda>_ _ _. 9" and hs = demo_real_handle and gs = demo_rank_grads and keeps = demo_real_keep
      and ?w1.0 = demo_real_w and ?w2.0 = demo_real_w and dsw = swiglu_grad and lv = 2 and block = 64 and fresh = "\<lambda>_. (\<lambda>_. 3, \<lambda>_. 4)"
      and gjunk = "\<lambda>_ _ _. 5" and gsts = "\<lambda>r. concat (map (\<lambda>cs. fst (run_grad_receiver 2 r False demo_real_G demo_real_ranks demo_dL_dy
        (h_slots (demo_real_handle r)) cs)) (rev (substream_order 2 r False demo_real_G)))"
      and dx = "\<lambda>_ _ _. 1" and dw = "\<lambda>_ _ _. 2" and ?d1.0 = "\<lambda>_ _ _ _. 3" and ?d2.0 = "\<lambda>_ _ _ _. 4"]
  have sizes: "ly_H demo_real_layer = 2" "ly_I demo_real_layer = 1" by (simp_all add: demo_real_layer_def)
  show ?thesis
    by (rule grad [unfolded sizes]) (simp_all add: fires stores demo_real_handle_def demo_dL_dy_def demo_rank_grads_def
      demo_dL_do_def demo_real_layer_def dswiglu_of_silu len)
qed

end
