(* ===== verification/Combine_Ring.thy ===== *)
theory Combine_Ring
  imports SE_Prelude
begin

text \<open>
  The combine kernel on one node (\<open>combine_main_kernel\<close> of \<^verbatim>\<open>csrc/kernels/intranode.cu\<close>) as a transition system. For
  one channel and one receiving rank, every rank has a sender that copies rounds of rows into its ring of
  \<open>num_recv_buffer_tokens\<close> slots and publishes a tail; the warps of the receiving block each take every \<open>R\<close>-th token,
  wait until all heads the token expects are below the tails, load the rows and store their sum; warp 0 copies the tails
  to shared memory and publishes the smallest head of the warps that have not retired, which is what the senders wait
  for. The expected heads are the ones dispatch recorded, with the entries of tokens a rank did not get replaced by a
  reverse scan. Each access to shared data is a step of its own; tags (\<open>nvl_pack\<close>) that mark values of other calls as
  stale are not modelled, a stale value counts as 0 as in the code. The locale \<open>combining\<close> collects what holds of the
  arguments of a call; its lemmas are the invariants of every reachable state.
\<close>

section \<open>The heads dispatch leaves for combine\<close>

fun mark_heads :: "nat \<Rightarrow> bool list \<Rightarrow> int list" where
  "mark_heads n [] = []"
| "mark_heads n (b # bs) = (if b then int n # mark_heads (n + 1) bs else - 1 # mark_heads n bs)"

definition kReverseScanSentinel :: int where "kReverseScanSentinel = 2 ^ 25"

fun reverse_scan :: "int list \<Rightarrow> int list \<times> int" where
  "reverse_scan [] = ([], kReverseScanSentinel)"
| "reverse_scan (h # hs) = (let (out, last) = reverse_scan hs in
     if h < 0 then ((- last - 1) # out, last) else (h # out, h))"

definition send_heads :: "bool list \<Rightarrow> int list" where
  "send_heads sends = fst (reverse_scan (mark_heads 0 sends))"

definition next_head :: "int \<Rightarrow> nat" where
  "next_head h = nat (if h < 0 then - h - 1 else h + 1)"

definition sent_before :: "bool list \<Rightarrow> nat \<Rightarrow> nat" where
  "sent_before sends t = length (filter (\<lambda>b. b) (take t sends))"

lemma sent_before_simps [simp]:
  "sent_before sends 0 = 0" "sent_before (b # bs) (Suc t) = (if b then Suc (sent_before bs t) else sent_before bs t)"
  by (simp_all add: sent_before_def)

lemma sent_before_Suc: "t < length sends \<Longrightarrow> sent_before sends (Suc t) = sent_before sends t + (if sends ! t then 1 else 0)"
  by (simp add: sent_before_def take_Suc_conv_app_nth)

lemma sent_before_mono: "t \<le> t' \<Longrightarrow> sent_before sends t \<le> sent_before sends t'"
proof -
  assume "t \<le> t'"
  then have "take t sends = take t (take t' sends)" by (simp add: min_def)
  then show ?thesis unfolding sent_before_def by (metis append_take_drop_id filter_append le_add1 length_append)
qed

lemma sent_before_less: "t < t' \<Longrightarrow> t' \<le> length sends \<Longrightarrow> sends ! t \<Longrightarrow> sent_before sends t < sent_before sends t'"
  using sent_before_mono [of "Suc t" t' sends] sent_before_Suc [of t sends] by simp

lemma sent_before_gap: "t \<le> t' \<Longrightarrow> sent_before sends t' \<le> sent_before sends t + (t' - t)"
proof (induction t')
  case (Suc t')
  have "sent_before sends (Suc t') \<le> Suc (sent_before sends t')"
    by (cases "t' < length sends") (simp_all add: sent_before_Suc, simp add: sent_before_def)
  then show ?case using Suc by (cases "t = Suc t'") auto
qed simp

lemma sent_before_inj:
  "t < length sends \<Longrightarrow> t' < length sends \<Longrightarrow> sends ! t \<Longrightarrow> sends ! t' \<Longrightarrow> sent_before sends t = sent_before sends t' \<longleftrightarrow> t = t'"
  by (metis less_imp_le_nat linorder_neqE_nat nat_neq_iff sent_before_less)

lemma scan_last: "snd (reverse_scan (mark_heads n sends)) = (if True \<in> set sends then int n else kReverseScanSentinel)"
  by (induction sends arbitrary: n) (auto simp: Let_def case_prod_beta)

lemma scan_heads:
  "t < length sends \<Longrightarrow> fst (reverse_scan (mark_heads n sends)) ! t = (if sends ! t then int (n + sent_before sends t)
     else - (if True \<in> set (drop t sends) then int (n + sent_before sends t) else kReverseScanSentinel) - 1)"
proof (induction sends arbitrary: n t)
  case (Cons b bs)
  then show ?case by (cases t) (auto simp: Let_def case_prod_beta scan_last)
qed simp

lemma send_heads_nth:
  "t < length sends \<Longrightarrow> send_heads sends ! t = (if sends ! t then int (sent_before sends t)
     else - (if True \<in> set (drop t sends) then int (sent_before sends t) else kReverseScanSentinel) - 1)"
  by (simp add: send_heads_def scan_heads)

lemma send_heads_sent: "t < length sends \<Longrightarrow> 0 \<le> send_heads sends ! t \<longleftrightarrow> sends ! t"
  by (auto simp: send_heads_nth kReverseScanSentinel_def)

lemma next_head_at:
  "t < length sends \<Longrightarrow> next_head (send_heads sends ! t)
     = (if True \<in> set (drop t sends) then sent_before sends (Suc t) else 2 ^ 25)"
  by (auto simp: next_head_def send_heads_nth sent_before_Suc kReverseScanSentinel_def nat_add_distrib Cons_nth_drop_Suc [symmetric])

section \<open>The state of a channel\<close>

type_synonym 'f entry = "(nat \<Rightarrow> 'f) \<times> (nat \<Rightarrow> 'f)"  \<comment> \<open>a row, and the top-k weights of a backward combine\<close>

record 'f combine_env =
  cb_ranks :: nat                       \<comment> \<open>\<open>kNumRanks\<close>\<close>
  cb_ring :: nat                        \<comment> \<open>\<open>num_recv_buffer_tokens\<close>\<close>
  cb_chunk :: nat                       \<comment> \<open>\<open>num_max_send_tokens\<close>\<close>
  cb_warps :: nat                       \<comment> \<open>receiving warps: all of the block but the first\<close>
  cb_tokens :: nat                      \<comment> \<open>tokens of the channel at this rank\<close>
  cb_sends :: "nat \<Rightarrow> bool list"        \<comment> \<open>\<open>is_token_in_rank\<close>, one column per rank\<close>
  cb_rows :: "nat \<Rightarrow> 'f entry list"     \<comment> \<open>what each rank has to send, in order\<close>

record 'f combine_state =
  x_buffers :: "nat \<Rightarrow> nat \<Rightarrow> 'f entry"                 \<comment> \<open>\<open>channel_x_buffers\<close> and \<open>channel_topk_weights_buffers\<close>\<close>
  copied :: "nat \<Rightarrow> nat set"                            \<comment> \<open>tokens of the round its warps have copied\<close>
  tail_idx :: "nat \<Rightarrow> nat"                              \<comment> \<open>published tail, the sender's \<open>current_channel_tail_idx\<close>\<close>
  head_idx :: "nat \<Rightarrow> nat"                              \<comment> \<open>published head, the updater's \<open>last_head\<close>\<close>
  channel_tail :: "nat \<Rightarrow> nat"                          \<comment> \<open>\<open>channel_tail_idx\<close> in shared memory\<close>
  updater :: "nat \<Rightarrow> (nat \<times> nat option) option"         \<comment> \<open>a lane of warp 0: warps scanned, \<open>min_head\<close>\<close>
  warp_token :: "nat \<Rightarrow> nat"
  warp_values :: "nat \<Rightarrow> (nat \<Rightarrow> 'f entry option) option"  \<comment> \<open>\<open>recv_value_int4\<close> once the wait is over\<close>
  warp_head :: "nat \<Rightarrow> nat \<Rightarrow> nat"                      \<comment> \<open>\<open>warp_channel_head_idx\<close>\<close>
  warp_retired :: "nat set"
  recv_x :: "nat \<Rightarrow> 'f entry option"

definition combine_init :: "(nat \<Rightarrow> nat \<Rightarrow> 'f entry) \<Rightarrow> 'f combine_state" where
  "combine_init junk = \<lparr>x_buffers = junk, copied = (\<lambda>_. {}), tail_idx = (\<lambda>_. 0), head_idx = (\<lambda>_. 0), channel_tail = (\<lambda>_. 0),
     updater = (\<lambda>_. None), warp_token = (\<lambda>w. w), warp_values = (\<lambda>_. None), warp_head = (\<lambda>_ _. 0), warp_retired = {},
     recv_x = (\<lambda>_. None)\<rparr>"

definition heads_of :: "'f combine_env \<Rightarrow> nat \<Rightarrow> nat \<Rightarrow> int" where
  "heads_of e t r = send_heads (cb_sends e r) ! t"

definition num_round_tokens :: "'f combine_env \<Rightarrow> 'f combine_state \<Rightarrow> nat \<Rightarrow> nat" where
  "num_round_tokens e s r = min (cb_chunk e) (length (cb_rows e r) - tail_idx s r)"

definition queue_space :: "'f combine_env \<Rightarrow> 'f combine_state \<Rightarrow> nat \<Rightarrow> bool" where
  \<comment> \<open>\<open>sender_wait_for_queue_space\<close> lets the warp go on\<close>
  "queue_space e s r \<longleftrightarrow> int (num_round_tokens e s r) \<le> int (cb_ring e) - (int (tail_idx s r) - int (head_idx s r))"

definition reduce_entries :: "'f::comm_monoid_add entry list \<Rightarrow> 'f entry" where
  "reduce_entries vs = ((\<lambda>c. \<Sum>v\<leftarrow>vs. fst v c), (\<lambda>k. \<Sum>v\<leftarrow>vs. snd v k))"

definition topk_ranks :: "'f combine_env \<Rightarrow> nat \<Rightarrow> nat list" where
  "topk_ranks e t = filter (\<lambda>r. 0 \<le> heads_of e t r) [0..<cb_ranks e]"

inductive combine_step :: "'f::comm_monoid_add combine_env \<Rightarrow> 'f combine_state \<Rightarrow> 'f combine_state \<Rightarrow> bool" for e where
  copy: "r < cb_ranks e \<Longrightarrow> i < num_round_tokens e s r \<Longrightarrow> i \<notin> copied s r \<Longrightarrow> queue_space e s r \<Longrightarrow>
    combine_step e s (s\<lparr>x_buffers := (x_buffers s)(r := (x_buffers s r)((tail_idx s r + i) mod cb_ring e := cb_rows e r ! (tail_idx s r + i))),
      copied := (copied s)(r := insert i (copied s r))\<rparr>)"
| publish: "r < cb_ranks e \<Longrightarrow> 0 < num_round_tokens e s r \<Longrightarrow> copied s r = {..<num_round_tokens e s r} \<Longrightarrow>
    combine_step e s (s\<lparr>tail_idx := (tail_idx s)(r := tail_idx s r + num_round_tokens e s r), copied := (copied s)(r := {})\<rparr>)"
| update_tail: "r < cb_ranks e \<Longrightarrow> updater s r = None \<Longrightarrow> warp_retired s \<noteq> {..<cb_warps e} \<Longrightarrow>
    combine_step e s (s\<lparr>channel_tail := (channel_tail s)(r := tail_idx s r), updater := (updater s)(r := Some (0, None))\<rparr>)"
| scan_warp: "r < cb_ranks e \<Longrightarrow> updater s r = Some (w, m) \<Longrightarrow> w < cb_warps e \<Longrightarrow>
    combine_step e s (s\<lparr>updater := (updater s)(r := Some (w + 1,
      if w \<in> warp_retired s then m else Some (case m of None \<Rightarrow> warp_head s w r | Some v \<Rightarrow> min v (warp_head s w r))))\<rparr>)"
| update_head: "r < cb_ranks e \<Longrightarrow> updater s r = Some (cb_warps e, m) \<Longrightarrow>
    combine_step e s (s\<lparr>head_idx := (head_idx s)(r := (case m of None \<Rightarrow> head_idx s r | Some v \<Rightarrow> max v (head_idx s r))),
      updater := (updater s)(r := None)\<rparr>)"
| ready: "w < cb_warps e \<Longrightarrow> warp_values s w = None \<Longrightarrow> warp_token s w < cb_tokens e \<Longrightarrow>
    (\<forall>r < cb_ranks e. \<not> (int (channel_tail s r) \<le> heads_of e (warp_token s w) r \<and> 0 \<le> heads_of e (warp_token s w) r)) \<Longrightarrow>
    combine_step e s (s\<lparr>warp_values := (warp_values s)(w := Some (\<lambda>_. None))\<rparr>)"
| load: "w < cb_warps e \<Longrightarrow> warp_values s w = Some g \<Longrightarrow> r \<in> set (topk_ranks e (warp_token s w)) \<Longrightarrow> g r = None \<Longrightarrow>
    combine_step e s (s\<lparr>warp_values := (warp_values s)(w :=
      Some (g(r := Some (x_buffers s r (nat (heads_of e (warp_token s w) r mod int (cb_ring e))))))) \<rparr>)"
| finish: "w < cb_warps e \<Longrightarrow> warp_values s w = Some g \<Longrightarrow> (\<forall>r \<in> set (topk_ranks e (warp_token s w)). g r \<noteq> None) \<Longrightarrow>
    combine_step e s (s\<lparr>recv_x := (recv_x s)(warp_token s w := Some (reduce_entries (map (the \<circ> g) (topk_ranks e (warp_token s w))))),
      warp_head := (warp_head s)(w := (\<lambda>r. next_head (heads_of e (warp_token s w) r))),
      warp_token := (warp_token s)(w := warp_token s w + cb_warps e), warp_values := (warp_values s)(w := None)\<rparr>)"
| retire: "w < cb_warps e \<Longrightarrow> warp_values s w = None \<Longrightarrow> cb_tokens e \<le> warp_token s w \<Longrightarrow>
    combine_step e s (s\<lparr>warp_retired := insert w (warp_retired s)\<rparr>)"

definition combine_reach :: "'f::comm_monoid_add combine_env \<Rightarrow> (nat \<Rightarrow> nat \<Rightarrow> 'f entry) \<Rightarrow> 'f combine_state \<Rightarrow> bool" where
  "combine_reach e junk s \<longleftrightarrow> (combine_step e)\<^sup>*\<^sup>* (combine_init junk) s"

definition combine_done :: "'f combine_env \<Rightarrow> 'f combine_state \<Rightarrow> bool" where
  "combine_done e s \<longleftrightarrow> warp_retired s = {..<cb_warps e} \<and> (\<forall>r < cb_ranks e. tail_idx s r = length (cb_rows e r))"

section \<open>What holds in every reachable state\<close>

locale combining =
  fixes e :: "'f::comm_monoid_add combine_env"
  assumes warps: "0 < cb_warps e" and chunk: "0 < cb_chunk e" and ring: "cb_chunk e < cb_ring e"
    and sends: "r < cb_ranks e \<Longrightarrow> length (cb_sends e r) = cb_tokens e"
    and rows: "r < cb_ranks e \<Longrightarrow> length (cb_rows e r) = sent_before (cb_sends e r) (cb_tokens e)"
    and few: "cb_tokens e \<le> 2 ^ 25"
begin

abbreviation "R \<equiv> cb_warps e"
abbreviation "W \<equiv> cb_ranks e"
abbreviation "N \<equiv> cb_ring e"
abbreviation "T \<equiv> cb_tokens e"
abbreviation "dest r t \<equiv> cb_sends e r ! t"
abbreviation "cnt r t \<equiv> sent_before (cb_sends e r) t"
abbreviation "entry r t \<equiv> cb_rows e r ! cnt r t"
abbreviation "n_rows r \<equiv> length (cb_rows e r)"

lemma heads_dest: "r < W \<Longrightarrow> t < T \<Longrightarrow> 0 \<le> heads_of e t r \<longleftrightarrow> dest r t"
  by (simp add: heads_of_def send_heads_sent sends)

lemma heads_cnt: "r < W \<Longrightarrow> t < T \<Longrightarrow> dest r t \<Longrightarrow> heads_of e t r = int (cnt r t)"
  by (simp add: heads_of_def send_heads_nth sends)

lemma topk_ranks_iff: "t < T \<Longrightarrow> r \<in> set (topk_ranks e t) \<longleftrightarrow> r < W \<and> dest r t"
  using heads_dest by (auto simp: topk_ranks_def)

definition head_after :: "nat \<Rightarrow> nat \<Rightarrow> nat" where "head_after r t = next_head (heads_of e t r)"

lemma head_after_at: "r < W \<Longrightarrow> t < T \<Longrightarrow> head_after r t = (if True \<in> set (drop t (cb_sends e r)) then cnt r (Suc t) else 2 ^ 25)"
  by (simp add: head_after_def heads_of_def next_head_at sends)

lemma later_dest: "r < W \<Longrightarrow> t \<le> t' \<Longrightarrow> t' < T \<Longrightarrow> dest r t' \<Longrightarrow> True \<in> set (drop t (cb_sends e r))"
  by (auto simp: in_set_conv_nth sends intro!: exI [of _ "t' - t"])

lemma head_after_le: "r < W \<Longrightarrow> t < t' \<Longrightarrow> t' < T \<Longrightarrow> dest r t' \<Longrightarrow> head_after r t \<le> cnt r t'"
  using later_dest [of r t t'] sent_before_mono [of "Suc t" t'] by (simp add: head_after_at)

lemma cnt_le: "cnt r t \<le> t"
  using sent_before_gap [of 0 t] by simp

lemma head_after_mono:
  assumes "r < W" "t \<le> t'" "t' < T" shows "head_after r t \<le> head_after r t'"
proof -
  have "set (drop t' (cb_sends e r)) \<subseteq> set (drop t (cb_sends e r))" by (rule set_drop_subset_set_drop [OF assms(2)])
  moreover have "cnt r (Suc t) \<le> 2 ^ 25" using cnt_le [of r "Suc t"] few assms by simp
  ultimately show ?thesis using assms sent_before_mono [of "Suc t" "Suc t'"] by (auto simp: head_after_at)
qed

definition got :: "'f combine_state \<Rightarrow> nat \<Rightarrow> nat \<Rightarrow> bool" where
  "got s t r \<longleftrightarrow> t < warp_token s (t mod R) \<or>
     warp_token s (t mod R) = t \<and> (\<exists>g v. warp_values s (t mod R) = Some g \<and> g r = Some v)"

definition tails_ok :: "'f combine_state \<Rightarrow> bool" where
  "tails_ok s \<longleftrightarrow> (\<forall>r<W. channel_tail s r \<le> tail_idx s r \<and> tail_idx s r \<le> n_rows r \<and> copied s r \<subseteq> {..<num_round_tokens e s r})"

definition warp_ok :: "'f combine_state \<Rightarrow> nat \<Rightarrow> bool" where
  "warp_ok s w \<longleftrightarrow> warp_token s w mod R = w \<and> warp_token s w < T + R \<and> (w \<in> warp_retired s \<longrightarrow> T \<le> warp_token s w)
     \<and> (warp_values s w \<noteq> None \<longrightarrow> warp_token s w < T \<and> (\<forall>r<W. dest r (warp_token s w) \<longrightarrow> cnt r (warp_token s w) < channel_tail s r))
     \<and> (\<forall>t<T. \<forall>r<W. dest r t \<and> t mod R = w \<and> t < warp_token s w \<longrightarrow> cnt r t < channel_tail s r)
     \<and> (\<forall>r<W. warp_head s w r = (if warp_token s w < R then 0 else head_after r (warp_token s w - R)))"

definition warps_ok :: "'f combine_state \<Rightarrow> bool" where "warps_ok s \<longleftrightarrow> (\<forall>w<R. warp_ok s w)"

definition heads_ok :: "'f combine_state \<Rightarrow> bool" where
  "heads_ok s \<longleftrightarrow> (\<forall>r<W. \<forall>w<R. w \<notin> warp_retired s \<longrightarrow> head_idx s r \<le> warp_head s w r)"

definition scans_ok :: "'f combine_state \<Rightarrow> bool" where
  "scans_ok s \<longleftrightarrow> (\<forall>r<W. \<forall>k m. updater s r = Some (k, m) \<longrightarrow> k \<le> R \<and>
     (\<forall>w<k. w \<notin> warp_retired s \<longrightarrow> (\<exists>v. m = Some v \<and> v \<le> warp_head s w r)))"

lemma tails_step: "combine_step e s s' \<Longrightarrow> tails_ok s \<Longrightarrow> tails_ok s'"
  by (induction rule: combine_step.induct) (auto simp: tails_ok_def num_round_tokens_def le_diff_conv dest: spec)

lemma next_turn: "t mod R = w mod R \<Longrightarrow> t < w + R \<Longrightarrow> t < w \<or> t = w"
proof -
  assume a: "t mod R = w mod R" "t < w + R"
  show ?thesis
  proof (rule ccontr)
    assume "\<not> (t < w \<or> t = w)"
    then have "w < t" "t - w < R" using a(2) by auto
    then have "(t - w) mod R \<noteq> 0" using mod_less [of "t - w" R] by simp
    then show False using a(1) mod_eq_dvd_iff_nat [of w t R] \<open>w < t\<close> by (auto simp: mod_eq_0_iff_dvd)
  qed
qed

lemma warp_ok_more:
  assumes "warp_ok s w" "warp_token s' = warp_token s" "warp_retired s' = warp_retired s" "warp_values s' = warp_values s"
    "warp_head s' = warp_head s" "\<And>r. channel_tail s r \<le> channel_tail s' r"
  shows "warp_ok s' w"
proof -
  have "c < channel_tail s' r" if "c < channel_tail s r" for c r using that assms(6) [of r] by simp
  then show ?thesis using assms(1) unfolding warp_ok_def assms(2-5) by blast
qed

lemma warps_step:
  assumes "combine_step e s s'" "tails_ok s" "warps_ok s" shows "warps_ok s'"
  using assms
proof (induction rule: combine_step.induct)
  case (update_tail r s)
  then have "channel_tail s r \<le> tail_idx s r" by (simp add: tails_ok_def)
  show ?case unfolding warps_ok_def
  proof (intro allI impI)
    fix w assume "w < R"
    then have "warp_ok s w" using update_tail(5) by (simp add: warps_ok_def)
    then show "warp_ok (s\<lparr>channel_tail := (channel_tail s)(r := tail_idx s r), updater := (updater s)(r := Some (0, None))\<rparr>) w"
      by (rule warp_ok_more) (use \<open>channel_tail s r \<le> tail_idx s r\<close> in simp_all)
  qed
next
  case (ready w s)
  have "cnt r (warp_token s w) < channel_tail s r" if "r < W" "dest r (warp_token s w)" for r
    using ready(4) that heads_cnt [OF that(1) ready(3) that(2)] by auto
  then show ?case using ready unfolding warps_ok_def warp_ok_def by simp
next
  case (finish w s g)
  have ok: "warp_ok s w" using finish by (simp add: warps_ok_def)
  then have t: "warp_token s w < T" "\<And>r. r < W \<Longrightarrow> dest r (warp_token s w) \<Longrightarrow> cnt r (warp_token s w) < channel_tail s r"
    "warp_token s w mod R = w" using finish(2) by (auto simp: warp_ok_def)
  have seen: "cnt r t < channel_tail s r" if "t < T" "r < W" "dest r t" "t mod R = w" "t < warp_token s w + R" for t r
  proof -
    have "t < warp_token s w \<or> t = warp_token s w" using next_turn [of t "warp_token s w"] that t(3) by simp
    then show ?thesis using that t(2) ok by (auto simp: warp_ok_def)
  qed
  have "w \<notin> warp_retired s" using ok t(1) by (auto simp: warp_ok_def)
  then show ?case using finish t(3) seen unfolding warps_ok_def
    by (auto simp: warp_ok_def head_after_def)
qed (simp_all add: warps_ok_def warp_ok_def)

lemma warp_head_at:
  assumes "warps_ok s" "r < W" "t < T" "dest r t" "warp_token s (t mod R) \<le> t"
  shows "warp_head s (t mod R) r \<le> cnt r t"
proof -
  have "warp_ok s (t mod R)" using assms(1) warps by (simp add: warps_ok_def)
  then show ?thesis using head_after_le [OF assms(2) _ assms(3,4), of "warp_token s (t mod R) - R"] assms(2,5) warps
    by (auto simp: warp_ok_def)
qed

lemma warp_head_finish:
  assumes "warps_ok s" "r < W" "w < R" "warp_values s w \<noteq> None"
  shows "warp_head s w r \<le> next_head (heads_of e (warp_token s w) r)"
proof -
  have ok: "warp_ok s w" using assms by (simp add: warps_ok_def)
  then have "warp_token s w < T" using assms(4) by (auto simp: warp_ok_def)
  then show ?thesis using ok head_after_mono [OF assms(2), of "warp_token s w - R" "warp_token s w"] assms(2)
    by (auto simp: warp_ok_def head_after_def)
qed

lemma heads_step:
  assumes "combine_step e s s'" "warps_ok s" "scans_ok s" "heads_ok s" shows "heads_ok s'"
  using assms
proof (induction rule: combine_step.induct)
  case (update_head r s m)
  then show ?case unfolding heads_ok_def scans_ok_def by (fastforce split: option.splits)
next
  case (finish w s g)
  then show ?case using warp_head_finish [of s _ w] unfolding heads_ok_def by simp (metis le_trans)
qed (auto simp: heads_ok_def)

lemma scans_step:
  assumes "combine_step e s s'" "warps_ok s" "scans_ok s" shows "scans_ok s'"
  using assms
proof (induction rule: combine_step.induct)
  case (scan_warp r s w m)
  define m' where "m' = (if w \<in> warp_retired s then m else Some (case m of None \<Rightarrow> warp_head s w r | Some v \<Rightarrow> min v (warp_head s w r)))"
  have "\<exists>v. m' = Some v \<and> v \<le> warp_head s w' r" if "w' < w + 1" "w' \<notin> warp_retired s" for w'
    using scan_warp(1,2,5) that unfolding scans_ok_def m'_def by (cases "w' = w") (fastforce split: option.splits simp: min_le_iff_disj)+
  then show ?case using scan_warp unfolding scans_ok_def m'_def [symmetric] by simp
next
  case (finish w s g)
  have "\<exists>v. m = Some v \<and> v \<le> warp_head (s\<lparr>warp_head := (warp_head s)(w := \<lambda>r. next_head (heads_of e (warp_token s w) r))\<rparr>) w' r"
    if "r < W" "updater s r = Some (k, m)" "w' < k" "w' \<notin> warp_retired s" for r k m w'
    using finish(5) that warp_head_finish [OF finish(4) that(1) finish(1)] finish(2) unfolding scans_ok_def by (fastforce intro: le_trans)
  then show ?case using finish unfolding scans_ok_def by simp
qed (auto simp: scans_ok_def)

section \<open>The ring\<close>

text \<open>A slot of the ring is not written again before its row has been read.\<close>

lemma head_unread:
  assumes "warps_ok s" "heads_ok s" "r < W" "t < T" "dest r t" "warp_token s (t mod R) \<le> t"
  shows "head_idx s r \<le> cnt r t"
proof -
  have w: "t mod R < R" using warps by simp
  then have "warp_ok s (t mod R)" using assms(1) by (simp add: warps_ok_def)
  then have "t mod R \<notin> warp_retired s" using assms(4,6) by (auto simp: warp_ok_def)
  then have "head_idx s r \<le> warp_head s (t mod R) r" using assms(2,3) w by (simp add: heads_ok_def)
  then show ?thesis using warp_head_at [OF assms(1,3-6)] by simp
qed

definition written :: "'f combine_state \<Rightarrow> nat \<Rightarrow> nat set" where
  "written s r = {..<tail_idx s r} \<union> (+) (tail_idx s r) ` copied s r"

lemma round_le: "num_round_tokens e s r < N"
  using ring by (simp add: num_round_tokens_def)

lemma ring_slots: "j < N \<Longrightarrow> i < N \<Longrightarrow> (a + j) mod N = (a + i) mod N \<Longrightarrow> j = i"
proof (induction i j rule: linorder_wlog)
  case (le i j)
  then have "N dvd j - i" using mod_eq_dvd_iff_nat [of "a + i" "a + j" N] by simp
  then show ?case using le by (auto dest: dvd_imp_le)
qed simp

lemma ring_slot_free:
  assumes "warps_ok s" "heads_ok s" "tails_ok s" "r < W" "t < T" "dest r t" "warp_token s (t mod R) \<le> t" "cnt r t \<in> written s r"
    and "i < num_round_tokens e s r" "i \<notin> copied s r" "queue_space e s r"
  shows "cnt r t mod N \<noteq> (tail_idx s r + i) mod N"
proof
  assume eq: "cnt r t mod N = (tail_idx s r + i) mod N"
  have "head_idx s r \<le> cnt r t" by (rule head_unread [OF assms(1,2,4-7)])
  then have space: "tail_idx s r + num_round_tokens e s r \<le> cnt r t + N"
    using assms(11) by (simp add: queue_space_def)
  show False
  proof (cases "cnt r t < tail_idx s r")
    case True
    then have "N dvd tail_idx s r + i - cnt r t" using eq mod_eq_dvd_iff_nat [of "cnt r t" "tail_idx s r + i" N] by simp
    then show False using True space assms(9) by (auto dest!: dvd_imp_le)
  next
    case False
    then obtain j where j: "cnt r t = tail_idx s r + j" "j \<in> copied s r" using assms(8) by (auto simp: written_def)
    then have "j < num_round_tokens e s r" using assms(3,4) by (auto simp: tails_ok_def)
    then have "j < N" "i < N" using round_le [of s r] assms(9) by simp_all
    then have "j = i" using ring_slots [of j i "tail_idx s r"] eq j(1) by simp
    then show False using j(2) assms(10) by simp
  qed
qed

definition ring_ok :: "'f combine_state \<Rightarrow> bool" where
  "ring_ok s \<longleftrightarrow> (\<forall>t<T. \<forall>r<W. dest r t \<and> \<not> got s t r \<and> cnt r t \<in> written s r \<longrightarrow> x_buffers s r (cnt r t mod N) = entry r t)"

definition values_ok :: "'f combine_state \<Rightarrow> bool" where
  "values_ok s \<longleftrightarrow> (\<forall>w<R. \<forall>g r v. warp_values s w = Some g \<longrightarrow> g r = Some v \<longrightarrow> r < W \<and> dest r (warp_token s w) \<and> v = entry r (warp_token s w))"

definition rows_ok :: "'f combine_state \<Rightarrow> bool" where
  "rows_ok s \<longleftrightarrow> (\<forall>t<T. t < warp_token s (t mod R) \<longrightarrow> recv_x s t = Some (reduce_entries (map (\<lambda>r. entry r t) (topk_ranks e t))))"

lemma not_got: "\<not> got s t r \<Longrightarrow> warp_token s (t mod R) \<le> t"
  by (simp add: got_def)

lemma got_step: "combine_step e s s' \<Longrightarrow> got s t r \<Longrightarrow> got s' t r"
  by (induction rule: combine_step.induct) (auto simp: got_def split: if_splits)

lemma written_all: "{..<a} \<union> (+) a ` {..<n} = {..<a + n :: nat}"
  using image_add_atLeastLessThan [of a 0 n] by (auto simp: lessThan_atLeast0 image_iff simp del: image_add_atLeastLessThan)

lemma ring_step:
  assumes "combine_step e s s'" "warps_ok s" "heads_ok s" "tails_ok s" "ring_ok s" shows "ring_ok s'"
proof -
  have "x_buffers s' r (cnt r t mod N) = entry r t"
    if t: "t < T" "r < W" "dest r t" "\<not> got s t r" and new: "cnt r t \<in> written s' r" for t r
  proof -
    have was: "cnt r t \<in> written s r \<Longrightarrow> x_buffers s r (cnt r t mod N) = entry r t"
      using assms(5) t unfolding ring_ok_def by blast
    from assms(1) show ?thesis
    proof cases
      case (copy r' i)
      show ?thesis
      proof (cases "r = r' \<and> cnt r t = tail_idx s r + i")
        case False
        then have old: "cnt r t \<in> written s r" using new copy(1) by (auto simp: written_def split: if_splits)
        then have "r = r' \<Longrightarrow> cnt r t mod N \<noteq> (tail_idx s r + i) mod N"
          using ring_slot_free [OF assms(2,3,4) t(2,1,3) not_got [OF t(4)] old] copy by auto
        then show ?thesis using was [OF old] copy(1) by auto
      qed (use copy(1) in auto)
    next
      case (publish r')
      have "written s' r = written s r"
        unfolding publish(1) using publish(4) by (auto simp: written_def written_all)
      then show ?thesis using was new publish(1) by simp
    qed (use was new in \<open>simp_all add: written_def\<close>)
  qed
  then show ?thesis unfolding ring_ok_def using got_step [OF assms(1)] by blast
qed

lemma loaded_value:
  assumes "warps_ok s" "tails_ok s" "ring_ok s" "w < R" "warp_values s w = Some g" "r \<in> set (topk_ranks e (warp_token s w))" "g r = None"
  shows "x_buffers s r (nat (heads_of e (warp_token s w) r mod int N)) = entry r (warp_token s w)" "r < W \<and> dest r (warp_token s w)"
proof -
  let ?t = "warp_token s w"
  have ok: "warp_ok s w" using assms(1,4) by (simp add: warps_ok_def)
  then have t: "?t < T" "?t mod R = w" using assms(5) by (auto simp: warp_ok_def)
  then show r: "r < W \<and> dest r ?t" using assms(6) topk_ranks_iff by blast
  then have "cnt r ?t < tail_idx s r" using ok assms(2,5) by (fastforce simp: warp_ok_def tails_ok_def)
  moreover have "\<not> got s ?t r" using t assms(5,7) by (simp add: got_def)
  ultimately have "x_buffers s r (cnt r ?t mod N) = entry r ?t" using assms(3) t r by (auto simp: ring_ok_def written_def)
  then show "x_buffers s r (nat (heads_of e ?t r mod int N)) = entry r ?t"
    using heads_cnt [of r ?t] r t by (simp add: zmod_int [symmetric])
qed

lemma values_step:
  assumes "combine_step e s s'" "warps_ok s" "tails_ok s" "ring_ok s" "values_ok s" shows "values_ok s'"
  using assms
proof (induction rule: combine_step.induct)
  case (load w s g r)
  then show ?case using loaded_value [OF load(5,6,7,1-4)] unfolding values_ok_def by (auto split: if_splits)
qed (auto simp: values_ok_def)

lemma rows_step:
  assumes "combine_step e s s'" "warps_ok s" "values_ok s" "rows_ok s" shows "rows_ok s'"
  using assms
proof (induction rule: combine_step.induct)
  case (finish w s g)
  let ?t = "warp_token s w"
  have t: "?t < T" "?t mod R = w" using finish(1,2,4) by (auto simp: warps_ok_def warp_ok_def)
  have vals: "map (the \<circ> g) (topk_ranks e ?t) = map (\<lambda>r. entry r ?t) (topk_ranks e ?t)"
    using finish(1,2,3,5) by (auto simp: values_ok_def)
  have "t < ?t \<or> t = ?t" if "t mod R = w" "t < ?t + R" for t using next_turn that t by simp
  then show ?case using finish(6) t unfolding rows_ok_def vals by auto
qed (auto simp: rows_ok_def)

lemma init_ok: "tails_ok (combine_init junk)" "warps_ok (combine_init junk)" "heads_ok (combine_init junk)" "scans_ok (combine_init junk)"
  "ring_ok (combine_init junk)" "values_ok (combine_init junk)" "rows_ok (combine_init junk)"
  by (auto simp: combine_init_def tails_ok_def warps_ok_def warp_ok_def heads_ok_def scans_ok_def ring_ok_def values_ok_def rows_ok_def
      written_def not_less [THEN iffD2, OF mod_less_eq_dividend])

lemma reach_ok:
  assumes "combine_reach e junk s"
  shows "tails_ok s" "warps_ok s" "heads_ok s" "scans_ok s" "ring_ok s" "values_ok s" "rows_ok s"
proof -
  have "(combine_step e)\<^sup>*\<^sup>* (combine_init junk) s" using assms by (simp add: combine_reach_def)
  then have "tails_ok s \<and> warps_ok s \<and> heads_ok s \<and> scans_ok s \<and> ring_ok s \<and> values_ok s \<and> rows_ok s"
  proof (induction rule: rtranclp_induct)
    case (step s s')
    then show ?case using tails_step [OF step(2)] warps_step [OF step(2)] heads_step [OF step(2)] scans_step [OF step(2)]
      ring_step [OF step(2)] values_step [OF step(2)] rows_step [OF step(2)] by blast
  qed (use init_ok in blast)
  then show "tails_ok s" "warps_ok s" "heads_ok s" "scans_ok s" "ring_ok s" "values_ok s" "rows_ok s" by blast+
qed

end

end
