(* ===== verification/Combine_Progress.thy ===== *)
theory Combine_Progress
  imports Combine_Ring
begin

text \<open>
  Whether the combine kernel (\<^theory_text>\<open>Combine_Ring\<close>) can end. The head a sender waits for is the smallest of all receiving warps,
  and a warp advances its own only when it has reduced its token, every \<open>R\<close>-th one: the published head trails what has
  been reduced by up to \<open>R - 1\<close> rows. If the ring holds a round and these rows, every reachable state can go on to the end;
  if it does not, a rank that gets all tokens of a long channel is never drained.
\<close>

lemma nth_sent:
  "n < sent_before sends (length sends) \<Longrightarrow> \<exists>t < length sends. sends ! t \<and> sent_before sends t = n"
proof (induction sends arbitrary: n)
  case (Cons b bs)
  show ?case
  proof (cases "b \<and> n = 0")
    case False
    then have "n - (if b then 1 else 0) < sent_before bs (length bs)" using Cons.prems by (auto split: if_splits)
    from Cons.IH [OF this] obtain t where "t < length bs" "bs ! t" "sent_before bs t = n - (if b then 1 else 0)" by blast
    then show ?thesis using False by (intro exI [of _ "Suc t"]) auto
  qed auto
qed simp

context combining
begin

section \<open>The head updater can always run\<close>

definition same_but_updater :: "'f combine_state \<Rightarrow> 'f combine_state \<Rightarrow> bool" where
  "same_but_updater s s' \<longleftrightarrow> x_buffers s' = x_buffers s \<and> copied s' = copied s \<and> tail_idx s' = tail_idx s \<and> warp_token s' = warp_token s
     \<and> warp_values s' = warp_values s \<and> warp_head s' = warp_head s \<and> warp_retired s' = warp_retired s \<and> recv_x s' = recv_x s"

lemma same_trans: "same_but_updater s s' \<Longrightarrow> same_but_updater s' s'' \<Longrightarrow> same_but_updater s s''"
  by (simp add: same_but_updater_def)

lemma scan_all:
  assumes "r < W" "updater s r = Some (k, m)" "k \<le> R" "\<And>w. w < R \<Longrightarrow> w \<notin> warp_retired s \<Longrightarrow> L \<le> warp_head s w r"
    and "\<And>v. m = Some v \<Longrightarrow> L \<le> v"
  shows "\<exists>m'. (combine_step e)\<^sup>*\<^sup>* s (s\<lparr>updater := (updater s)(r := Some (R, m'))\<rparr>) \<and> (\<forall>v. m' = Some v \<longrightarrow> L \<le> v)
    \<and> (m \<noteq> None \<or> (\<exists>w. k \<le> w \<and> w < R \<and> w \<notin> warp_retired s) \<longrightarrow> m' \<noteq> None)"
  using assms
proof (induction "R - k" arbitrary: s k m)
  case 0
  then have "s\<lparr>updater := (updater s)(r := Some (R, m))\<rparr> = s" by (simp add: fun_upd_idem)
  then have "(combine_step e)\<^sup>*\<^sup>* s (s\<lparr>updater := (updater s)(r := Some (R, m))\<rparr>)" by (simp only: rtranclp.rtrancl_refl)
  then show ?case using 0 by (intro exI [of _ m]) (auto simp del: fun_upd_apply)
next
  case (Suc n)
  define m1 where "m1 = (if k \<in> warp_retired s then m else Some (case m of None \<Rightarrow> warp_head s k r | Some v \<Rightarrow> min v (warp_head s k r)))"
  define s1 where "s1 = s\<lparr>updater := (updater s)(r := Some (k + 1, m1))\<rparr>"
  have k: "k < R" using Suc(2) by simp
  have step: "combine_step e s s1" unfolding s1_def m1_def by (rule combine_step.scan_warp [OF Suc(3,4) k])
  have m1: "L \<le> v" if "m1 = Some v" for v
    using that Suc(7) Suc(6) [OF k] by (auto simp: m1_def split: if_splits option.splits)
  have "\<exists>m'. (combine_step e)\<^sup>*\<^sup>* s1 (s1\<lparr>updater := (updater s1)(r := Some (R, m'))\<rparr>) \<and> (\<forall>v. m' = Some v \<longrightarrow> L \<le> v)
      \<and> (m1 \<noteq> None \<or> (\<exists>w. k + 1 \<le> w \<and> w < R \<and> w \<notin> warp_retired s1) \<longrightarrow> m' \<noteq> None)"
    by (rule Suc(1)) (use Suc m1 in \<open>auto simp: s1_def\<close>)
  then obtain m' where m': "(combine_step e)\<^sup>*\<^sup>* s1 (s1\<lparr>updater := (updater s1)(r := Some (R, m'))\<rparr>)" "\<forall>v. m' = Some v \<longrightarrow> L \<le> v"
      "m1 \<noteq> None \<or> (\<exists>w. k + 1 \<le> w \<and> w < R \<and> w \<notin> warp_retired s) \<longrightarrow> m' \<noteq> None" by (auto simp: s1_def)
  have "s1\<lparr>updater := (updater s1)(r := Some (R, m'))\<rparr> = s\<lparr>updater := (updater s)(r := Some (R, m'))\<rparr>" by (simp add: s1_def)
  moreover have "m' \<noteq> None" if "m \<noteq> None \<or> (\<exists>w. k \<le> w \<and> w < R \<and> w \<notin> warp_retired s)"
    using that m'(3) unfolding m1_def by (metis Suc_eq_plus1 Suc_leI le_neq_implies_less option.distinct(1))
  ultimately show ?case using converse_rtranclp_into_rtranclp [of "combine_step e", OF step m'(1)] m'(2) by (intro exI [of _ m']) simp
qed

lemma lane_home:
  assumes "r < W" "scans_ok s"
  obtains s' where "(combine_step e)\<^sup>*\<^sup>* s s'" "same_but_updater s s'" "channel_tail s' = channel_tail s" "updater s' r = None"
proof (cases "updater s r")
  case None
  then show ?thesis using that [of s] by (simp add: same_but_updater_def)
next
  case (Some p)
  obtain k m where p: "updater s r = Some (k, m)" using Some by (cases p) simp
  then have "k \<le> R" using assms by (auto simp: scans_ok_def)
  from scan_all [OF assms(1) p this, of 0] obtain m' where
    run: "(combine_step e)\<^sup>*\<^sup>* s (s\<lparr>updater := (updater s)(r := Some (R, m'))\<rparr>)" by auto
  let ?s = "s\<lparr>updater := (updater s)(r := Some (R, m'))\<rparr>"
  have "combine_step e ?s (?s\<lparr>head_idx := (head_idx ?s)(r := (case m' of None \<Rightarrow> head_idx ?s r | Some v \<Rightarrow> max v (head_idx ?s r))),
      updater := (updater ?s)(r := None)\<rparr>)" by (rule combine_step.update_head [OF assms(1)]) simp
  with run show ?thesis by (intro that [OF rtranclp.rtrancl_into_rtrancl [OF run]]) (assumption, simp_all add: same_but_updater_def)
qed

lemma lane_cycle:
  assumes "r < W" "scans_ok s" "w0 < R" "w0 \<notin> warp_retired s" "\<And>w. w < R \<Longrightarrow> w \<notin> warp_retired s \<Longrightarrow> L \<le> warp_head s w r"
  obtains s' where "(combine_step e)\<^sup>*\<^sup>* s s'" "same_but_updater s s'" "channel_tail s' = (channel_tail s)(r := tail_idx s r)" "L \<le> head_idx s' r"
proof -
  obtain s1 where s1: "(combine_step e)\<^sup>*\<^sup>* s s1" "same_but_updater s s1" "channel_tail s1 = channel_tail s" "updater s1 r = None"
    by (rule lane_home [OF assms(1,2)])
  note eqs = s1(2) [unfolded same_but_updater_def]
  define s2 where "s2 = s1\<lparr>channel_tail := (channel_tail s1)(r := tail_idx s1 r), updater := (updater s1)(r := Some (0, None))\<rparr>"
  have "warp_retired s1 \<noteq> {..<R}" using assms(3,4) eqs by auto
  then have step2: "combine_step e s1 s2" unfolding s2_def by (intro combine_step.update_tail [OF assms(1) s1(4)])
  have "\<exists>m'. (combine_step e)\<^sup>*\<^sup>* s2 (s2\<lparr>updater := (updater s2)(r := Some (R, m'))\<rparr>) \<and> (\<forall>v. m' = Some v \<longrightarrow> L \<le> v)
      \<and> (None \<noteq> (None :: nat option) \<or> (\<exists>w. 0 \<le> w \<and> w < R \<and> w \<notin> warp_retired s2) \<longrightarrow> m' \<noteq> None)"
    by (rule scan_all [OF assms(1)]) (use assms(5) eqs in \<open>auto simp: s2_def\<close>)
  then obtain m' where m': "(combine_step e)\<^sup>*\<^sup>* s2 (s2\<lparr>updater := (updater s2)(r := Some (R, m'))\<rparr>)" "\<forall>v. m' = Some v \<longrightarrow> L \<le> v" "m' \<noteq> None"
    using assms(3,4) eqs by (auto simp: s2_def)
  let ?s3 = "s2\<lparr>updater := (updater s2)(r := Some (R, m'))\<rparr>"
  define s4 where "s4 = ?s3\<lparr>head_idx := (head_idx ?s3)(r := (case m' of None \<Rightarrow> head_idx ?s3 r | Some v \<Rightarrow> max v (head_idx ?s3 r))),
      updater := (updater ?s3)(r := None)\<rparr>"
  have step4: "combine_step e ?s3 s4" unfolding s4_def by (rule combine_step.update_head [OF assms(1)]) simp
  show ?thesis
  proof
    show "(combine_step e)\<^sup>*\<^sup>* s s4" using s1(1) step2 m'(1) step4 by (meson rtranclp.rtrancl_into_rtrancl rtranclp_trans)
    show "L \<le> head_idx s4 r" using m'(2,3) by (auto simp: s4_def)
  qed (use eqs s1(3) in \<open>simp_all add: s4_def s2_def same_but_updater_def\<close>)
qed

text \<open>So the receivers can see every published tail.\<close>

lemma all_lanes:
  assumes "scans_ok s" "w0 < R" "w0 \<notin> warp_retired s" "n \<le> W"
    and keep: "\<And>s'. (combine_step e)\<^sup>*\<^sup>* s s' \<Longrightarrow> scans_ok s'"
  shows "\<exists>s'. (combine_step e)\<^sup>*\<^sup>* s s' \<and> same_but_updater s s' \<and> (\<forall>r<n. channel_tail s' r = tail_idx s r)"
  using assms(4)
proof (induction n)
  case 0
  then show ?case by (intro exI [of _ s]) (simp add: same_but_updater_def)
next
  case (Suc n)
  then obtain s1 where s1: "(combine_step e)\<^sup>*\<^sup>* s s1" "same_but_updater s s1" "\<forall>r<n. channel_tail s1 r = tail_idx s r" by auto
  note eqs = s1(2) [unfolded same_but_updater_def]
  have "w0 \<notin> warp_retired s1" using assms(3) eqs by simp
  from lane_cycle [OF _ keep [OF s1(1)] assms(2) this, of n 0] Suc(2) obtain s2 where
    s2: "(combine_step e)\<^sup>*\<^sup>* s1 s2" "same_but_updater s1 s2" "channel_tail s2 = (channel_tail s1)(n := tail_idx s1 n)" by auto
  have "\<forall>r<Suc n. channel_tail s2 r = tail_idx s r" using s1(3) s2(3) eqs by (simp add: less_Suc_eq)
  then show ?case using rtranclp_trans [of "combine_step e", OF s1(1) s2(1)] same_trans [OF s1(2) s2(2)] by blast
qed

section \<open>A token whose rows are all published can be reduced\<close>

lemma load_all:
  assumes "w < R" "warp_values s w = Some g"
  shows "\<exists>g'. (combine_step e)\<^sup>*\<^sup>* s (s\<lparr>warp_values := (warp_values s)(w := Some g')\<rparr>) \<and> (\<forall>r \<in> set (topk_ranks e (warp_token s w)). g' r \<noteq> None)"
  using assms(2)
proof (induction "card {r \<in> set (topk_ranks e (warp_token s w)). g r = None}" arbitrary: s g)
  case 0
  then have "s\<lparr>warp_values := (warp_values s)(w := Some g)\<rparr> = s" "{r \<in> set (topk_ranks e (warp_token s w)). g r = None} = {}"
    by (simp_all add: fun_upd_idem)
  moreover from this(1) have "(combine_step e)\<^sup>*\<^sup>* s (s\<lparr>warp_values := (warp_values s)(w := Some g)\<rparr>)" by (simp only: rtranclp.rtrancl_refl)
  ultimately show ?case by (intro exI [of _ g]) (auto simp del: fun_upd_apply)
next
  case (Suc n)
  let ?M = "{r \<in> set (topk_ranks e (warp_token s w)). g r = None}"
  have "?M \<noteq> {}" using Suc(2) by (metis card.empty nat.distinct(1))
  then obtain r where r: "r \<in> set (topk_ranks e (warp_token s w))" "g r = None" by blast
  define v where "v = x_buffers s r (nat (heads_of e (warp_token s w) r mod int N))"
  define s1 where "s1 = s\<lparr>warp_values := (warp_values s)(w := Some (g(r := Some v)))\<rparr>"
  have step: "combine_step e s s1" unfolding s1_def v_def by (rule combine_step.load [OF assms(1) Suc(3) r])
  have "{r' \<in> set (topk_ranks e (warp_token s w)). (g(r := Some v)) r' = None} = ?M - {r}" by auto
  then have "n = card {r' \<in> set (topk_ranks e (warp_token s1 w)). (g(r := Some v)) r' = None}"
    using Suc(2) r by (simp add: s1_def)
  moreover have "warp_values s1 w = Some (g(r := Some v))" by (simp add: s1_def)
  ultimately obtain g' where g': "(combine_step e)\<^sup>*\<^sup>* s1 (s1\<lparr>warp_values := (warp_values s1)(w := Some g')\<rparr>)"
      "\<forall>r \<in> set (topk_ranks e (warp_token s1 w)). g' r \<noteq> None" using Suc(1) by blast
  have "s1\<lparr>warp_values := (warp_values s1)(w := Some g')\<rparr> = s\<lparr>warp_values := (warp_values s)(w := Some g')\<rparr>" by (simp add: s1_def)
  then show ?case using converse_rtranclp_into_rtranclp [of "combine_step e", OF step g'(1)] g'(2) by (intro exI [of _ g']) (simp add: s1_def)
qed

definition work :: "'f combine_state \<Rightarrow> nat" where
  "work s = (\<Sum>r<W. 2 * (n_rows r - tail_idx s r) - card (copied s r)) + (\<Sum>w<R. T + R - warp_token s w)"

lemma sum_less_at:
  fixes f g :: "nat \<Rightarrow> nat"
  assumes "k < n" "g k < f k" "\<And>i. i < n \<Longrightarrow> i \<noteq> k \<Longrightarrow> g i = f i"
  shows "(\<Sum>i<n. g i) < (\<Sum>i<n. f i)"
proof (rule sum_strict_mono_ex1)
  show "\<forall>i \<in> {..<n}. g i \<le> f i" using assms(2,3) by (metis lessThan_iff less_imp_le order_refl)
qed (use assms(1,2) in auto)

lemma reduce_token:
  assumes "warps_ok s" "w < R" "warp_values s w \<noteq> None"
  shows "\<exists>s'. (combine_step e)\<^sup>*\<^sup>* s s' \<and> work s' < work s"
proof -
  obtain g where g: "warp_values s w = Some g" using assms(3) by blast
  obtain g' where g': "(combine_step e)\<^sup>*\<^sup>* s (s\<lparr>warp_values := (warp_values s)(w := Some g')\<rparr>)"
      "\<forall>r \<in> set (topk_ranks e (warp_token s w)). g' r \<noteq> None" using load_all [OF assms(2) g] by blast
  let ?s = "s\<lparr>warp_values := (warp_values s)(w := Some g')\<rparr>"
  define s1 where "s1 = ?s\<lparr>recv_x := (recv_x ?s)(warp_token ?s w := Some (reduce_entries (map (the \<circ> g') (topk_ranks e (warp_token ?s w))))),
      warp_head := (warp_head ?s)(w := (\<lambda>r. next_head (heads_of e (warp_token ?s w) r))),
      warp_token := (warp_token ?s)(w := warp_token ?s w + R), warp_values := (warp_values ?s)(w := None)\<rparr>"
  have "combine_step e ?s s1" unfolding s1_def by (rule combine_step.finish [OF assms(2)]) (use g' in simp_all)
  then have run: "(combine_step e)\<^sup>*\<^sup>* s s1" using g'(1) by (rule rtranclp.rtrancl_into_rtrancl [rotated])
  have "warp_token s w < T" using assms by (auto simp: warps_ok_def warp_ok_def)
  then have "(\<Sum>v<R. T + R - warp_token s1 v) < (\<Sum>v<R. T + R - warp_token s v)"
    using warps by (intro sum_less_at [OF assms(2)]) (simp_all add: s1_def)
  then have "work s1 < work s" by (simp add: work_def s1_def)
  then show ?thesis using run by blast
qed

section \<open>A ring that is long enough is never stuck\<close>

lemma warp_head_lower:
  assumes "warps_ok s" "r < W" "w < R" "t < T" "\<And>t'. t' < t \<Longrightarrow> t' < warp_token s (t' mod R)"
  shows "cnt r t - (R - 1) \<le> warp_head s w r"
proof -
  have ok: "warp_ok s w" using assms(1,3) by (simp add: warps_ok_def)
  have "t \<le> warp_token s w"
  proof (rule ccontr)
    assume "\<not> t \<le> warp_token s w"
    then have "warp_token s w < warp_token s (warp_token s w mod R)" using assms(5) by simp
    then show False using ok by (simp add: warp_ok_def)
  qed
  show ?thesis
  proof (cases "warp_token s w < R")
    case True
    then show ?thesis using \<open>t \<le> warp_token s w\<close> cnt_le [of r t] by simp
  next
    case False
    define t0 where "t0 = warp_token s w - R"
    have t0: "t0 < T" "t \<le> t0 + R" using ok False \<open>t \<le> warp_token s w\<close> by (auto simp: t0_def warp_ok_def)
    have "cnt r t \<le> cnt r (Suc t0) + (R - 1)"
    proof (cases "t \<le> Suc t0")
      case True
      then show ?thesis using sent_before_mono [of t "Suc t0" "cb_sends e r"] by simp
    next
      case False
      then show ?thesis using sent_before_gap [of "Suc t0" t "cb_sends e r"] t0 by simp
    qed
    moreover have "cnt r t \<le> 2 ^ 25" using cnt_le [of r t] assms(4) few by simp
    ultimately have "cnt r t - (R - 1) \<le> head_after r t0" using assms(2) t0 by (simp add: head_after_at le_diff_conv)
    then show ?thesis using ok False assms(2) by (simp add: warp_ok_def t0_def)
  qed
qed

lemma send_some:
  assumes "tails_ok s" "r < W" "tail_idx s r < n_rows r" "queue_space e s r"
  shows "\<exists>s'. combine_step e s s' \<and> work s' < work s"
proof (cases "copied s r = {..<num_round_tokens e s r}")
  case True
  have pos: "0 < num_round_tokens e s r" using assms(3) chunk by (simp add: num_round_tokens_def)
  let ?s = "s\<lparr>tail_idx := (tail_idx s)(r := tail_idx s r + num_round_tokens e s r), copied := (copied s)(r := {})\<rparr>"
  have "num_round_tokens e s r \<le> n_rows r - tail_idx s r" by (simp add: num_round_tokens_def)
  then have "(\<Sum>r<W. 2 * (n_rows r - tail_idx ?s r) - card (copied ?s r)) < (\<Sum>r<W. 2 * (n_rows r - tail_idx s r) - card (copied s r))"
    using pos by (intro sum_less_at [OF assms(2)]) (simp_all add: True)
  then have "work ?s < work s" by (simp add: work_def)
  then show ?thesis using combine_step.publish [OF assms(2) pos True] by blast
next
  case False
  have sub: "copied s r \<subseteq> {..<num_round_tokens e s r}" using assms(1,2) by (simp add: tails_ok_def)
  then obtain i where i: "i < num_round_tokens e s r" "i \<notin> copied s r" using False by auto
  let ?s = "s\<lparr>x_buffers := (x_buffers s)(r := (x_buffers s r)((tail_idx s r + i) mod cb_ring e := cb_rows e r ! (tail_idx s r + i))),
      copied := (copied s)(r := insert i (copied s r))\<rparr>"
  have "finite (copied s r)" using sub finite_subset by blast
  moreover have "insert i (copied s r) \<subseteq> {..<num_round_tokens e s r}" using sub i by simp
  from card_mono [OF _ this] have "card (insert i (copied s r)) \<le> n_rows r - tail_idx s r" by (simp add: num_round_tokens_def)
  ultimately have "(\<Sum>r<W. 2 * (n_rows r - tail_idx ?s r) - card (copied ?s r)) < (\<Sum>r<W. 2 * (n_rows r - tail_idx s r) - card (copied s r))"
    using i(2) by (intro sum_less_at [OF assms(2)]) simp_all
  then have "work ?s < work s" by (simp add: work_def)
  then show ?thesis using combine_step.copy [OF assms(2) i assms(4)] by blast
qed

lemma next_progress:
  assumes reach: "combine_reach e junk s" and long: "cb_chunk e + R \<le> N + 1" and left: "t0 < T" "\<not> t0 < warp_token s (t0 mod R)"
  shows "\<exists>s'. (combine_step e)\<^sup>*\<^sup>* s s' \<and> work s' < work s"
proof -
  note ok = reach_ok [OF reach]
  have later: "combine_reach e junk s'" if "(combine_step e)\<^sup>*\<^sup>* s s'" for s'
    using reach that unfolding combine_reach_def by (rule rtranclp_trans)
  define t where "t = (LEAST t. \<not> t < warp_token s (t mod R))"
  have t: "\<not> t < warp_token s (t mod R)" unfolding t_def by (rule LeastI [of _ t0]) (rule left(2))
  have "t \<le> t0" unfolding t_def by (rule Least_le) (rule left(2))
  then have tT: "t < T" using left(1) by simp
  have first: "t' < warp_token s (t' mod R)" if "t' < t" for t' using that not_less_Least unfolding t_def by blast
  let ?w = "t mod R"
  have w: "?w < R" using warps by simp
  then have wok: "warp_ok s ?w" using ok(2) by (simp add: warps_ok_def)
  have wt: "warp_token s ?w = t"
  proof (rule ccontr)
    assume "warp_token s ?w \<noteq> t"
    then have "warp_token s ?w < t" using t by simp
    from first [OF this] show False using wok by (simp add: warp_ok_def)
  qed
  have alive: "?w \<notin> warp_retired s" using wok wt tT by (auto simp: warp_ok_def)
  show ?thesis
  proof (cases "\<forall>r<W. dest r t \<longrightarrow> cnt r t < tail_idx s r")
    case True
    from all_lanes [OF ok(4) w alive order_refl] obtain s1 where
      s1: "(combine_step e)\<^sup>*\<^sup>* s s1" "same_but_updater s s1" "\<forall>r<W. channel_tail s1 r = tail_idx s r"
      using reach_ok(4) [OF later] by blast
    note eqs = s1(2) [unfolded same_but_updater_def]
    have work1: "work s1 = work s" using eqs by (simp add: work_def)
    obtain s2 where s2: "(combine_step e)\<^sup>*\<^sup>* s1 s2" "warp_values s2 ?w \<noteq> None" "work s2 = work s1"
    proof (cases "warp_values s1 ?w")
      case None
      have "\<forall>r<W. \<not> (int (channel_tail s1 r) \<le> heads_of e (warp_token s1 ?w) r \<and> 0 \<le> heads_of e (warp_token s1 ?w) r)"
        using True s1(3) eqs wt tT heads_dest heads_cnt by auto
      then have "combine_step e s1 (s1\<lparr>warp_values := (warp_values s1)(?w := Some (\<lambda>_. None))\<rparr>)"
        using eqs wt tT by (intro combine_step.ready [OF w None]) simp_all
      then show thesis by (rule that [OF r_into_rtranclp]) (auto simp: work_def)
    qed (use that in auto)
    have run: "(combine_step e)\<^sup>*\<^sup>* s s2" using s1(1) s2(1) by (rule rtranclp_trans)
    from reduce_token [OF reach_ok(2) [OF later [OF run]] w s2(2)] obtain s3 where
      "(combine_step e)\<^sup>*\<^sup>* s2 s3" "work s3 < work s2" by blast
    then show ?thesis using run s2(3) work1 rtranclp_trans [of "combine_step e"] by metis
  next
    case False
    then obtain r where r: "r < W" "dest r t" "tail_idx s r \<le> cnt r t" by auto
    let ?L = "cnt r t - (R - 1)"
    from lane_cycle [OF r(1) ok(4) w alive, of ?L] obtain s1 where
      s1: "(combine_step e)\<^sup>*\<^sup>* s s1" "same_but_updater s s1" "?L \<le> head_idx s1 r"
      using warp_head_lower [OF ok(2) r(1) _ tT first] by blast
    note eqs = s1(2) [unfolded same_but_updater_def]
    have "num_round_tokens e s1 r \<le> cb_chunk e" by (simp add: num_round_tokens_def)
    moreover have "tail_idx s1 r \<le> cnt r t" using r(3) eqs by simp
    ultimately have "queue_space e s1 r" using s1(3) long warps by (simp add: queue_space_def)
    moreover have "cnt r t < n_rows r" using sent_before_less [OF tT _ ] r(1,2) rows sends by simp
    ultimately obtain s2 where "combine_step e s1 s2" "work s2 < work s1"
      using send_some [OF reach_ok(1) [OF later [OF s1(1)]] r(1)] r(3) eqs by auto
    moreover have "work s1 = work s" using eqs by (simp add: work_def)
    ultimately show ?thesis using s1(1) by (metis rtranclp.rtrancl_into_rtrancl)
  qed
qed

lemma retire_all:
  assumes "\<And>w. w < R \<Longrightarrow> warp_values s w = None \<and> T \<le> warp_token s w" "warp_retired s \<subseteq> {..<R}"
  shows "\<exists>s'. (combine_step e)\<^sup>*\<^sup>* s s' \<and> warp_retired s' = {..<R} \<and> tail_idx s' = tail_idx s"
  using assms
proof (induction "card ({..<R} - warp_retired s)" arbitrary: s)
  case 0
  then have "warp_retired s = {..<R}" by auto
  then show ?case by blast
next
  case (Suc n)
  then have "{..<R} - warp_retired s \<noteq> {}" by (metis card.empty nat.distinct(1))
  then obtain w where w: "w < R" "w \<notin> warp_retired s" by auto
  let ?s = "s\<lparr>warp_retired := insert w (warp_retired s)\<rparr>"
  have step: "combine_step e s ?s" using Suc(3) w(1) by (intro combine_step.retire) simp_all
  have "{..<R} - warp_retired ?s = ({..<R} - warp_retired s) - {w}" by auto
  then have "n = card ({..<R} - warp_retired ?s)" using Suc(2) w by simp
  from Suc(1) [OF this] Suc(3,4) w obtain s' where "(combine_step e)\<^sup>*\<^sup>* ?s s'" "warp_retired s' = {..<R}" "tail_idx s' = tail_idx ?s" by auto
  then show ?case using converse_rtranclp_into_rtranclp [of "combine_step e", OF step] by auto
qed

lemma retired_below: "combine_reach e junk s \<Longrightarrow> warp_retired s \<subseteq> {..<R}"
  unfolding combine_reach_def
proof (induction rule: rtranclp_induct)
  case (step s s')
  from step(2,3) show ?case by (induction rule: combine_step.induct) auto
qed (simp add: combine_init_def)

lemma can_finish:
  assumes "combine_reach e junk s" "cb_chunk e + R \<le> N + 1"
  shows "\<exists>s'. (combine_step e)\<^sup>*\<^sup>* s s' \<and> combine_done e s'"
  using assms(1)
proof (induction "work s" arbitrary: s rule: less_induct)
  case less
  have later: "combine_reach e junk s'" if "(combine_step e)\<^sup>*\<^sup>* s s'" for s'
    using less(2) that unfolding combine_reach_def by (rule rtranclp_trans)
  show ?case
  proof (cases "\<exists>t<T. \<not> t < warp_token s (t mod R)")
    case True
    then obtain s' where "(combine_step e)\<^sup>*\<^sup>* s s'" "work s' < work s" using next_progress [OF less(2) assms(2)] by blast
    then show ?thesis using less(1) later rtranclp_trans [of "combine_step e"] by metis
  next
    case False
    note ok = reach_ok [OF less(2)]
    have over: "warp_values s w = None \<and> T \<le> warp_token s w" if "w < R" for w
    proof -
      have wok: "warp_ok s w" using ok(2) that by (simp add: warps_ok_def)
      then have "T \<le> warp_token s w" using False by (metis linorder_not_less warp_ok_def nat_less_le)
      then show ?thesis using wok by (auto simp: warp_ok_def)
    qed
    have "tail_idx s r = n_rows r" if r: "r < W" for r
    proof (rule ccontr)
      assume "tail_idx s r \<noteq> n_rows r"
      then have "tail_idx s r < n_rows r" using ok(1) r by (auto simp: tails_ok_def nat_less_le)
      then obtain t where t: "t < T" "dest r t" "cnt r t = tail_idx s r" using nth_sent [of "tail_idx s r" "cb_sends e r"] rows sends r by auto
      have "warp_ok s (t mod R)" using ok(2) warps by (simp add: warps_ok_def)
      then have "cnt r t < channel_tail s r" using False t(1,2) r unfolding warp_ok_def by blast
      then show False using ok(1) r t(3) by (auto simp: tails_ok_def)
    qed
    then show ?thesis using retire_all [OF over retired_below [OF less(2)]] unfolding combine_done_def by metis
  qed
qed

section \<open>A ring that is too short always gets stuck\<close>

text \<open>The published head trails the tokens reduced by up to \<open>R - 1\<close>: with fewer free slots than that next to a round, the
  sender of a rank that gets every token never passes the round that would fill the ring.\<close>

lemma stuck_tail:
  assumes "combine_reach e junk s" and r: "r < W" "\<And>t. t < T \<Longrightarrow> dest r t"
    and short: "N + 1 < cb_chunk e + R" and many: "N div cb_chunk e * cb_chunk e + cb_chunk e \<le> T"
  defines "full \<equiv> N div cb_chunk e * cb_chunk e"
  shows "tail_idx s r \<le> full \<and> cb_chunk e dvd tail_idx s r \<and> (tail_idx s r = full \<longrightarrow> copied s r = {})"
proof -
  have all: "cnt r t = t" if "t \<le> T" for t
  proof -
    have "filter (\<lambda>b. b) (take t (cb_sends e r)) = take t (cb_sends e r)"
      using r sends that by (intro filter_True) (auto simp: in_set_conv_nth)
    then show ?thesis using sends r(1) that by (simp add: sent_before_def)
  qed
  have n: "n_rows r = T" using rows r(1) all by simp
  have "full + N mod cb_chunk e = N" by (simp add: full_def)
  then have over: "N < full + cb_chunk e" using chunk mod_less_divisor [OF chunk, of N] by linarith
  have room: "num_round_tokens e s r = cb_chunk e" if "tail_idx s r \<le> full" for s using that many n by (simp add: num_round_tokens_def full_def)
  have blocked: "\<not> queue_space e s r" if reach: "combine_reach e junk s" and at: "tail_idx s r = full" for s
  proof
    assume "queue_space e s r"
    then have need: "full + cb_chunk e \<le> head_idx s r + N" using room [of s] at by (simp add: queue_space_def)
    note ok = reach_ok [OF reach]
    let ?w = "full mod R"
    have w: "?w < R" using warps by simp
    then have wok: "warp_ok s ?w" using ok(2) by (simp add: warps_ok_def)
    have T: "full < T" using many chunk by (simp add: full_def)
    have le: "warp_token s ?w \<le> full"
    proof (rule ccontr)
      assume "\<not> warp_token s ?w \<le> full"
      then have "cnt r full < channel_tail s r" using wok T r unfolding warp_ok_def by auto
      then show False using ok(1) r(1) at all [of full] T by (auto simp: tails_ok_def)
    qed
    then have "?w \<notin> warp_retired s" using wok T by (auto simp: warp_ok_def)
    then have "head_idx s r \<le> warp_head s ?w r" using ok(3) r(1) w by (simp add: heads_ok_def)
    also have "warp_head s ?w r \<le> (if warp_token s ?w < R then 0 else full - R + 1)"
    proof (cases "warp_token s ?w < R")
      case False
      define t0 where "t0 = warp_token s ?w - R"
      have t0: "t0 < T" "t0 + R \<le> full" using le False T by (auto simp: t0_def)
      have "True \<in> set (drop t0 (cb_sends e r))" using later_dest [OF r(1) order_refl t0(1) r(2) [OF t0(1)]] .
      then have "head_after r t0 = Suc t0" using head_after_at [OF r(1) t0(1)] all [of "Suc t0"] t0(1) by simp
      then show ?thesis using wok False r(1) t0(2) by (simp add: warp_ok_def t0_def)
    qed (use wok r(1) in \<open>simp add: warp_ok_def\<close>)
    finally show False using need over short le by (auto split: if_splits)
  qed
  have "(combine_step e)\<^sup>*\<^sup>* (combine_init junk) s" using assms(1) by (simp add: combine_reach_def)
  then show ?thesis
  proof (induction rule: rtranclp_induct)
    case (step s s')
    have reach: "combine_reach e junk s" using step(1) by (simp add: combine_reach_def)
    have le: "tail_idx s r \<le> full" using step(3) by blast
    from step(2) show ?case
    proof cases
      case (copy r' i)
      then show ?thesis using step(3) blocked [OF reach] by (auto simp: all_conj_distrib)
    next
      case (publish r')
      show ?thesis
      proof (cases "r' = r")
        case True
        then have c: "copied s r = {..<cb_chunk e}" using publish room [OF le] by simp
        then have "tail_idx s r \<noteq> full" using step(3) chunk by auto
        then have "tail_idx s r < full" using le by simp
        moreover obtain k where k: "tail_idx s r = k * cb_chunk e" using step(3) by (metis dvd_div_mult_self)
        ultimately have "Suc k \<le> N div cb_chunk e" by (simp add: full_def)
        from mult_le_mono1 [OF this, of "cb_chunk e"] have "tail_idx s r + cb_chunk e \<le> full" by (simp add: k full_def)
        then show ?thesis using publish True room [OF le] step(3) by simp
      qed (use publish step(3) in simp)
    qed (use step(3) in auto)
  qed (simp add: combine_init_def)
qed

lemma never_finishes:
  assumes "combine_reach e junk s" "r < W" "\<And>t. t < T \<Longrightarrow> dest r t"
    and "N + 1 < cb_chunk e + R" "N div cb_chunk e * cb_chunk e + cb_chunk e \<le> T"
  shows "\<not> combine_done e s"
proof
  assume "combine_done e s"
  then have "tail_idx s r = n_rows r" using assms(2) by (simp add: combine_done_def)
  moreover have "cnt r T = T"
  proof -
    have "filter (\<lambda>b. b) (take T (cb_sends e r)) = take T (cb_sends e r)"
      using assms(2,3) sends by (intro filter_True) (auto simp: in_set_conv_nth)
    then show ?thesis using sends assms(2) by (simp add: sent_before_def)
  qed
  ultimately show False using stuck_tail [OF assms] rows assms(2,5) chunk by simp
qed

end

end
