(* ===== verification/Combine_Contract.thy ===== *)
theory Combine_Contract
  imports Combine_Progress Layer_Reference Buffer_Sizing
begin

text \<open>
  What combine returns. A channel of \<open>combine_main_kernel\<close> is called with the layout dispatch left (the ranges of the
  senders come from its prefix matrices, the expected heads from its senders) and with one of the communication
  configurations of \<^theory_text>\<open>Buffer_Sizing\<close>. The rows and top-k weights it stores are those of \<open>to_sources\<close>, the reference combine is
  tested against; a configuration whose ring holds a round and 22 rows more lets it end, as every recommended one does.
\<close>

section \<open>The arguments of a channel\<close>

definition combine_range :: "nat \<Rightarrow> nat \<Rightarrow> nat \<Rightarrow> ('f, 'r) global \<Rightarrow> ('r list \<times> 'f routing) list \<Rightarrow> nat \<Rightarrow> nat \<times> nat" where
  \<comment> \<open>rank \<open>r\<close>'s sender of channel \<open>c\<close> for rank \<open>me\<close>: the received tokens it sends back\<close>
  "combine_range C c me G ranks r =
     (let matrix = rank_prefix_column r G; channel = (\<lambda>c. start_count C r c (snd (ranks ! me)));
          rank_offset = (if me > 0 then matrix ! (me - 1) else 0);
          num_rank_tokens = matrix ! me - rank_offset;
          num_channel_tokens = (if c = C - 1 then num_rank_tokens else channel (c + 1)) - channel c
      in (rank_offset + channel c, rank_offset + channel c + num_channel_tokens))"

definition combine_channel :: "comm_config \<Rightarrow> nat \<Rightarrow> nat \<Rightarrow> nat \<Rightarrow> ('f, 'r) global \<Rightarrow> ('r list \<times> 'f routing) list
    \<Rightarrow> (nat \<Rightarrow> nat \<Rightarrow> 'f row) \<Rightarrow> (nat \<Rightarrow> nat \<Rightarrow> 'f row) \<Rightarrow> 'f combine_env" where
  \<comment> \<open>\<open>x r\<close> and \<open>w r\<close> are rank \<open>r\<close>'s rows and its weights per received token and choice\<close>
  "combine_channel cf C c me G ranks x w =
     (let (lo, hi) = channel_task_range (length (rt_topk_idx (snd (ranks ! me)))) C c
      in \<lparr>cb_ranks = length ranks, cb_ring = nat (cf_nvl_recv cf), cb_chunk = nat (cf_nvl_send cf), cb_warps = 768 div 32 - 1,
          cb_tokens = hi - lo, cb_sends = (\<lambda>r. map (\<lambda>t. is_token_in_rank (snd (ranks ! me)) ! t ! r) [lo..<hi]),
          cb_rows = (\<lambda>r. case combine_range C c me G ranks r of (a, b) \<Rightarrow> map (\<lambda>q. (x r q, w r q)) [a..<b])\<rparr>)"

section \<open>They meet the kernel's requirements\<close>

lemma nth_filter_before:
  assumes "t < length xs" "P (xs ! t)"
  shows "filter P xs ! sent_before (map P xs) t = xs ! t" "sent_before (map P xs) t < length (filter P xs)"
proof -
  have "sent_before (map P xs) t = length (filter P (take t xs))" by (simp add: sent_before_def take_map filter_map comp_def)
  moreover have "filter P xs = filter P (take t xs) @ xs ! t # filter P (drop (Suc t) xs)"
    using assms by (subst id_take_nth_drop [OF assms(1)]) simp
  ultimately show "filter P xs ! sent_before (map P xs) t = xs ! t" "sent_before (map P xs) t < length (filter P xs)"
    by (simp_all add: nth_append)
qed

context dispatching
begin

text \<open>Here \<open>me\<close> is the rank that sends back what it received from rank \<open>s\<close>.\<close>

lemma range_at:
  assumes "s < W" "c < C"
  shows "combine_range C c s G ranks me = (offset_at s c, offset_at s c + length (sent C me ranks s c))"
proof -
  note col = prefix_column [of s] prefix_column [of "Suc s"] and start = start_count_filter [OF wr assms(1) me]
  have "rank_prefix_column me G ! s = (\<Sum>xs\<leftarrow>map received [0..<s]. length xs) + length (received s)" using col(2) assms(1) by simp
  moreover have "length (received s) = (\<Sum>xs\<leftarrow>map (sent C me ranks s) [0..<C]. length xs)"
    by (simp add: received_channels [OF assms(1)] length_concat)
  moreover have "[0..<C] = [0..<c] @ [c]" if "c = C - 1" using that C by (metis Suc_pred' upt_Suc_append zero_le)
  ultimately show ?thesis using col(1) assms by (auto simp: combine_range_def Let_def start offset_at_def)
qed

lemma tokens_at:
  "sent C me ranks s c = filter (\<lambda>t. is_token_in_rank (snd (ranks ! s)) ! t ! me) [lo_of (toks s) C c..<lo_of (toks s) C (c + 1)]"
  by (simp add: sent_tokens_def task_range)

end

lemma channel_ok:
  fixes ranks :: "('f row list \<times> 'f::comm_semiring_1 routing) list"
  assumes "well_routed K E ranks" "G = gather zx zi zw ranks" "me < length ranks" "c < C"
    and "0 < cf_nvl_send cf" "cf_nvl_send cf < cf_nvl_recv cf" "tokens_of ranks me \<le> 2 ^ 25"
  shows "combining (combine_channel cf C c me G ranks x w)"
proof
  fix r assume r: "r < cb_ranks (combine_channel cf C c me G ranks x w)"
  then have "r < length ranks" by (simp add: combine_channel_def Let_def case_prod_beta)
  then have d: "dispatching K E C r ranks G zx zi zw" using assms(1,2,4) by unfold_locales auto
  show "length (cb_sends (combine_channel cf C c me G ranks x w) r) = cb_tokens (combine_channel cf C c me G ranks x w)"
    by (simp add: combine_channel_def Let_def case_prod_beta)
  show "length (cb_rows (combine_channel cf C c me G ranks x w) r)
      = sent_before (cb_sends (combine_channel cf C c me G ranks x w) r) (cb_tokens (combine_channel cf C c me G ranks x w))"
    by (simp add: combine_channel_def Let_def dispatching.range_at [OF d assms(3,4)] sent_before_def filter_map comp_def
        dispatching.tokens_at [OF d] task_range)
next
  have "lo_of (tokens_of ranks me) C (c + 1) \<le> tokens_of ranks me" by (simp add: lo_of_def)
  then show "cb_tokens (combine_channel cf C c me G ranks x w) \<le> 2 ^ 25" using assms(7) by (simp add: combine_channel_def task_range)
qed (use assms(5,6) in \<open>auto simp: combine_channel_def Let_def case_prod_beta\<close>)

text \<open>Every recommended configuration keeps 22 rows free next to a round.\<close>

lemma recommended_ring_long:
  assumes "fst (get_combine_config n p) = Inr cf"
  shows "0 < cf_nvl_send cf" "cf_nvl_send cf + 22 \<le> cf_nvl_recv cf"
proof -
  obtain a b c d where row: "map_of combine_rows n = Some (a, b, c, d)" "mk_config (num_sms (snd (autopick_num_sms n p))) a b c d = Inr cf"
    using recommended_row assms unfolding get_combine_config_def by blast
  have "0 < a \<and> a + 22 \<le> b" using map_of_SomeD [OF row(1)] by (auto simp: combine_rows_def)
  moreover have "cf_nvl_send cf = a" "cf_nvl_recv cf = b" using row(2) by (auto simp: mk_config_def py_bind_Inr_iff)
  ultimately show "0 < cf_nvl_send cf" "cf_nvl_send cf + 22 \<le> cf_nvl_recv cf" by simp_all
qed

section \<open>The rows it stores\<close>

lemma stored_row:
  fixes ranks :: "('f row list \<times> 'f::comm_semiring_1 routing) list"
  assumes wr: "well_routed K E ranks" "G = gather zx zi zw ranks" and me: "me < length ranks" and c: "c < C"
    and lo: "channel_task_range (tokens_of ranks me) C c = (lo, hi)" and t: "t < hi - lo"
  defines "goes \<equiv> \<lambda>t r. is_token_in_rank (snd (ranks ! me)) ! t ! r"
  shows "(\<Sum>r\<leftarrow>filter (goes (lo + t)) [0..<length ranks].
      x r (fst (combine_range C c me G ranks r) + sent_before (map (\<lambda>t. goes t r) [lo..<hi]) t) j) = (to_sources me G x ! (lo + t)) j"
proof -
  let ?W = "length ranks" and ?g = "off_of ranks me + (lo + t)"
  note f = gather_facts [OF wr] and N = gathered_weights(3) [OF wr]
  have ends: "lo = lo_of (tokens_of ranks me) C c" "hi = lo_of (tokens_of ranks me) C (Suc c)" using lo by (simp_all add: task_range)
  then have i: "lo + t < tokens_of ranks me" using t by (simp add: lo_of_def)
  have "(if goes (lo + t) r then x r (fst (combine_range C c me G ranks r) + sent_before (map (\<lambda>t. goes t r) [lo..<hi]) t) j else 0)
      = spread r G (x r) ?g j" if r: "r < ?W" for r
  proof -
    have d: "dispatching K E C r ranks G zx zi zw" using wr c r by unfold_locales auto
    show ?thesis
    proof (cases "goes (lo + t) r")
      case True
      let ?n = "sent_before (map (\<lambda>t. goes t r) [lo..<hi]) t"
      have sent: "sent C r ranks me c ! ?n = lo + t" "?n < length (sent C r ranks me c)"
        using nth_filter_before [of t "[lo..<hi]" "\<lambda>t. goes t r"] True t
        by (simp_all add: dispatching.tokens_at [OF d] goes_def ends [symmetric])
      note at = dispatching.recv_index [OF d me c sent(2)]
      have "spread r G (x r) ?g = x r (dispatching.offset_at E C r ranks me c + ?n)"
        using spread_at [OF at(1)] at(2) sent(1) by simp
      then show ?thesis using True dispatching.range_at [OF d me c] by simp
    next
      case False
      then have "\<not> has_local (local_at r E ranks me (lo + t))" using in_rank_iff [OF wr(1) me r i] by (simp add: goes_def)
      then have "?g \<notin> set (recv_tokens r G)" using dispatching.at(2) [OF d me i] by (simp add: recv_tokens_def)
      then show ?thesis using False by (simp add: spread_none)
    qed
  qed
  then have "(\<Sum>r\<leftarrow>[0..<?W]. if goes (lo + t) r then x r (fst (combine_range C c me G ranks r) + sent_before (map (\<lambda>t. goes t r) [lo..<hi]) t) j else 0)
      = (\<Sum>r\<leftarrow>[0..<?W]. spread r G (x r) ?g j)" by (intro arg_cong [of _ _ sum_list] map_cong) simp_all
  then show ?thesis
    unfolding sum_list_map_filter' to_sources_row [OF f(7) N f(4) me i] by (simp add: interv_sum_list_conv_sum_set_nat atLeast0LessThan)
qed

lemma finished_rows:
  fixes ranks :: "('f row list \<times> 'f::comm_semiring_1 routing) list"
  assumes wr: "well_routed K E ranks" "G = gather zx zi zw ranks" and me: "me < length ranks" and c: "c < C"
    and lo: "channel_task_range (tokens_of ranks me) C c = (lo, hi)" and t: "t < hi - lo" and e: "e = combine_channel cf C c me G ranks x w"
    and ok: "combining e" and s: "combine_reach e junk s" "combine_done e s"
  shows "recv_x s t = Some (to_sources me G x ! (lo + t), to_sources me G w ! (lo + t))"
proof -
  let ?goes = "\<lambda>t r. is_token_in_rank (snd (ranks ! me)) ! t ! r"
  have fields: "cb_tokens e = hi - lo" "cb_ranks e = length ranks" "cb_warps e = 23"
    "\<And>r. cb_sends e r = map (\<lambda>t. ?goes t r) [lo..<hi]"
    "\<And>r. cb_rows e r = (case combine_range C c me G ranks r of (a, b) \<Rightarrow> map (\<lambda>q. (x r q, w r q)) [a..<b])"
    by (simp_all add: e combine_channel_def lo)
  have "t mod 23 \<in> warp_retired s" using s(2) fields(3) by (simp add: combine_done_def)
  moreover have "combining.warp_ok e s (t mod 23)"
    using combining.reach_ok(2) [OF ok s(1)] fields(3) by (simp add: combining.warps_ok_def [OF ok])
  ultimately have "t < warp_token s (t mod 23)" using t fields(1) by (simp add: combining.warp_ok_def [OF ok])
  then have "recv_x s t = Some (reduce_entries (map (\<lambda>r. cb_rows e r ! sent_before (cb_sends e r) t) (topk_ranks e t)))"
    using combining.reach_ok(7) [OF ok s(1)] t fields by (simp add: combining.rows_ok_def [OF ok])
  also have "topk_ranks e t = filter (?goes (lo + t)) [0..<length ranks]"
    unfolding topk_ranks_def fields(2) using combining.heads_dest [OF ok] t fields by (intro filter_cong) auto
  also have "map (\<lambda>r. cb_rows e r ! sent_before (cb_sends e r) t) (filter (?goes (lo + t)) [0..<length ranks])
      = map (\<lambda>r. let q = fst (combine_range C c me G ranks r) + sent_before (map (\<lambda>t. ?goes t r) [lo..<hi]) t in (x r q, w r q))
          (filter (?goes (lo + t)) [0..<length ranks])"
  proof (rule map_cong [OF refl])
    fix r assume "r \<in> set (filter (?goes (lo + t)) [0..<length ranks])"
    then have r: "r < length ranks" "?goes (lo + t) r" by simp_all
    then have "sent_before (cb_sends e r) t < length (cb_rows e r)"
      using combining.rows [OF ok, of r] sent_before_less [of t "cb_tokens e" "cb_sends e r"] t fields by simp
    then show "cb_rows e r ! sent_before (cb_sends e r) t
        = (let q = fst (combine_range C c me G ranks r) + sent_before (map (\<lambda>t. ?goes t r) [lo..<hi]) t in (x r q, w r q))"
      by (simp add: fields(4,5) case_prod_beta Let_def)
  qed
  finally show ?thesis
    unfolding reduce_entries_def using stored_row [OF wr me c lo t] by (simp add: comp_def Let_def)
qed

text \<open>The benchmark's routing runs on it.\<close>

interpretation uniform_channel: combining "combine_channel
    \<lparr>cf_num_sms = sms, cf_nvl_send = int (Suc a), cf_nvl_recv = int (Suc a) + int (Suc b), cf_rdma_send = rs, cf_rdma_recv = rr\<rparr>
    (Suc C) (c mod Suc C) (me mod Suc W) (gather zx zi zw (uniform_ranks (n mod 2 ^ 25) K (Suc E) (Suc W) rows weights))
    (uniform_ranks (n mod 2 ^ 25) K (Suc E) (Suc W) rows weights) x w"
  for sms rs rr a b C c me W E n K zx zi zw and rows x w :: "nat \<Rightarrow> nat \<Rightarrow> 'f::comm_semiring_1 row" and weights :: "nat \<Rightarrow> nat \<Rightarrow> nat \<Rightarrow> 'f"
proof (rule channel_ok [OF uniform_well_routed refl])
  have "tokens_of (uniform_ranks (n mod 2 ^ 25) K (Suc E) (Suc W) rows weights) (me mod Suc W) = n mod 2 ^ 25"
    by (simp add: uniform_ranks_def make_uniform_topk_idx_def del: upt_Suc)
  then show "tokens_of (uniform_ranks (n mod 2 ^ 25) K (Suc E) (Suc W) rows weights) (me mod Suc W) \<le> 2 ^ 25"
    using mod_less_divisor [of "2 ^ 25" n] by (simp only: less_imp_le zero_less_power zero_less_numeral)
qed (simp_all add: uniform_ranks_def)

section \<open>The properties of combine\<close>

text \<open>C4: combine returns its reference: for every routing and every interleaving of senders, receiving warps and head
  updater on a channel, a finished call has stored, for each of the channel's tokens, exactly the row and the top-k weights
  \<open>to_sources\<close> returns for that token.\<close>

theorem combine_returns_sources:
  fixes ranks :: "('f row list \<times> 'f::comm_semiring_1 routing) list"
  assumes "well_routed K E ranks" "G = gather zx zi zw ranks" "me < length ranks" "c < C" "tokens_of ranks me \<le> 2 ^ 25"
    and "0 < cf_nvl_send cf" "cf_nvl_send cf < cf_nvl_recv cf"
    and "combine_reach (combine_channel cf C c me G ranks x w) junk s" "combine_done (combine_channel cf C c me G ranks x w) s"
    and "channel_task_range (tokens_of ranks me) C c = (lo, hi)" "t < hi - lo"
  shows "recv_x s t = Some (to_sources me G x ! (lo + t), to_sources me G w ! (lo + t))"
  by (rule finished_rows [OF assms(1-4,10,11) refl channel_ok [OF assms(1-4,6,7,5)] assms(8,9)])

text \<open>Two ranks of one expert each; the tokens of rank 0 alternate between one expert and both.\<close>

definition demo_combine_ranks :: "nat \<Rightarrow> int list list \<Rightarrow> (int row list \<times> int routing) list" where
  "demo_combine_ranks n idx = map (\<lambda>s. (map (\<lambda>t c. int t) [0..<n * length idx],
     \<lparr>rt_topk_idx = concat (replicate n idx), rt_topk_weights = concat (replicate n (map (map (\<lambda>_. 1)) idx)), rt_experts = 2, rt_ranks = 2\<rparr>)) [0..<2]"

lemma demo_combine_routed:
  assumes "\<And>row. row \<in> set idx \<Longrightarrow> length row = K \<and> (\<forall>i \<in> set row. i < 2)"
  shows "well_routed K 1 (demo_combine_ranks n idx)"
  using assms by (auto simp: well_routed_def demo_combine_ranks_def length_concat sum_list_replicate)

definition demo_combine_G :: "nat \<Rightarrow> int list list \<Rightarrow> (int, int row) global" where
  "demo_combine_G n idx = gather (\<lambda>_. 0) [] [] (demo_combine_ranks n idx)"

definition demo_rows :: "nat \<Rightarrow> nat \<Rightarrow> int row" where "demo_rows r q c = int (10 * r + q + c)"

definition demo_pair_channel :: "int combine_env" where
  "demo_pair_channel = combine_channel \<lparr>cf_num_sms = 20, cf_nvl_send = 4, cf_nvl_recv = 256, cf_rdma_send = 6, cf_rdma_recv = 128\<rparr> 1 0 0
     (demo_combine_G 3 [[0, 1], [1, - 1]]) (demo_combine_ranks 3 [[0, 1], [1, - 1]]) demo_rows (\<lambda>_ _ _. 0)"

theorem combine_returns_sources_witness:
  "\<exists>s. combine_reach demo_pair_channel (\<lambda>_ _. (\<lambda>_. 9, \<lambda>_. 9)) s \<and> combine_done demo_pair_channel s \<and>
     recv_x s 2 = Some (to_sources 0 (demo_combine_G 3 [[0, 1], [1, - 1]]) demo_rows ! (0 + 2),
       to_sources 0 (demo_combine_G 3 [[0, 1], [1, - 1]]) (\<lambda>_ _ _. 0) ! (0 + 2))"
proof -
  let ?cf = "\<lparr>cf_num_sms = 20, cf_nvl_send = 4, cf_nvl_recv = 256, cf_rdma_send = 6, cf_rdma_recv = 128\<rparr>"
  have wr: "well_routed 2 1 (demo_combine_ranks 3 [[0, 1], [1, - 1]])" by (rule demo_combine_routed) auto
  have n: "tokens_of (demo_combine_ranks 3 [[0, 1], [1, - 1]]) 0 = 6" "length (demo_combine_ranks 3 [[0, 1], [1, - 1]]) = 2"
    by (simp_all add: demo_combine_ranks_def length_concat sum_list_replicate)
  have ok: "combining demo_pair_channel"
    unfolding demo_pair_channel_def by (rule channel_ok [OF wr demo_combine_G_def]) (simp_all add: n)
  obtain s where s: "combine_reach demo_pair_channel (\<lambda>_ _. (\<lambda>_. 9, \<lambda>_. 9)) s" "combine_done demo_pair_channel s"
    using combining.can_finish [OF ok, of "\<lambda>_ _. (\<lambda>_. 9, \<lambda>_. 9)" "combine_init (\<lambda>_ _. (\<lambda>_. 9, \<lambda>_. 9))"]
    by (auto simp: combine_reach_def demo_pair_channel_def combine_channel_def case_prod_beta Let_def)
  have "recv_x s 2 = Some (to_sources 0 (demo_combine_G 3 [[0, 1], [1, - 1]]) demo_rows ! (0 + 2),
       to_sources 0 (demo_combine_G 3 [[0, 1], [1, - 1]]) (\<lambda>_ _ _. 0) ! (0 + 2))"
    by (rule combine_returns_sources [OF wr demo_combine_G_def, where cf = ?cf and C = 1 and c = 0 and hi = 6])
      (use s in \<open>simp_all add: n channel_task_range_def ceil_div_def demo_pair_channel_def\<close>)
  then show ?thesis using s by blast
qed

text \<open>C5: combine can always finish: if the ring holds a round and 22 rows, then from every state a channel can reach, whatever
  order senders, warps and updater took so far, it can go on to the end: all rows sent and reduced, all warps retired.\<close>

theorem combine_can_finish:
  fixes ranks :: "('f row list \<times> 'f::comm_semiring_1 routing) list"
  assumes "well_routed K E ranks" "G = gather zx zi zw ranks" "me < length ranks" "c < C" "tokens_of ranks me \<le> 2 ^ 25"
    and "0 < cf_nvl_send cf" "cf_nvl_send cf + 22 \<le> cf_nvl_recv cf"
    and "combine_reach (combine_channel cf C c me G ranks x w) junk s"
  shows "\<exists>s'. (combine_step (combine_channel cf C c me G ranks x w))\<^sup>*\<^sup>* s s' \<and> combine_done (combine_channel cf C c me G ranks x w) s'"
proof -
  have "combining (combine_channel cf C c me G ranks x w)" using assms(5-7) by (intro channel_ok [OF assms(1-4)]) simp_all
  from combining.can_finish [OF this assms(8)] show ?thesis using assms(6,7) by (simp add: combine_channel_def Let_def case_prod_beta)
qed

theorem combine_can_finish_witness:
  "\<exists>s. (combine_step demo_pair_channel)\<^sup>*\<^sup>* (combine_init (\<lambda>_ _. (\<lambda>_. 9, \<lambda>_. 9))) s \<and> combine_done demo_pair_channel s"
proof -
  have wr: "well_routed 2 1 (demo_combine_ranks 3 [[0, 1], [1, - 1]])" by (rule demo_combine_routed) auto
  have n: "tokens_of (demo_combine_ranks 3 [[0, 1], [1, - 1]]) 0 = 6" "length (demo_combine_ranks 3 [[0, 1], [1, - 1]]) = 2"
    by (simp_all add: demo_combine_ranks_def length_concat sum_list_replicate)
  show ?thesis unfolding demo_pair_channel_def
    by (rule combine_can_finish [OF wr demo_combine_G_def, where junk = "\<lambda>_ _. (\<lambda>_. 9, \<lambda>_. 9)"]) (simp_all add: n combine_reach_def)
qed

text \<open>C6: a short ring hangs: a configuration that \<open>Config\<close> accepts but whose ring is smaller than a round and 22 rows never drains
  a channel long enough whose tokens all went to one rank: no state it can reach, whatever the interleaving, is finished.\<close>

theorem short_ring_never_drains:
  fixes ranks :: "('f row list \<times> 'f::comm_semiring_1 routing) list"
  assumes "well_routed K E ranks" "G = gather zx zi zw ranks" "me < length ranks" "c < C" "tokens_of ranks me \<le> 2 ^ 25"
    and "mk_config sms send recv rs rr = Inr cf" "recv < send + 22"
    and "channel_task_range (tokens_of ranks me) C c = (lo, hi)" "nat (recv div send * send + send) \<le> hi - lo"
    and "r < length ranks" "\<And>t. lo \<le> t \<Longrightarrow> t < hi \<Longrightarrow> is_token_in_rank (snd (ranks ! me)) ! t ! r"
    and "combine_reach (combine_channel cf C c me G ranks x w) junk s"
  shows "\<not> combine_done (combine_channel cf C c me G ranks x w) s"
proof -
  have cf: "cf_nvl_send cf = send" "cf_nvl_recv cf = recv" "0 < send" "send < recv"
    using assms(6) by (auto simp: mk_config_def py_bind_Inr_iff host_asserts_ok)
  let ?e = "combine_channel cf C c me G ranks x w"
  have ok: "combining ?e" using cf by (intro channel_ok [OF assms(1-4) _ _ assms(5)]) simp_all
  have fields: "cb_tokens ?e = hi - lo" "cb_ranks ?e = length ranks" "cb_warps ?e = 23" "cb_ring ?e = nat recv" "cb_chunk ?e = nat send"
    "\<And>r. cb_sends ?e r = map (\<lambda>t. is_token_in_rank (snd (ranks ! me)) ! t ! r) [lo..<hi]"
    using cf by (simp_all add: combine_channel_def assms(8))
  have "nat recv div nat send * nat send + nat send = nat (recv div send * send + send)"
    using cf(3,4) by (simp add: nat_add_distrib nat_mult_distrib nat_div_distrib pos_imp_zdiv_nonneg_iff)
  then show ?thesis
    by (intro combining.never_finishes [OF ok assms(12), of r]) (use assms(7,9,10,11) cf(3,4) in \<open>auto simp: fields\<close>)
qed

text \<open>Rounds of six in a ring of eight, twelve tokens, all for rank 0.\<close>

definition demo_short_channel :: "int combine_env" where
  "demo_short_channel = combine_channel \<lparr>cf_num_sms = 20, cf_nvl_send = 6, cf_nvl_recv = 8, cf_rdma_send = 6, cf_rdma_recv = 132\<rparr> 1 0 0
     (demo_combine_G 12 [[0]]) (demo_combine_ranks 12 [[0]]) demo_rows (\<lambda>_ _ _. 0)"

theorem short_ring_never_drains_witness:
  "mk_config 20 6 8 6 128 = Inr \<lparr>cf_num_sms = 20, cf_nvl_send = 6, cf_nvl_recv = 8, cf_rdma_send = 6, cf_rdma_recv = 132\<rparr> \<and>
   {s. combine_reach demo_short_channel (\<lambda>_ _. (\<lambda>_. 9, \<lambda>_. 9)) s \<and> combine_done demo_short_channel s} = {}"
proof -
  let ?cf = "\<lparr>cf_num_sms = 20, cf_nvl_send = 6, cf_nvl_recv = 8, cf_rdma_send = 6, cf_rdma_recv = 132\<rparr>"
  have cf: "mk_config 20 6 8 6 128 = Inr ?cf" by code_simp
  have wr: "well_routed 1 1 (demo_combine_ranks 12 [[0]])" by (rule demo_combine_routed) auto
  have n: "tokens_of (demo_combine_ranks 12 [[0]]) 0 = 12" "length (demo_combine_ranks 12 [[0]]) = 2"
    by (simp_all add: demo_combine_ranks_def length_concat sum_list_replicate)
  have all: "is_token_in_rank (snd (demo_combine_ranks 12 [[0]] ! 0)) = replicate 12 [True, False]" by code_simp
  have "\<not> combine_done demo_short_channel s" if "combine_reach demo_short_channel (\<lambda>_ _. (\<lambda>_. 9, \<lambda>_. 9)) s" for s
    unfolding demo_short_channel_def
    by (rule short_ring_never_drains [OF wr demo_combine_G_def _ _ _ cf, where lo = 0 and hi = 12 and r = 0])
      (use that in \<open>simp_all add: n all channel_task_range_def ceil_div_def demo_short_channel_def\<close>)
  then show ?thesis using cf by blast
qed

end
