(* ===== verification/Metadata_Kernel.thy ===== *)
theory Metadata_Kernel
  imports Dispatch_Slots "HOL-Library.Multiset"
begin

unbundle bit_operations_syntax

text \<open>
  The two kernels that compute the metadata of an intranode dispatch (\<^verbatim>\<open>csrc/kernels/intranode.cu\<close>). Phase A counts
  a rank's routed entries in shared memory and stores the counts into the inbox of every peer; phase B reads the inbox
  of its rank and computes the counts per expert by warp shuffles, the block offsets and the rank prefix in one
  thread, and the slot bases by a chunked warp scan. Arrays are flat, as in the code: the cell of channel \<open>c\<close>, source
  \<open>s\<close> and expert \<open>e\<close> is \<open>(c * R + s) * E + e\<close>. The counts are natural numbers; none exceeds the number of routed
  entries, so the 32-bit sums of the code do not wrap.
\<close>

section \<open>Strided loops\<close>

definition strided :: "nat \<Rightarrow> nat \<Rightarrow> nat \<Rightarrow> nat list" where
  \<comment> \<open>\<open>for (i = start; i < n; i += step)\<close>\<close>
  "strided start step n = map (\<lambda>i. start + i * step) [0..<ceil_div (n - start) step]"

lemma set_strided: "0 < step \<Longrightarrow> th < step \<Longrightarrow> set (strided th step n) = {j. j < n \<and> j mod step = th}"
proof -
  assume s: "0 < step" "th < step"
  have le: "i < ceil_div (n - th) step \<longleftrightarrow> th + i * step < n" for i
  proof
    assume "i < ceil_div (n - th) step"
    then have "\<not> ceil_div (n - th) step \<le> i" by simp
    then have "\<not> n - th \<le> i * step" using ceil_div_le [OF s(1)] by blast
    then show "th + i * step < n" by linarith
  next
    assume *: "th + i * step < n"
    have "n - th \<le> ceil_div (n - th) step * step" by (rule ceil_div_mult_ge [OF s(1)])
    with * have "i * step < ceil_div (n - th) step * step" by linarith
    then show "i < ceil_div (n - th) step" by simp
  qed
  show ?thesis
  proof (rule set_eqI)
    fix j
    have "j \<in> set (strided th step n) \<longleftrightarrow> (\<exists>i. th + i * step < n \<and> j = th + i * step)"
      by (auto simp: strided_def le)
    also have "\<dots> \<longleftrightarrow> j < n \<and> j mod step = th"
      using s mult_div_mod_eq [of step j] by (auto intro!: exI [of _ "j div step"] simp: mult.commute)
    finally show "j \<in> set (strided th step n) \<longleftrightarrow> j \<in> {j. j < n \<and> j mod step = th}" by simp
  qed
qed

lemma distinct_strided: "0 < step \<Longrightarrow> distinct (strided th step n)"
  by (auto simp: strided_def distinct_map inj_on_def)

lemma count_list_distinct_if: "distinct xs \<Longrightarrow> count_list xs x = (if x \<in> set xs then 1 else 0)"
  by (induction xs) auto

text \<open>The threads of a strided loop visit every index exactly once.\<close>

lemma strided_cover: "0 < step \<Longrightarrow> mset (concat (map (\<lambda>th. strided th step n) [0..<step])) = mset [0..<n]"
proof (rule multiset_eqI)
  fix x
  assume s: "0 < step"
  have "count (mset (concat (map (\<lambda>th. strided th step n) [0..<step]))) x = (\<Sum>th\<leftarrow>[0..<step]. count_list (strided th step n) x)"
    by (simp add: count_mset count_list_concat comp_def)
  also have "\<dots> = (\<Sum>th\<leftarrow>[0..<step]. if th = x mod step then if x < n then 1 else 0 else 0)"
    using s by (intro arg_cong [of _ _ sum_list] map_cong refl)
      (auto simp: count_list_distinct_if [OF distinct_strided] set_strided)
  also have "\<dots> = count (mset [0..<n]) x"
    using s by (simp add: interv_sum_list_conv_sum_set_nat count_mset count_list_distinct_if)
  finally show "count (mset (concat (map (\<lambda>th. strided th step n) [0..<step]))) x = count (mset [0..<n]) x" .
qed

section \<open>Phase A: the histogram of a rank\<close>

text \<open>
  Shared memory holds the entry counts of every destination (\<open>smem_local_e\<close>) and, behind them, the token counts
  (\<open>smem_local_u\<close>). A thread's \<open>atomicAdd\<close>s are the cells it adds one to.
\<close>

definition int_cast :: "int \<Rightarrow> int" where
  \<comment> \<open>\<open>static_cast<int>\<close> of a 64-bit \<open>topk_idx_t\<close>\<close>
  "int_cast i = signed_take_bit 31 i"

definition cell_e :: "nat \<Rightarrow> nat \<Rightarrow> nat \<Rightarrow> nat \<Rightarrow> nat \<Rightarrow> nat" where
  "cell_e E C dst c e = dst * (C * E) + c * E + e"

definition cell_u :: "nat \<Rightarrow> nat \<Rightarrow> nat \<Rightarrow> nat \<Rightarrow> nat \<Rightarrow> nat" where
  "cell_u R E C dst c = R * (C * E) + dst * C + c"


fun entry_adds :: "nat \<Rightarrow> nat \<Rightarrow> nat \<Rightarrow> nat \<Rightarrow> int list \<Rightarrow> 64 word \<Rightarrow> nat list" where
  "entry_adds R E C c [] dst_mask = []"
| "entry_adds R E C c (i # row) dst_mask =
     (let e_global = int_cast i in
      if e_global < 0 then entry_adds R E C c row dst_mask
      else let dst = nat e_global div E; e_local = nat e_global - dst * E; b = push_bit dst 1
           in cell_e E C dst c e_local #
              (if dst_mask AND b = 0 then cell_u R E C dst c # entry_adds R E C c row (dst_mask OR b)
               else entry_adds R E C c row dst_mask))"

definition token_adds :: "nat \<Rightarrow> nat \<Rightarrow> nat \<Rightarrow> int list list \<Rightarrow> nat \<Rightarrow> nat list" where
  "token_adds R E C topk t =
     (let num_tokens_per_channel = (length topk + C - 1) div C
      in entry_adds R E C (t div num_tokens_per_channel) (topk ! t) 0)"

definition kNumThreads :: nat where "kNumThreads = 256"

definition kNumWarps :: nat where "kNumWarps = 256 div 32"

definition thread_adds :: "nat \<Rightarrow> nat \<Rightarrow> nat \<Rightarrow> int list list \<Rightarrow> nat \<Rightarrow> nat list" where
  "thread_adds R E C topk thread = concat (map (token_adds R E C topk) (strided thread kNumThreads (length topk)))"

definition all_adds :: "nat \<Rightarrow> nat \<Rightarrow> nat \<Rightarrow> int list list \<Rightarrow> nat multiset" where
  \<comment> \<open>what the threads add between them; the atomics may take effect in any order\<close>
  "all_adds R E C topk = (\<Sum>thread\<leftarrow>[0..<kNumThreads]. mset (thread_adds R E C topk thread))"

definition histogram :: "nat list \<Rightarrow> nat \<Rightarrow> nat" where
  \<comment> \<open>the zeroed shared memory after the additions\<close>
  "histogram adds = foldl (\<lambda>m i. m(i := m i + 1)) (\<lambda>_. 0) adds"

section \<open>Phase A: the stores into the inboxes\<close>

text \<open>A store names the rank whose inbox it goes to, the cell and the value.\<close>

definition inbox_e :: "nat \<Rightarrow> nat \<Rightarrow> nat \<Rightarrow> nat \<Rightarrow> nat \<Rightarrow> nat" where
  "inbox_e R E c src e = c * R * E + src * E + e"

definition inbox_u :: "nat \<Rightarrow> nat \<Rightarrow> nat \<Rightarrow> nat \<Rightarrow> nat \<Rightarrow> nat" where
  "inbox_u R E C c src = C * R * E + (c * R + src)"

definition lane_stores :: "nat \<Rightarrow> nat \<Rightarrow> nat \<Rightarrow> nat \<Rightarrow> (nat \<Rightarrow> nat) \<Rightarrow> nat \<Rightarrow> nat \<Rightarrow> (nat \<times> nat \<times> nat) list" where
  "lane_stores R E C rank smem dst lane =
     map (\<lambda>i. let c = i div E; e = i - c * E in (dst, inbox_e R E c rank e, smem (dst * (C * E) + i)))
       (strided lane 32 (C * E))
     @ map (\<lambda>c. (dst, inbox_u R E C c rank, smem (R * (C * E) + dst * C + c))) (strided lane 32 C)"

definition warp_stores :: "nat \<Rightarrow> nat \<Rightarrow> nat \<Rightarrow> nat \<Rightarrow> (nat \<Rightarrow> nat) \<Rightarrow> nat \<Rightarrow> (nat \<times> nat \<times> nat) list" where
  "warp_stores R E C rank smem warp =
     concat (map (\<lambda>dst. concat (map (lane_stores R E C rank smem dst) [0..<32])) (strided warp kNumWarps R))"

definition phase_a_stores :: "nat \<Rightarrow> nat \<Rightarrow> nat \<Rightarrow> nat \<Rightarrow> (nat \<Rightarrow> nat) \<Rightarrow> (nat \<times> nat \<times> nat) list" where
  "phase_a_stores R E C rank smem = concat (map (warp_stores R E C rank smem) [0..<kNumWarps])"

section \<open>Phase B: the counts per expert\<close>

definition shfl_down :: "(nat \<Rightarrow> nat) \<Rightarrow> nat \<Rightarrow> nat \<Rightarrow> nat" where
  "shfl_down x d lane = (if lane + d < 32 then x (lane + d) else x lane)"

definition warp_reduce :: "(nat \<Rightarrow> nat) \<Rightarrow> nat" where
  \<comment> \<open>lane 0 after \<open>sum += __shfl_down_sync(sum, d)\<close> with \<open>d\<close> = 16, 8, 4, 2, 1\<close>
  "warp_reduce part = foldl (\<lambda>x d lane. x lane + shfl_down x d lane) part [16, 8, 4, 2, 1] 0"

definition write_all :: "(nat \<times> nat) list \<Rightarrow> (nat \<Rightarrow> nat) \<Rightarrow> nat \<Rightarrow> nat" where
  "write_all ws m = foldl (\<lambda>m (i, v). m(i := v)) m ws"

definition phase_6a :: "nat \<Rightarrow> nat \<Rightarrow> nat \<Rightarrow> nat \<Rightarrow> (nat \<Rightarrow> nat) \<Rightarrow> (nat \<times> nat) list" where
  "phase_6a num_blocks R E C inbox =
     concat (map (\<lambda>grid_tid. map (\<lambda>idx. (idx, inbox idx)) (strided grid_tid (num_blocks * kNumThreads) (C * R * E)))
       [0..<num_blocks * kNumThreads])"

definition phase_6b :: "nat \<Rightarrow> nat \<Rightarrow> nat \<Rightarrow> nat \<Rightarrow> (nat \<Rightarrow> nat) \<Rightarrow> (nat \<times> nat) list" where
  \<comment> \<open>one warp per expert; each lane sums a stride of the substreams\<close>
  "phase_6b num_blocks R E C inbox =
     concat (map (\<lambda>w. map (\<lambda>e. (e, warp_reduce (\<lambda>lane. \<Sum>cs\<leftarrow>strided lane 32 (C * R). inbox (cs * E + e))))
         (strided w (num_blocks * kNumWarps) E))
       [0..<num_blocks * kNumWarps])"

section \<open>Phase B: the serial part\<close>

definition phase_7_blocks :: "nat \<Rightarrow> nat \<Rightarrow> (nat \<Rightarrow> nat) \<Rightarrow> nat list \<times> nat" where
  \<comment> \<open>\<open>expert_pool_block_offset\<close> and \<open>cum_blocks\<close>\<close>
  "phase_7_blocks E tile_m freq =
     foldl (\<lambda>(offs, cum) e. let cum' = cum + (freq e + tile_m - 1) div tile_m in (offs @ [cum'], cum')) ([0], 0) [0..<E]"

definition phase_7_aligned :: "nat \<Rightarrow> nat \<Rightarrow> (nat \<Rightarrow> nat) \<Rightarrow> nat list" where
  "phase_7_aligned E alignment freq = map (\<lambda>e. (freq e + alignment - 1) div alignment * alignment) [0..<E]"

definition phase_7_prefix :: "nat \<Rightarrow> nat \<Rightarrow> (nat \<Rightarrow> nat) \<Rightarrow> nat list \<times> nat" where
  \<comment> \<open>the column of \<open>rank_prefix_matrix\<close> and \<open>cum_src\<close>\<close>
  "phase_7_prefix R C u_inbox =
     foldl (\<lambda>(col, cum) i. let per_src = foldl (\<lambda>n c. n + u_inbox (c * R + i)) 0 [0..<C]; cum' = cum + per_src
       in (col @ [cum'], cum')) ([], 0) [0..<R]"

section \<open>Phase B: the scan\<close>

definition shfl_up :: "(nat \<Rightarrow> nat) \<Rightarrow> nat \<Rightarrow> nat \<Rightarrow> nat" where
  "shfl_up x d lane = (if d \<le> lane then x (lane - d) else x lane)"

definition scan_step :: "(nat \<Rightarrow> nat) \<Rightarrow> nat \<Rightarrow> nat \<Rightarrow> nat" where
  "scan_step x d lane = (let y = shfl_up x d lane in if d \<le> lane then x lane + y else x lane)"

definition warp_scan :: "(nat \<Rightarrow> nat) \<Rightarrow> nat \<Rightarrow> nat" where
  "warp_scan x = foldl scan_step x [1, 2, 4, 8, 16]"

definition scan_warp_sums :: "(nat \<Rightarrow> nat) \<Rightarrow> nat \<Rightarrow> nat" where
  \<comment> \<open>warp 0 over the eight warp sums\<close>
  "scan_warp_sums s_warp_sums = foldl scan_step (\<lambda>lane. if lane < kNumWarps then s_warp_sums lane else 0) [1, 2, 4]"

definition scan_chunk :: "nat \<Rightarrow> (nat \<Rightarrow> nat) \<times> nat \<Rightarrow> nat \<Rightarrow> (nat \<Rightarrow> nat) \<times> nat" where
  \<comment> \<open>one chunk of \<open>kNumThreads\<close> cells: the workspace and the carry\<close>
  "scan_chunk cs_total state chunk_start = (case state of (s_scan, carry) \<Rightarrow>
     let orig_x = (\<lambda>thread. let idx = chunk_start + thread in if idx < cs_total then s_scan idx else 0);
         x = (\<lambda>thread. warp_scan (\<lambda>lane. orig_x (thread div 32 * 32 + lane)) (thread mod 32));
         s_warp_sums = scan_warp_sums (\<lambda>warp. x (warp * 32 + 31));
         warp_prefix = (\<lambda>warp. if 0 < warp then s_warp_sums (warp - 1) else 0);
         exclusive_x = (\<lambda>thread. (x thread - orig_x thread) + warp_prefix (thread div 32) + carry)
     in (\<lambda>idx. if chunk_start \<le> idx \<and> idx < chunk_start + kNumThreads \<and> idx < cs_total
               then exclusive_x (idx - chunk_start) else s_scan idx,
         carry + s_warp_sums (kNumWarps - 1)))"

definition block_scan :: "nat \<Rightarrow> (nat \<Rightarrow> nat) \<Rightarrow> nat \<Rightarrow> nat \<Rightarrow> nat" where
  "block_scan cs_total s_scan e_start_offset =
     fst (foldl (scan_chunk cs_total) (s_scan, e_start_offset) (strided 0 kNumThreads cs_total))"

definition phase_8 :: "nat \<Rightarrow> nat \<Rightarrow> nat \<Rightarrow> nat \<Rightarrow> nat \<Rightarrow> nat list \<Rightarrow> (nat \<Rightarrow> nat) \<Rightarrow> (nat \<times> nat) list" where
  \<comment> \<open>one block per expert, round-robin; the copies in and out of the workspace are strided over its threads\<close>
  "phase_8 num_blocks R E C tile_m offs seen =
     concat (map (\<lambda>block. concat (map (\<lambda>e.
         let s_scan = block_scan (C * R) (\<lambda>cs. seen (cs * E + e)) (offs ! e * tile_m)
         in concat (map (\<lambda>thread. map (\<lambda>cs. (cs * E + e, s_scan cs)) (strided thread kNumThreads (C * R))) [0..<kNumThreads]))
       (strided block num_blocks E))) [0..<num_blocks])"

section \<open>Phase B\<close>

record metadata =
  md_seen :: "nat \<Rightarrow> nat"           \<comment> \<open>\<open>seen_per_substream\<close>\<close>
  md_freq :: "nat \<Rightarrow> nat"           \<comment> \<open>\<open>expert_frequency\<close>\<close>
  md_blocks :: "nat list"           \<comment> \<open>\<open>expert_pool_block_offset\<close>\<close>
  md_tiles :: nat                   \<comment> \<open>\<open>total_tiles\<close>, on the device and mapped\<close>
  md_recv_per_expert :: "nat list"  \<comment> \<open>\<open>num_recv_per_expert_mapped\<close>\<close>
  md_prefix :: "nat \<Rightarrow> nat"         \<comment> \<open>\<open>rank_prefix_matrix\<close>\<close>
  md_num_recv :: nat                \<comment> \<open>\<open>num_recv_mapped\<close>\<close>
  md_base :: "nat \<Rightarrow> nat"           \<comment> \<open>\<open>base_pool\<close>\<close>

definition phase_b :: "nat \<Rightarrow> nat \<Rightarrow> nat \<Rightarrow> nat \<Rightarrow> nat \<Rightarrow> nat \<Rightarrow> nat \<Rightarrow> metadata \<Rightarrow> (nat \<Rightarrow> nat) \<Rightarrow> metadata" where
  \<comment> \<open>on freshly allocated outputs \<open>md\<close>\<close>
  "phase_b num_blocks R E C tile_m alignment rank md inbox =
     (let seen = write_all (phase_6a num_blocks R E C inbox) (md_seen md);
          freq = write_all (phase_6b num_blocks R E C inbox) (md_freq md);
          (offs, cum_blocks) = phase_7_blocks E tile_m freq;
          (col, cum_src) = phase_7_prefix R C (\<lambda>i. inbox (C * R * E + i))
      in \<lparr>md_seen = seen, md_freq = freq, md_blocks = offs, md_tiles = cum_blocks,
          md_recv_per_expert = phase_7_aligned E alignment freq,
          md_prefix = write_all (map (\<lambda>i. (i * R + rank, col ! i)) [0..<R]) (md_prefix md), md_num_recv = cum_src,
          md_base = write_all (phase_8 num_blocks R E C tile_m offs seen) (md_base md)\<rparr>)"

definition kNumBlocks :: nat where "kNumBlocks = 32"

section \<open>The check of the tests\<close>

definition actual_seen :: "nat \<Rightarrow> nat \<Rightarrow> nat \<Rightarrow> (nat \<Rightarrow> nat) \<Rightarrow> nat list list list" where
  \<comment> \<open>a flat array viewed as \<open>[C, R, E]\<close>\<close>
  "actual_seen R E C a = map (\<lambda>c. map (\<lambda>s. map (\<lambda>e. a ((c * R + s) * E + e)) [0..<E]) [0..<R]) [0..<C]"

definition check_metadata :: "nat \<Rightarrow> nat \<Rightarrow> ('f, 'r) global \<Rightarrow> metadata \<Rightarrow> bool" where
  \<comment> \<open>the intranode entries of \<open>actual_metadata\<close> against \<open>expected_metadata\<close>\<close>
  "check_metadata C me G md = (let R = g_world G; E = num_local_experts G in
     actual_seen R E C (md_seen md) = map (\<lambda>c. map (\<lambda>s. map (seen_per_substream C me G (c, s)) [0..<E]) [0..<R]) [0..<C]
   \<and> actual_seen R E C (md_base md) = map (\<lambda>c. map (\<lambda>s. map (base_pool C me False G (c, s)) [0..<E]) [0..<R]) [0..<C]
   \<and> map (\<lambda>i. md_prefix md (i * R + me)) [0..<R] = rank_prefix_column me G)"

end
