(* ===== verification/Metadata_Scan.thy ===== *)
theory Metadata_Scan
  imports Metadata_Kernel
begin

text \<open>
  What the parallel routines of the metadata kernels compute: the shuffle reduction is a sum, the chunked warp scan
  is the exclusive prefix sum with its starting carry, the strided writes fill their arrays, and the histogram counts
  what was added, in any order.
\<close>

section \<open>Reduction\<close>

lemma warp_reduce_sum: "warp_reduce part = (\<Sum>lane<32. part lane)"
  by (simp add: warp_reduce_def shfl_down_def lessThan_nat_numeral lessThan_Suc numeral_2_eq_2 numeral_3_eq_3)

lemma sum_strided:
  fixes f :: "nat \<Rightarrow> nat"
  assumes "0 < m"
  shows "(\<Sum>th<m. (\<Sum>i\<leftarrow>strided th m n. f i)) = (\<Sum>i<n. f i)"
proof -
  have "(\<Sum>th<m. (\<Sum>i\<leftarrow>strided th m n. f i)) = (\<Sum>th\<leftarrow>[0..<m]. (\<Sum>i\<leftarrow>strided th m n. f i))"
    by (simp add: interv_sum_list_conv_sum_set_nat atLeast0LessThan)
  also have "\<dots> = (\<Sum>i\<leftarrow>concat (map (\<lambda>th. strided th m n) [0..<m]). f i)"
    by (simp add: sum_list_concat' map_concat comp_def)
  also have "\<dots> = sum_mset (image_mset f (mset (concat (map (\<lambda>th. strided th m n) [0..<m]))))"
    by (simp only: sum_mset_sum_list [symmetric] mset_map)
  also have "\<dots> = (\<Sum>i<n. f i)"
    by (simp only: strided_cover [OF assms] mset_map [symmetric] sum_mset_sum_list)
      (simp add: interv_sum_list_conv_sum_set_nat atLeast0LessThan)
  finally show ?thesis .
qed

section \<open>Scan\<close>

text \<open>A step of the scan doubles the window each lane has summed.\<close>

lemma scan_step_window:
  assumes "0 < d" "\<And>l. x l = sum f {Suc l - d..l}"
  shows "scan_step x d l = sum f {Suc l - 2 * d..l}"
proof (cases "d \<le> l")
  case True
  have "{Suc l - 2 * d..l} = {Suc (l - d) - d..l - d} \<union> {Suc l - d..l}" using True assms(1) by auto
  moreover have "{Suc (l - d) - d..l - d} \<inter> {Suc l - d..l} = {}" using True assms(1) by auto
  ultimately have "sum f {Suc l - 2 * d..l} = sum f {Suc (l - d) - d..l - d} + sum f {Suc l - d..l}"
    by (simp only: sum.union_disjoint finite_atLeastAtMost)
  then show ?thesis using True by (simp add: scan_step_def shfl_up_def Let_def assms(2))
next
  case False
  then have "Suc l - 2 * d = Suc l - d" by simp
  with False show ?thesis by (simp add: scan_step_def Let_def assms(2))
qed

lemma scan_steps:
  "foldl scan_step f (map ((^) 2) [0..<k]) l = sum f {Suc l - 2 ^ k..l}"
proof (induction k arbitrary: l)
  case (Suc k)
  have "scan_step (foldl scan_step f (map ((^) 2) [0..<k])) (2 ^ k) l = sum f {Suc l - 2 * 2 ^ k..l}"
    by (rule scan_step_window) (simp_all add: Suc.IH)
  then show ?case by simp
qed simp

lemma powers_of_two: "[1, 2, 4, 8, 16 :: nat] = map ((^) 2) [0..<5]" "[1, 2, 4 :: nat] = map ((^) 2) [0..<3]"
  by (simp_all add: upt_rec)

lemma warp_scan_prefix: "l < 32 \<Longrightarrow> warp_scan f l = (\<Sum>i\<le>l. f i)"
  by (simp only: warp_scan_def powers_of_two scan_steps) (simp add: atMost_atLeast0)

lemma scan_warp_sums_prefix: "w < 8 \<Longrightarrow> scan_warp_sums f w = (\<Sum>i\<le>w. f i)"
  by (simp only: scan_warp_sums_def powers_of_two scan_steps) (simp add: atMost_atLeast0 kNumWarps_def)

text \<open>One chunk: the cells of the chunk get the exclusive prefix, the carry moves past them.\<close>

lemma scan_chunk_prefix:
  fixes carry :: nat
  assumes orig: "\<And>i. a \<le> i \<Longrightarrow> i < n \<Longrightarrow> s i = f i" and n: "\<And>i. n \<le> i \<Longrightarrow> f i = 0"
  defines "r \<equiv> scan_chunk n (s, carry) a"
  shows "a \<le> i \<Longrightarrow> i < a + 256 \<Longrightarrow> i < n \<Longrightarrow> fst r i = carry + (\<Sum>j = a..<i. f j)"
    and "\<not> (a \<le> i \<and> i < a + 256 \<and> i < n) \<Longrightarrow> fst r i = s i"
    and "snd r = carry + (\<Sum>j = a..<a + 256. f j)"
proof -
  define orig_x where "orig_x = (\<lambda>thread. let idx = a + thread in if idx < n then s idx else 0)"
  define x where "x = (\<lambda>thread. warp_scan (\<lambda>lane. orig_x (thread div 32 * 32 + lane)) (thread mod 32))"
  define sums where "sums = scan_warp_sums (\<lambda>warp. x (warp * 32 + 31))"
  have r: "r = (\<lambda>idx. if a \<le> idx \<and> idx < a + kNumThreads \<and> idx < n
      then (x (idx - a) - orig_x (idx - a)) + (if 0 < (idx - a) div 32 then sums ((idx - a) div 32 - 1) else 0) + carry
      else s idx, carry + sums (kNumWarps - 1))"
    unfolding r_def scan_chunk_def Let_def orig_x_def x_def sums_def by simp
  have o: "orig_x = (\<lambda>thread. f (a + thread))" by (auto simp: orig_x_def Let_def orig n)
  have x: "x th = (\<Sum>l\<le>th mod 32. f (a + (th div 32 * 32 + l)))" for th
    unfolding x_def by (simp add: warp_scan_prefix o)
  have warp: "x (w * 32 + 31) = (\<Sum>j = w * 32..<w * 32 + 32. f (a + j))" for w
  proof -
    have "x (w * 32 + 31) = (\<Sum>l<32. f (a + (w * 32 + l)))"
    proof -
      have "(w * 32 + 31) div 32 = w" "(w * 32 + 31) mod 32 = 31" by presburger+
      moreover have "{..31 :: nat} = {..<32}" by auto
      ultimately show ?thesis using x [of "w * 32 + 31"] by simp
    qed
    also have "\<dots> = (\<Sum>j = w * 32..<w * 32 + 32. f (a + j))"
      using sum.shift_bounds_nat_ivl [of "\<lambda>j. f (a + j)" 0 "w * 32" 32]
      by (simp add: atLeast0LessThan add.commute)
    finally show ?thesis .
  qed
  have prefix: "(\<Sum>w'<w. x (w' * 32 + 31)) = (\<Sum>j<w * 32. f (a + j))" for w
    unfolding warp by (rule sum.nat_group)
  have sums: "sums w = (\<Sum>j<Suc w * 32. f (a + j))" if "w < 8" for w
    using that by (simp add: sums_def scan_warp_sums_prefix lessThan_Suc_atMost [symmetric] prefix)
  show "snd r = carry + (\<Sum>j = a..<a + 256. f j)"
    using sums [of 7] sum.shift_bounds_nat_ivl [of f 0 a 256] by (simp add: r kNumWarps_def atLeast0LessThan add.commute)
  show "fst r i = s i" if "\<not> (a \<le> i \<and> i < a + 256 \<and> i < n)"
    using that by (auto simp: r kNumThreads_def)
  assume i: "a \<le> i" "i < a + 256" "i < n"
  define th where "th = i - a"
  have th: "th < 256" "i = a + th" using i by (simp_all add: th_def)
  have w: "(if 0 < th div 32 then sums (th div 32 - 1) else 0) = (\<Sum>j<th div 32 * 32. f (a + j))"
    using th(1) by (cases "th div 32") (simp_all add: sums)
  have "x th - orig_x th = (\<Sum>l<th mod 32. f (a + (th div 32 * 32 + l)))"
    by (simp add: x o lessThan_Suc_atMost [symmetric])
  also have "\<dots> = (\<Sum>j = th div 32 * 32..<th. f (a + j))"
    using sum.shift_bounds_nat_ivl [of "\<lambda>j. f (a + j)" 0 "th div 32 * 32" "th mod 32"]
    by (simp add: atLeast0LessThan add.commute)
  finally have "fst r i = (\<Sum>j = th div 32 * 32..<th. f (a + j)) + (\<Sum>j<th div 32 * 32. f (a + j)) + carry"
    using i w by (simp add: r kNumThreads_def th_def [symmetric] cong: if_cong)
  also have "(\<Sum>j = th div 32 * 32..<th. f (a + j)) + (\<Sum>j<th div 32 * 32. f (a + j)) = (\<Sum>j<th. f (a + j))"
    using sum.atLeastLessThan_concat [of 0 "th div 32 * 32" th "\<lambda>j. f (a + j)"] by (simp add: atLeast0LessThan)
  also have "\<dots> = (\<Sum>j = a..<i. f j)"
    using sum.shift_bounds_nat_ivl [of f 0 a th] by (simp add: atLeast0LessThan add.commute th(2))
  finally show "fst r i = carry + (\<Sum>j = a..<i. f j)" by simp
qed

lemma block_scan_prefix:
  assumes "i < n"
  shows "block_scan n s e_start_offset i = e_start_offset + (\<Sum>j<i. s j)"
proof -
  define f where "f j = (if j < n then s j else 0)" for j
  let ?run = "\<lambda>m. foldl (scan_chunk n) (s, e_start_offset) (map (\<lambda>k. k * 256) [0..<m])"
  have run: "snd (?run m) = e_start_offset + (\<Sum>j<m * 256. f j) \<and>
    (\<forall>i. fst (?run m) i = (if i < m * 256 \<and> i < n then e_start_offset + (\<Sum>j<i. f j) else s i))" for m
  proof (induction m)
    case (Suc m)
    obtain sc ca where st: "?run m = (sc, ca)" by (cases "?run m")
    define a where "a = m * 256"
    have orig: "sc i = f i" if "a \<le> i" "i < n" for i using that Suc.IH by (auto simp: st a_def f_def)
    have n0: "n \<le> i \<Longrightarrow> f i = 0" for i by (simp add: f_def)
    have chunk: "fst (scan_chunk n (sc, ca) a) i = ca + (\<Sum>j = a..<i. f j)" if "a \<le> i" "i < a + 256" "i < n" for i
      by (rule scan_chunk_prefix(1) [where n = n]) (simp_all add: orig n0 that)
    have rest: "fst (scan_chunk n (sc, ca) a) i = sc i" if "\<not> (a \<le> i \<and> i < a + 256 \<and> i < n)" for i
      by (rule scan_chunk_prefix(2) [where n = n and f = f]) (simp_all add: orig n0 that)
    have sum: "snd (scan_chunk n (sc, ca) a) = ca + (\<Sum>j = a..<a + 256. f j)"
      by (rule scan_chunk_prefix(3) [where n = n]) (simp_all add: orig n0)
    have carry: "ca = e_start_offset + (\<Sum>j<a. f j)" using Suc.IH by (simp add: st a_def)
    have join: "(\<Sum>j<a. f j) + (\<Sum>j = a..<b. f j) = (\<Sum>j<b. f j)" if "a \<le> b" for b
      using sum.atLeastLessThan_concat [of 0 a b f] that by (simp add: atLeast0LessThan)
    have step: "?run (Suc m) = scan_chunk n (sc, ca) a" by (simp add: st a_def)
    have "fst (?run (Suc m)) i = (if i < Suc m * 256 \<and> i < n then e_start_offset + (\<Sum>j<i. f j) else s i)" for i
    proof (cases "a \<le> i \<and> i < a + 256 \<and> i < n")
      case True
      then show ?thesis unfolding step using chunk [of i] join [of i] by (simp add: carry a_def)
    next
      case False
      then show ?thesis unfolding step using rest [OF False] Suc.IH st by (auto simp: a_def)
    qed
    then show ?case using sum join [of "a + 256"] unfolding step by (simp add: carry a_def add.commute)
  qed simp
  have "map (\<lambda>k. k * 256) [0..<ceil_div n 256] = strided 0 kNumThreads n" by (simp add: strided_def kNumThreads_def)
  then have "block_scan n s e_start_offset i = fst (?run (ceil_div n 256)) i" by (simp add: block_scan_def)
  also have "\<dots> = e_start_offset + (\<Sum>j<i. f j)" using run assms ceil_div_mult_ge [of 256 n] by simp
  also have "(\<Sum>j<i. f j) = (\<Sum>j<i. s j)" using assms by (intro sum.cong) (auto simp: f_def)
  finally show ?thesis .
qed

section \<open>Writes\<close>

lemma write_all_at:
  assumes "(i, v) \<in> set ws" "\<And>v'. (i, v') \<in> set ws \<Longrightarrow> v' = v"
  shows "write_all ws m i = v"
  using assms
proof (induction ws rule: rev_induct)
  case (snoc w ws)
  obtain j u where w: "w = (j, u)" by (cases w)
  show ?case
  proof (cases "j = i")
    case True
    then have "u = v" using snoc.prems(2) [of u] w by simp
    then show ?thesis using True w by (simp add: write_all_def)
  next
    case False
    then have "(i, v) \<in> set ws" using snoc.prems(1) w by auto
    then have "write_all ws m i = v" using snoc.prems(2) by (intro snoc.IH) simp_all
    then show ?thesis using False w by (simp add: write_all_def)
  qed
qed simp

text \<open>Together the threads of a strided loop run its body for every index.\<close>

lemma strided_loop_concat:
  assumes "0 < m"
  shows "set (concat (map (\<lambda>th. concat (map g (strided th m n))) [0..<m])) = (\<Union>i<n. set (g i))"
proof -
  have "set (concat (map (\<lambda>th. strided th m n) [0..<m])) = set_mset (mset [0..<n])"
    unfolding strided_cover [OF assms, symmetric] by (simp only: set_mset_mset)
  then have "(\<Union>th<m. set (strided th m n)) = {..<n}" by (simp add: atLeast0LessThan)
  then have "(\<Union>i<n. set (g i)) = (\<Union>i \<in> (\<Union>th<m. set (strided th m n)). set (g i))" by simp
  then show ?thesis by (simp add: atLeast0LessThan)
qed

lemma strided_loop: "0 < m \<Longrightarrow> set (concat (map (\<lambda>th. map f (strided th m n)) [0..<m])) = f ` {..<n}"
  using strided_loop_concat [of m "\<lambda>i. [f i]" n] by (simp add: UNION_singleton_eq_range comp_def)

lemma phase_6a_fills:
  assumes "0 < num_blocks" "i < C * R * E"
  shows "write_all (phase_6a num_blocks R E C inbox) m i = inbox i"
proof -
  have "set (phase_6a num_blocks R E C inbox) = (\<lambda>idx. (idx, inbox idx)) ` {..<C * R * E}"
    unfolding phase_6a_def using assms(1) by (intro strided_loop) (simp add: kNumThreads_def)
  then show ?thesis using assms(2) by (intro write_all_at) auto
qed

lemma phase_6b_fills:
  assumes "0 < num_blocks" "e < E"
  shows "write_all (phase_6b num_blocks R E C inbox) m e = (\<Sum>cs<C * R. inbox (cs * E + e))"
proof -
  have "set (phase_6b num_blocks R E C inbox) = (\<lambda>e. (e, \<Sum>cs<C * R. inbox (cs * E + e))) ` {..<E}"
    unfolding phase_6b_def warp_reduce_sum sum_strided [OF zero_less_numeral]
    using assms(1) by (intro strided_loop) (simp add: kNumWarps_def)
  then show ?thesis using assms(2) by (intro write_all_at) auto
qed

lemma mult_add_unique:
  assumes "c * E + e = c' * E + e'" "e < E" "e' < (E :: nat)"
  shows "c = c' \<and> e = e'"
proof -
  have "(c * E + e) div E = c" "(c' * E + e') div E = c'" using assms(2,3) by simp_all
  with assms(1) show ?thesis by auto
qed

lemma phase_8_fills:
  assumes "0 < num_blocks" "e < E" "cs < C * R"
  shows "write_all (phase_8 num_blocks R E C tile_m offs seen) m (cs * E + e) = offs ! e * tile_m + (\<Sum>j<cs. seen (j * E + e))"
proof -
  let ?v = "\<lambda>e cs. offs ! e * tile_m + (\<Sum>j<cs. seen (j * E + e))"
  have inner: "set (concat (map (\<lambda>thread. map (\<lambda>cs. (cs * E + e, block_scan (C * R) (\<lambda>cs. seen (cs * E + e)) (offs ! e * tile_m) cs))
      (strided thread kNumThreads (C * R))) [0..<kNumThreads])) = (\<lambda>cs. (cs * E + e, ?v e cs)) ` {..<C * R}" for e
    by (subst strided_loop) (auto simp: kNumThreads_def block_scan_prefix)
  have "set (phase_8 num_blocks R E C tile_m offs seen) = (\<Union>e<E. (\<lambda>cs. (cs * E + e, ?v e cs)) ` {..<C * R})"
    unfolding phase_8_def Let_def strided_loop_concat [OF assms(1)] inner ..
  moreover have "e' = e \<and> cs' = cs" if "cs' * E + e' = cs * E + e" "e' < E" for cs' e'
    using mult_add_unique [OF that(1,2) assms(2)] by simp
  ultimately show ?thesis using assms(2,3) by (intro write_all_at) fastforce+
qed

section \<open>The histogram\<close>

lemma histogram_count: "histogram adds i = count_list adds i"
proof (induction adds arbitrary: i rule: rev_induct)
  case (snoc a adds)
  then show ?case by (auto simp: histogram_def)
qed (simp add: histogram_def)

lemma count_sum_list: "count (\<Sum>x\<leftarrow>xs. f x) i = (\<Sum>x\<leftarrow>xs. count (f x) i)"
  by (induction xs) simp_all

lemma histogram_any_order:
  assumes "mset adds = all_adds R E C topk"
  shows "histogram adds i = (\<Sum>t<length topk. count_list (token_adds R E C topk t) i)"
proof -
  have "histogram adds i = count (all_adds R E C topk) i" by (simp add: histogram_count count_mset [symmetric] assms)
  also have "\<dots> = (\<Sum>thread\<leftarrow>[0..<kNumThreads]. count_list (thread_adds R E C topk thread) i)"
    by (simp add: all_adds_def count_sum_list count_mset)
  also have "\<dots> = (\<Sum>thread<kNumThreads. (\<Sum>t\<leftarrow>strided thread kNumThreads (length topk). count_list (token_adds R E C topk t) i))"
    by (simp add: interv_sum_list_conv_sum_set_nat atLeast0LessThan thread_adds_def count_list_concat comp_def)
  also have "\<dots> = (\<Sum>t<length topk. count_list (token_adds R E C topk t) i)"
    by (rule sum_strided) (simp add: kNumThreads_def)
  finally show ?thesis .
qed

section \<open>The serial part\<close>

lemma foldl_cumsum:
  "foldl (\<lambda>(col, cum) x. let cum' = cum + g x in (col @ [cum'], cum')) (col, cum) xs
    = (col @ cumsum cum (map g xs), last (cum # cumsum cum (map g xs)))"
  by (induction xs arbitrary: col cum) (simp_all add: Let_def)

lemma phase_7_blocks_eq:
  "phase_7_blocks E TILE_M freq = (block_offset (map freq [0..<E]), total_tiles (map freq [0..<E]))"
  unfolding phase_7_blocks_def foldl_cumsum
  by (simp add: block_offset_def total_tiles_def layout_tiles_def comp_def last_cumsum del: last.simps)

lemma foldl_add: "foldl (\<lambda>n c. n + f c) (a :: nat) xs = a + (\<Sum>c\<leftarrow>xs. f c)"
  by (induction xs arbitrary: a) simp_all

lemma phase_7_prefix_eq:
  "phase_7_prefix R C u_inbox = (let col = cumsum 0 (map (\<lambda>i. \<Sum>c<C. u_inbox (c * R + i)) [0..<R]) in (col, last (0 # col)))"
  by (simp add: phase_7_prefix_def foldl_add Let_def foldl_cumsum [unfolded Let_def]
      interv_sum_list_conv_sum_set_nat atLeast0LessThan)

end
