(* ===== verification/Metadata_Contract.thy ===== *)
theory Metadata_Contract
  imports Metadata_Scan
begin

unbundle bit_operations_syntax

text \<open>
  An inbox that holds what phase A of every rank stores makes phase B compute the metadata \<open>expected_metadata\<close>
  derives from the gathered routing: the entry counts of every substream, the slot bases and the rank prefix, and
  with them the expert frequencies, block offsets and counters the host reads.
\<close>

section \<open>The additions of one token\<close>

text \<open>The 32-bit cast keeps every expert id and every negative marker that fits.\<close>

definition castable :: "nat \<Rightarrow> ('r list \<times> 'f routing) list \<Rightarrow> bool" where
  "castable E ranks \<longleftrightarrow> length ranks \<le> 32 \<and> E * length ranks \<le> 2 ^ 31 \<and>
     (\<forall>(x, r) \<in> set ranks. \<forall>row \<in> set (rt_topk_idx r). \<forall>i \<in> set row. - (2 ^ 31) \<le> i)"

lemma int_cast_id: "- (2 ^ 31) \<le> i \<Longrightarrow> i < 2 ^ 31 \<Longrightarrow> int_cast i = i"
  unfolding int_cast_def by (rule signed_take_bit_int_eq_self)

lemma cell_e_unique:
  assumes "cell_e E C d c e = cell_e E C d' c' e'" "c < C" "c' < C" "e < E" "e' < E"
  shows "d = d' \<and> c = c' \<and> e = e'"
proof -
  have "d * C + c = d' * C + c' \<and> e = e'"
    using assms by (intro mult_add_unique [where E = E]) (simp_all add: cell_e_def algebra_simps)
  then show ?thesis using mult_add_unique [of d C c d' c'] assms(2,3) by simp
qed

lemma cell_e_bound:
  assumes "d < R" "c < C" "e < (E :: nat)"
  shows "cell_e E C d c e < R * (C * E)"
proof -
  have "c * E + e < Suc c * E" using assms(3) by simp
  also have "\<dots> \<le> C * E" using assms(2) by (intro mult_le_mono1) simp
  finally have "d * (C * E) + (c * E + e) < Suc d * (C * E)" by simp
  also have "\<dots> \<le> R * (C * E)" using assms(1) by (intro mult_le_mono1) simp
  finally show ?thesis by (simp add: cell_e_def)
qed

lemma cell_u_unique:
  assumes "cell_u R E C d c = cell_u R E C d' c'" "c < C" "c' < C"
  shows "d = d' \<and> c = c'"
  using mult_add_unique [of d C c d' c'] assms by (simp add: cell_u_def)

text \<open>An id's cell, and the bit of its rank.\<close>

lemma id_parts:
  assumes "0 \<le> i" "i < int (E * R)" "0 < E"
  shows "nat i div E < R" "nat i - nat i div E * E < E" "d = nat i div E \<and> e = nat i - nat i div E * E \<longleftrightarrow> i = int (d * E + e) \<and> e < E"
proof -
  have e: "nat i - nat i div E * E = nat i mod E" by (simp add: minus_div_mult_eq_mod)
  have "nat i < R * E" using assms by (simp add: nat_less_iff mult.commute)
  then show "nat i div E < R" by (simp add: div_less_iff_less_mult assms(3))
  show "nat i - nat i div E * E < E" using assms(3) by (simp add: e)
  show "d = nat i div E \<and> e = nat i - nat i div E * E \<longleftrightarrow> i = int (d * E + e) \<and> e < E"
    unfolding e using assms by (auto simp: nat_eq_iff2 [symmetric] simp del: of_nat_add of_nat_mult)
qed

lemma mask_bit: "d < 64 \<Longrightarrow> (m :: 64 word) AND push_bit d 1 = 0 \<longleftrightarrow> \<not> bit m d"
proof -
  assume d: "d < 64"
  have "bit (m AND push_bit d 1) k \<longleftrightarrow> k = d \<and> bit m d" for k
    using d by (auto simp: bit_and_iff bit_exp_iff)
  then show ?thesis by (metis bit_0_eq bot_apply bot_bool_def bit_eq_iff)
qed

lemma mask_insert: "d < 64 \<Longrightarrow> bit ((m :: 64 word) OR push_bit d' 1) d \<longleftrightarrow> bit m d \<or> d = d'"
  by (auto simp: bit_or_iff bit_exp_iff)

definition ids_ok :: "nat \<Rightarrow> nat \<Rightarrow> int list \<Rightarrow> bool" where
  "ids_ok R E row \<longleftrightarrow> (\<forall>i \<in> set row. i < int (E * R) \<and> int_cast i = i)"

lemma entry_adds_id:
  assumes "0 \<le> i" "int_cast i = i" "d = nat i div E" "e = nat i - d * E"
  shows "entry_adds R E C c (i # row) m = cell_e E C d c e #
     (if m AND push_bit d 1 = 0 then cell_u R E C d c # entry_adds R E C c row (m OR push_bit d 1) else entry_adds R E C c row m)"
  using assms by (simp add: Let_def)

declare entry_adds.simps(2) [simp del]

lemma entry_adds_e:
  assumes "ids_ok R E row" "d < R" "c < C" "c' < C" "e < E"
  shows "count_list (entry_adds R E C c row m) (cell_e E C d c' e) = (if c' = c then count_list row (int (d * E + e)) else 0)"
  using assms(1)
proof (induction row arbitrary: m)
  case (Cons i row)
  then have i: "i < int (E * R)" "int_cast i = i" and IH: "count_list (entry_adds R E C c row m) (cell_e E C d c' e)
      = (if c' = c then count_list row (int (d * E + e)) else 0)" for m
    by (simp_all add: ids_ok_def)
  show ?case
  proof (cases "i < 0")
    case True
    then have "i \<noteq> int (d * E + e)" by linarith
    then show ?thesis using True i IH by (simp add: entry_adds.simps(2) del: of_nat_add of_nat_mult)
  next
    case False
    then have nn: "0 \<le> i" by simp
    have E: "0 < E" using assms(5) by simp
    define d0 e0 where de: "d0 = nat i div E" "e0 = nat i - d0 * E"
    note parts = id_parts [OF nn i(1) E, folded de(1), folded de(2)]
    have "cell_e E C d0 c e0 = cell_e E C d c' e \<longleftrightarrow> (d = d0 \<and> e = e0) \<and> c' = c"
      using cell_e_unique [of E C d0 c e0 d c' e] parts(2) assms(3-5) by auto
    then have hit: "cell_e E C d0 c e0 = cell_e E C d c' e \<longleftrightarrow> c' = c \<and> i = int (d * E + e)"
      unfolding parts(3) using assms(5) by blast
    have other: "cell_u R E C d0 c \<noteq> cell_e E C d c' e"
      using cell_e_bound [OF assms(2,4,5)] by (simp add: cell_u_def)
    define X where "X = int (d * E + e)"
    show ?thesis using IH other hit unfolding entry_adds_id [OF nn i(2) de] X_def [symmetric]
      by (cases "c' = c") simp_all
  qed
qed simp

lemma entry_adds_u:
  assumes "ids_ok R E row" "0 < E" "R \<le> 32" "d < R" "c < C" "c' < C"
  shows "count_list (entry_adds R E C c row m) (cell_u R E C d c')
    = (if c' = c \<and> \<not> bit m d \<and> list_ex (\<lambda>i. 0 \<le> i \<and> i div int E = int d) row then 1 else 0)"
  using assms(1)
proof (induction row arbitrary: m)
  case (Cons i row)
  let ?ex = "list_ex (\<lambda>i. 0 \<le> i \<and> i div int E = int d) row"
  from Cons have i: "i < int (E * R)" "int_cast i = i" and IH: "count_list (entry_adds R E C c row m) (cell_u R E C d c')
      = (if c' = c \<and> \<not> bit m d \<and> ?ex then 1 else 0)" for m
    by (simp_all add: ids_ok_def)
  show ?case
  proof (cases "i < 0")
    case True
    then show ?thesis using i IH by (simp add: entry_adds.simps(2))
  next
    case False
    then have nn: "0 \<le> i" by simp
    define d0 e0 where de: "d0 = nat i div E" "e0 = nat i - d0 * E"
    note parts = id_parts [OF nn i(1) assms(2), folded de(1), folded de(2)]
    have d: "d0 < 64" "d < 64" using parts(1) assms(3,4) by simp_all
    have other: "cell_e E C d0 c e0 \<noteq> cell_u R E C d c'"
      using cell_e_bound [OF parts(1) assms(5) parts(2)] by (simp add: cell_u_def)
    have hit: "cell_u R E C d0 c = cell_u R E C d c' \<longleftrightarrow> d = d0 \<and> c' = c"
      using cell_u_unique [of R E C d0 c d c'] assms(5,6) by auto
    have owner: "i div int E = int d \<longleftrightarrow> d = d0"
    proof -
      have "int d0 = i div int E" using nn by (simp add: de zdiv_int)
      then show ?thesis by auto
    qed
    show ?thesis
    proof (cases "bit m d0")
      case True
      then show ?thesis unfolding entry_adds_id [OF nn i(2) de] mask_bit [OF d(1)]
        using IH other by (auto simp: owner nn)
    next
      case False
      then show ?thesis unfolding entry_adds_id [OF nn i(2) de] mask_bit [OF d(1)]
        using IH other by (auto simp: owner nn hit mask_insert [OF d(1), unfolded push_bit_of_1]
            mask_insert [OF d(2), unfolded push_bit_of_1])
    qed
  qed
qed simp

section \<open>The stores of phase A\<close>

lemma lane_stores_set:
  "set (concat (map (lane_stores R E C rank smem dst) [0..<32]))
    = (\<lambda>i. (dst, inbox_e R E (i div E) rank (i - i div E * E), smem (dst * (C * E) + i))) ` {..<C * E}
      \<union> (\<lambda>c. (dst, inbox_u R E C c rank, smem (cell_u R E C dst c))) ` {..<C}" (is "_ = ?e ` _ \<union> ?u ` _")
proof -
  have "set (concat (map (lane_stores R E C rank smem dst) [0..<32]))
      = set (concat (map (\<lambda>l. map ?e (strided l 32 (C * E))) [0..<32])) \<union> set (concat (map (\<lambda>l. map ?u (strided l 32 C)) [0..<32]))"
    by (auto simp: lane_stores_def Let_def cell_u_def)
  then show ?thesis unfolding strided_loop [OF zero_less_numeral] .
qed

lemma phase_a_stores_set:
  "set (phase_a_stores R E C rank smem) = (\<Union>d<R. set (concat (map (lane_stores R E C rank smem d) [0..<32])))"
  unfolding phase_a_stores_def warp_stores_def [abs_def] by (rule strided_loop_concat) (simp add: kNumWarps_def)

lemma phase_a_stores_e:
  assumes "d < R" "c < C" "e < E"
  shows "(d, (c * R + rank) * E + e, smem (cell_e E C d c e)) \<in> set (phase_a_stores R E C rank smem)"
proof -
  have div: "(c * E + e) div E = c" and i: "c * E + e < C * E"
    using assms(3) cell_e_bound [of 0 1 c C e E] assms(2) by (simp_all add: cell_e_def)
  have cell: "inbox_e R E ((c * E + e) div E) rank (c * E + e - (c * E + e) div E * E) = (c * R + rank) * E + e"
    unfolding div by (simp add: inbox_e_def algebra_simps)
  have "(d, (c * R + rank) * E + e, smem (cell_e E C d c e)) \<in> set (concat (map (lane_stores R E C rank smem d) [0..<32]))"
    unfolding lane_stores_set cell [symmetric] cell_e_def add.assoc
    by (rule UnI1, rule image_eqI [of _ _ "c * E + e"]) (use i in simp_all)
  then show ?thesis using assms(1) unfolding phase_a_stores_set by blast
qed

lemma phase_a_stores_u:
  assumes "d < R" "c < C"
  shows "(d, C * R * E + (c * R + rank), smem (cell_u R E C d c)) \<in> set (phase_a_stores R E C rank smem)"
proof -
  have "(d, C * R * E + (c * R + rank), smem (cell_u R E C d c)) \<in> set (concat (map (lane_stores R E C rank smem d) [0..<32]))"
    unfolding lane_stores_set using assms(2) by (intro UnI2 image_eqI [of _ _ c]) (simp_all add: inbox_u_def)
  then show ?thesis using assms(1) unfolding phase_a_stores_set by blast
qed

section \<open>Phase B on the exchanged counts\<close>

text \<open>What rank \<open>s\<close> stores, after any order of its atomic additions, and an inbox that holds it.\<close>

definition delivered :: "nat \<Rightarrow> nat \<Rightarrow> ('r list \<times> 'f routing) list \<Rightarrow> (nat \<Rightarrow> nat list) \<Rightarrow> nat \<Rightarrow> (nat \<Rightarrow> nat) \<Rightarrow> bool" where
  "delivered C E ranks adds me inbox \<longleftrightarrow>
     (\<forall>s<length ranks. \<forall>(d, i, v) \<in> set (phase_a_stores (length ranks) E C s (histogram (adds s))). d = me \<longrightarrow> inbox i = v)"

definition any_order :: "nat \<Rightarrow> nat \<Rightarrow> ('r list \<times> 'f routing) list \<Rightarrow> (nat \<Rightarrow> nat list) \<Rightarrow> bool" where
  "any_order C E ranks adds \<longleftrightarrow>
     (\<forall>s<length ranks. mset (adds s) = all_adds (length ranks) E C (rt_topk_idx (snd (ranks ! s))))"

lemma count_localise: "e < E \<Longrightarrow> count_list (map (localise lo E) row) (int e) = count_list row (int (lo + e))"
  by (induction row) (auto simp: localise_def Let_def)

lemma sum_list_indicator: "(\<Sum>x\<leftarrow>xs. if P x then 1 else 0) = length (filter P xs)"
  by (induction xs) simp_all

lemma channel_lt: "t < n \<Longrightarrow> 0 < C \<Longrightarrow> t div ceil_div n C < C"
  using ceil_div_pos [of C n] ceil_div_mult_ge [of C n] by (simp add: div_less_iff_less_mult mult.commute less_le_trans)

text \<open>Without remote sources the receivers' order is the index order of the flat array.\<close>

lemma product_flat: "0 < W \<Longrightarrow> List.product [0..<C] [0..<W] = map (\<lambda>j. (j div W, j mod W)) [0..<C * W]"
proof (induction C)
  case (Suc C)
  have prod: "List.product (as @ bs) cs = List.product as cs @ List.product bs cs" for as bs :: "nat list" and cs :: "nat list"
    by (induction as) auto
  have "map (\<lambda>j. (j div W, j mod W)) [C * W..<C * W + W] = map (Pair C) [0..<W]"
    using Suc.prems by (intro nth_equalityI) simp_all
  moreover have "[0..<Suc C * W] = [0..<C * W] @ [C * W..<C * W + W]"
    using upt_add_eq_append [of 0 "C * W" W] by (simp add: add.commute)
  ultimately show ?case using Suc by (simp add: prod)
qed simp

lemma lex_order:
  assumes "0 < g_world G"
  shows "substream_order C me False G = map (\<lambda>j. (j div g_world G, j mod g_world G)) [0..<C * g_world G]"
proof -
  have "map (\<lambda>(c, s). c * g_world G + s) (map (\<lambda>j. (j div g_world G, j mod g_world G)) [0..<C * g_world G]) = [0..<C * g_world G]"
    by (simp add: comp_def)
  then show ?thesis unfolding substream_order_def Let_def remote_def
    by (simp add: product_flat [OF assms] sort_key_id_if_sorted comp_def)
qed

lemma before_in_order:
  assumes "s < W" "c < C"
  shows "takeWhile (\<lambda>x. x \<noteq> (c, s)) (map (\<lambda>j. (j div W, j mod W)) [0..<C * W]) = map (\<lambda>j. (j div W, j mod W)) [0..<c * W + s]"
proof -
  let ?k = "c * W + s"
  have k: "?k < C * W" using assms cell_e_bound [of 0 1 c C s W] by (simp add: cell_e_def)
  then have "[0..<C * W] = [0..<?k] @ ?k # [Suc ?k..<C * W]"
    using upt_add_eq_append [of 0 ?k "C * W - ?k"] by (simp add: upt_conv_Cons)
  moreover have "(j div W, j mod W) \<noteq> (c, s)" if "j < ?k" for j
    using that mult_div_mod_eq [of W j] by (auto simp: mult.commute)
  ultimately show ?thesis using assms(1) by (simp add: takeWhile_append)
qed

context dispatching
begin

lemma routed_ids:
  assumes "castable E ranks" "s < W" "t < toks s"
  shows "ids_ok W E (rt_topk_idx (snd (ranks ! s)) ! t)"
proof -
  let ?row = "rt_topk_idx (snd (ranks ! s)) ! t"
  have in_rank: "ranks ! s \<in> set ranks" "?row \<in> set (rt_topk_idx (snd (ranks ! s)))" using assms(2,3) by simp_all
  have "i < int (E * W)" if "i \<in> set ?row" for i
    using wr in_rank that unfolding well_routed_def by (auto simp: case_prod_beta)
  moreover have "- (2 ^ 31) \<le> i" if "i \<in> set ?row" for i
    using assms(1) in_rank that unfolding castable_def by (auto simp: case_prod_beta)
  moreover have "int (E * W) \<le> int (2 ^ 31)" using assms(1) unfolding castable_def of_nat_le_iff by blast
  ultimately show ?thesis unfolding ids_ok_def by (fastforce intro!: int_cast_id)
qed

text \<open>One token's additions for a cell of the receiving rank.\<close>

lemma token_adds_e:
  assumes "castable E ranks" "s < W" "t < toks s" "c < C" "e < E"
  shows "count_list (token_adds W E C (rt_topk_idx (snd (ranks ! s))) t) (cell_e E C me c e)
    = (if chan s t = c then count_list (loc s t) (int e) else 0)"
proof -
  have ch: "t div ceil_div (toks s) C < C" by (rule channel_lt [OF assms(3) C])
  have "count_list (loc s t) (int e) = count_list (rt_topk_idx (snd (ranks ! s)) ! t) (int (me * E + e))"
    using assms(3) by (simp add: local_of_def count_localise [OF assms(5)] del: of_nat_add of_nat_mult)
  then show ?thesis
    using entry_adds_e [OF routed_ids [OF assms(1-3)] me ch assms(4,5), of 0] ch
    by (auto simp: token_adds_def Let_def ceil_div_def simp del: of_nat_add of_nat_mult)
qed

lemma token_adds_u:
  assumes "castable E ranks" "s < W" "t < toks s" "c < C"
  shows "count_list (token_adds W E C (rt_topk_idx (snd (ranks ! s))) t) (cell_u W E C me c)
    = (if chan s t = c \<and> has_local (loc s t) then 1 else 0)"
proof -
  have ch: "t div ceil_div (toks s) C < C" by (rule channel_lt [OF assms(3) C])
  have "has_local (loc s t) \<longleftrightarrow> list_ex (\<lambda>i. 0 \<le> i \<and> i div int E = int me) (rt_topk_idx (snd (ranks ! s)) ! t)"
    using assms(3) by (simp add: has_local_def local_of_def list_ex_iff localise_nonneg [OF E])
  moreover have "W \<le> 32" using assms(1) by (simp add: castable_def)
  ultimately show ?thesis
    using entry_adds_u [OF routed_ids [OF assms(1-3)] E _ me ch assms(4), of 0] ch
    by (auto simp: token_adds_def Let_def ceil_div_def)
qed

section \<open>The inbox of the receiving rank\<close>

lemma delivered_e:
  assumes "castable E ranks" "any_order C E ranks adds" "delivered C E ranks adds me inbox" "s < W" "c < C" "e < E"
  shows "inbox ((c * W + s) * E + e) = seen_per_substream C me G (c, s) e"
proof -
  have "inbox ((c * W + s) * E + e) = histogram (adds s) (cell_e E C me c e)"
    using assms(3,4) phase_a_stores_e [OF me assms(5,6)] unfolding delivered_def by fastforce
  also have "\<dots> = (\<Sum>t<toks s. if chan s t = c then count_list (loc s t) (int e) else 0)"
    using assms(2,4) by (simp add: any_order_def histogram_any_order token_adds_e [OF assms(1,4) _ assms(5,6)])
  finally show ?thesis by (simp add: seen_is_routed [OF assms(4)] interv_sum_list_conv_sum_set_nat atLeast0LessThan)
qed

lemma delivered_u:
  assumes "castable E ranks" "any_order C E ranks adds" "delivered C E ranks adds me inbox" "s < W" "c < C"
  shows "inbox (C * W * E + (c * W + s)) = (\<Sum>t<toks s. if chan s t = c \<and> has_local (loc s t) then 1 else 0)"
proof -
  have "inbox (C * W * E + (c * W + s)) = histogram (adds s) (cell_u W E C me c)"
    using assms(3,4) phase_a_stores_u [OF me assms(5)] unfolding delivered_def by fastforce
  then show ?thesis
    using assms(2,4) by (simp add: any_order_def histogram_any_order token_adds_u [OF assms(1,4) _ assms(5)] cong: if_cong)
qed

lemma unique_per_source:
  assumes "castable E ranks" "any_order C E ranks adds" "delivered C E ranks adds me inbox" "s < W"
  shows "(\<Sum>c<C. inbox (C * W * E + (c * W + s))) = length (received s)"
proof -
  have lt: "t div ceil_div (toks s) C < C" if "t < toks s" for t using channel_lt [OF that C] .
  have "(\<Sum>c<C. inbox (C * W * E + (c * W + s))) = (\<Sum>c<C. \<Sum>t<toks s. if chan s t = c \<and> has_local (loc s t) then 1 else 0)"
    by (intro sum.cong refl delivered_u [OF assms]) simp
  also have "\<dots> = (\<Sum>t<toks s. \<Sum>c<C. if chan s t = c \<and> has_local (loc s t) then 1 else 0)" by (rule sum.swap)
  also have "\<dots> = (\<Sum>t<toks s. if has_local (loc s t) then 1 else 0)"
  proof (intro sum.cong refl)
    fix t assume "t \<in> {..<toks s}"
    then have "chan s t < C" using lt [of t] by simp
    moreover have "(\<Sum>c<C. if chan s t = c \<and> has_local (loc s t) then 1 else 0)
        = (\<Sum>c<C. if chan s t = c then if has_local (loc s t) then 1 else 0 else 0)" by (intro sum.cong) auto
    ultimately show "(\<Sum>c<C. if chan s t = c \<and> has_local (loc s t) then 1 else 0) = (if has_local (loc s t) then 1 else 0 :: nat)"
      by (simp only: sum.delta' finite_lessThan lessThan_iff if_True)
  qed
  also have "\<dots> = (\<Sum>t\<leftarrow>[0..<toks s]. if has_local (loc s t) then 1 else 0)"
    by (simp add: interv_sum_list_conv_sum_set_nat atLeast0LessThan)
  also have "\<dots> = length (received s)" unfolding received_def by (rule sum_list_indicator)
  finally show ?thesis .
qed

lemma flat_index: "cs < C * W \<Longrightarrow> cs div W < C \<and> cs mod W < W \<and> (cs div W * W + cs mod W) = cs"
  (is "_ \<Longrightarrow> ?thesis")
proof -
  have "0 < W" by (rule le_less_trans [OF zero_le me])
  then show "cs < C * W \<Longrightarrow> ?thesis" by (simp add: div_less_iff_less_mult)
qed

lemma delivered_flat:
  assumes "castable E ranks" "any_order C E ranks adds" "delivered C E ranks adds me inbox" "cs < C * W" "e < E"
  shows "inbox (cs * E + e) = seen_per_substream C me G (cs div W, cs mod W) e"
  using delivered_e [OF assms(1-3), of "cs mod W" "cs div W" e] flat_index [OF assms(4)] assms(5) by simp

lemma delivered_freq:
  assumes "castable E ranks" "any_order C E ranks adds" "delivered C E ranks adds me inbox"
  shows "map (\<lambda>e. \<Sum>cs<C * W. inbox (cs * E + e)) [0..<E] = expert_freq C me G"
proof (rule nth_equalityI)
  show "length (map (\<lambda>e. \<Sum>cs<C * W. inbox (cs * E + e)) [0..<E]) = length (expert_freq C me G)" by simp
  fix e assume "e < length (map (\<lambda>e. \<Sum>cs<C * W. inbox (cs * E + e)) [0..<E])"
  then have e: "e < E" by simp
  have "expert_freq C me G ! e = (\<Sum>(c, s)\<leftarrow>List.product [0..<C] [0..<W]. seen_per_substream C me G (c, s) e)"
    using e by (simp add: expert_freq_def facts(4,5))
  also have "\<dots> = (\<Sum>cs<C * W. seen_per_substream C me G (cs div W, cs mod W) e)"
    using me by (subst product_flat) (auto simp: comp_def interv_sum_list_conv_sum_set_nat atLeast0LessThan)
  also have "\<dots> = (\<Sum>cs<C * W. inbox (cs * E + e))"
    by (intro sum.cong refl) (simp add: delivered_flat [OF assms] e)
  finally show "map (\<lambda>e. \<Sum>cs<C * W. inbox (cs * E + e)) [0..<E] ! e = expert_freq C me G ! e" using e by simp
qed

text \<open>Phase B computes the expected metadata, and the handle's frequencies, offsets and counters.\<close>

lemma phase_b_reference:
  fixes md0 :: metadata and alignment :: nat
  assumes "castable E ranks" "any_order C E ranks adds" "delivered C E ranks adds me inbox" "0 < num_blocks"
  defines "md \<equiv> phase_b num_blocks W E C TILE_M alignment me md0 inbox"
  shows "check_metadata C me G md"
    and "map (md_freq md) [0..<E] = expert_freq C me G"
    and "md_blocks md = block_offset (expert_freq C me G)"
    and "md_tiles md = total_tiles (expert_freq C me G)"
    and "md_num_recv md = last (0 # rank_prefix_column me G)"
proof -
  note del = assms(1-3)
  define seen where "seen = write_all (phase_6a num_blocks W E C inbox) (md_seen md0)"
  define freq' where "freq' = write_all (phase_6b num_blocks W E C inbox) (md_freq md0)"
  let ?offs = "block_offset (expert_freq C me G)"
  have seen: "seen (cs * E + e) = seen_per_substream C me G (cs div W, cs mod W) e" if "cs < C * W" "e < E" for cs e
  proof -
    have "cs * E + e < C * W * E" using that cell_e_bound [of 0 1 cs "C * W" e E] by (simp add: cell_e_def)
    then show ?thesis using delivered_flat [OF del that] phase_6a_fills [OF assms(4), of _ C W E inbox] by (simp add: seen_def)
  qed
  have freq: "map freq' [0..<E] = expert_freq C me G"
    unfolding delivered_freq [OF del, symmetric] freq'_def by (simp add: phase_6b_fills [OF assms(4)])
  have col: "phase_7_prefix W C (\<lambda>i. inbox (C * W * E + i)) = (rank_prefix_column me G, last (0 # rank_prefix_column me G))"
  proof -
    have "map (\<lambda>i. \<Sum>c<C. inbox (C * W * E + (c * W + i))) [0..<W] = map (\<lambda>s. length (received s)) [0..<W]"
      using unique_per_source [OF del] by simp
    then show ?thesis unfolding phase_7_prefix_eq Let_def rank_prefix_received by (rule arg_cong)
  qed
  have md: "md = \<lparr>md_seen = seen, md_freq = freq', md_blocks = ?offs, md_tiles = total_tiles (expert_freq C me G),
      md_recv_per_expert = phase_7_aligned E alignment freq',
      md_prefix = write_all (map (\<lambda>i. (i * W + me, rank_prefix_column me G ! i)) [0..<W]) (md_prefix md0),
      md_num_recv = last (0 # rank_prefix_column me G),
      md_base = write_all (phase_8 num_blocks W E C TILE_M ?offs seen) (md_base md0)\<rparr>"
    unfolding md_def phase_b_def Let_def seen_def [symmetric] freq'_def [symmetric] phase_7_blocks_eq freq col prod.case ..
  show "map (md_freq md) [0..<E] = expert_freq C me G" "md_blocks md = ?offs" "md_tiles md = total_tiles (expert_freq C me G)"
      "md_num_recv md = last (0 # rank_prefix_column me G)"
    unfolding md metadata.simps freq by (rule refl)+
  have "md_base md ((c * W + s) * E + e) = base_pool C me False G (c, s) e" if "c < C" "s < W" "e < E" for c s e
  proof -
    have cs: "c * W + s < C * W" using that cell_e_bound [of 0 1 c C s W] by (simp add: cell_e_def)
    have W: "0 < W" by (rule le_less_trans [OF zero_le me])
    have "md_base md ((c * W + s) * E + e) = ?offs ! e * TILE_M + (\<Sum>j<c * W + s. seen (j * E + e))"
      unfolding md metadata.simps by (rule phase_8_fills [OF assms(4) that(3) cs])
    also have "(\<Sum>j<c * W + s. seen (j * E + e)) = (\<Sum>j<c * W + s. seen_per_substream C me G (j div W, j mod W) e)"
      using cs that(3) by (intro sum.cong refl seen) simp_all
    also have "?offs ! e * TILE_M + \<dots> = base_pool C me False G (c, s) e"
      unfolding base_pool_def using lex_order [of G C me] W
      by (simp add: facts(4) before_in_order [OF that(2,1)] comp_def interv_sum_list_conv_sum_set_nat atLeast0LessThan)
    finally show ?thesis .
  qed
  moreover have "md_seen md ((c * W + s) * E + e) = seen_per_substream C me G (c, s) e" if "c < C" "s < W" "e < E" for c s e
  proof -
    have "(c * W + s) div W = c" using that(2) by (intro div_nat_eqI) simp_all
    then show ?thesis using seen [of "c * W + s" e] that cell_e_bound [of 0 1 c C s W] by (simp add: md cell_e_def)
  qed
  moreover have "md_prefix md (i * W + me) = rank_prefix_column me G ! i" if "i < W" for i
    unfolding md metadata.simps using that me mult_add_unique [of i W me _ me] by (intro write_all_at) auto
  moreover have "length (rank_prefix_column me G) = W" by (simp add: rank_prefix_received)
  ultimately show "check_metadata C me G md"
    unfolding check_metadata_def Let_def actual_seen_def facts(4,5) by (auto intro!: nth_equalityI)
qed

end

end
