(* ===== verification/Metadata_Exchange.thy ===== *)
theory Metadata_Exchange
  imports Metadata_Contract
begin

text \<open>
  The exchange of the counts between the ranks, over any number of dispatch calls. Phase A of a call brackets the
  stores into the peers' inboxes by two \<open>barrier_block\<close>s (\<^verbatim>\<open>csrc/kernels/utils.cuh\<close>), and phase B reads the inbox
  after it on the same stream. The barrier is modelled by its atomics: thread \<open>i\<close> of a rank adds a tag to the rank's
  own counter for \<open>i\<close> and takes it from the rank's counter at peer \<open>i\<close>, and the warp leaves when one round of reads has
  found no positive counter. Only the order of the atomics matters here: a rank's stores are fenced before its signals
  (\<open>memory_fence\<close> at system scope and \<open>__syncthreads\<close>), and phase B is a later kernel.
\<close>

section \<open>The barrier\<close>

definition FINISHED_SUM_TAG :: int where "FINISHED_SUM_TAG = 1024"

type_synonym signals = "nat \<Rightarrow> nat \<Rightarrow> int"   \<comment> \<open>\<open>barrier_signal_ptrs[rank][thread]\<close>\<close>

datatype block_barrier =
    Signalling "nat set" "nat set"   \<comment> \<open>the threads past the addition, and past the subtraction\<close>
  | Polling "nat set"                \<comment> \<open>the lanes that have read a counter that is not positive in this iteration\<close>

datatype barrier_action = AddOwn nat | SubPeer nat | StartPoll | ReadSignal nat

fun barrier_act :: "nat \<Rightarrow> nat \<Rightarrow> barrier_action \<Rightarrow> signals \<Rightarrow> block_barrier \<Rightarrow> (signals \<times> block_barrier) option" where
  "barrier_act R r (AddOwn i) sg (Signalling A B) =
     (if i < R \<and> i \<notin> A then Some (sg(r := (sg r)(i := sg r i + FINISHED_SUM_TAG)), Signalling (insert i A) B) else None)"
| "barrier_act R r (SubPeer i) sg (Signalling A B) =
     (if i \<in> A \<and> i \<notin> B then Some (sg(i := (sg i)(r := sg i r - FINISHED_SUM_TAG)), Signalling A (insert i B)) else None)"
| "barrier_act R r StartPoll sg (Signalling A B) =
     (if list_all (\<lambda>i. i \<in> B) [0..<R] then Some (sg, Polling {}) else None)"
| "barrier_act R r (ReadSignal i) sg (Polling S) =
     (if i < R \<and> i \<notin> S then Some (sg, Polling (if sg r i \<le> 0 then insert i S else {})) else None)"
| "barrier_act R r a sg b = None"

fun barrier_passed :: "nat \<Rightarrow> block_barrier \<Rightarrow> bool" where
  "barrier_passed R (Signalling A B) = False"
| "barrier_passed R (Polling S) = list_all (\<lambda>i. i \<in> S) [0..<R]"

section \<open>The calls of the ranks\<close>

datatype phase =
    Handshake block_barrier
  | Storing "(nat \<times> nat \<times> nat) set"   \<comment> \<open>the stores that are left\<close>
  | Publish block_barrier
  | Reading                             \<comment> \<open>phase B\<close>

record exchange =
  xs_sig :: signals
  xs_phase :: "nat \<Rightarrow> phase"
  xs_call :: "nat \<Rightarrow> nat"
  xs_inbox :: "nat \<Rightarrow> nat \<Rightarrow> nat"

datatype action = Barrier barrier_action | Leave | Put nat nat nat | StartPublish | NextCall

definition enter :: block_barrier where "enter = Signalling {} {}"

definition go :: "nat \<Rightarrow> phase \<Rightarrow> exchange \<Rightarrow> exchange" where
  "go r p x = x\<lparr>xs_phase := (xs_phase x)(r := p)\<rparr>"

text \<open>\<open>stores n r\<close> are the stores of rank \<open>r\<close> in its call \<open>n\<close>: destination, cell and value.\<close>

fun exchange_act :: "nat \<Rightarrow> (nat \<Rightarrow> nat \<Rightarrow> (nat \<times> nat \<times> nat) list) \<Rightarrow> nat \<Rightarrow> action \<Rightarrow> exchange \<Rightarrow> exchange option" where
  "exchange_act R stores r (Barrier a) x = (case xs_phase x r of
     Handshake b \<Rightarrow> (case barrier_act R r a (xs_sig x) b of None \<Rightarrow> None
       | Some (sg, b') \<Rightarrow> Some (go r (Handshake b') (x\<lparr>xs_sig := sg\<rparr>)))
   | Publish b \<Rightarrow> (case barrier_act R r a (xs_sig x) b of None \<Rightarrow> None
       | Some (sg, b') \<Rightarrow> Some (go r (Publish b') (x\<lparr>xs_sig := sg\<rparr>)))
   | _ \<Rightarrow> None)"
| "exchange_act R stores r Leave x = (case xs_phase x r of
     Handshake b \<Rightarrow> if barrier_passed R b then Some (go r (Storing (set (stores (xs_call x r) r))) x) else None
   | Publish b \<Rightarrow> if barrier_passed R b then Some (go r Reading x) else None
   | _ \<Rightarrow> None)"
| "exchange_act R stores r (Put d i v) x = (case xs_phase x r of
     Storing P \<Rightarrow> if (d, i, v) \<in> P
       then Some (go r (Storing (P - {(d, i, v)})) (x\<lparr>xs_inbox := (xs_inbox x)(d := (xs_inbox x d)(i := v))\<rparr>)) else None
   | _ \<Rightarrow> None)"
| "exchange_act R stores r StartPublish x = (case xs_phase x r of
     Storing P \<Rightarrow> if P = {} then Some (go r (Publish enter) x) else None
   | _ \<Rightarrow> None)"
| "exchange_act R stores r NextCall x = (case xs_phase x r of
     Reading \<Rightarrow> Some (go r (Handshake enter) (x\<lparr>xs_call := (xs_call x)(r := xs_call x r + 1)\<rparr>))
   | _ \<Rightarrow> None)"

definition exchange_init :: exchange where
  \<comment> \<open>the counters and the inboxes are zeroed when the buffer is made\<close>
  "exchange_init = \<lparr>xs_sig = (\<lambda>_ _. 0), xs_phase = (\<lambda>_. Handshake enter), xs_call = (\<lambda>_. 0), xs_inbox = (\<lambda>_ _. 0)\<rparr>"

inductive exchange_step :: "nat \<Rightarrow> (nat \<Rightarrow> nat \<Rightarrow> (nat \<times> nat \<times> nat) list) \<Rightarrow> exchange \<Rightarrow> exchange \<Rightarrow> bool"
  for R stores where
  act: "r < R \<Longrightarrow> exchange_act R stores r a x = Some x' \<Longrightarrow> exchange_step R stores x x'"

inductive exchange_reach :: "nat \<Rightarrow> (nat \<Rightarrow> nat \<Rightarrow> (nat \<times> nat \<times> nat) list) \<Rightarrow> exchange \<Rightarrow> bool"
  for R stores where
  init: "exchange_reach R stores exchange_init"
| step: "exchange_reach R stores x \<Longrightarrow> exchange_step R stores x x' \<Longrightarrow> exchange_reach R stores x'"

fun exchange_run :: "nat \<Rightarrow> (nat \<Rightarrow> nat \<Rightarrow> (nat \<times> nat \<times> nat) list) \<Rightarrow> (nat \<times> action) list \<Rightarrow> exchange \<Rightarrow> exchange option" where
  "exchange_run R stores [] x = Some x"
| "exchange_run R stores ((r, a) # as) x = (if r < R then
     (case exchange_act R stores r a x of None \<Rightarrow> None | Some x' \<Rightarrow> exchange_run R stores as x') else None)"

lemma exchange_run_reach:
  "exchange_run R stores as x = Some x' \<Longrightarrow> exchange_reach R stores x \<Longrightarrow> exchange_reach R stores x'"
  by (induction R stores as x rule: exchange_run.induct)
    (auto split: if_splits option.splits intro: exchange_reach.step exchange_step.act)

lemma go_simps [simp]:
  "xs_phase (go r p x) = (xs_phase x)(r := p)" "xs_sig (go r p x) = xs_sig x" "xs_call (go r p x) = xs_call x"
  "xs_inbox (go r p x) = xs_inbox x"
  by (simp_all add: go_def)

section \<open>The counters\<close>

text \<open>
  How far a rank is: the barriers it has passed, and the one it is in. Counter \<open>i\<close> of rank \<open>r\<close> holds the difference
  between the additions of \<open>r\<close> and the subtractions of \<open>i\<close>; no rank has passed a barrier its peers have not signalled.
\<close>

type_synonym barrier_view = "nat \<times> block_barrier option"

fun added :: "barrier_view \<Rightarrow> nat \<Rightarrow> nat" where
  "added (k, None) i = k"
| "added (k, Some (Signalling A B)) i = (if i \<in> A then k + 1 else k)"
| "added (k, Some (Polling S)) i = k + 1"

fun subbed :: "barrier_view \<Rightarrow> nat \<Rightarrow> nat" where
  "subbed (k, None) i = k"
| "subbed (k, Some (Signalling A B)) i = (if i \<in> B then k + 1 else k)"
| "subbed (k, Some (Polling S)) i = k + 1"

fun barrier_ok :: "nat \<Rightarrow> (nat \<Rightarrow> barrier_view) \<Rightarrow> barrier_view \<Rightarrow> nat \<Rightarrow> bool" where
  "barrier_ok R V (k, None) r = True"
| "barrier_ok R V (k, Some (Signalling A B)) r = (B \<subseteq> A \<and> A \<subseteq> {..<R})"
| "barrier_ok R V (k, Some (Polling S)) r = (S \<subseteq> {..<R} \<and> (\<forall>i \<in> S. k < subbed (V i) r))"

definition signals_ok :: "nat \<Rightarrow> signals \<Rightarrow> (nat \<Rightarrow> barrier_view) \<Rightarrow> bool" where
  "signals_ok R sg V \<longleftrightarrow>
     (\<forall>r<R. \<forall>i<R. sg r i = FINISHED_SUM_TAG * (int (added (V r) i) - int (subbed (V i) r))) \<and>
     (\<forall>r<R. \<forall>i<R. fst (V r) \<le> subbed (V i) r) \<and> (\<forall>r<R. barrier_ok R V (V r) r)"

lemma added_bounds: "fst v \<le> added v i \<and> added v i \<le> fst v + 1"
  by (cases "(v, i)" rule: added.cases) auto

lemma subbed_bounds: "fst v \<le> subbed v i \<and> subbed v i \<le> fst v + 1"
  by (cases "(v, i)" rule: subbed.cases) auto

text \<open>A rank may move as long as what it adds and takes keeps the counters right and nothing it has signalled is undone.\<close>

lemma signals_ok_move:
  assumes ok: "signals_ok R sg V"
    and sg: "\<And>q i. q < R \<Longrightarrow> i < R \<Longrightarrow> sg' q i = sg q i
      + FINISHED_SUM_TAG * ((if q = r then int (added v i) - int (added (V r) i) else 0)
                            - (if i = r then int (subbed v q) - int (subbed (V r) q) else 0))"
    and mono: "\<And>q. q < R \<Longrightarrow> subbed (V r) q \<le> subbed v q"
    and passed_count: "\<And>i. i < R \<Longrightarrow> fst v \<le> subbed ((V(r := v)) i) r"
    and bar: "barrier_ok R (V(r := v)) v r"
  shows "signals_ok R sg' (V(r := v))"
proof -
  have "barrier_ok R (V(r := v)) (V q) q" if "q < R" "q \<noteq> r" for q
  proof -
    have own: "barrier_ok R V (V q) q" using ok that(1) by (simp add: signals_ok_def)
    show ?thesis
    proof (cases "(R, V, V q, q)" rule: barrier_ok.cases)
      case (3 R' V' k S q')
      then show ?thesis using own mono [OF that(1)] that by (fastforce intro: less_le_trans)
    qed (use own in auto)
  qed
  moreover have "fst ((V(r := v)) q) \<le> subbed ((V(r := v)) i) q" if "q < R" "i < R" for q i
  proof -
    have "fst (V q) \<le> subbed (V i) q" using ok that by (simp add: signals_ok_def)
    then show ?thesis using passed_count [OF that(2)] mono [OF that(1)] by (cases "q = r"; cases "i = r") auto
  qed
  moreover have "sg' q i = FINISHED_SUM_TAG * (int (added ((V(r := v)) q) i) - int (subbed ((V(r := v)) i) q))" if "q < R" "i < R" for q i
    using ok that unfolding sg [OF that] by (simp add: signals_ok_def algebra_simps)
  ultimately show ?thesis using bar unfolding signals_ok_def by (simp add: fun_upd_apply)
qed

lemma signals_ok_act:
  assumes ok: "signals_ok R sg V" and r: "r < R" "V r = (k, Some b)" and act: "barrier_act R r a sg b = Some (sg', b')"
  shows "signals_ok R sg' (V(r := (k, Some b')))"
proof -
  have k: "k \<le> subbed (V i) r" if "i < R" for i using ok r that by (fastforce simp: signals_ok_def)
  have bar: "barrier_ok R V (k, Some b) r" using ok r by (metis signals_ok_def)
  have eq: "sg r i = FINISHED_SUM_TAG * (int (added (k, Some b) i) - int (subbed (V i) r))" if "i < R" for i
    using ok r that by (metis signals_ok_def)
  show ?thesis
  proof (cases "(R, r, a, sg, b)" rule: barrier_act.cases)
    case (1 R' r' i sg1 A B)
    with act have i: "i < R" "i \<notin> A" "b = Signalling A B" "b' = Signalling (insert i A) B"
        "sg' = sg(r := (sg r)(i := sg r i + FINISHED_SUM_TAG))" by (auto split: if_splits)
    then show ?thesis using r k bar by (intro signals_ok_move [OF ok]) auto
  next
    case (2 R' r' i sg1 A B)
    with act have i: "i \<in> A" "i \<notin> B" "b = Signalling A B" "b' = Signalling A (insert i B)"
        "sg' = sg(i := (sg i)(r := sg i r - FINISHED_SUM_TAG))" by (auto split: if_splits)
    then show ?thesis using r k bar by (intro signals_ok_move [OF ok]) auto
  next
    case (3 R' r' sg1 A B)
    with act have i: "\<And>i. i < R \<Longrightarrow> i \<in> B" "b = Signalling A B" "b' = Polling {}" "sg' = sg"
      by (auto simp: list_all_iff split: if_splits)
    then show ?thesis using r k bar by (intro signals_ok_move [OF ok]) auto
  next
    case (4 R' r' i sg1 S)
    with act have i: "i < R" "i \<notin> S" "b = Polling S" "b' = Polling (if sg r i \<le> 0 then insert i S else {})" "sg' = sg"
      by (auto split: if_splits)
    have "k < subbed (V i) r" if "sg r i \<le> 0"
      using eq [OF i(1)] that i(3) by (simp add: FINISHED_SUM_TAG_def)
    then show ?thesis using r k bar i by (intro signals_ok_move [OF ok]) (auto simp: r)
  qed (use act in auto)
qed

lemma signals_ok_leave:
  assumes ok: "signals_ok R sg V" and r: "r < R" "V r = (k, Some b)" and "barrier_passed R b"
  shows "signals_ok R sg (V(r := (k + 1, None)))"
proof -
  obtain S where S: "b = Polling S" "\<And>i. i < R \<Longrightarrow> i \<in> S" using assms(4) by (cases b) (auto simp: list_all_iff)
  then have "k + 1 \<le> subbed (V i) r" if "i < R" for i
    using ok r that unfolding signals_ok_def by (metis Suc_eq_plus1 Suc_leI barrier_ok.simps(3))
  then show ?thesis using r S by (intro signals_ok_move [OF ok]) auto
qed

lemma signals_ok_enter:
  assumes ok: "signals_ok R sg V" and r: "r < R" "V r = (k, None)"
  shows "signals_ok R sg (V(r := (k, Some enter)))"
proof -
  have "k \<le> subbed (V i) r" if "i < R" for i using ok r that by (metis fst_conv signals_ok_def)
  then show ?thesis using r by (intro signals_ok_move [OF ok]) (auto simp: enter_def)
qed

section \<open>The inboxes\<close>

fun barrier_of :: "phase \<Rightarrow> block_barrier option" where
  "barrier_of (Handshake b) = Some b"
| "barrier_of (Publish b) = Some b"
| "barrier_of p = None"

fun barriers_in_call :: "phase \<Rightarrow> nat" where
  \<comment> \<open>the barriers of the call a rank has passed\<close>
  "barriers_in_call (Handshake b) = 0"
| "barriers_in_call Reading = 2"
| "barriers_in_call p = 1"

definition view_of :: "exchange \<Rightarrow> nat \<Rightarrow> barrier_view" where
  "view_of x r = (2 * xs_call x r + barriers_in_call (xs_phase x r), barrier_of (xs_phase x r))"

definition passed_count :: "exchange \<Rightarrow> nat \<Rightarrow> nat" where "passed_count x r = fst (view_of x r)"

definition holds :: "(nat \<Rightarrow> nat \<Rightarrow> nat) \<Rightarrow> (nat \<times> nat \<times> nat) set \<Rightarrow> bool" where
  "holds inbox Q \<longleftrightarrow> (\<forall>(d, i, v) \<in> Q. inbox d i = v)"

lemma holdsI: "(\<And>d i v. (d, i, v) \<in> Q \<Longrightarrow> inbox d i = v) \<Longrightarrow> holds inbox Q"
  by (auto simp: holds_def)

lemma holdsD: "holds inbox Q \<Longrightarrow> (d, i, v) \<in> Q \<Longrightarrow> inbox d i = v"
  by (auto simp: holds_def)

lemma holds_insert:
  assumes "holds m (A - P)" "\<And>v'. (d, i, v') \<in> A \<Longrightarrow> v' = v"
  shows "holds (m(d := (m d)(i := v))) (A - (P - {(d, i, v)}))"
proof (rule holdsI)
  fix d' i' v' assume *: "(d', i', v') \<in> A - (P - {(d, i, v)})"
  have A: "(d', i', v') \<in> A" by (rule DiffD1 [OF *])
  show "(m(d := (m d)(i := v))) d' i' = v'"
  proof (cases "d' = d \<and> i' = i")
    case True
    then show ?thesis using assms(2) A by auto
  next
    case False
    then have "(d', i', v') \<in> A - P" using * by blast
    then have "m d' i' = v'" by (rule holdsD [OF assms(1)])
    then show ?thesis using False by auto
  qed
qed

text \<open>The contract of the stores: a cell belongs to one rank, which stores one value to it per call.\<close>

locale inbox_stores =
  fixes R :: nat and stores :: "nat \<Rightarrow> nat \<Rightarrow> (nat \<times> nat \<times> nat) list"
  assumes owner: "w < R \<Longrightarrow> w' < R \<Longrightarrow> (d, i, v) \<in> set (stores n w) \<Longrightarrow> (d, i, v') \<in> set (stores n' w') \<Longrightarrow> w = w'"
    and one_value: "w < R \<Longrightarrow> (d, i, v) \<in> set (stores n w) \<Longrightarrow> (d, i, v') \<in> set (stores n w) \<Longrightarrow> v = v'"
begin

text \<open>What a rank has stored by now, in this call or in the one before.\<close>

fun stored_by :: "nat \<Rightarrow> nat \<Rightarrow> phase \<Rightarrow> (nat \<times> nat \<times> nat) set" where
  "stored_by w n (Handshake b) = (case n of 0 \<Rightarrow> {} | Suc m \<Rightarrow> set (stores m w))"
| "stored_by w n (Storing P) = set (stores n w) - P"
| "stored_by w n p = set (stores n w)"

definition exchange_inv :: "exchange \<Rightarrow> bool" where
  "exchange_inv x \<longleftrightarrow> signals_ok R (xs_sig x) (view_of x) \<and>
     (\<forall>w<R. holds (xs_inbox x) (stored_by w (xs_call x w) (xs_phase x w))) \<and>
     (\<forall>w<R. \<forall>P. xs_phase x w = Storing P \<longrightarrow> P \<subseteq> set (stores (xs_call x w) w))"

lemma stored_subset: "\<exists>n'. stored_by w n p \<subseteq> set (stores n' w)"
  by (cases "(w, n, p)" rule: stored_by.cases) (auto split: nat.splits)

text \<open>A store to a rank's own cell leaves the cells of the others alone.\<close>

lemma holds_put:
  assumes "holds inbox (stored_by w n p)" "w < R" "w' < R" "(d, i, v) \<in> set (stores n' w')" "w \<noteq> w'"
  shows "holds (inbox(d := (inbox d)(i := v))) (stored_by w n p)"
proof -
  obtain n1 where "stored_by w n p \<subseteq> set (stores n1 w)" using stored_subset by blast
  then have "(d, i, v') \<notin> stored_by w n p" for v' using owner [OF assms(2,3) _ assms(4)] assms(5) by blast
  then show ?thesis using assms(1) unfolding holds_def by (fastforce simp: fun_upd_apply)
qed

lemma exchange_inv_init: "exchange_inv exchange_init"
  by (auto simp: exchange_inv_def exchange_init_def signals_ok_def view_of_def enter_def holds_def)

lemma view_of_go:
  "view_of (go r p x) = (view_of x)(r := (2 * xs_call x r + barriers_in_call p, barrier_of p))"
  by (auto simp: view_of_def)

lemma exchange_inv_act:
  assumes inv: "exchange_inv x" and r: "r < R" and act: "exchange_act R stores r a x = Some x'"
  shows "exchange_inv x'"
proof -
  have sig: "signals_ok R (xs_sig x) (view_of x)"
    and inbox: "\<And>w. w < R \<Longrightarrow> holds (xs_inbox x) (stored_by w (xs_call x w) (xs_phase x w))"
    and left: "\<And>w P. w < R \<Longrightarrow> xs_phase x w = Storing P \<Longrightarrow> P \<subseteq> set (stores (xs_call x w) w)"
    using inv by (auto simp: exchange_inv_def)
  show ?thesis
  proof (cases a)
    case (Barrier ba)
    then obtain b sg b' mk where b: "xs_phase x r = mk b" "mk = Handshake \<or> mk = Publish"
        "barrier_act R r ba (xs_sig x) b = Some (sg, b')" "x' = go r (mk b') (x\<lparr>xs_sig := sg\<rparr>)"
      using act by (auto split: phase.splits option.splits)
    have "signals_ok R sg ((view_of x)(r := (passed_count x r, Some b')))"
      using b by (intro signals_ok_act [OF sig r _ b(3)]) (auto simp: view_of_def passed_count_def)
    moreover have "view_of x' = (view_of x)(r := (passed_count x r, Some b'))"
      using b by (auto simp: view_of_def passed_count_def)
    ultimately show ?thesis using b inbox inbox [OF r] left r by (auto simp: exchange_inv_def)
  next
    case Leave
    then obtain b p where b: "barrier_of (xs_phase x r) = Some b" "barrier_passed R b" "x' = go r p x" "barrier_of p = None"
        "barriers_in_call p = barriers_in_call (xs_phase x r) + 1"
        "p = Reading \<and> xs_phase x r = Publish b \<or> p = Storing (set (stores (xs_call x r) r)) \<and> xs_phase x r = Handshake b"
      using act by (auto split: phase.splits if_splits)
    have "signals_ok R (xs_sig x) ((view_of x)(r := (passed_count x r + 1, None)))"
      using b by (intro signals_ok_leave [OF sig r _ b(2)]) (auto simp: view_of_def passed_count_def)
    moreover have "view_of x' = (view_of x)(r := (passed_count x r + 1, None))"
      using b by (auto simp: view_of_def passed_count_def)
    moreover have "holds (xs_inbox x) (stored_by r (xs_call x r) p)"
      using inbox [OF r] b(6) by (auto simp: holds_def)
    ultimately show ?thesis using b inbox left r by (auto simp: exchange_inv_def)
  next
    case (Put d i v)
    then obtain P where P: "xs_phase x r = Storing P" "(d, i, v) \<in> P"
        "x' = go r (Storing (P - {(d, i, v)})) (x\<lparr>xs_inbox := (xs_inbox x)(d := (xs_inbox x d)(i := v))\<rparr>)"
      using act by (auto split: phase.splits if_splits)
    have sub: "P \<subseteq> set (stores (xs_call x r) r)" by (rule left [OF r P(1)])
    have "view_of x' = view_of x" using P by (auto simp: view_of_def)
    moreover have "holds (xs_inbox x') (set (stores (xs_call x r) r) - (P - {(d, i, v)}))"
    proof -
      have "holds (xs_inbox x) (set (stores (xs_call x r) r) - P)" using inbox [OF r] by (simp only: P(1) stored_by.simps)
      then have "holds ((xs_inbox x)(d := (xs_inbox x d)(i := v))) (set (stores (xs_call x r) r) - (P - {(d, i, v)}))"
        by (rule holds_insert) (rule one_value [OF r _ subsetD [OF sub P(2)]])
      moreover have "xs_inbox x' = (xs_inbox x)(d := (xs_inbox x d)(i := v))" using P(3) by simp
      ultimately show ?thesis by (simp only:)
    qed
    moreover have "holds (xs_inbox x') (stored_by w (xs_call x w) (xs_phase x w))" if "w < R" "w \<noteq> r" for w
      using holds_put [OF inbox [OF that(1)] that(1) r, of d i v "xs_call x r"] sub P that by auto
    moreover have fields: "xs_call x' = xs_call x" "xs_sig x' = xs_sig x" "xs_phase x' = (xs_phase x)(r := Storing (P - {(d, i, v)}))"
      using P(3) by simp_all
    ultimately have "holds (xs_inbox x') (stored_by w (xs_call x' w) (xs_phase x' w))" if "w < R" for w
      using that by (cases "w = r") simp_all
    moreover have "Q \<subseteq> set (stores (xs_call x' w) w)" if "w < R" "xs_phase x' w = Storing Q" for w Q
      using that left [OF that(1)] sub by (auto simp: fields split: if_splits)
    ultimately show ?thesis using sig \<open>view_of x' = view_of x\<close> fields(2) by (simp add: exchange_inv_def)
  next
    case StartPublish
    then have P: "xs_phase x r = Storing {}" "x' = go r (Publish enter) x"
      using act by (auto split: phase.splits if_splits)
    have "signals_ok R (xs_sig x) ((view_of x)(r := (passed_count x r, Some enter)))"
      using P by (intro signals_ok_enter [OF sig r]) (auto simp: view_of_def passed_count_def)
    moreover have "view_of x' = (view_of x)(r := (passed_count x r, Some enter))"
      using P by (auto simp: view_of_def passed_count_def)
    ultimately show ?thesis using P inbox [OF r] inbox left r by (auto simp: exchange_inv_def)
  next
    case NextCall
    then have P: "xs_phase x r = Reading" "x' = go r (Handshake enter) (x\<lparr>xs_call := (xs_call x)(r := xs_call x r + 1)\<rparr>)"
      using act by (auto split: phase.splits)
    have "signals_ok R (xs_sig x) ((view_of x)(r := (passed_count x r, Some enter)))"
      using P by (intro signals_ok_enter [OF sig r]) (auto simp: view_of_def passed_count_def)
    moreover have "view_of x' = (view_of x)(r := (passed_count x r, Some enter))"
      using P by (auto simp: view_of_def passed_count_def)
    ultimately show ?thesis using P inbox [OF r] inbox left r by (auto simp: exchange_inv_def)
  qed
qed

lemma exchange_reach_inv: "exchange_reach R stores x \<Longrightarrow> exchange_inv x"
  by (induction rule: exchange_reach.induct)
    (auto simp: exchange_inv_init exchange_step.simps intro: exchange_inv_act)

text \<open>While a rank reads its inbox, every peer has stored its counts of the same call and none of the next.\<close>

lemma reading_inbox:
  assumes "exchange_reach R stores x" "r < R" "xs_phase x r = Reading" "w < R" "(r, i, v) \<in> set (stores (xs_call x r) w)"
  shows "xs_inbox x r i = v"
proof -
  have inv: "exchange_inv x" by (rule exchange_reach_inv [OF assms(1)])
  have r: "view_of x r = (2 * xs_call x r + 2, None)" using assms(3) by (simp add: view_of_def)
  have "fst (view_of x r) \<le> subbed (view_of x w) r" "fst (view_of x w) \<le> subbed (view_of x r) w"
    using inv assms(2,4) by (auto simp: exchange_inv_def signals_ok_def)
  then have ahead: "2 * xs_call x r + 2 \<le> subbed (view_of x w) r" and behind: "fst (view_of x w) \<le> 2 * xs_call x r + 2"
    by (simp_all add: r)
  have held: "holds (xs_inbox x) (stored_by w (xs_call x w) (xs_phase x w))" using inv assms(4) by (simp add: exchange_inv_def)
  have "stored_by w (xs_call x w) (xs_phase x w) = set (stores (xs_call x r) w)"
  proof (cases "xs_phase x w")
    case (Handshake b)
    have "2 * xs_call x r + 2 \<le> 2 * xs_call x w + 1" using ahead subbed_bounds [of "view_of x w" r] by (simp add: view_of_def Handshake)
    moreover have "2 * xs_call x w \<le> 2 * xs_call x r + 2" using behind by (simp add: view_of_def Handshake)
    ultimately have "xs_call x w = Suc (xs_call x r)" by linarith
    then show ?thesis by (simp add: Handshake)
  next
    case (Storing P)
    have "2 * xs_call x w + 1 = 2 * xs_call x r + 2" using ahead behind by (simp add: view_of_def Storing)
    then have False by presburger
    then show ?thesis ..
  next
    case (Publish b)
    have "2 * xs_call x r + 2 \<le> 2 * xs_call x w + 2" using ahead subbed_bounds [of "view_of x w" r] by (simp add: view_of_def Publish)
    moreover have "2 * xs_call x w + 1 \<le> 2 * xs_call x r + 2" using behind by (simp add: view_of_def Publish)
    ultimately have "xs_call x w = xs_call x r" by linarith
    then show ?thesis by (simp add: Publish)
  next
    case Reading
    then show ?thesis using ahead behind by (simp add: view_of_def)
  qed
  then show ?thesis using held assms(5) by (auto simp: holds_def)
qed

section \<open>Every rank gets through\<close>

text \<open>
  A rank that is not waiting for a signal can act. The rank that has passed the fewest barriers either can act, or
  waits for a rank that has passed as few and has not signalled it, which can.
\<close>

fun barrier_work :: "block_barrier \<Rightarrow> nat" where
  "barrier_work (Signalling A B) = (R - card A) + (R - card B) + R + 2"
| "barrier_work (Polling S) = (R - card S) + 1"

fun phase_work :: "phase \<Rightarrow> nat" where
  "phase_work (Storing P) = card P + 3 * R + 4"
| "phase_work Reading = 3 * R + 4"
| "phase_work (Handshake b) = barrier_work b"
| "phase_work (Publish b) = barrier_work b"

fun waits_for :: "signals \<Rightarrow> nat \<Rightarrow> block_barrier option \<Rightarrow> nat \<Rightarrow> bool" where
  "waits_for sg r (Some (Polling S)) i \<longleftrightarrow> i < R \<and> i \<notin> S \<and> 0 < sg r i"
| "waits_for sg r b i \<longleftrightarrow> False"

lemma fewer_left: "S \<subseteq> {..<R} \<Longrightarrow> i < R \<Longrightarrow> i \<notin> S \<Longrightarrow> R - card (insert i S) < R - card S"
  using card_mono [of "{..<R}" "insert i S"] finite_subset [of S "{..<R}"] by simp

lemma barrier_moves:
  assumes "barrier_ok R V (k, Some b) r" "\<not> barrier_passed R b" "\<And>i. \<not> waits_for sg r (Some b) i"
  shows "\<exists>a sg' b'. barrier_act R r a sg b = Some (sg', b') \<and> barrier_work b' < barrier_work b"
proof (cases b)
  case (Polling S)
  then obtain i where i: "i < R" "i \<notin> S" using assms(2) by (auto simp: list_all_iff)
  have "sg r i \<le> 0" using assms(3) [of i] i Polling by auto
  then show ?thesis using i fewer_left [of S i] assms(1) Polling
    by (intro exI [of _ "ReadSignal i"] exI [of _ sg] exI [of _ "Polling (insert i S)"]) simp
next
  case (Signalling A B)
  then have sub: "A \<subseteq> {..<R}" "B \<subseteq> A" using assms(1) by simp_all
  show ?thesis
  proof (cases "\<exists>i<R. i \<notin> A")
    case True
    then obtain i where i: "i < R" "i \<notin> A" by blast
    then show ?thesis using fewer_left [OF sub(1) i] Signalling by (intro exI [of _ "AddOwn i"]) simp
  next
    case allA: False
    show ?thesis
    proof (cases "\<exists>i<R. i \<notin> B")
      case True
      then obtain i where i: "i < R" "i \<notin> B" "i \<in> A" using allA by blast
      then show ?thesis using fewer_left [of B i] sub Signalling by (intro exI [of _ "SubPeer i"]) simp
    next
      case False
      then have "list_all (\<lambda>i. i \<in> B) [0..<R]" by (auto simp: list_all_iff)
      then show ?thesis using Signalling by (intro exI [of _ StartPoll] exI [of _ sg] exI [of _ "Polling {}"]) simp
    qed
  qed
qed

definition progress :: "nat \<Rightarrow> exchange \<Rightarrow> exchange \<Rightarrow> bool" where
  "progress r x x' \<longleftrightarrow> (\<forall>q. q \<noteq> r \<longrightarrow> xs_phase x' q = xs_phase x q \<and> xs_call x' q = xs_call x q) \<and>
     (passed_count x r < passed_count x' r \<or> passed_count x r = passed_count x' r \<and> phase_work (xs_phase x' r) < phase_work (xs_phase x r))"

lemma rank_moves:
  assumes inv: "exchange_inv x" and r: "r < R" and free: "\<And>i. \<not> waits_for (xs_sig x) r (barrier_of (xs_phase x r)) i"
  shows "\<exists>a x'. exchange_act R stores r a x = Some x' \<and> progress r x x'"
proof -
  have ok: "barrier_ok R (view_of x) (view_of x r) r" using inv r by (simp add: exchange_inv_def signals_ok_def)
  have at_barrier: "\<exists>a x'. exchange_act R stores r a x = Some x' \<and> progress r x x'"
    if b: "xs_phase x r = mk b" "mk = Handshake \<or> mk = Publish" for mk b
  proof (cases "barrier_passed R b")
    case True
    then show ?thesis using b
      by (intro exI [of _ Leave]) (auto simp: progress_def passed_count_def view_of_def)
  next
    case False
    have "barrier_ok R (view_of x) (passed_count x r, Some b) r" using ok b by (auto simp: view_of_def passed_count_def)
    moreover have "\<not> waits_for (xs_sig x) r (Some b) i" for i using free [of i] b by auto
    ultimately obtain a sg' b' where "barrier_act R r a (xs_sig x) b = Some (sg', b')" "barrier_work b' < barrier_work b"
      using barrier_moves [OF _ False] by blast
    then show ?thesis using b by (intro exI [of _ "Barrier a"]) (auto simp: progress_def passed_count_def view_of_def)
  qed
  show ?thesis
  proof (cases "xs_phase x r")
    case (Storing P)
    have "P \<subseteq> set (stores (xs_call x r) r)" using inv r Storing by (simp add: exchange_inv_def)
    then have fin: "finite P" by (rule finite_subset) simp
    show ?thesis
    proof (cases "P = {}")
      case True
      then show ?thesis using Storing
        by (intro exI [of _ StartPublish]) (auto simp: progress_def passed_count_def view_of_def enter_def)
    next
      case False
      then obtain d i v where p: "(d, i, v) \<in> P" by (metis ex_in_conv prod_cases3)
      then have "card (P - {(d, i, v)}) < card P" by (rule card_Diff1_less [OF fin])
      then show ?thesis using Storing p
        by (intro exI [of _ "Put d i v"]) (simp add: progress_def passed_count_def view_of_def)
    qed
  next
    case Reading
    then show ?thesis by (intro exI [of _ NextCall]) (auto simp: progress_def passed_count_def view_of_def enter_def)
  qed (use at_barrier in auto)
qed

lemma some_rank_moves:
  assumes inv: "exchange_inv x" and "r0 < R" "passed_count x r0 < N"
  shows "\<exists>r<R. \<exists>a x'. passed_count x r < N \<and> exchange_act R stores r a x = Some x' \<and> progress r x x'"
proof -
  obtain r where r: "r < R" "\<And>q. q < R \<Longrightarrow> passed_count x r \<le> passed_count x q"
    using ex_has_least_nat [of "\<lambda>r. r < R" r0 "passed_count x"] assms(2) by blast
  have rN: "passed_count x r < N" using r(2) [OF assms(2)] assms(3) by simp
  have sig: "signals_ok R (xs_sig x) (view_of x)" using inv by (simp add: exchange_inv_def)
  show ?thesis
  proof (cases "\<exists>i. waits_for (xs_sig x) r (barrier_of (xs_phase x r)) i")
    case False
    then show ?thesis using rank_moves [OF inv r(1)] r(1) rN by blast
  next
    case True
    then obtain i S where i: "i < R" "barrier_of (xs_phase x r) = Some (Polling S)" "0 < xs_sig x r i"
      by (auto elim: waits_for.elims)
    have "xs_sig x r i = FINISHED_SUM_TAG * (int (added (view_of x r) i) - int (subbed (view_of x i) r))"
      using sig r(1) i(1) by (simp add: signals_ok_def)
    then have "subbed (view_of x i) r < passed_count x r + 1"
      using i(2,3) by (simp add: FINISHED_SUM_TAG_def view_of_def passed_count_def zero_less_mult_iff)
    then have k: "passed_count x i = passed_count x r" "subbed (view_of x i) r = passed_count x i"
      using r(2) [OF i(1)] subbed_bounds [of "view_of x i" r] by (simp_all add: passed_count_def)
    have "\<not> waits_for (xs_sig x) i (barrier_of (xs_phase x i)) j" for j
    proof
      assume "waits_for (xs_sig x) i (barrier_of (xs_phase x i)) j"
      then obtain S' where "barrier_of (xs_phase x i) = Some (Polling S')" by (auto elim: waits_for.elims)
      then show False using k(2) by (simp add: view_of_def passed_count_def)
    qed
    then show ?thesis using rank_moves [OF inv i(1)] i(1) rN k(1) by metis
  qed
qed

definition barriers_left :: "nat \<Rightarrow> exchange \<Rightarrow> nat" where "barriers_left N x = (\<Sum>r<R. N - passed_count x r)"

definition exchange_work :: "exchange \<Rightarrow> nat" where "exchange_work x = (\<Sum>r<R. phase_work (xs_phase x r))"

lemma progress_measure:
  assumes "r < R" "passed_count x r < N" "progress r x x'"
  shows "barriers_left N x' < barriers_left N x \<or> barriers_left N x' = barriers_left N x \<and> exchange_work x' < exchange_work x"
proof -
  have other: "xs_phase x' q = xs_phase x q \<and> passed_count x' q = passed_count x q" if "q \<noteq> r" for q
    using assms(3) that by (simp add: progress_def passed_count_def view_of_def)
  have split: "(\<Sum>q<R. f q) = f r + (\<Sum>q \<in> {..<R} - {r}. f q)" for f :: "nat \<Rightarrow> nat"
    using assms(1) by (intro sum.remove) simp_all
  have "(\<Sum>q \<in> {..<R} - {r}. N - passed_count x' q) = (\<Sum>q \<in> {..<R} - {r}. N - passed_count x q)"
       "(\<Sum>q \<in> {..<R} - {r}. phase_work (xs_phase x' q)) = (\<Sum>q \<in> {..<R} - {r}. phase_work (xs_phase x q))"
    using other by (auto intro: sum.cong)
  then show ?thesis using assms(2,3) unfolding barriers_left_def exchange_work_def
    by (simp add: split [of "\<lambda>q. N - passed_count _ q"] split [of "\<lambda>q. phase_work _"] split progress_def) (auto simp: diff_less_mono2)
qed

lemma all_get_through:
  "exchange_inv x \<Longrightarrow> \<exists>x'. (exchange_step R stores)\<^sup>*\<^sup>* x x' \<and> (\<forall>r<R. N \<le> passed_count x' r)"
proof (induction "(barriers_left N x, exchange_work x)" arbitrary: x rule: wf_induct_rule [OF wf_lex_prod [OF wf_less_than wf_less_than]])
  case 1
  show ?case
  proof (cases "\<exists>r<R. passed_count x r < N")
    case False
    then show ?thesis by (intro exI [of _ x]) auto
  next
    case True
    then obtain r a x' where m: "r < R" "passed_count x r < N" "exchange_act R stores r a x = Some x'" "progress r x x'"
      using some_rank_moves [OF 1(2)] by blast
    have inv': "exchange_inv x'" by (rule exchange_inv_act [OF 1(2) m(1,3)])
    have "((barriers_left N x', exchange_work x'), barriers_left N x, exchange_work x) \<in> less_than <*lex*> less_than"
      using progress_measure [OF m(1,2,4)] by auto
    then obtain x'' where "(exchange_step R stores)\<^sup>*\<^sup>* x' x''" "\<forall>r<R. N \<le> passed_count x'' r" using 1(1) inv' by blast
    then show ?thesis using exchange_step.act [OF m(1,3)] by (meson converse_rtranclp_into_rtranclp)
  qed
qed

lemma calls_go_on:
  assumes "exchange_reach R stores x"
  shows "\<exists>x'. (exchange_step R stores)\<^sup>*\<^sup>* x x' \<and> (\<forall>r<R. n \<le> xs_call x' r)"
proof -
  obtain x' where x': "(exchange_step R stores)\<^sup>*\<^sup>* x x'" "\<forall>r<R. 2 * n + 1 \<le> passed_count x' r"
    using all_get_through [OF exchange_reach_inv [OF assms]] by blast
  have "n \<le> xs_call x' r" if "r < R" for r
  proof -
    have "barriers_in_call (xs_phase x' r) \<le> 2" by (cases "xs_phase x' r") simp_all
    then have "2 * n + 1 \<le> 2 * xs_call x' r + 2" using x'(2) that by (fastforce simp: passed_count_def view_of_def)
    then show ?thesis by simp
  qed
  then show ?thesis using x'(1) by blast
qed

end

end
