(* ===== verification/Metadata_Calls.thy ===== *)
theory Metadata_Calls
  imports Metadata_Exchange
begin

text \<open>
  The metadata of every dispatch call: the exchange carries the counts phase A stores, so phase B of every rank reads
  exactly the counts of its own call, and what it computes is the metadata the tests expect. No rank waits forever.
\<close>

section \<open>Phase A's stores as the contents of the exchange\<close>

abbreviation count_stores :: "nat \<Rightarrow> nat \<Rightarrow> nat \<Rightarrow> (nat \<Rightarrow> nat \<Rightarrow> nat list) \<Rightarrow> nat \<Rightarrow> nat \<Rightarrow> (nat \<times> nat \<times> nat) list" where
  "count_stores R E C adds n w \<equiv> phase_a_stores R E C w (histogram (adds n w))"

lemma phase_a_member:
  assumes "(d, i, v) \<in> set (phase_a_stores R E C w smem)"
  obtains c e where "c < C" "e < E" "i = (c * R + w) * E + e" "v = smem (cell_e E C d c e)"
    | c where "c < C" "i = C * R * E + (c * R + w)" "v = smem (cell_u R E C d c)"
proof -
  from assms consider
      j where "j < C * E" "i = inbox_e R E (j div E) w (j - j div E * E)" "v = smem (d * (C * E) + j)"
    | c where "c < C" "i = inbox_u R E C c w" "v = smem (cell_u R E C d c)"
    unfolding phase_a_stores_set lane_stores_set by auto
  then show thesis
  proof cases
    case 1
    then have E: "0 < E" by (cases E) auto
    have parts: "j div E < C" "j - j div E * E < E" "j div E * E + (j - j div E * E) = j"
      using 1(1) E by (simp_all add: div_less_iff_less_mult minus_div_mult_eq_mod)
    have "cell_e E C d (j div E) (j - j div E * E) = d * (C * E) + j" unfolding cell_e_def add.assoc parts(3) ..
    then show ?thesis using that(1) [of "j div E" "j - j div E * E"] parts(1,2) 1(2,3)
      by (simp add: inbox_e_def add_mult_distrib)
  qed (use that(2) in \<open>auto simp: inbox_u_def\<close>)
qed

lemma e_cell_low:
  assumes "w < R" "c < C" "e < (E :: nat)"
  shows "(c * R + w) * E + e < C * R * E"
  using cell_e_bound [of 0 1 c C w R] cell_e_bound [of 0 1 "c * R + w" "C * R" e E] assms by (simp add: cell_e_def)

lemma phase_a_cell:
  assumes "(d, i, v) \<in> set (phase_a_stores R E C w smem)" "(d, i, v') \<in> set (phase_a_stores R E C w' smem')" "w < R" "w' < R"
  shows "w = w'" and "smem = smem' \<Longrightarrow> v = v'"
proof -
  have "w = w' \<and> (smem = smem' \<longrightarrow> v = v')" using assms(1)
  proof (cases rule: phase_a_member)
    case 1: (1 c e)
    show ?thesis using assms(2)
    proof (cases rule: phase_a_member)
      case (1 c' e')
      have "c * R + w = c' * R + w' \<and> e = e'" using \<open>i = (c * R + w) * E + e\<close> 1 \<open>e < E\<close> by (intro mult_add_unique [of _ E]) simp_all
      moreover from this have "c = c' \<and> w = w'" using assms(3,4) by (intro mult_add_unique [of _ R]) simp_all
      ultimately show ?thesis using 1(4) \<open>v = smem (cell_e E C d c e)\<close> by simp
    next
      case (2 c')
      then show ?thesis using e_cell_low [OF assms(3) \<open>c < C\<close> \<open>e < E\<close>] \<open>i = (c * R + w) * E + e\<close> by simp
    qed
  next
    case 2: (2 c)
    show ?thesis using assms(2)
    proof (cases rule: phase_a_member)
      case (1 c' e')
      then show ?thesis using e_cell_low [OF assms(4) 1(1,2)] \<open>i = C * R * E + (c * R + w)\<close> by simp
    next
      case (2 c')
      then have "c = c' \<and> w = w'" using \<open>i = C * R * E + (c * R + w)\<close> assms(3,4) by (intro mult_add_unique [of _ R]) simp_all
      then show ?thesis using 2(3) \<open>v = smem (cell_u R E C d c)\<close> by simp
    qed
  qed
  then show "w = w'" "smem = smem' \<Longrightarrow> v = v'" by simp_all
qed

interpretation counts: inbox_stores R "count_stores R E C adds" for R E C adds
  by unfold_locales (auto dest: phase_a_cell)

section \<open>The metadata of a call\<close>

text \<open>The reference computes on the gathered routing of the call; \<open>md0\<close> is whatever the outputs held before.\<close>

text \<open>C7: in every interleaving of the ranks, over any number of dispatch calls and with the atomic additions of the
  histograms in any order, what phase B computes on a rank is the metadata the tests expect of that call: the entry
  counts and slot bases of every (channel, source, expert), the rank prefix, the expert frequencies, the block
  offsets, the number of tiles and the number of received tokens.\<close>

theorem metadata_of_every_call:
  fixes calls :: "nat \<Rightarrow> ('r list \<times> 'f::zero routing) list"
  assumes "\<And>n. well_routed K E (calls n) \<and> length (calls n) = R \<and> castable E (calls n) \<and> any_order C E (calls n) (adds n)"
    and "0 < C" "r < R"
    and "exchange_reach R (count_stores R E C adds) x" "xs_phase x r = Reading"
    and G: "G = gather zx zi zw (calls (xs_call x r))"
    and md: "md = phase_b kNumBlocks R E C TILE_M alignment r md0 (xs_inbox x r)"
  shows "check_metadata C r G md \<and> map (md_freq md) [0..<num_local_experts G] = expert_freq C r G \<and>
    md_blocks md = block_offset (expert_freq C r G) \<and> md_tiles md = total_tiles (expert_freq C r G) \<and>
    md_num_recv md = last (0 # rank_prefix_column r G)"
proof -
  have call: "well_routed K E (calls (xs_call x r))" "length (calls (xs_call x r)) = R" "castable E (calls (xs_call x r))"
      "any_order C E (calls (xs_call x r)) (adds (xs_call x r))" using assms(1) by blast+
  have dispatch: "dispatching K E C r (calls (xs_call x r)) G zx zi zw"
    by unfold_locales (use call assms(2,3) G in simp_all)
  have "delivered C E (calls (xs_call x r)) (adds (xs_call x r)) r (xs_inbox x r)"
    unfolding delivered_def call(2) using counts.reading_inbox [OF assms(4,3,5)] by blast
  note ref = dispatching.phase_b_reference [OF dispatch call(3,4) this, of kNumBlocks alignment md0, unfolded call(2), folded md]
  have "num_local_experts G = E" using gather_facts(5) [OF call(1) G] .
  then show ?thesis using ref by (simp add: kNumBlocks_def)
qed

text \<open>C14: from every state the exchange can reach, with every rank anywhere in its calls, the ranks can go on until
  each has started any number of further calls: the barriers never leave all ranks waiting.\<close>

theorem every_call_gets_through:
  assumes "exchange_reach R (count_stores R E C adds) x"
  shows "\<exists>x'. (exchange_step R (count_stores R E C adds))\<^sup>*\<^sup>* x x' \<and> (\<forall>r<R. n \<le> xs_call x' r)"
  by (rule counts.calls_go_on [OF assms])

section \<open>Two ranks\<close>

text \<open>The additions in the order of the tokens.\<close>

definition token_order :: "nat \<Rightarrow> nat \<Rightarrow> nat \<Rightarrow> int list list \<Rightarrow> nat list" where
  "token_order R E C topk = concat (map (token_adds R E C topk) [0..<length topk])"

lemma mset_concat_map: "mset (concat (map f xs)) = (\<Sum>x\<leftarrow>xs. mset (f x))"
  by (induction xs) simp_all

lemma mset_concat_cong: "mset xs = mset ys \<Longrightarrow> mset (concat (map f xs)) = mset (concat (map f ys))"
proof -
  have "mset (concat (map f zs)) = sum_mset (image_mset (mset \<circ> f) (mset zs))" for zs
    by (induction zs) simp_all
  then show "mset xs = mset ys \<Longrightarrow> ?thesis" by simp
qed

lemma concat_twice: "concat (concat xsss) = concat (map concat xsss)"
  by (induction xsss) simp_all

lemma token_order_any: "mset (token_order R E C topk) = all_adds R E C topk"
proof -
  have "all_adds R E C topk = mset (concat (map (token_adds R E C topk) (concat (map (\<lambda>th. strided th kNumThreads (length topk)) [0..<kNumThreads]))))"
    by (simp add: all_adds_def thread_adds_def mset_concat_map [symmetric] map_concat concat_twice comp_def)
  also have "\<dots> = mset (token_order R E C topk)"
    unfolding token_order_def by (intro mset_concat_cong strided_cover) (simp add: kNumThreads_def)
  finally show ?thesis ..
qed

definition demo_call :: "(nat list \<times> nat routing) list" where
  \<comment> \<open>one expert per rank: the token of rank 0 goes to rank 1, those of rank 1 to both\<close>
  "demo_call =
     [([7], \<lparr>rt_topk_idx = [[1]], rt_topk_weights = [[1]], rt_experts = 2, rt_ranks = 2\<rparr>),
      ([8, 9], \<lparr>rt_topk_idx = [[0], [1]], rt_topk_weights = [[1], [1]], rt_experts = 2, rt_ranks = 2\<rparr>)]"

definition demo_adds :: "nat \<Rightarrow> nat \<Rightarrow> nat list" where
  "demo_adds n w = token_order 2 1 1 (rt_topk_idx (snd (demo_call ! w)))"

definition signal_actions :: "nat \<Rightarrow> (nat \<times> action) list" where
  "signal_actions r = map (\<lambda>a. (r, Barrier a)) [AddOwn 0, AddOwn 1, SubPeer 1, SubPeer 0, StartPoll]"

definition wait_actions :: "nat \<Rightarrow> (nat \<times> action) list" where
  "wait_actions r = [(r, Barrier (ReadSignal 0)), (r, Barrier (ReadSignal 1)), (r, Leave)]"

definition store_actions :: "nat \<Rightarrow> (nat \<times> action) list" where
  "store_actions r = map (\<lambda>(d, i, v). (r, Put d i v)) (count_stores 2 1 1 demo_adds 0 r) @ [(r, StartPublish)]"

definition demo_actions :: "(nat \<times> action) list" where
  \<comment> \<open>rank 0 stores before rank 1 has left the handshake\<close>
  "demo_actions = signal_actions 0 @ signal_actions 1 @ wait_actions 0 @ store_actions 0 @ wait_actions 1 @ store_actions 1
     @ signal_actions 1 @ signal_actions 0 @ wait_actions 0"

definition demo_state :: exchange where
  "demo_state = (case exchange_run 2 (count_stores 2 1 1 demo_adds) demo_actions exchange_init of Some x \<Rightarrow> x | None \<Rightarrow> exchange_init)"

lemma two_ranks_routed: "well_routed 1 1 demo_call" "castable 1 demo_call" "length demo_call = 2"
  by (simp_all add: well_routed_def castable_def demo_call_def)

lemma two_ranks_any: "any_order 1 1 demo_call (demo_adds n)"
  by (simp add: any_order_def demo_adds_def token_order_any two_ranks_routed)

lemma two_ranks_reading: "(case xs_phase demo_state 0 of Reading \<Rightarrow> xs_call demo_state 0 = 0 | _ \<Rightarrow> False)"
  by code_simp

lemma two_ranks_reach: "exchange_reach 2 (count_stores 2 1 1 demo_adds) demo_state"
  unfolding demo_state_def
  by (auto split: option.splits intro: exchange_reach.init exchange_run_reach)

definition demo_md :: metadata where
  "demo_md = \<lparr>md_seen = (\<lambda>_. 0), md_freq = (\<lambda>_. 0), md_blocks = [], md_tiles = 0, md_recv_per_expert = [],
     md_prefix = (\<lambda>_. 0), md_num_recv = 0, md_base = (\<lambda>_. 0)\<rparr>"

lemma metadata_of_every_call_witness:
  "check_metadata 1 0 (gather 0 [] [] demo_call) (phase_b kNumBlocks 2 1 1 TILE_M 128 0 demo_md (xs_inbox demo_state 0))
    \<and> md_num_recv (phase_b kNumBlocks 2 1 1 TILE_M 128 0 demo_md (xs_inbox demo_state 0)) = 1"
proof -
  have reading: "xs_phase demo_state 0 = Reading" using two_ranks_reading by (cases "xs_phase demo_state 0") simp_all
  have "rank_prefix_column 0 (gather 0 [] [] demo_call) = [0, 1]" by code_simp
  then show ?thesis
    using metadata_of_every_call [of 1 1 "\<lambda>_. demo_call" 2 1 demo_adds 0 demo_state
        "gather 0 [] [] demo_call" 0 "[]" "[]" "phase_b kNumBlocks 2 1 1 TILE_M 128 0 demo_md (xs_inbox demo_state 0)" 128 demo_md]
      two_ranks_routed two_ranks_any two_ranks_reach reading by simp
qed

lemma every_call_gets_through_witness:
  "\<exists>x'. (exchange_step 2 (count_stores 2 1 1 demo_adds))\<^sup>*\<^sup>* demo_state x' \<and> 3 \<le> xs_call x' 0 \<and> 3 \<le> xs_call x' 1"
  using every_call_gets_through [OF two_ranks_reach, of 3] by auto

end
