(* ===== verification/Spec2Isabelle.thy ===== *)
theory Spec2Isabelle
  imports Tile_Config Expert_Dropout Pool_Layout Tile_Scheduler Scatter_Epilogue Kernel_Launch Kernel_Launch_Bwd Backward_Epilogue
    Buffer_Sizing EP_Buffer Launch_Gates Recv_Pool Stream_Layer Layer_Tensors Layer_Launch Layer_Reference
    Dispatch_Visible Layer_Device Gradient_Ranks Combine_Contract Metadata_Calls
begin

text \<open>
  StreamEP: streaming expert parallelism for mixture-of-experts layers.

  \<^bold>\<open>The program.\<close> One layer of a mixture of experts runs over several ranks. \<^emph>\<open>Dispatch\<close> sends every token to the ranks
  that hold its experts and puts each (token, k) into a slot of an expert-major pool cut into row tiles; as soon as the
  rows of a tile have arrived, \<^emph>\<open>kernel A\<close> (GEMM with W1, SwiGLU) may run on it, then \<^emph>\<open>kernel Y\<close> (GEMM with W2, router
  weight, atomic scatter into one row per received token); as soon as all slots of a token have been added,
  \<^emph>\<open>combine\<close> may send its row back. Nothing waits for a whole phase: the kernels run on three CUDA streams and meet at
  counters in device memory (\<open>pool_arrival_count\<close> per tile, \<open>y_done_per_token\<close> per token) and at launch gates that
  order whole kernels. Backward runs the same way with the roles of dispatch and combine exchanged. The model follows
  the code from the host call down to single memory operations:

    \<^item> the host call resolves a configuration, allocates, and issues commands on the streams;
    \<^item> the streams run the kernels, ordered by events, waits and gates;
    \<^item> inside a kernel, clusters take tiles from a queue and spin until a tile is ready;
    \<^item> dispatch writes the pool and fires the tiles, the scatter epilogue adds rows and stamps tokens;
    \<^item> the memory operations by which they signal order less than program order;
    \<^item> the numbers that come out are those of the reference implementation of the tests.

  \<^bold>\<open>Shared ground.\<close> \<^theory_text>\<open>SE_Prelude\<close>: Python's failures as values of \<open>py_error\<close> on the left of a sum, lists of assertions
  in source order, ceiling division, the \<open>named_theorems\<close> the theories fill. \<^theory_text>\<open>Tensor_Meta\<close>: a tensor as the host sees
  it (shape, dtype, device, contiguity, last stride) and the symbolic signatures kernels are compiled for.

  \<^bold>\<open>Configuration and geometry.\<close>
    \<^item> \<^theory_text>\<open>Tile_Config\<close> (\<^verbatim>\<open>stream_moe/stream_moe.py\<close>, \<open>TileConfig\<close>, \<open>default_tile_config\<close>, \<open>_resolve_tile_config\<close>): defaults
      by shape, the overlay of caller overrides, validation. The baseline resolves; \<open>resolve\<close> accepts exactly the valid
      overlays; locale \<open>output_tiling\<close>: the column tiles partition the output.
    \<^item> \<^theory_text>\<open>Pool_Layout\<close> (\<^verbatim>\<open>stream_ep_tests/kernels/_common.py\<close>, the layout the kernels are compiled against): runs of whole
      tiles per expert; locale \<open>expert_blocks\<close>: every slot has one owner, arrival targets count real rows.
    \<^item> \<^theory_text>\<open>Buffer_Sizing\<close> and \<^theory_text>\<open>EP_Buffer\<close> (\<^verbatim>\<open>stream_ep/buffer.py\<close>, \<^verbatim>\<open>csrc/config.hpp\<close>, \<^verbatim>\<open>csrc/kernels/api.cuh\<close>): SM policy,
      recommended configurations, byte sizes of the rings; a session of dispatch and combine calls keeps its geometry,
      numbers its calls, and its rings pass the size asserts of every launch, on one node and on several; a combine whose
      configuration has the shorter ring is accepted and placed inside the ring of dispatch.
    \<^item> \<^theory_text>\<open>Expert_Dropout\<close> (\<^verbatim>\<open>stream_moe/expert_dropout.py\<close>): threshold, seeds and the 32-bit hash; the torch mirror equals
      the device; locale \<open>equidistributed\<close>: over the columns, rows or seeds exactly the threshold's share is dropped.
    \<^item> \<^theory_text>\<open>Recv_Pool\<close> (\<^verbatim>\<open>stream_moe/recv_pool_compress.py\<close>): the row copies of checkpoint level 2, with their 32-bit
      offsets: inverse on slots while both offsets fit, colliding beyond.

  \<^bold>\<open>Kernels.\<close>
    \<^item> \<^theory_text>\<open>Tile_Scheduler\<close> (\<^verbatim>\<open>stream_moe/tile_scheduler.py\<close>, \<^verbatim>\<open>streaming_gemm_base.py\<close>): the persistent clusters as a
      transition system (claim an index, find its expert by ballot, spin on the arrival count, run). Every index runs
      once, no tile runs before its target is reached, the kernel drains, the CTAs cover the output once.
    \<^item> \<^theory_text>\<open>Scatter_Epilogue\<close> (\<^verbatim>\<open>stream_moe/kernel_y.py\<close>, \<open>AtomicScatterStore\<close> and \<open>_scatter_store\<close>): which lane adds which
      eight elements, and the gate, countdown and stamp at the end of a tile over all CTAs of a launch. A stamped token is
      complete, a finished launch has stamped all, and a cluster that does not divide the stripes stamps too early.
    \<^item> \<^theory_text>\<open>Backward_Epilogue\<close> (\<^verbatim>\<open>kernel_y_bwd.py\<close>, \<^verbatim>\<open>kernel_a.py\<close>, \<^verbatim>\<open>epi_ops.py\<close>): the gated epilogues in registers, the row
      reduction. Float operations are arguments without laws. \<^theory_text>\<open>Smem_Stages\<close>: \<open>_compute_stages\<close> within the shared memory.
    \<^item> \<^theory_text>\<open>Kernel_Launch\<close>, \<^theory_text>\<open>Kernel_Launch_Bwd\<close> (the four host wrappers): what passes the checks fits the compiled signature.
      Building a kernel may raise: what quack raises for a CTA tile is a parameter (\<open>gemm_new\<close>), the stages are computed.

  \<^bold>\<open>Streams.\<close>
    \<^item> \<^theory_text>\<open>Launch_Gates\<close> (the launch gates of \<^verbatim>\<open>buffer.py\<close> and \<^verbatim>\<open>csrc/stream_ep.cpp\<close>): issued counts and flags as 32-bit words with cyclic comparison;
      locale \<open>launch_gate\<close> is the contract, interpreted for the four gates.
    \<^item> \<^theory_text>\<open>Stream_Programs\<close>, \<^theory_text>\<open>Stream_Analysis\<close>: commands on in-order streams with events, waits and gates; a program
      that is \<open>orderly\<close> (gates exact, waits armed) cannot deadlock and spins only on what has started (locale \<open>orderly_program\<close>).
    \<^item> \<^theory_text>\<open>Stream_Layer\<close> (\<open>StreamMoEFunc.forward\<close>, \<open>backward\<close>): the commands of a layer at each checkpoint level; any sequence of
      layers is orderly, ends, and is a barrier for the caller. \<^theory_text>\<open>Gate_Words\<close>: the same device with the gates' words, which
      pass a wait when the counts would, for any number of launches.
    \<^item> \<^theory_text>\<open>Layer_Tensors\<close>: what each kernel reads and writes; conflicting kernels are ordered or spin on each other's counters.
    \<^item> \<^theory_text>\<open>Layer_Launch\<close> (\<open>stream_moe_func\<close>): configuration, seed, allocations and launches put together; its outcome, with
      the first exception of a kernel that cannot be built and the commands issued until then.

  \<^bold>\<open>Dispatch and memory.\<close>
    \<^item> \<^theory_text>\<open>Dispatch_Layout\<close> (\<^verbatim>\<open>csrc/kernels/intranode.cu\<close>, \<^verbatim>\<open>utils.cuh\<close>, \<^verbatim>\<open>csrc/stream_ep.cpp\<close>; \<^verbatim>\<open>stream_ep_tests/routing.py\<close>,
      \<^verbatim>\<open>reference.py\<close>): senders, receivers, slot bases, release-adds, the handle. \<^theory_text>\<open>Dispatch_Slots\<close>, \<^theory_text>\<open>Dispatch_Memory\<close>: the
      slots are disjoint and fill the experts' runs, the stores commute (locale \<open>dispatching\<close>). \<^theory_text>\<open>Dispatch_Contract\<close>: every
      order of the stores leaves a handle that passes \<open>check_layout\<close>; a tile that has its target is complete.
    \<^item> \<^theory_text>\<open>Metadata_Kernel\<close> (the two metadata kernels of \<^verbatim>\<open>csrc/kernels/intranode.cu\<close>): histograms by atomics in any order,
      stores into the peers' inboxes, shuffle reduction, serial prefixes, chunked warp scan. \<^theory_text>\<open>Metadata_Scan\<close>: reduction and
      scan are sums. \<^theory_text>\<open>Metadata_Contract\<close>: on inboxes that hold the ranks' counts the results are \<open>expected_metadata\<close> of
      \<^verbatim>\<open>stream_ep_tests/dist/test_metadata.py\<close>, from which the receivers above take their slot bases. \<^theory_text>\<open>Metadata_Exchange\<close>,
      \<^theory_text>\<open>Metadata_Calls\<close>: the exchange between two \<open>barrier_block\<close>s over any number of calls (locale \<open>inbox_stores\<close>); a rank in
      phase B reads the counts of its own call, whatever the interleaving, and the ranks never all wait.
    \<^item> \<^theory_text>\<open>Dispatch_Grads\<close> (\<open>dispatch_grads_main_kernel\<close> of \<^verbatim>\<open>csrc/kernels/intranode.cu\<close>): the senders and receivers of backward,
      over the slots and runs the handle kept; a tile that has its target holds the gradients of its tokens.
    \<^item> \<^theory_text>\<open>PTX_Memory\<close> (\<^verbatim>\<open>stream_moe/ptx_helpers.py\<close>): release, acquire, fence, reductions and barriers over a memory in which
      a thread may read any write not older than what it knows. \<^theory_text>\<open>Dispatch_Visible\<close>: who acquires a full arrival count reads
      what was dispatched. \<^theory_text>\<open>Scatter_Visible\<close>: the scatter epilogue lane by lane on that memory, refining
      \<^theory_text>\<open>Scatter_Epilogue\<close>; who acquires a stamp reads a complete row if the atomics acquire and release (locale \<open>scattering\<close>),
      and may read a stale one if they are relaxed.

    \<^item> \<^theory_text>\<open>Combine_Ring\<close>, \<^theory_text>\<open>Combine_Progress\<close>, \<^theory_text>\<open>Combine_Contract\<close> (\<open>combine_main_kernel\<close> of \<^verbatim>\<open>csrc/kernels/intranode.cu\<close>): the
      senders, ring, receiving warps and head updater of a channel, one step per shared access (locale \<open>combining\<close>). No slot of
      the ring is overwritten before it is read; a finished call returns the reference's rows; it can finish from everywhere
      if the ring is 22 rows longer than a round, and never drains a long one-sided channel if it is shorter.

  \<^bold>\<open>Numbers.\<close> \<^theory_text>\<open>MoE_Reference\<close> (\<^verbatim>\<open>stream_ep_tests/reference.py\<close>, the kernel tests): the layer and the kernels over exact
  arithmetic with the activation and the rounding as arguments; on handles that meet dispatch's contract (locale
  \<open>contract_met\<close>) the composition of the kernels' references is the layer. \<^theory_text>\<open>Layer_Reference\<close> puts dispatch's placement in.
  \<^theory_text>\<open>Scatter_Progress\<close>: the epilogue on weak memory never gets stuck; \<^theory_text>\<open>Layer_Device\<close>: the rows that combine's senders load
  in any execution on weak memory, summed over the ranks, are those of the reference layer, if the epilogue's counters
  are acquire-release and its cluster divides the number of N-stripes. The code establishes neither: it names no
  ordering, and accepts a default tuning (\<open>H = 768\<close>) whose cluster does not divide; both failures are exhibited.
  \<^theory_text>\<open>Layer_Backward\<close> (\<open>StreamMoEFunc.backward\<close>, the kernel and combine tests): what kernel Y bwd and kernel A bwd leave per
  slot, both grouped weight-gradient GEMMs, the checkpoint levels, and both combined gradients, each as a sum over slots.
  \<^theory_text>\<open>Layer_Gradient\<close> (one rank) and \<^theory_text>\<open>Gradient_Ranks\<close> (all ranks): these results are the gradient of the reference layer, on
  the reals, for any activation and any \<open>dswiglu\<close> that returns its partial derivatives.

  \<^bold>\<open>Conventions.\<close> A definition has the name of the code it models; a clash gets a suffix. Python raises are values.
  Integers are words where the code wraps (hash, gates, packed registers) and natural numbers or integers where the code's
  bounds exclude wrapping. Step relations have one constructor per atomic action. Locales state interfaces; each is
  interpreted on the model's definitions, and properties rest on these instances.

  \<^bold>\<open>Bounds.\<close> Gates compare 32-bit words cyclically; that the words compared are at most one launch apart is proved of the issued
  programs, not assumed. Loops of the code are structural recursions or folds over lists; a schedule of a program of \<open>n\<close>
  commands has at most \<open>2 * n\<close> steps (a start and an end each). No fuel is used.

  \<^bold>\<open>Not modelled.\<close>
    \<^item> The GEMM main loop, its pipelines and TMA traffic, and the library epilogue operands are in quack, not in this
      repository; a kernel's result per slot is the linear map of the tests' references.
    \<^item> The internode transport (RDMA forwarding, position tags, its own metadata kernels) and the flow control between senders and receivers of dispatch are not modelled; the latter's
      receivers empty the ring, so a round always fits.
    \<^item> Handle exchange, peer mapping and NVSHMEM set-up pass opaque values; allocation streams and the caching allocator
      (\<open>record_stream\<close>) have no state here.
    \<^item> Floating point: sums are exact or operations are arguments; rounding is an argument, and absent from the statement
      that backward is a gradient. The tests' tolerances (\<open>dtopk_scale\<close>, \<open>assert_rows_close\<close>) bound what rounding adds.
    \<^item> The memory model has one device: \<^verbatim>\<open>.gpu\<close> and \<^verbatim>\<open>.sys\<close> scopes coincide, and writes to one location take effect in the
      order they are issued.
    \<^item> Profiling front ends, test fixtures and drivers, random inputs, packaging and vendored headers carry no logic of the
      program.
\<close>

end
